(* ===== verification/Prelude.thy ===== *)
theory Prelude
  imports Main
begin

text \<open>
  What every component shares: the names of Rust's result and integer types, checked and
  saturating integer arithmetic on a 64-bit target, owned byte vectors with their capacity,
  and the decimal text that \<open>write!("{value}")\<close> prints and \<open>str::parse\<close> reads.

  A byte is a HOL \<open>char\<close> (it has exactly 256 values), so \<open>Vec<u8>\<close>, \<open>&[u8]\<close> and the UTF-8
  contents of a \<open>String\<close> are all char lists, and byte literals of the source are string literals.
  Unsigned integers are \<open>nat\<close> and signed ones \<open>int\<close>, with every check, saturation or wrap-around
  of the source written out against the bounds below.
\<close>

named_theorems arith_defs
  \<open>definitions of the checked and saturating operations\<close>
named_theorems inv_defs
  \<open>invariants of the components, unfolded by the preservation proofs\<close>

section \<open>Results\<close>

type_synonym bytes = "char list"

text \<open>Rust's \<open>Result<T, E>\<close> is \<open>'e + 'a\<close>; \<open>?\<close> is \<open>bind_r\<close>.\<close>

abbreviation Ok :: "'a \<Rightarrow> 'e + 'a" where "Ok \<equiv> Inr"
abbreviation Err :: "'e \<Rightarrow> 'e + 'a" where "Err \<equiv> Inl"

definition bind_r :: "'e + 'a \<Rightarrow> ('a \<Rightarrow> 'e + 'b) \<Rightarrow> 'e + 'b" where
  "bind_r r f = (case r of Inl e \<Rightarrow> Inl e | Inr x \<Rightarrow> f x)"

definition ok_or :: "'a option \<Rightarrow> 'e \<Rightarrow> 'e + 'a" where
  "ok_or x e = (case x of None \<Rightarrow> Inl e | Some a \<Rightarrow> Inr a)"

definition map_err :: "('e \<Rightarrow> 'f) \<Rightarrow> 'e + 'a \<Rightarrow> 'f + 'a" where
  "map_err f r = (case r of Inl e \<Rightarrow> Inl (f e) | Inr x \<Rightarrow> Inr x)"

lemma bind_r_simps [simp]:
  "bind_r (Inl e) f = Inl e"
  "bind_r (Inr x) f = f x"
  by (simp_all add: bind_r_def)

lemma bind_r_Inr_iff: "bind_r r f = Inr y \<longleftrightarrow> (\<exists>x. r = Inr x \<and> f x = Inr y)"
  by (cases r) simp_all

lemma bind_r_Inl_iff: "bind_r r f = Inl e \<longleftrightarrow> r = Inl e \<or> (\<exists>x. r = Inr x \<and> f x = Inl e)"
  by (cases r) simp_all

lemma ok_or_simps [simp]:
  "ok_or None e = Inl e"
  "ok_or (Some a) e = Inr a"
  by (simp_all add: ok_or_def)

lemma ok_or_Inr_iff [simp]: "ok_or x e = Inr a \<longleftrightarrow> x = Some a"
  by (cases x) simp_all

lemma map_err_simps [simp]:
  "map_err f (Inl e) = Inl (f e)"
  "map_err f (Inr x) = Inr x"
  by (simp_all add: map_err_def)

lemma map_err_Inr_iff [simp]: "map_err f r = Inr x \<longleftrightarrow> r = Inr x"
  by (cases r) simp_all

text \<open>\<open>collect::<Result<Vec<_>, _>>()\<close>: the first error, or all results.\<close>

fun collect_r :: "('e + 'a) list \<Rightarrow> 'e + 'a list" where
  "collect_r [] = Inr []"
| "collect_r (r # rs) = bind_r r (\<lambda>x. bind_r (collect_r rs) (\<lambda>xs. Inr (x # xs)))"

lemma collect_r_Inr_iff: "collect_r rs = Inr xs \<longleftrightarrow> rs = map Inr xs"
  by (induction rs arbitrary: xs) (auto simp: bind_r_Inr_iff Cons_eq_map_conv)

section \<open>Integers\<close>

text \<open>\<open>usize\<close> and \<open>u64\<close> have 64 bits on the published platforms.\<close>

definition usize_max :: nat where
  "usize_max = 18446744073709551615"

definition u64_max :: nat where
  "u64_max = 18446744073709551615"

definition i32_max :: int where "i32_max = 2147483647"
definition i64_max :: int where "i64_max = 9223372036854775807"
definition i64_min :: int where "i64_min = -9223372036854775808"

lemmas int_bounds = usize_max_def u64_max_def i32_max_def i64_max_def i64_min_def

definition checked_add :: "nat \<Rightarrow> nat \<Rightarrow> nat option" where
  "checked_add a b = (if a + b \<le> usize_max then Some (a + b) else None)"

definition checked_sub :: "nat \<Rightarrow> nat \<Rightarrow> nat option" where
  "checked_sub a b = (if b \<le> a then Some (a - b) else None)"

definition checked_mul :: "nat \<Rightarrow> nat \<Rightarrow> nat option" where
  "checked_mul a b = (if a * b \<le> usize_max then Some (a * b) else None)"

text \<open>Unsigned saturating subtraction is the truncated subtraction of \<open>nat\<close>.\<close>

definition saturating_add :: "nat \<Rightarrow> nat \<Rightarrow> nat" where
  "saturating_add a b = min usize_max (a + b)"

definition saturating_sub :: "nat \<Rightarrow> nat \<Rightarrow> nat" where
  "saturating_sub a b = a - b"

definition div_ceil :: "nat \<Rightarrow> nat \<Rightarrow> nat" where
  "div_ceil a b = (let q = a div b in if a mod b > 0 then q + 1 else q)"

text \<open>A plain \<open>-=\<close> on \<open>usize\<close> wraps below zero.\<close>

definition usize_sub :: "nat \<Rightarrow> nat \<Rightarrow> nat" where
  "usize_sub a b = (if b \<le> a then a - b else a + (usize_max + 1) - b)"

text \<open>A plain \<open>+=\<close> on \<open>u64\<close> wraps in a release build (the manifest sets no profile).\<close>

definition u64_add :: "nat \<Rightarrow> nat \<Rightarrow> nat" where
  "u64_add a b = (a + b) mod (u64_max + 1)"

definition u64_inc :: "nat \<Rightarrow> nat" where
  "u64_inc n = u64_add n 1"

definition i64_saturating_sub :: "int \<Rightarrow> int \<Rightarrow> int" where
  "i64_saturating_sub a b = max i64_min (min i64_max (a - b))"

declare checked_add_def [arith_defs] checked_sub_def [arith_defs] checked_mul_def [arith_defs]
  saturating_add_def [arith_defs] saturating_sub_def [arith_defs] div_ceil_def [arith_defs]
  i64_saturating_sub_def [arith_defs]

lemma checked_add_Some_iff: "checked_add a b = Some c \<longleftrightarrow> c = a + b \<and> a + b \<le> usize_max"
  by (auto simp: checked_add_def)

lemma checked_sub_Some_iff: "checked_sub a b = Some c \<longleftrightarrow> c = a - b \<and> b \<le> a"
  by (auto simp: checked_sub_def)

lemma checked_mul_Some_iff: "checked_mul a b = Some c \<longleftrightarrow> c = a * b \<and> a * b \<le> usize_max"
  by (auto simp: checked_mul_def)

lemma u64_add_small: "a + b \<le> u64_max \<Longrightarrow> u64_add a b = a + b"
  by (simp add: u64_add_def)

lemma u64_inc_small: "n < u64_max \<Longrightarrow> u64_inc n = Suc n"
  by (simp add: u64_inc_def u64_add_small)

lemma u64_add_le: "u64_add a b \<le> u64_max"
  by (simp add: u64_add_def u64_max_def mod_less_eq_dividend Suc_le_lessD less_Suc_eq_le [symmetric])

lemma div_ceil_ge: "0 < b \<Longrightarrow> a \<le> div_ceil a b * b"
proof -
  assume "0 < b"
  then have "a mod b \<le> b" by (simp add: less_imp_le)
  moreover have "a = a div b * b + a mod b" by simp
  ultimately have "a \<le> a div b * b + b" by linarith
  moreover have "a div b * b = a" if "a mod b = 0"
    using that div_mult_mod_eq [of a b] by simp
  ultimately show ?thesis
    by (auto simp: div_ceil_def Let_def)
qed

lemma div_ceil_pos: "0 < a \<Longrightarrow> 0 < b \<Longrightarrow> 0 < div_ceil a b"
  using div_ceil_ge [of b a] by (cases "div_ceil a b") auto

lemma div_ceil_le: "0 < b \<Longrightarrow> div_ceil a b \<le> a"
proof -
  assume "0 < b"
  show ?thesis
  proof (cases "a mod b = 0")
    case True
    then show ?thesis by (simp add: div_ceil_def)
  next
    case False
    then have "a div b * b < a"
      by (metis bot_nat_0.not_eq_extremum div_mult_mod_eq less_add_same_cancel1)
    moreover have "a div b * 1 \<le> a div b * b"
      using \<open>0 < b\<close> by (intro mult_le_mono2) simp
    ultimately have "a div b < a" by linarith
    then show ?thesis using False by (simp add: div_ceil_def)
  qed
qed

section \<open>Owned byte vectors\<close>

text \<open>
  A \<open>Vec<u8>\<close> is its contents and its capacity: the recycling of payload storage depends on
  the capacity, everything written depends on the contents only. How far an allocation grows
  is the allocator's choice: \<open>extend\<close> takes it as \<open>grow\<close>, and the result always has
  room for its contents.
\<close>

record vec =
  vbytes :: bytes
  vcap :: nat

definition vec_new :: vec where
  "vec_new = \<lparr>vbytes = [], vcap = 0\<rparr>"

definition vec_wf :: "vec \<Rightarrow> bool" where
  "vec_wf v \<longleftrightarrow> length (vbytes v) \<le> vcap v"

definition vec_clear :: "vec \<Rightarrow> vec" where
  "vec_clear v = v\<lparr>vbytes := []\<rparr>"

definition vec_extend :: "(nat \<Rightarrow> nat \<Rightarrow> nat) \<Rightarrow> vec \<Rightarrow> bytes \<Rightarrow> vec" where
  "vec_extend grow v bs =
     (let n = length (vbytes v) + length bs
      in \<lparr>vbytes = vbytes v @ bs, vcap = (if n \<le> vcap v then vcap v else max n (grow (vcap v) n))\<rparr>)"

definition to_vec :: "bytes \<Rightarrow> vec" where
  "to_vec bs = \<lparr>vbytes = bs, vcap = length bs\<rparr>"

lemma vec_simps [simp]:
  "vbytes vec_new = []" "vcap vec_new = 0"
  "vbytes (vec_clear v) = []" "vcap (vec_clear v) = vcap v"
  "vbytes (vec_extend g v bs) = vbytes v @ bs"
  "vbytes (to_vec bs) = bs" "vcap (to_vec bs) = length bs"
  by (simp_all add: vec_new_def vec_clear_def vec_extend_def to_vec_def Let_def)

lemma vec_wf_intros [intro, simp]:
  "vec_wf vec_new"
  "vec_wf (to_vec bs)"
  "vec_wf (vec_clear v)"
  "vec_wf v \<Longrightarrow> vec_wf (vec_extend g v bs)"
  by (simp_all add: vec_wf_def vec_extend_def Let_def)

section \<open>Decimal text\<close>

definition digit_char :: "nat \<Rightarrow> char" where
  "digit_char d = ''0123456789'' ! d"

fun dec_nat :: "nat \<Rightarrow> string" where
  "dec_nat n = (if n < 10 then [digit_char n] else dec_nat (n div 10) @ [digit_char (n mod 10)])"

declare dec_nat.simps [simp del]

definition dec_int :: "int \<Rightarrow> string" where
  "dec_int i = (if i < 0 then CHR ''-'' # dec_nat (nat (- i)) else dec_nat (nat i))"

definition digit_value :: "char \<Rightarrow> nat option" where
  "digit_value c = (let n = of_char c in if 48 \<le> n \<and> n \<le> 57 then Some (n - 48) else None)"

text \<open>
  \<open>from_str_radix\<close> on the digits: every character a decimal digit, no overflow of \<open>hi\<close> on
  the way. \<open>parse_uint\<close> takes one leading \<open>+\<close>; \<open>parse_int\<close> takes \<open>+\<close> or \<open>-\<close>, and a sign
  alone or an empty text is an error.
\<close>

fun parse_digits :: "nat \<Rightarrow> nat \<Rightarrow> string \<Rightarrow> nat option" where
  "parse_digits hi acc [] = Some acc"
| "parse_digits hi acc (c # cs) =
     (case digit_value c of
        None \<Rightarrow> None
      | Some d \<Rightarrow> if acc * 10 + d \<le> hi then parse_digits hi (acc * 10 + d) cs else None)"

definition parse_magnitude :: "nat \<Rightarrow> string \<Rightarrow> nat option" where
  "parse_magnitude hi s = (if s = [] then None else parse_digits hi 0 s)"

definition parse_uint :: "nat \<Rightarrow> string \<Rightarrow> nat option" where
  "parse_uint hi s = (case s of
      [] \<Rightarrow> None
    | c # cs \<Rightarrow> if c = CHR ''+'' then parse_magnitude hi cs else parse_magnitude hi s)"

definition parse_int :: "int \<Rightarrow> string \<Rightarrow> int option" where
  "parse_int hi s = (case s of
      [] \<Rightarrow> None
    | c # cs \<Rightarrow>
        if c = CHR ''+'' then map_option int (parse_magnitude (nat hi) cs)
        else if c = CHR ''-'' then map_option (\<lambda>n. - int n) (parse_magnitude (nat (hi + 1)) cs)
        else map_option int (parse_magnitude (nat hi) s))"


lemma digit_value_char [simp]: "d < 10 \<Longrightarrow> digit_value (digit_char d) = Some d"
proof -
  have "\<forall>d \<in> {..<10}. digit_value (digit_char d) = Some d"
    by (simp add: digit_value_def digit_char_def lessThan_nat_numeral lessThan_Suc)
  then show "d < 10 \<Longrightarrow> digit_value (digit_char d) = Some d" by simp
qed

lemma dec_nat_nonempty [simp]: "dec_nat n \<noteq> []"
  by (subst dec_nat.simps) simp

lemma parse_digits_append:
  "parse_digits hi acc (xs @ ys) =
     (case parse_digits hi acc xs of None \<Rightarrow> None | Some a \<Rightarrow> parse_digits hi a ys)"
  by (induction hi acc xs rule: parse_digits.induct) (auto split: option.splits)

lemma parse_digits_dec_nat: "n \<le> hi \<Longrightarrow> parse_digits hi 0 (dec_nat n) = Some n"
proof (induction n rule: dec_nat.induct)
  case (1 n)
  show ?case
  proof (cases "n < 10")
    case True
    with 1 show ?thesis by (subst dec_nat.simps) simp
  next
    case False
    with 1 have "parse_digits hi 0 (dec_nat (n div 10)) = Some (n div 10)" by simp
    with False 1 show ?thesis
      by (subst dec_nat.simps) (simp add: parse_digits_append)
  qed
qed

lemma parse_magnitude_dec_nat [simp]: "n \<le> hi \<Longrightarrow> parse_magnitude hi (dec_nat n) = Some n"
  by (simp add: parse_magnitude_def parse_digits_dec_nat)

lemma digit_char_ne_sign: "d < 10 \<Longrightarrow> digit_char d \<noteq> CHR ''-'' \<and> digit_char d \<noteq> CHR ''+''"
proof -
  have "\<forall>d \<in> {..<10}. digit_char d \<noteq> CHR ''-'' \<and> digit_char d \<noteq> CHR ''+''"
    by (simp add: digit_char_def lessThan_nat_numeral lessThan_Suc)
  then show "d < 10 \<Longrightarrow> digit_char d \<noteq> CHR ''-'' \<and> digit_char d \<noteq> CHR ''+''" by simp
qed

lemma dec_nat_hd: "hd (dec_nat n) \<noteq> CHR ''-'' \<and> hd (dec_nat n) \<noteq> CHR ''+''"
proof (induction n rule: dec_nat.induct)
  case (1 n)
  show ?case
    using 1 digit_char_ne_sign
    by (cases "n < 10") (simp_all add: dec_nat.simps [of n] hd_append)
qed

lemma parse_uint_dec_nat: "n \<le> hi \<Longrightarrow> parse_uint hi (dec_nat n) = Some n"
  using dec_nat_hd [of n] parse_magnitude_dec_nat [of n hi]
  by (cases "dec_nat n") (simp_all add: parse_uint_def)

lemma parse_int_dec_int:
  assumes "- hi - 1 \<le> i" "i \<le> hi"
  shows "parse_int hi (dec_int i) = Some i"
proof (cases "i < 0")
  case True
  with assms show ?thesis
    by (simp add: parse_int_def dec_int_def nat_le_eq_zle)
next
  case False
  with assms have "parse_magnitude (nat hi) (dec_nat (nat i)) = Some (nat i)"
    by (simp add: nat_mono)
  with False dec_nat_hd [of "nat i"] show ?thesis
    by (cases "dec_nat (nat i)") (simp_all add: parse_int_def dec_int_def)
qed

lemma parse_digits_le: "parse_digits hi acc s = Some n \<Longrightarrow> acc \<le> hi \<Longrightarrow> n \<le> hi"
  by (induction hi acc s rule: parse_digits.induct) (auto split: option.splits if_splits)

lemma parse_magnitude_le: "parse_magnitude hi s = Some n \<Longrightarrow> n \<le> hi"
  by (auto simp: parse_magnitude_def dest: parse_digits_le split: if_splits)

lemma parse_int_le: "parse_int hi s = Some i \<Longrightarrow> 0 \<le> hi \<Longrightarrow> - hi - 1 \<le> i \<and> i \<le> hi"
  by (fastforce simp: parse_int_def dest: parse_magnitude_le split: list.splits if_splits)

section \<open>Sums over lists of components\<close>

lemma sum_list_map_update:
  fixes f :: "'a \<Rightarrow> 'b::comm_monoid_add"
  shows "i < length xs \<Longrightarrow> sum_list (map f (xs[i := y])) + f (xs ! i) = sum_list (map f xs) + f y"
  by (induction xs arbitrary: i) (auto simp: add_ac nth_Cons split: nat.splits)

lemma sum_list_ge_nth:
  fixes f :: "'a \<Rightarrow> nat"
  shows "i < length xs \<Longrightarrow> f (xs ! i) \<le> sum_list (map f xs)"
  by (induction xs arbitrary: i) (auto simp: nth_Cons split: nat.splits intro: trans_le_add2)

lemma sum_list_empty: "\<forall>x \<in> set xs. f x = 0 \<Longrightarrow> sum_list (map f xs) = 0"
  by (induction xs) simp_all

lemma list_all_update: "list_all P xs \<Longrightarrow> P y \<Longrightarrow> list_all P (xs[k := y])"
  using set_update_subset_insert [of xs k y] by (auto simp: list_all_iff)

lemma length_concat_nonempty: "list_all (\<lambda>xs. xs \<noteq> []) xss \<Longrightarrow> length xss \<le> length (concat xss)"
proof (induction xss)
  case (Cons xs xss)
  then have "0 < length xs" "length xss \<le> length (concat xss)" by simp_all
  then show ?case by (simp only: list.size concat.simps length_append)
qed simp

section \<open>Bytes\<close>

lemma of_char_lt: "of_char c < (256 :: nat)"
  by simp

end
