(* ===== verification/Sink.thy ===== *)
theory Sink
  imports Prelude
begin

text \<open>
  The output side of the program: \<open>impl Write\<close>, the writer the caller passes in. Its state \<open>'w\<close>
  and its two operations are parameters; the locale \<open>sink\<close> names what \<open>std::io::Write\<close> documents:
  \<open>write_all\<close> delivers all of the bytes or reports an error after delivering some prefix, and
  \<open>flush\<close> delivers nothing new. \<open>Vec<u8>\<close> (the payload-format buffer) and a pipe whose
  reader goes away are the two instances.

  A writing step also carries the number of bytes \<open>written\<close> so far; it is \<open>write_bytes\<close>,
  \<open>write_decimal\<close> (which goes through \<open>CountingWriter\<close>), or a sequence of steps joined by \<open>?\<close>.
\<close>

named_theorems emits_intros
  \<open>what each writing step delivers\<close>

datatype io_kind = BrokenPipe | WriteZero | OtherKind

record io_error =
  io_kind :: io_kind
  io_text :: string

record 'w sink_ops =
  write_all :: "bytes \<Rightarrow> 'w \<Rightarrow> (io_error + unit) \<times> 'w"
  sink_flush :: "'w \<Rightarrow> (io_error + unit) \<times> 'w"

type_synonym 'w wr = "'w \<times> nat \<Rightarrow> (io_error + unit) \<times> ('w \<times> nat)"

definition io_other :: "string \<Rightarrow> io_error" where
  "io_other text = \<lparr>io_kind = OtherKind, io_text = text\<rparr>"

definition length_overflow :: io_error where
  "length_overflow = io_other ''formatted record length overflowed usize''"

text \<open>\<open>write_bytes\<close> counts before it writes.\<close>

definition write_bytes :: "'w sink_ops \<Rightarrow> bytes \<Rightarrow> 'w wr" where
  "write_bytes ops bs = (\<lambda>(w, written).
     case checked_add written (length bs) of
       None \<Rightarrow> (Inl length_overflow, (w, written))
     | Some written' \<Rightarrow> (case write_all ops bs w of (r, w') \<Rightarrow> (r, (w', written'))))"

text \<open>
  \<open>CountingWriter\<close> counts after the inner writer has taken the bytes. Its \<open>write\<close> may be called
  several times for one \<open>write_all\<close>; the chunks are joined here.
\<close>

definition counting_write :: "'w sink_ops \<Rightarrow> bytes \<Rightarrow> 'w wr" where
  "counting_write ops bs = (\<lambda>(w, written).
     case write_all ops bs w of
       (Inl e, w') \<Rightarrow> (Inl e, (w', written))
     | (Inr _, w') \<Rightarrow>
         (case checked_add written (length bs) of
            None \<Rightarrow> (Inl length_overflow, (w', written))
          | Some written' \<Rightarrow> (Inr (), (w', written'))))"

text \<open>\<open>write_decimal\<close> takes the \<open>Display\<close> text of the value.\<close>

definition write_decimal :: "'w sink_ops \<Rightarrow> string \<Rightarrow> 'w wr" where
  "write_decimal ops text = counting_write ops text"

definition write_optional_length :: "'w sink_ops \<Rightarrow> bytes option \<Rightarrow> 'w wr" where
  "write_optional_length ops value = (case value of
      None \<Rightarrow> write_decimal ops (dec_int (- 1))
    | Some v \<Rightarrow> write_decimal ops (dec_nat (length v)))"

definition skip_w :: "'w wr" where
  "skip_w s = (Inr (), s)"

definition seq_w :: "'w wr \<Rightarrow> 'w wr \<Rightarrow> 'w wr" where
  "seq_w m k s = (case m s of (Inl e, s') \<Rightarrow> (Inl e, s') | (Inr _, s') \<Rightarrow> k s')"

fun seq_list :: "'w wr list \<Rightarrow> 'w wr" where
  "seq_list [] = skip_w"
| "seq_list (m # ms) = seq_w m (seq_list ms)"

section \<open>The interface\<close>

locale sink =
  fixes ops :: "'w sink_ops"
    and contents :: "'w \<Rightarrow> bytes"
  assumes write_ok: "write_all ops bs w = (Inr u, w') \<Longrightarrow> contents w' = contents w @ bs"
    and write_err: "write_all ops bs w = (Inl e, w') \<Longrightarrow>
      \<exists>p q. bs = p @ q \<and> contents w' = contents w @ p"
    and flush_contents: "sink_flush ops w = (r, w') \<Longrightarrow> contents w' = contents w"
begin

text \<open>
  \<open>emits m bs\<close>: the step delivers exactly \<open>bs\<close> and counts them when it succeeds, and a prefix of
  \<open>bs\<close> when it fails.
\<close>

definition emits :: "'w wr \<Rightarrow> bytes \<Rightarrow> bool" where
  "emits m bs \<longleftrightarrow> (\<forall>w n r w' n'. m (w, n) = (r, (w', n')) \<longrightarrow>
     (case r of
        Inr _ \<Rightarrow> contents w' = contents w @ bs \<and> n' = n + length bs
      | Inl _ \<Rightarrow> (\<exists>p q. bs = p @ q \<and> contents w' = contents w @ p)))"

lemma emitsI:
  assumes "\<And>w n w' n'. m (w, n) = (Inr (), (w', n')) \<Longrightarrow> contents w' = contents w @ bs \<and> n' = n + length bs"
    and "\<And>w n e w' n'. m (w, n) = (Inl e, (w', n')) \<Longrightarrow> \<exists>p q. bs = p @ q \<and> contents w' = contents w @ p"
  shows "emits m bs"
  unfolding emits_def using assms by (fastforce split: sum.split)

lemma emits_okD:
  "emits m bs \<Longrightarrow> m (w, n) = (Inr u, (w', n')) \<Longrightarrow> contents w' = contents w @ bs \<and> n' = n + length bs"
  unfolding emits_def by fastforce

lemma emits_errD:
  "emits m bs \<Longrightarrow> m (w, n) = (Inl e, (w', n')) \<Longrightarrow> \<exists>p q. bs = p @ q \<and> contents w' = contents w @ p"
  unfolding emits_def by fastforce

lemma emits_write_bytes [emits_intros]: "emits (write_bytes ops bs) bs"
proof (rule emitsI)
  fix w n w' n'
  assume "write_bytes ops bs (w, n) = (Inr (), (w', n'))"
  then show "contents w' = contents w @ bs \<and> n' = n + length bs"
    by (auto simp: write_bytes_def checked_add_Some_iff dest: write_ok
        split: option.splits prod.splits)
next
  fix w n e w' n'
  assume "write_bytes ops bs (w, n) = (Inl e, (w', n'))"
  then show "\<exists>p q. bs = p @ q \<and> contents w' = contents w @ p"
    by (auto simp: write_bytes_def dest: write_err split: option.splits prod.splits)
qed

lemma emits_counting_write [emits_intros]: "emits (counting_write ops bs) bs"
proof (rule emitsI)
  fix w n w' n'
  assume "counting_write ops bs (w, n) = (Inr (), (w', n'))"
  then show "contents w' = contents w @ bs \<and> n' = n + length bs"
    by (auto simp: counting_write_def checked_add_Some_iff dest: write_ok
        split: option.splits prod.splits sum.splits)
next
  fix w n e w' n'
  assume "counting_write ops bs (w, n) = (Inl e, (w', n'))"
  then show "\<exists>p q. bs = p @ q \<and> contents w' = contents w @ p"
    by (force simp: counting_write_def dest: write_err write_ok
        split: option.splits prod.splits sum.splits)
qed

lemma emits_write_decimal [emits_intros]: "emits (write_decimal ops text) text"
  unfolding write_decimal_def by (rule emits_counting_write)

lemma emits_write_optional_length [emits_intros]:
  "emits (write_optional_length ops v) (case v of None \<Rightarrow> dec_int (- 1) | Some b \<Rightarrow> dec_nat (length b))"
  by (cases v) (simp_all add: write_optional_length_def emits_intros)

lemma emits_skip [emits_intros]: "emits skip_w []"
  by (rule emitsI) (auto simp: skip_w_def)

lemma emits_seq:
  assumes "emits m a" "emits k b"
  shows "emits (seq_w m k) (a @ b)"
proof (rule emitsI)
  fix w n w' n'
  assume "seq_w m k (w, n) = (Inr (), (w', n'))"
  then obtain u w1 n1 where "m (w, n) = (Inr u, (w1, n1))" "k (w1, n1) = (Inr (), (w', n'))"
    by (auto simp: seq_w_def split: prod.splits sum.splits)
  then show "contents w' = contents w @ a @ b \<and> n' = n + length (a @ b)"
    using emits_okD [OF assms(1)] emits_okD [OF assms(2)] by fastforce
next
  fix w n e w' n'
  assume "seq_w m k (w, n) = (Inl e, (w', n'))"
  then consider "m (w, n) = (Inl e, (w', n'))"
    | u w1 n1 where "m (w, n) = (Inr u, (w1, n1))" "k (w1, n1) = (Inl e, (w', n'))"
    by (auto simp: seq_w_def split: prod.splits sum.splits)
  then show "\<exists>p q. a @ b = p @ q \<and> contents w' = contents w @ p"
  proof cases
    case 1
    then show ?thesis using emits_errD [OF assms(1)] by fastforce
  next
    case 2
    then have "contents w1 = contents w @ a" using emits_okD [OF assms(1)] by blast
    moreover obtain p q where "b = p @ q" "contents w' = contents w1 @ p"
      using emits_errD [OF assms(2) 2(2)] by blast
    ultimately show ?thesis by (metis append.assoc)
  qed
qed

lemma emits_seq_list:
  "list_all2 emits ms bss \<Longrightarrow> emits (seq_list ms) (concat bss)"
  by (induction rule: list_all2_induct) (auto intro: emits_seq emits_skip)

lemma emits_seq_map:
  "(\<And>x. x \<in> set xs \<Longrightarrow> emits (f x) (g x)) \<Longrightarrow> emits (seq_list (map f xs)) (concat (map g xs))"
  by (rule emits_seq_list) (simp add: list_all2_map1 list_all2_map2 list_all2_same)

end

text \<open>A writer that never fails: then a step fails only when its count overflows.\<close>

locale reliable_sink = sink +
  assumes write_never_fails: "fst (write_all ops bs w) = Inr ()"
    and flush_never_fails: "fst (sink_flush ops w) = Inr ()"
begin

definition delivers :: "'a wr \<Rightarrow> bytes \<Rightarrow> bool" where
  "delivers m bs \<longleftrightarrow> emits m bs \<and>
     (\<forall>w n. n + length bs \<le> usize_max \<longrightarrow> fst (m (w, n)) = Inr ())"

lemma delivers_ok:
  assumes "delivers m bs" "n + length bs \<le> usize_max"
  obtains w' where "m (w, n) = (Inr (), (w', n + length bs))" "contents w' = contents w @ bs"
proof -
  obtain r w' n' where m: "m (w, n) = (r, (w', n'))" by (cases "m (w, n)") auto
  moreover have "r = Inr ()" using assms m by (metis delivers_def fst_conv)
  ultimately show ?thesis
    using emits_okD [of m bs w n "()" w' n'] assms(1) that by (auto simp: delivers_def)
qed

lemma delivers_write_bytes: "delivers (write_bytes ops bs) bs"
  using write_never_fails [of bs] emits_write_bytes [of bs]
  by (auto simp: delivers_def write_bytes_def checked_add_def split: prod.split) (metis fst_conv)

lemma delivers_write_decimal: "delivers (write_decimal ops bs) bs"
proof -
  have "fst (counting_write ops bs (w, n)) = Inr ()" if "n + length bs \<le> usize_max" for w n
    using write_never_fails [of bs w] that
    by (auto simp: counting_write_def checked_add_def split: prod.split)
  then show ?thesis
    using emits_write_decimal [of bs] by (simp add: delivers_def write_decimal_def)
qed

lemma delivers_skip: "delivers skip_w []"
  by (simp add: delivers_def emits_skip skip_w_def)

lemma delivers_seq:
  assumes "delivers m a" "delivers k b"
  shows "delivers (seq_w m k) (a @ b)"
proof -
  have "fst (seq_w m k (w, n)) = Inr ()" if "n + length (a @ b) \<le> usize_max" for w n
  proof -
    from that have "n + length a \<le> usize_max" by simp
    then obtain w' where "m (w, n) = (Inr (), (w', n + length a))"
      by (rule delivers_ok [OF assms(1)])
    moreover from that have "n + length a + length b \<le> usize_max" by simp
    then have "fst (k (w', n + length a)) = Inr ()"
      using assms(2) by (simp add: delivers_def)
    ultimately show ?thesis by (simp add: seq_w_def)
  qed
  with assms emits_seq show ?thesis by (simp add: delivers_def)
qed

lemma delivers_seq_list: "list_all2 delivers ms bss \<Longrightarrow> delivers (seq_list ms) (concat bss)"
  by (induction rule: list_all2_induct) (auto intro: delivers_seq delivers_skip)

lemma delivers_seq_map:
  "(\<And>x. x \<in> set xs \<Longrightarrow> delivers (f x) (g x)) \<Longrightarrow> delivers (seq_list (map f xs)) (concat (map g xs))"
  by (rule delivers_seq_list) (simp add: list_all2_map1 list_all2_map2 list_all2_same)

end

section \<open>Two writers\<close>

text \<open>\<open>Vec<u8>\<close> as a writer: appending never fails.\<close>

definition vec_sink :: "bytes sink_ops" where
  "vec_sink = \<lparr>write_all = (\<lambda>bs w. (Inr (), w @ bs)), sink_flush = (\<lambda>w. (Inr (), w))\<rparr>"

interpretation vs: reliable_sink vec_sink "\<lambda>w. w"
  by unfold_locales (auto simp: vec_sink_def)

text \<open>A pipe whose reader takes \<open>room\<close> more bytes and then closes it.\<close>

record pipe =
  taken :: bytes
  room :: nat

definition pipe_sink :: "pipe sink_ops" where
  "pipe_sink =
     \<lparr>write_all = (\<lambda>bs p.
        if length bs \<le> room p
        then (Inr (), p\<lparr>taken := taken p @ bs, room := room p - length bs\<rparr>)
        else (Inl \<lparr>io_kind = BrokenPipe, io_text = ''Broken pipe''\<rparr>,
              p\<lparr>taken := taken p @ take (room p) bs, room := 0\<rparr>)),
      sink_flush = (\<lambda>p. (Inr (), p))\<rparr>"

interpretation ps: sink pipe_sink taken
proof unfold_locales
  fix bs e w w'
  assume "write_all pipe_sink bs w = (Inl e, w')"
  then have "bs = take (room w) bs @ drop (room w) bs \<and> taken w' = taken w @ take (room w) bs"
    by (auto simp: pipe_sink_def split: if_splits)
  then show "\<exists>p q. bs = p @ q \<and> taken w' = taken w @ p" by blast
qed (auto simp: pipe_sink_def split: if_splits)

end
