(* ===== verification/Output_Format.thy ===== *)
theory Output_Format
  imports Sink
begin

text \<open>
  \<open>src/output.rs\<close>, the \<open>-f\<close> and \<open>--payload-format\<close> half: the output record, the format compiler
  \<open>CompiledFormat::compile\<close>, the metadata requirements it derives, and \<open>write_to\<close>. The
  reference semantics is \<open>render_tokens\<close>, the concatenation of what each token stands for.
\<close>

section \<open>Data\<close>

datatype format_token =
    Literal bytes
  | Offset
  | Key
  | KeyLength
  | Payload
  | PayloadLength
  | SourcePayloadLength
  | PayloadLengthBinary
  | Topic
  | Partition
  | Timestamp
  | Headers
  | Action

record output_requirements =
  req_key :: bool
  req_headers :: bool
  req_timestamp :: bool

record header =
  h_name :: string
  h_value :: "bytes option"

datatype timestamp_type = CreateTime | LogAppendTime

record timestamp =
  milliseconds :: int
  ts_kind :: timestamp_type

text \<open>\<open>Payload\<close>: a tombstone, plain bytes, or JSON text with the length of its source.\<close>

datatype payload = PTombstone | PBytes bytes | PJson bytes nat

fun payload_bytes :: "payload \<Rightarrow> bytes option" where
  "payload_bytes PTombstone = None"
| "payload_bytes (PBytes bs) = Some bs"
| "payload_bytes (PJson bs _) = Some bs"

fun payload_length :: "payload \<Rightarrow> nat option" where
  "payload_length PTombstone = None"
| "payload_length (PBytes bs) = Some (length bs)"
| "payload_length (PJson _ source_length) = Some source_length"

datatype emitted_action = ETombstone | EPassThrough | EProject

fun action_str :: "emitted_action \<Rightarrow> string" where
  "action_str ETombstone = ''tombstone''"
| "action_str EPassThrough = ''pass''"
| "action_str EProject = ''project''"

record output_record =
  o_topic :: string
  o_partition :: int
  o_offset :: int
  o_timestamp :: "timestamp option"
  o_key :: "bytes option"
  o_headers :: "header list"
  o_source_payload_length :: "nat option"
  o_payload :: payload
  o_action :: emitted_action

datatype format_error =
    IncompletePlaceholder
  | UnsupportedPlaceholder char
  | IncompleteEscape
  | HexDigitsRequired
  | UnsupportedEscape char

section \<open>The format compiler\<close>

definition placeholder_token :: "char \<Rightarrow> format_token option" where
  "placeholder_token c =
     (if c = CHR ''o'' then Some Offset
      else if c = CHR ''k'' then Some Key
      else if c = CHR ''K'' then Some KeyLength
      else if c = CHR ''s'' then Some Payload
      else if c = CHR ''S'' then Some PayloadLength
      else if c = CHR ''L'' then Some SourcePayloadLength
      else if c = CHR ''R'' then Some PayloadLengthBinary
      else if c = CHR ''t'' then Some Topic
      else if c = CHR ''p'' then Some Partition
      else if c = CHR ''T'' then Some Timestamp
      else if c = CHR ''h'' then Some Headers
      else if c = CHR ''a'' then Some Action
      else if c = CHR ''%'' then Some (Literal ''%'')
      else None)"

text \<open>\<open>is_ascii_hexdigit\<close>, and the digit's value as \<open>u8::from_str_radix\<close> reads it.\<close>

definition hex_value :: "char \<Rightarrow> nat option" where
  "hex_value c = (let n = of_char c in
     if 48 \<le> n \<and> n \<le> 57 then Some (n - 48)
     else if 97 \<le> n \<and> n \<le> 102 then Some (n - 87)
     else if 65 \<le> n \<and> n \<le> 70 then Some (n - 55)
     else None)"

definition flush_literal :: "format_token list \<Rightarrow> bytes \<Rightarrow> format_token list" where
  "flush_literal tokens literal = (if literal \<noteq> [] then tokens @ [Literal literal] else tokens)"

definition backslash :: char where
  "backslash = CHR 0x5C"

text \<open>The escapes of one byte; \<open>x\<close> takes two more digits and is handled by the loop.\<close>

definition simple_escape :: "char \<Rightarrow> char option" where
  "simple_escape c =
     (if c = CHR ''n'' then Some (CHR 0x0A)
      else if c = CHR ''r'' then Some (CHR 0x0D)
      else if c = CHR ''t'' then Some (CHR 0x09)
      else if c = backslash then Some backslash
      else None)"

text \<open>\<open>source.get(cursor..cursor + 2).filter(...)\<close> and \<open>from_str_radix(digits, 16)\<close>.\<close>

fun hex_escape :: "bytes \<Rightarrow> (char \<times> bytes) option" where
  "hex_escape (a # b # rest) =
     (case (hex_value a, hex_value b) of
        (Some x, Some y) \<Rightarrow> Some (char_of (16 * x + y), rest)
      | _ \<Rightarrow> None)"
| "hex_escape _ = None"

text \<open>
  The \<open>while\<close> loop: \<open>rest\<close> is the source from the cursor on, \<open>tokens\<close> and \<open>literal\<close> the two
  vectors. The recursion consumes at least one byte per turn.
\<close>

lemma hex_escape_length: "hex_escape bs = Some (c, rest) \<Longrightarrow> length rest < length bs"
  by (induction bs rule: hex_escape.induct) (auto split: option.splits)

function compile_loop ::
    "bytes \<Rightarrow> format_token list \<Rightarrow> bytes \<Rightarrow> format_error + format_token list" where
  "compile_loop rest tokens literal =
     (case rest of
        [] \<Rightarrow> Inr (flush_literal tokens literal)
      | b # rest1 \<Rightarrow>
          if b = CHR ''%'' then
            (case rest1 of
               [] \<Rightarrow> Inl IncompletePlaceholder
             | p # rest2 \<Rightarrow>
                 (case placeholder_token p of
                    None \<Rightarrow> Inl (UnsupportedPlaceholder p)
                  | Some t \<Rightarrow> compile_loop rest2 (flush_literal tokens literal @ [t]) []))
          else if b = backslash then
            (case rest1 of
               [] \<Rightarrow> Inl IncompleteEscape
             | e # rest2 \<Rightarrow>
                 if e = CHR ''x'' then
                   (case hex_escape rest2 of
                      None \<Rightarrow> Inl HexDigitsRequired
                    | Some (c, rest3) \<Rightarrow> compile_loop rest3 tokens (literal @ [c]))
                 else
                   (case simple_escape e of
                      None \<Rightarrow> Inl (UnsupportedEscape e)
                    | Some c \<Rightarrow> compile_loop rest2 tokens (literal @ [c])))
          else compile_loop rest1 tokens (literal @ [b]))"
  by pat_completeness auto
termination
  by (relation "measure (\<lambda>(rest, _, _). length rest)") (auto dest: hex_escape_length)

declare compile_loop.simps [simp del]

definition compile_format :: "bytes \<Rightarrow> format_error + format_token list" where
  "compile_format source = compile_loop source [] []"

text \<open>\<open>CompiledFormat::requirements\<close>.\<close>

definition format_requirements :: "format_token list \<Rightarrow> output_requirements" where
  "format_requirements tokens =
     \<lparr>req_key = list_ex (\<lambda>t. t = Key \<or> t = KeyLength) tokens,
      req_headers = list_ex (\<lambda>t. t = Headers) tokens,
      req_timestamp = list_ex (\<lambda>t. t = Timestamp) tokens\<rparr>"

section \<open>Writing a record\<close>

text \<open>\<open>i32::to_be_bytes\<close>: the two's complement of the value, most significant byte first.\<close>

definition to_be_bytes :: "int \<Rightarrow> bytes" where
  "to_be_bytes i = (let u = nat (i mod 2 ^ 32) in
     [char_of (u div 2 ^ 24), char_of (u div 2 ^ 16 mod 256), char_of (u div 2 ^ 8 mod 256),
      char_of (u mod 256)])"

definition header_pieces :: "'w sink_ops \<Rightarrow> nat \<Rightarrow> header \<Rightarrow> 'w wr" where
  "header_pieces ops index h = seq_list
     [if index \<noteq> 0 then write_bytes ops '','' else skip_w,
      write_bytes ops (h_name h),
      write_bytes ops ''='',
      (case h_value h of
         None \<Rightarrow> write_bytes ops ''NULL''
       | Some v \<Rightarrow> write_bytes ops v)]"

fun write_token :: "'w sink_ops \<Rightarrow> output_record \<Rightarrow> format_token \<Rightarrow> 'w wr" where
  "write_token ops r (Literal bs) = write_bytes ops bs"
| "write_token ops r Offset = write_decimal ops (dec_int (o_offset r))"
| "write_token ops r Key = write_bytes ops (case o_key r of None \<Rightarrow> [] | Some k \<Rightarrow> k)"
| "write_token ops r KeyLength = write_optional_length ops (o_key r)"
| "write_token ops r Payload =
     (case payload_bytes (o_payload r) of
        None \<Rightarrow> skip_w
      | Some bs \<Rightarrow> write_bytes ops bs)"
| "write_token ops r PayloadLength =
     (case payload_length (o_payload r) of
        Some n \<Rightarrow> write_decimal ops (dec_nat n)
      | None \<Rightarrow> write_decimal ops (dec_int (- 1)))"
| "write_token ops r SourcePayloadLength =
     (case o_source_payload_length r of
        Some n \<Rightarrow> write_decimal ops (dec_nat n)
      | None \<Rightarrow> write_decimal ops (dec_int (- 1)))"
| "write_token ops r PayloadLengthBinary =
     write_bytes ops (to_be_bytes
       (case payload_length (o_payload r) of None \<Rightarrow> - 1 | Some n \<Rightarrow> int n))"
| "write_token ops r Topic = write_bytes ops (o_topic r)"
| "write_token ops r Partition = write_decimal ops (dec_int (o_partition r))"
| "write_token ops r Timestamp =
     write_decimal ops (dec_int
       (case o_timestamp r of None \<Rightarrow> - 1 | Some t \<Rightarrow> milliseconds t))"
| "write_token ops r Headers =
     seq_list (map (\<lambda>(index, h). header_pieces ops index h) (enumerate 0 (o_headers r)))"
| "write_token ops r Action = write_bytes ops (action_str (o_action r))"

definition payload_too_long :: "nat \<Rightarrow> io_error" where
  "payload_too_long n =
     io_other (''payload length '' @ dec_nat n @ '' exceeds %R signed 32-bit limit'')"

definition binary_length_rejected :: "format_token list \<Rightarrow> output_record \<Rightarrow> nat option" where
  "binary_length_rejected tokens r =
     (case payload_length (o_payload r) of
        None \<Rightarrow> None
      | Some n \<Rightarrow>
          if n > nat i32_max \<and> list_ex (\<lambda>t. t = PayloadLengthBinary) tokens then Some n else None)"

text \<open>\<open>CompiledFormat::write_to\<close> returns the number of bytes written.\<close>

definition write_to ::
    "'w sink_ops \<Rightarrow> format_token list \<Rightarrow> output_record \<Rightarrow> 'w \<Rightarrow> (io_error + nat) \<times> 'w" where
  "write_to ops tokens r w =
     (case binary_length_rejected tokens r of
        Some n \<Rightarrow> (Inl (payload_too_long n), w)
      | None \<Rightarrow>
          (case seq_list (map (write_token ops r) tokens) (w, 0) of
             (Inl e, (w', _)) \<Rightarrow> (Inl e, w')
           | (Inr _, (w', written)) \<Rightarrow> (Inr written, w')))"

section \<open>Reference semantics\<close>

definition render_header :: "nat \<Rightarrow> header \<Rightarrow> bytes" where
  "render_header index h =
     (if index \<noteq> 0 then '','' else []) @ h_name h @ ''='' @
     (case h_value h of None \<Rightarrow> ''NULL'' | Some v \<Rightarrow> v)"

fun render_token :: "output_record \<Rightarrow> format_token \<Rightarrow> bytes" where
  "render_token r (Literal bs) = bs"
| "render_token r Offset = dec_int (o_offset r)"
| "render_token r Key = (case o_key r of None \<Rightarrow> [] | Some k \<Rightarrow> k)"
| "render_token r KeyLength =
     (case o_key r of None \<Rightarrow> dec_int (- 1) | Some k \<Rightarrow> dec_nat (length k))"
| "render_token r Payload = (case payload_bytes (o_payload r) of None \<Rightarrow> [] | Some bs \<Rightarrow> bs)"
| "render_token r PayloadLength =
     (case payload_length (o_payload r) of None \<Rightarrow> dec_int (- 1) | Some n \<Rightarrow> dec_nat n)"
| "render_token r SourcePayloadLength =
     (case o_source_payload_length r of None \<Rightarrow> dec_int (- 1) | Some n \<Rightarrow> dec_nat n)"
| "render_token r PayloadLengthBinary =
     to_be_bytes (case payload_length (o_payload r) of None \<Rightarrow> - 1 | Some n \<Rightarrow> int n)"
| "render_token r Topic = o_topic r"
| "render_token r Partition = dec_int (o_partition r)"
| "render_token r Timestamp =
     dec_int (case o_timestamp r of None \<Rightarrow> - 1 | Some t \<Rightarrow> milliseconds t)"
| "render_token r Headers =
     concat (map (\<lambda>(index, h). render_header index h) (enumerate 0 (o_headers r)))"
| "render_token r Action = action_str (o_action r)"

definition render_tokens :: "format_token list \<Rightarrow> output_record \<Rightarrow> bytes" where
  "render_tokens tokens r = concat (map (render_token r) tokens)"

lemma render_tokens_simps [simp]:
  "render_tokens [] r = []"
  "render_tokens (t # ts) r = render_token r t @ render_tokens ts r"
  "render_tokens (ts @ us) r = render_tokens ts r @ render_tokens us r"
  by (simp_all add: render_tokens_def)

end
