(* ===== verification/BTree.thy ===== *)
theory BTree
  imports Prelude "HOL-Library.Multiset"
begin

text \<open>
  Rust's \<open>BTreeMap\<close>, which keeps every per-partition table of the program: an association
  list in ascending key order. Iteration (\<open>keys\<close>, \<open>values_mut\<close>, \<open>into_values\<close>) is list order.
  The locale \<open>ordered_map\<close> is the contract the clients use; the association list provides it.
\<close>

type_synonym ('k, 'v) btree = "('k \<times> 'v) list"

definition bt_empty :: "('k, 'v) btree" where
  "bt_empty = []"

definition bt_get :: "('k, 'v) btree \<Rightarrow> 'k \<Rightarrow> 'v option" where
  "bt_get m k = map_of m k"

fun bt_insert :: "'k::linorder \<Rightarrow> 'v \<Rightarrow> ('k, 'v) btree \<Rightarrow> ('k, 'v) btree" where
  "bt_insert k v [] = [(k, v)]"
| "bt_insert k v ((k', v') # m) =
     (if k < k' then (k, v) # (k', v') # m
      else if k = k' then (k, v) # m
      else (k', v') # bt_insert k v m)"

definition bt_remove :: "'k \<Rightarrow> ('k, 'v) btree \<Rightarrow> ('k, 'v) btree" where
  "bt_remove k m = filter (\<lambda>(k', _). k' \<noteq> k) m"

definition bt_keys :: "('k, 'v) btree \<Rightarrow> 'k list" where
  "bt_keys m = map fst m"

definition bt_values :: "('k, 'v) btree \<Rightarrow> 'v list" where
  "bt_values m = map snd m"

text \<open>\<open>collect()\<close> into a \<open>BTreeMap\<close>: a later pair replaces an earlier one with its key.\<close>

definition bt_of_list :: "('k::linorder \<times> 'v) list \<Rightarrow> ('k, 'v) btree" where
  "bt_of_list xs = fold (\<lambda>(k, v). bt_insert k v) xs bt_empty"

definition bt_ok :: "('k::linorder, 'v) btree \<Rightarrow> bool" where
  "bt_ok m \<longleftrightarrow> sorted_wrt (<) (bt_keys m)"

section \<open>The contract\<close>

locale ordered_map =
  fixes empty :: "'m"
    and get :: "'m \<Rightarrow> 'k::linorder \<Rightarrow> 'v option"
    and insert :: "'k \<Rightarrow> 'v \<Rightarrow> 'm \<Rightarrow> 'm"
    and remove :: "'k \<Rightarrow> 'm \<Rightarrow> 'm"
    and entries :: "'m \<Rightarrow> ('k \<times> 'v) list"
    and ok :: "'m \<Rightarrow> bool"
  assumes get_empty: "get empty k = None"
    and get_insert: "get (insert k v m) k' = (if k' = k then Some v else get m k')"
    and get_remove: "get (remove k m) k' = (if k' = k then None else get m k')"
    and ok_empty: "ok empty"
    and ok_insert: "ok m \<Longrightarrow> ok (insert k v m)"
    and ok_remove: "ok m \<Longrightarrow> ok (remove k m)"
    and entries_get: "ok m \<Longrightarrow> (k, v) \<in> set (entries m) \<longleftrightarrow> get m k = Some v"
    and entries_sorted: "ok m \<Longrightarrow> sorted_wrt (<) (map fst (entries m))"
begin

lemma get_insert_same [simp]: "get (insert k v m) k = Some v"
  by (simp add: get_insert)

lemma get_insert_other [simp]: "k' \<noteq> k \<Longrightarrow> get (insert k v m) k' = get m k'"
  by (simp add: get_insert)

lemma get_remove_same [simp]: "get (remove k m) k = None"
  by (simp add: get_remove)

lemma keys_distinct: "ok m \<Longrightarrow> distinct (map fst (entries m))"
  using entries_sorted strict_sorted_iff by blast

lemma entries_insert:
  "ok m \<Longrightarrow> set (entries (insert k v m)) = {(k', v') \<in> set (entries m). k' \<noteq> k} \<union> {(k, v)}"
  by (auto simp: entries_get ok_insert get_insert split: if_splits)

lemma entries_remove:
  "ok m \<Longrightarrow> set (entries (remove k m)) = {(k', v') \<in> set (entries m). k' \<noteq> k}"
  by (auto simp: entries_get ok_remove get_remove split: if_splits)

lemma no_entries_iff: "ok m \<Longrightarrow> entries m = [] \<longleftrightarrow> (\<forall>k. get m k = None)"
proof
  assume "ok m" "\<forall>k. get m k = None"
  then have "(k, v) \<notin> set (entries m)" for k v by (simp add: entries_get)
  then show "entries m = []" by (cases "entries m") auto
next
  assume "ok m" "entries m = []"
  then show "\<forall>k. get m k = None"
    by (metis entries_get empty_iff empty_set not_None_eq)
qed

end

section \<open>The association list provides it\<close>

lemma bt_get_insert: "bt_get (bt_insert k v m) k' = (if k' = k then Some v else bt_get m k')"
  unfolding bt_get_def by (induction k v m rule: bt_insert.induct) auto

lemma bt_get_remove: "bt_get (bt_remove k m) k' = (if k' = k then None else bt_get m k')"
  unfolding bt_get_def bt_remove_def by (induction m) auto

lemma bt_insert_keys: "set (bt_keys (bt_insert k v m)) = insert k (set (bt_keys m))"
  unfolding bt_keys_def by (induction k v m rule: bt_insert.induct) auto

lemma bt_ok_insert: "bt_ok m \<Longrightarrow> bt_ok (bt_insert k v m)"
proof (induction k v m rule: bt_insert.induct)
  case (2 k v k' v' m)
  then show ?case
    using bt_insert_keys [of k v m] by (auto simp: bt_ok_def bt_keys_def)
qed (simp add: bt_ok_def bt_keys_def)

lemma bt_ok_remove: "bt_ok m \<Longrightarrow> bt_ok (bt_remove k m)"
  unfolding bt_ok_def bt_keys_def bt_remove_def
  by (induction m) auto

lemma bt_ok_distinct: "bt_ok m \<Longrightarrow> distinct (bt_keys m)"
  unfolding bt_ok_def using strict_sorted_iff by blast

interpretation bt: ordered_map bt_empty bt_get bt_insert bt_remove "\<lambda>m. m" bt_ok
proof unfold_locales
  fix m :: "('k::linorder, 'v) btree" and k v
  assume "bt_ok m"
  then show "(k, v) \<in> set m \<longleftrightarrow> bt_get m k = Some v"
    using bt_ok_distinct [of m] by (simp add: bt_get_def bt_keys_def)
next
  fix k :: "'k::linorder"
  show "bt_get (bt_empty :: ('k, 'v) btree) k = None" by (simp add: bt_get_def bt_empty_def)
next
  show "bt_ok (bt_empty :: ('k::linorder, 'v) btree)"
    by (simp add: bt_ok_def bt_keys_def bt_empty_def)
qed (simp_all add: bt_get_insert bt_get_remove bt_ok_insert bt_ok_remove,
    simp add: bt_ok_def bt_keys_def)

declare bt.get_insert_same [simp] bt.get_insert_other [simp] bt.get_remove_same [simp]
  bt.get_empty [simp]

lemma bt_get_of_list: "bt_get (bt_of_list xs) k = map_of (rev xs) k"
proof -
  have "bt_get (fold (\<lambda>(k, v). bt_insert k v) xs m) k
      = (case map_of (rev xs) k of None \<Rightarrow> bt_get m k | Some v \<Rightarrow> Some v)" for m
    by (induction xs arbitrary: m)
      (auto simp: bt_get_insert map_add_def split: option.splits)
  from this [of bt_empty] show ?thesis
    by (simp add: bt_of_list_def split: option.splits)
qed

lemma bt_ok_fold_insert: "bt_ok m \<Longrightarrow> bt_ok (fold (\<lambda>(k, v). bt_insert k v) xs m)"
  by (induction xs arbitrary: m) (auto simp: bt_ok_insert)

lemma bt_ok_of_list [simp]: "bt_ok (bt_of_list xs)"
  by (simp add: bt_of_list_def bt_ok_fold_insert bt.ok_empty)

lemma bt_keys_iff: "k \<in> set (bt_keys m) \<longleftrightarrow> bt_get m k \<noteq> None"
  by (simp add: bt_keys_def bt_get_def map_of_eq_None_iff)

lemma bt_insert_split:
  assumes "bt_ok m" "bt_get m k = Some v"
  obtains xs ys where "m = xs @ (k, v) # ys" "bt_insert k v' m = xs @ (k, v') # ys"
proof -
  from assms obtain xs ys where m: "m = xs @ (k, v) # ys"
    using bt.entries_get [of m k v] by (auto dest: split_list)
  with assms(1) have lt: "\<forall>x \<in> fst ` set xs. x < k"
    by (auto simp: bt_ok_def bt_keys_def sorted_wrt_append)
  then have "bt_insert k v' (xs @ (k, v) # ys) = xs @ (k, v') # ys"
    by (induction xs) (auto simp: order.asym)
  with m that show ?thesis by blast
qed

text \<open>Updating one entry changes a sum over the values by that entry's difference.\<close>

lemma bt_sum_update:
  fixes f :: "'v \<Rightarrow> nat"
  assumes "bt_ok m" "bt_get m k = Some v"
  shows "sum_list (map f (bt_values (bt_insert k v' m))) + f v = sum_list (map f (bt_values m)) + f v'"
  by (rule bt_insert_split [OF assms, of v']) (simp add: bt_values_def)

lemma bt_sum_ge:
  fixes f :: "'v \<Rightarrow> nat"
  assumes "bt_ok m" "bt_get m k = Some v"
  shows "f v \<le> sum_list (map f (bt_values m))"
  by (rule bt_insert_split [OF assms, of v]) (simp add: bt_values_def)

text \<open>The values as a multiset, which is what conservation arguments count.\<close>

lemma bt_mset_insert_new:
  "bt_get m k = None \<Longrightarrow> mset (bt_values (bt_insert k v m)) = add_mset v (mset (bt_values m))"
  by (induction k v m rule: bt_insert.induct) (auto simp: bt_get_def bt_values_def split: if_splits)

lemma bt_mset_remove:
  assumes "bt_ok m" "bt_get m k = Some v"
  shows "mset (bt_values m) = add_mset v (mset (bt_values (bt_remove k m)))"
proof -
  obtain xs ys where m: "m = xs @ (k, v) # ys"
    using bt_insert_split [OF assms, of v] by blast
  with bt_ok_distinct [OF assms(1)] have "k \<notin> fst ` set xs" "k \<notin> fst ` set ys"
    by (auto simp: bt_keys_def)
  moreover have "filter (\<lambda>(k', _). k' \<noteq> k) zs = zs" if "k \<notin> fst ` set zs" for zs :: "('a, 'b) btree"
    using that by (induction zs) auto
  ultimately have "bt_remove k m = xs @ ys"
    unfolding m bt_remove_def by simp
  with m show ?thesis by (simp add: bt_values_def)
qed

lemma bt_mset_update:
  assumes "bt_ok m" "bt_get m k = Some v"
  shows "mset (concat (map f (bt_values (bt_insert k v' m)))) + mset (f v)
    = mset (concat (map f (bt_values m))) + mset (f v')"
  by (rule bt_insert_split [OF assms, of v']) (simp add: bt_values_def)

lemma bt_mset_insert_absent:
  "bt_get m k = None \<Longrightarrow>
     mset (concat (map f (bt_values (bt_insert k v m)))) = mset (f v) + mset (concat (map f (bt_values m)))"
  by (induction k v m rule: bt_insert.induct) (auto simp: bt_get_def bt_values_def split: if_splits)

text \<open>What one component gives another takes: two balances put together.\<close>

lemma mset_balance:
  fixes R :: "'a multiset"
  assumes "R' + P' = R + V" "Q' + V = Q + P'"
  shows "R' + Q' = R + Q"
proof -
  have "(R' + Q') + V = R' + (Q + P')" using assms(2) by (simp add: add.assoc)
  also have "\<dots> = (R + Q) + V" using assms(1) by (metis add.assoc add.commute)
  finally show ?thesis by simp
qed

end
