(* ===== verification/Runtime_Types.thy ===== *)
theory Runtime_Types
  imports Output_Format BTree
begin

text \<open>
  The records that travel through the pipeline: the owned Kafka record (\<open>src/kafka.rs\<close>), the
  action chosen for it (\<open>src/transform/jsonata.rs\<close>), and the work items, completions and releases
  exchanged between poller, workers and writer (\<open>src/runtime.rs\<close>, \<open>src/runtime/state.rs\<close>).
  Partitions are \<open>i32\<close>, offsets \<open>i64\<close>, sequences \<open>u64\<close>, byte counts \<open>usize\<close>.
\<close>

record runtime_limits =
  max_inflight_records :: nat
  max_inflight_bytes :: nat
  max_inflight_per_partition :: nat

record owned_record =
  r_partition :: int
  r_offset :: int
  r_timestamp :: "timestamp option"
  r_key :: "bytes option"
  r_headers :: "header list"
  r_payload :: "vec option"
  r_retained_bytes :: nat

datatype pass_payload = Exact vec | PassJson vec nat

datatype action = Drop | Tombstone | PassThrough pass_payload | Project vec

datatype execution_issue = IssueInvalidJson | IssueEvaluation

record execution =
  ex_action :: action
  ex_issue :: "execution_issue option"

record source_record =
  s_partition :: int
  s_offset :: int
  s_timestamp :: "timestamp option"
  s_key :: "bytes option"
  s_headers :: "header list"
  s_payload_length :: "nat option"

text \<open>\<open>CompletionOutcome\<close>: an action, or the message of the fatal failure.\<close>

datatype completion_outcome = Done action | Fatal string

record completion =
  c_spare_payload :: "vec option"
  c_consumer :: nat
  c_partition :: int
  c_sequence :: nat
  c_retained_bytes :: nat
  c_source :: source_record
  c_outcome :: completion_outcome

record release =
  rel_partition :: int
  rel_retained_bytes :: nat
  rel_payload :: "vec option"

record work_item =
  w_sequence :: nat
  w_record :: owned_record

record record_batch =
  rb_consumer :: nat
  rb_items :: "work_item list"

record completion_batch =
  cb_consumer :: nat
  cb_items :: "completion list"

text \<open>The source metadata a completion keeps after its record was taken apart.\<close>

definition source_of :: "owned_record \<Rightarrow> source_record" where
  "source_of r =
     \<lparr>s_partition = r_partition r, s_offset = r_offset r, s_timestamp = r_timestamp r,
      s_key = r_key r, s_headers = r_headers r,
      s_payload_length = map_option (\<lambda>v. length (vbytes v)) (r_payload r)\<rparr>"

definition sample_source :: "int \<Rightarrow> nat \<Rightarrow> source_record" where
  "sample_source p n =
     \<lparr>s_partition = p, s_offset = int n, s_timestamp = None, s_key = None, s_headers = [],
      s_payload_length = None\<rparr>"

text \<open>A completion with given partition, sequence, charge and action, as the source's unit tests build.\<close>

definition sample_completion :: "int \<Rightarrow> nat \<Rightarrow> nat \<Rightarrow> action \<Rightarrow> completion" where
  "sample_completion p n charge act =
     \<lparr>c_spare_payload = None, c_consumer = 0, c_partition = p, c_sequence = n,
      c_retained_bytes = charge, c_source = sample_source p n, c_outcome = Done act\<rparr>"

end
