(* ===== verification/Admission.thy ===== *)
theory Admission
  imports Runtime_Types
begin

text \<open>
  The poller-local half of admission in \<open>src/runtime/state.rs\<close>: \<open>Admission\<close> gives each partition
  its dense sequence numbers and bounds its records in flight.
\<close>

section \<open>State and operations\<close>

record partition_admission =
  pa_next_sequence :: nat
  pa_in_flight :: nat

record admission =
  total_records :: nat
  adm_partitions :: "(int, partition_admission) btree"
  adm_max :: nat

datatype admission_error =
    NoCapacity
  | UnknownPartition int
  | SequenceOverflow int
  | UnknownRelease int
  | InvalidRelease int

definition admission_new :: "int list \<Rightarrow> nat \<Rightarrow> admission" where
  "admission_new partitions limit =
     \<lparr>total_records = 0,
      adm_partitions = bt_of_list (map (\<lambda>p. (p, \<lparr>pa_next_sequence = 0, pa_in_flight = 0\<rparr>)) partitions),
      adm_max = limit\<rparr>"

definition can_reserve :: "admission \<Rightarrow> int \<Rightarrow> bool" where
  "can_reserve a p = (case bt_get (adm_partitions a) p of
      None \<Rightarrow> False
    | Some s \<Rightarrow> pa_in_flight s < adm_max a)"

text \<open>
  The two increments count live records, which cannot reach \<open>2\<^sup>6\<^sup>4\<close>: \<open>pa_in_flight\<close> stays at or below
  \<open>adm_max\<close> and \<open>total_records\<close> is their sum.
\<close>

definition reserve :: "admission \<Rightarrow> int \<Rightarrow> (admission_error + nat) \<times> admission" where
  "reserve a p =
     (if \<not> can_reserve a p then (Inl NoCapacity, a)
      else case bt_get (adm_partitions a) p of
        None \<Rightarrow> (Inl (UnknownPartition p), a)
      | Some s \<Rightarrow>
          (case checked_add (pa_next_sequence s) 1 of
             None \<Rightarrow> (Inl (SequenceOverflow p), a)
           | Some n' \<Rightarrow>
               (Inr (pa_next_sequence s),
                a\<lparr>adm_partitions := bt_insert p \<lparr>pa_next_sequence = n', pa_in_flight = pa_in_flight s + 1\<rparr>
                    (adm_partitions a),
                  total_records := total_records a + 1\<rparr>)))"

definition admission_release :: "admission \<Rightarrow> int \<Rightarrow> (admission_error + unit) \<times> admission" where
  "admission_release a p =
     (case bt_get (adm_partitions a) p of
        None \<Rightarrow> (Inl (UnknownRelease p), a)
      | Some s \<Rightarrow>
          if pa_in_flight s = 0 \<or> total_records a = 0 then (Inl (InvalidRelease p), a)
          else (Inr (),
            a\<lparr>adm_partitions := bt_insert p (s\<lparr>pa_in_flight := pa_in_flight s - 1\<rparr>) (adm_partitions a),
              total_records := total_records a - 1\<rparr>))"

section \<open>Invariant\<close>

definition admission_ok :: "admission \<Rightarrow> bool" where
  "admission_ok a \<longleftrightarrow> bt_ok (adm_partitions a) \<and>
     total_records a = sum_list (map pa_in_flight (bt_values (adm_partitions a))) \<and>
     (\<forall>p s. bt_get (adm_partitions a) p = Some s \<longrightarrow>
        pa_in_flight s \<le> adm_max a \<and> pa_in_flight s \<le> pa_next_sequence s \<and>
        pa_next_sequence s \<le> u64_max)"

declare admission_ok_def [inv_defs]

lemma bt_values_const:
  "bt_ok m \<Longrightarrow> (\<And>k v. bt_get m k = Some v \<Longrightarrow> f v = (0::nat)) \<Longrightarrow> sum_list (map f (bt_values m)) = 0"
  using bt.entries_get [of m] by (fastforce simp: bt_values_def)

lemma admission_ok_new [simp]: "admission_ok (admission_new partitions limit)"
proof -
  let ?m = "bt_of_list (map (\<lambda>p. (p, \<lparr>pa_next_sequence = 0, pa_in_flight = 0\<rparr>)) partitions)"
  have get: "bt_get ?m p = Some s \<Longrightarrow> s = \<lparr>pa_next_sequence = 0, pa_in_flight = 0\<rparr>" for p s
    unfolding bt_get_of_list by (auto dest!: map_of_SomeD)
  have "sum_list (map pa_in_flight (bt_values ?m)) = 0"
    by (rule bt_values_const) (auto dest: get)
  then show ?thesis by (auto simp: admission_ok_def admission_new_def dest: get)
qed

lemma checked_add_seq: "checked_add n 1 = Some n' \<longleftrightarrow> n' = Suc n \<and> n < u64_max"
  by (auto simp: checked_add_Some_iff usize_max_def u64_max_def)

lemma reserve_cases:
  assumes "reserve a p = (Inr n, a')"
  obtains s where "bt_get (adm_partitions a) p = Some s" "pa_in_flight s < adm_max a"
    "n = pa_next_sequence s" "n < u64_max"
    "a' = a\<lparr>adm_partitions := bt_insert p \<lparr>pa_next_sequence = Suc n, pa_in_flight = Suc (pa_in_flight s)\<rparr>
        (adm_partitions a), total_records := Suc (total_records a)\<rparr>"
  using assms checked_add_seq
  by (auto simp: reserve_def can_reserve_def split: if_splits option.splits)

lemma admission_release_cases:
  assumes "admission_release a p = (Inr u, a')"
  obtains s where "bt_get (adm_partitions a) p = Some s" "0 < pa_in_flight s" "0 < total_records a"
    "a' = a\<lparr>adm_partitions := bt_insert p (s\<lparr>pa_in_flight := pa_in_flight s - 1\<rparr>) (adm_partitions a),
        total_records := total_records a - 1\<rparr>"
  using assms by (auto simp: admission_release_def split: if_splits option.splits)

lemma reserve_error_keeps: "reserve a p = (Inl e, a') \<Longrightarrow> a' = a"
  by (auto simp: reserve_def split: if_splits option.splits)

lemma admission_release_error_keeps: "admission_release a p = (Inl e, a') \<Longrightarrow> a' = a"
  by (auto simp: admission_release_def split: if_splits option.splits)

lemma reserve_ok:
  assumes "admission_ok a" "reserve a p = (res, a')"
  shows "admission_ok a'"
proof (cases res)
  case (Inl e)
  with assms reserve_error_keeps show ?thesis by blast
next
  case (Inr n)
  with assms(2) obtain s where s: "bt_get (adm_partitions a) p = Some s"
    "pa_in_flight s < adm_max a" "n = pa_next_sequence s" "n < u64_max"
    "a' = a\<lparr>adm_partitions := bt_insert p \<lparr>pa_next_sequence = Suc n, pa_in_flight = Suc (pa_in_flight s)\<rparr>
        (adm_partitions a), total_records := Suc (total_records a)\<rparr>"
    by (auto elim: reserve_cases)
  have "bt_ok (adm_partitions a)" using assms(1) by (simp add: admission_ok_def)
  from bt_sum_update [OF this s(1), of pa_in_flight
      "\<lparr>pa_next_sequence = Suc n, pa_in_flight = Suc (pa_in_flight s)\<rparr>"]
  show ?thesis
    using assms(1) s by (auto simp: admission_ok_def bt_ok_insert bt_get_insert split: if_splits)
qed

lemma admission_release_ok:
  assumes "admission_ok a" "admission_release a p = (res, a')"
  shows "admission_ok a'"
proof (cases res)
  case (Inl e)
  with assms admission_release_error_keeps show ?thesis by blast
next
  case (Inr u)
  with assms(2) obtain s where s: "bt_get (adm_partitions a) p = Some s" "0 < pa_in_flight s"
    "a' = a\<lparr>adm_partitions := bt_insert p (s\<lparr>pa_in_flight := pa_in_flight s - 1\<rparr>) (adm_partitions a),
        total_records := total_records a - 1\<rparr>"
    by (auto elim: admission_release_cases)
  have "bt_ok (adm_partitions a)" using assms(1) by (simp add: admission_ok_def)
  from bt_sum_update [OF this s(1), of pa_in_flight "s\<lparr>pa_in_flight := pa_in_flight s - 1\<rparr>"]
  show ?thesis
    using assms(1) s by (fastforce simp: admission_ok_def bt_ok_insert bt_get_insert split: if_splits)
qed

text \<open>Under the invariant a release can only be refused when the partition has nothing in flight.\<close>

definition in_flight_of :: "admission \<Rightarrow> int \<Rightarrow> nat" where
  "in_flight_of a p = (case bt_get (adm_partitions a) p of None \<Rightarrow> 0 | Some s \<Rightarrow> pa_in_flight s)"

definition next_sequence_of :: "admission \<Rightarrow> int \<Rightarrow> nat" where
  "next_sequence_of a p = (case bt_get (adm_partitions a) p of None \<Rightarrow> 0 | Some s \<Rightarrow> pa_next_sequence s)"

lemma in_flight_le_total: "admission_ok a \<Longrightarrow> in_flight_of a p \<le> total_records a"
  unfolding in_flight_of_def admission_ok_def
  by (auto split: option.split intro: bt_sum_ge)

lemma release_succeeds_iff:
  "admission_ok a \<Longrightarrow> fst (admission_release a p) = Inr () \<longleftrightarrow> 0 < in_flight_of a p"
  using in_flight_le_total [of a p]
  by (auto simp: admission_release_def in_flight_of_def split: option.splits)

section \<open>Runs\<close>

datatype admission_op = Reserve int | Release int

text \<open>The result of an operation: the sequence it was given, or whether the release was accepted.\<close>

datatype admission_result = Reserved int nat | Released int | Refused

definition admission_step :: "admission \<Rightarrow> admission_op \<Rightarrow> admission_result \<times> admission" where
  "admission_step a op =
     (case op of
        Reserve p \<Rightarrow> (case reserve a p of
            (Inl _, a') \<Rightarrow> (Refused, a')
          | (Inr n, a') \<Rightarrow> (Reserved p n, a'))
      | Release p \<Rightarrow> (case admission_release a p of
            (Inl _, a') \<Rightarrow> (Refused, a')
          | (Inr _, a') \<Rightarrow> (Released p, a')))"

fun admission_run :: "admission \<Rightarrow> admission_op list \<Rightarrow> admission_result list \<times> admission" where
  "admission_run a [] = ([], a)"
| "admission_run a (op # ops) =
     (case admission_step a op of (r, a1) \<Rightarrow>
       (case admission_run a1 ops of (rs, a') \<Rightarrow> (r # rs, a')))"

fun reserved_sequences :: "int \<Rightarrow> admission_result list \<Rightarrow> nat list" where
  "reserved_sequences p [] = []"
| "reserved_sequences p (Reserved q n # rs) =
     (if q = p then n # reserved_sequences p rs else reserved_sequences p rs)"
| "reserved_sequences p (_ # rs) = reserved_sequences p rs"

lemma admission_step_effect:
  assumes "admission_ok a" "admission_step a op = (r, a')"
  shows "admission_ok a' \<and> adm_max a' = adm_max a \<and>
    (case r of
       Reserved p n \<Rightarrow> op = Reserve p \<and> n = next_sequence_of a p \<and> n < u64_max \<and>
         (\<forall>q. next_sequence_of a' q = (if q = p then Suc n else next_sequence_of a q) \<and>
              in_flight_of a' q = (if q = p then Suc (in_flight_of a q) else in_flight_of a q))
     | Released p \<Rightarrow> op = Release p \<and> 0 < in_flight_of a p \<and>
         (\<forall>q. next_sequence_of a' q = next_sequence_of a q \<and>
              in_flight_of a' q = (if q = p then in_flight_of a q - 1 else in_flight_of a q))
     | Refused \<Rightarrow> a' = a)"
proof (cases op)
  case (Reserve p)
  obtain res a'' where res: "reserve a p = (res, a'')" by (metis prod.exhaust)
  show ?thesis
  proof (cases res)
    case (Inl e)
    with assms Reserve res reserve_error_keeps show ?thesis
      by (fastforce simp: admission_step_def)
  next
    case (Inr n)
    with res have res': "reserve a p = (Inr n, a'')" by simp
    have ok: "admission_ok a''" using assms(1) res by (rule reserve_ok)
    from res' show ?thesis
    proof (rule reserve_cases)
      fix s
      assume "bt_get (adm_partitions a) p = Some s" "n = pa_next_sequence s" "n < u64_max"
        "a'' = a\<lparr>adm_partitions := bt_insert p \<lparr>pa_next_sequence = Suc n, pa_in_flight = Suc (pa_in_flight s)\<rparr>
           (adm_partitions a), total_records := Suc (total_records a)\<rparr>"
      with assms(2) Reserve res' ok show ?thesis
        by (auto simp: admission_step_def next_sequence_of_def in_flight_of_def bt_get_insert)
    qed
  qed
next
  case (Release p)
  obtain res a'' where res: "admission_release a p = (res, a'')" by (metis prod.exhaust)
  show ?thesis
  proof (cases res)
    case (Inl e)
    with assms Release res admission_release_error_keeps show ?thesis
      by (fastforce simp: admission_step_def)
  next
    case (Inr u)
    with res have res': "admission_release a p = (Inr u, a'')" by simp
    have ok: "admission_ok a''" using assms(1) res by (rule admission_release_ok)
    from res' show ?thesis
    proof (rule admission_release_cases)
      fix s
      assume "bt_get (adm_partitions a) p = Some s" "0 < pa_in_flight s"
        "a'' = a\<lparr>adm_partitions := bt_insert p (s\<lparr>pa_in_flight := pa_in_flight s - 1\<rparr>) (adm_partitions a),
           total_records := total_records a - 1\<rparr>"
      with assms(2) Release res' ok show ?thesis
        by (auto simp: admission_step_def next_sequence_of_def in_flight_of_def bt_get_insert)
    qed
  qed
qed

lemma next_sequence_le: "admission_ok a \<Longrightarrow> next_sequence_of a p \<le> u64_max"
  by (auto simp: next_sequence_of_def admission_ok_def split: option.split)

lemma in_flight_le_max: "admission_ok a \<Longrightarrow> in_flight_of a p \<le> adm_max a"
  by (auto simp: in_flight_of_def admission_ok_def split: option.split)

lemma admission_run_effect:
  assumes "admission_ok a" "admission_run a ops = (rs, a')"
  shows "admission_ok a' \<and> adm_max a' = adm_max a \<and>
    next_sequence_of a p \<le> next_sequence_of a' p \<and>
    reserved_sequences p rs = [next_sequence_of a p..<next_sequence_of a' p] \<and>
    in_flight_of a' p + count_list rs (Released p) = in_flight_of a p + length (reserved_sequences p rs)"
  using assms
proof (induction ops arbitrary: a rs)
  case Nil
  then show ?case by simp
next
  case (Cons op ops)
  then obtain r a1 rs1 where step: "admission_step a op = (r, a1)"
      and rest: "admission_run a1 ops = (rs1, a')" and rs: "rs = r # rs1"
    by (auto split: prod.splits)
  note effect = admission_step_effect [OF Cons.prems(1) step]
  then have ok1: "admission_ok a1" by simp
  note IH = Cons.IH [OF ok1 rest]
  show ?case
  proof (cases r)
    case (Reserved q n)
    show ?thesis
    proof (cases "q = p")
      case True
      with Reserved effect IH have "next_sequence_of a1 p = Suc n" "n = next_sequence_of a p"
          "in_flight_of a1 p = Suc (in_flight_of a p)" by auto
      with IH effect True Reserved rs show ?thesis
        by (auto simp: upt_conv_Cons)
    qed (use Reserved effect IH rs in auto)
  next
    case (Released q)
    with effect have lt: "0 < in_flight_of a q" and eff: "\<forall>q'. next_sequence_of a1 q' = next_sequence_of a q' \<and>
        in_flight_of a1 q' = (if q' = q then in_flight_of a q' - 1 else in_flight_of a q')"
      by auto
    show ?thesis
    proof (cases "q = p")
      case True
      with eff lt have a1: "next_sequence_of a1 p = next_sequence_of a p" "0 < in_flight_of a p"
          "in_flight_of a1 p = in_flight_of a p - 1" by auto
      from IH have bal: "in_flight_of a' p + count_list rs1 (Released p)
          = in_flight_of a1 p + length (reserved_sequences p rs1)" by (elim conjE)
      have "reserved_sequences p rs = reserved_sequences p rs1"
        "count_list rs (Released p) = Suc (count_list rs1 (Released p))"
        using rs Released True by simp_all
      moreover from bal a1 have "in_flight_of a' p + Suc (count_list rs1 (Released p))
          = in_flight_of a p + length (reserved_sequences p rs1)" by linarith
      moreover have "adm_max a1 = adm_max a" using effect by simp
      ultimately show ?thesis using IH a1(1) by (intro conjI) (simp_all del: length_upt)
    qed (use Released effect IH rs eff in auto)
  qed (use effect IH rs in auto)
qed

lemma total_records_zero_iff:
  assumes "admission_ok a"
  shows "total_records a = 0 \<longleftrightarrow> (\<forall>p. in_flight_of a p = 0)"
proof
  assume "total_records a = 0"
  then show "\<forall>p. in_flight_of a p = 0"
    using in_flight_le_total [OF assms] by simp
next
  assume z: "\<forall>p. in_flight_of a p = 0"
  have "pa_in_flight s = 0" if "bt_get (adm_partitions a) p = Some s" for p s
    using z that by (metis in_flight_of_def option.simps(5))
  with assms show "total_records a = 0"
    using bt_values_const [of "adm_partitions a" pa_in_flight] by (auto simp: admission_ok_def)
qed

lemmas admission_eval = admission_new_def reserve_def can_reserve_def admission_release_def
  admission_step_def checked_add_def usize_max_def bt_of_list_def bt_empty_def bt_get_def

text \<open>
  C26. Over any run of reserve and release attempts: the sequences a partition hands out are
  \<open>0, 1, 2, \<dots>\<close> without gaps and never \<open>u64::MAX\<close> (so the orderer's unchecked increment cannot wrap),
  its records in flight are the difference of accepted reserves and releases and never exceed the
  limit, and a release is accepted exactly while one is outstanding.
\<close>

theorem admission_dense_and_balanced:
  assumes "admission_run (admission_new ps limit) ops = (rs, a)"
  shows "reserved_sequences p rs = [0..<length (reserved_sequences p rs)]
    \<and> (\<forall>n \<in> set (reserved_sequences p rs). n < u64_max)
    \<and> in_flight_of a p + count_list rs (Released p) = length (reserved_sequences p rs)
    \<and> in_flight_of a p \<le> limit
    \<and> (fst (admission_release a p) = Inr () \<longleftrightarrow>
         count_list rs (Released p) < length (reserved_sequences p rs))"
proof -
  have z: "next_sequence_of (admission_new ps limit) p = 0" "in_flight_of (admission_new ps limit) p = 0"
    by (auto simp: next_sequence_of_def in_flight_of_def admission_new_def bt_get_of_list
        dest!: map_of_SomeD split: option.split)
  note run = admission_run_effect [OF admission_ok_new assms, of p, unfolded z]
  then have ok: "admission_ok a" by simp
  have "adm_max a = limit" using run by (simp add: admission_new_def)
  with run in_flight_le_max [OF ok, of p] next_sequence_le [OF ok, of p] release_succeeds_iff [OF ok, of p]
  show ?thesis by auto
qed

theorem admission_dense_and_balanced_witness:
  "fst (admission_run (admission_new [0, 1] 1)
      [Reserve 0, Reserve 0, Reserve 1, Release 0, Reserve 0, Release 0, Release 0])
    = [Reserved 0 0, Refused, Reserved 1 0, Released 0, Reserved 0 1, Released 0, Refused] \<and>
   reserved_sequences 0 (fst (admission_run (admission_new [0, 1] 1)
      [Reserve 0, Reserve 0, Reserve 1, Release 0, Reserve 0, Release 0, Release 0])) = [0, 1]"
proof -
  let ?run = "admission_run (admission_new [0, 1] 1)
      [Reserve 0, Reserve 0, Reserve 1, Release 0, Reserve 0, Release 0, Release 0]"
  have run: "fst ?run
    = [Reserved 0 0, Refused, Reserved 1 0, Released 0, Reserved 0 1, Released 0, Refused]"
    by (simp add: admission_eval)
  from admission_dense_and_balanced [where p = 0, OF prod.collapse [symmetric, of ?run]] run
  have "reserved_sequences 0 (fst ?run) = [0..<length (reserved_sequences 0 (fst ?run))]" by blast
  with run show ?thesis by (simp add: upt_rec)
qed

text \<open>
  The poller's exit test is right: on every reachable admission state
  \<open>total_records\<close> is zero exactly when no partition has a record in flight.
\<close>

theorem admission_drained:
  assumes "admission_run (admission_new ps limit) ops = (rs, a)"
  shows "total_records a = 0 \<longleftrightarrow>
    (\<forall>p. count_list rs (Released p) = length (reserved_sequences p rs))"
proof -
  have z: "in_flight_of (admission_new ps limit) p = 0" for p
    by (auto simp: in_flight_of_def admission_new_def bt_get_of_list
        dest!: map_of_SomeD split: option.split)
  have ok: "admission_ok a"
    using admission_run_effect [OF admission_ok_new assms] by simp
  have "in_flight_of a p = 0 \<longleftrightarrow> count_list rs (Released p) = length (reserved_sequences p rs)" for p
    using admission_run_effect [OF admission_ok_new assms, of p] z [of p] by auto
  with total_records_zero_iff [OF ok] show ?thesis by simp
qed

theorem admission_drained_witness:
  "total_records (snd (admission_run (admission_new [7] 4) [Reserve 7, Reserve 7, Release 7, Release 7])) = 0"
proof -
  have run: "fst (admission_run (admission_new [7] 4) [Reserve 7, Reserve 7, Release 7, Release 7])
      = [Reserved 7 0, Reserved 7 1, Released 7, Released 7]"
    by (simp add: admission_eval)
  show ?thesis
    using admission_drained [OF prod.collapse [symmetric, of
      "admission_run (admission_new [7] 4) [Reserve 7, Reserve 7, Release 7, Release 7]"]]
    unfolding run by simp
qed

end
