(* ===== verification/Shared_Admission.thy ===== *)
theory Shared_Admission
  imports Runtime_Types
begin

text \<open>
  The process-wide half of admission in \<open>src/runtime/state.rs\<close>: \<open>SharedAdmission\<close> bounds the records
  and bytes in flight and the number of admitted records with three atomic counters that every
  poller updates. \<open>try_reserve\<close> is given twice: as one call, and as the sequence of atomic updates
  it makes, which interleave with those of the other pollers in \<open>sa_step\<close>; \<open>solo\<close> is one poller's steps alone.
\<close>

section \<open>State and atomic updates\<close>

record shared_admission =
  sa_records :: nat
  sa_bytes :: nat
  sa_admitted :: nat
  sa_limits :: runtime_limits
  sa_count_limit :: "nat option"

definition shared_new :: "runtime_limits \<Rightarrow> nat option \<Rightarrow> shared_admission" where
  "shared_new limits count_limit =
     \<lparr>sa_records = 0, sa_bytes = 0, sa_admitted = 0, sa_limits = limits, sa_count_limit = count_limit\<rparr>"

text \<open>\<open>fetch_sub\<close> wraps around below zero.\<close>

definition fetch_sub :: "nat \<Rightarrow> nat \<Rightarrow> nat" where
  "fetch_sub x n = (if n \<le> x then x - n else x + (usize_max + 1) - n)"

definition take_record :: "shared_admission \<Rightarrow> shared_admission option" where
  "take_record a = (if sa_records a < max_inflight_records (sa_limits a)
     then Some (a\<lparr>sa_records := sa_records a + 1\<rparr>) else None)"

definition take_bytes :: "nat \<Rightarrow> shared_admission \<Rightarrow> shared_admission option" where
  "take_bytes b a = (case checked_add (sa_bytes a) b of
      None \<Rightarrow> None
    | Some t \<Rightarrow>
        if t \<le> max_inflight_bytes (sa_limits a)
          \<or> (sa_bytes a = 0 \<and> b > max_inflight_bytes (sa_limits a))
        then Some (a\<lparr>sa_bytes := t\<rparr>) else None)"

definition take_count :: "shared_admission \<Rightarrow> shared_admission option" where
  "take_count a = (case sa_count_limit a of
      None \<Rightarrow> Some a
    | Some l \<Rightarrow> if sa_admitted a < l then Some (a\<lparr>sa_admitted := sa_admitted a + 1\<rparr>) else None)"

definition undo_record :: "shared_admission \<Rightarrow> shared_admission" where
  "undo_record a = a\<lparr>sa_records := fetch_sub (sa_records a) 1\<rparr>"

definition undo_bytes :: "nat \<Rightarrow> shared_admission \<Rightarrow> shared_admission" where
  "undo_bytes b a = a\<lparr>sa_bytes := fetch_sub (sa_bytes a) b\<rparr>"

definition try_reserve :: "nat \<Rightarrow> shared_admission \<Rightarrow> bool \<times> shared_admission" where
  "try_reserve b a = (case take_record a of
      None \<Rightarrow> (False, a)
    | Some a1 \<Rightarrow> (case take_bytes b a1 of
        None \<Rightarrow> (False, undo_record a1)
      | Some a2 \<Rightarrow> (case take_count a2 of
          None \<Rightarrow> (False, undo_record (undo_bytes b a2))
        | Some a3 \<Rightarrow> (True, a3))))"

datatype shared_error = RecordUnderflow | ByteUnderflow

definition release_records :: "nat \<Rightarrow> shared_admission \<Rightarrow> shared_admission option" where
  "release_records n a = map_option (\<lambda>r. a\<lparr>sa_records := r\<rparr>) (checked_sub (sa_records a) n)"

definition release_bytes :: "nat \<Rightarrow> shared_admission \<Rightarrow> shared_admission option" where
  "release_bytes b a = map_option (\<lambda>r. a\<lparr>sa_bytes := r\<rparr>) (checked_sub (sa_bytes a) b)"

definition shared_release :: "nat \<Rightarrow> nat \<Rightarrow> shared_admission \<Rightarrow> (shared_error + unit) \<times> shared_admission" where
  "shared_release n b a = (case release_records n a of
      None \<Rightarrow> (Inl RecordUnderflow, a)
    | Some a1 \<Rightarrow> (case release_bytes b a1 of
        None \<Rightarrow> (Inl ByteUnderflow, a1)
      | Some a2 \<Rightarrow> (Inr (), a2)))"

definition count_reached :: "shared_admission \<Rightarrow> bool" where
  "count_reached a = (case sa_count_limit a of None \<Rightarrow> False | Some l \<Rightarrow> sa_admitted a \<ge> l)"

lemmas shared_defs = take_record_def take_bytes_def take_count_def undo_record_def undo_bytes_def
  release_records_def release_bytes_def checked_sub_def checked_add_def fetch_sub_def

section \<open>One call alone\<close>

definition fits :: "nat \<Rightarrow> shared_admission \<Rightarrow> bool" where
  "fits b a \<longleftrightarrow> sa_records a < max_inflight_records (sa_limits a) \<and>
     sa_bytes a + b \<le> usize_max \<and>
     (sa_bytes a + b \<le> max_inflight_bytes (sa_limits a) \<or>
        sa_bytes a = 0 \<and> b > max_inflight_bytes (sa_limits a)) \<and>
     \<not> count_reached a"

text \<open>
  A call of \<open>try_reserve\<close> without interference: it succeeds exactly when record, byte and
  count budget allow (an oversized record only alone), then charges one record and its bytes and
  counts the admission; otherwise it leaves every counter as it was.
\<close>

theorem try_reserve_spec:
  "try_reserve b a =
     (if fits b a
      then (True, a\<lparr>sa_records := sa_records a + 1, sa_bytes := sa_bytes a + b,
                   sa_admitted := (if sa_count_limit a = None then sa_admitted a else sa_admitted a + 1)\<rparr>)
      else (False, a))"
  by (cases "sa_count_limit a")
    (auto simp: try_reserve_def fits_def count_reached_def shared_defs split: if_splits)

text \<open>
  Releasing what was reserved restores the counters, so a budget is never lost and the next
  reservation sees the same room.
\<close>

theorem release_inverts_reserve:
  assumes "try_reserve b a = (True, a')"
  shows "shared_release 1 b a' =
    (Inr (), a\<lparr>sa_admitted := (if sa_count_limit a = None then sa_admitted a else sa_admitted a + 1)\<rparr>)"
  using assms
  by (auto simp: try_reserve_def shared_release_def shared_defs split: if_splits option.splits)

theorem release_inverts_reserve_witness:
  "shared_release 1 70 (snd (try_reserve 70 (shared_new \<lparr>max_inflight_records = 2, max_inflight_bytes = 64,
       max_inflight_per_partition = 1\<rparr> (Some 5)))) =
   (Inr (), (shared_new \<lparr>max_inflight_records = 2, max_inflight_bytes = 64,
       max_inflight_per_partition = 1\<rparr> (Some 5))\<lparr>sa_admitted := 1\<rparr>)"
proof -
  let ?a = "shared_new \<lparr>max_inflight_records = 2, max_inflight_bytes = 64,
       max_inflight_per_partition = 1\<rparr> (Some 5)"
  have "fst (try_reserve 70 ?a)"
    by (simp add: try_reserve_def shared_new_def shared_defs usize_max_def)
  then have "try_reserve 70 ?a = (True, snd (try_reserve 70 ?a))"
    by (simp add: prod_eq_iff)
  from release_inverts_reserve [OF this] show ?thesis by (simp add: shared_new_def)
qed

section \<open>Interleaved calls\<close>

text \<open>
  Where a poller stands between its atomic updates. \<open>Took_record\<close> and \<open>Took_bytes\<close> are inside
  \<open>try_reserve\<close>, \<open>Undo_bytes\<close> and \<open>Undo_record\<close> on its failure paths, \<open>Freed_records\<close> inside
  \<open>release\<close>; \<open>Underflow\<close> is the error a release reports.
\<close>

datatype sa_pc = Quiet | Took_record nat | Took_bytes nat | Undo_bytes nat | Undo_record
  | Freed_records nat | Underflow

record sa_state =
  st_shared :: shared_admission
  st_pcs :: "sa_pc list"
  st_held :: "nat multiset"
  st_admissions :: nat

text \<open>The next update of a poller inside a call; the last component is the charge it has now admitted.\<close>

fun pc_step :: "sa_pc \<Rightarrow> shared_admission \<Rightarrow> sa_pc \<times> shared_admission \<times> nat option" where
  "pc_step (Took_record b) a = (case take_bytes b a of
      None \<Rightarrow> (Undo_record, a, None)
    | Some a' \<Rightarrow> (Took_bytes b, a', None))"
| "pc_step (Took_bytes b) a = (case take_count a of
      None \<Rightarrow> (Undo_bytes b, a, None)
    | Some a' \<Rightarrow> (Quiet, a', Some b))"
| "pc_step (Undo_bytes b) a = (Undo_record, undo_bytes b a, None)"
| "pc_step Undo_record a = (Quiet, undo_record a, None)"
| "pc_step (Freed_records b) a = (case release_bytes b a of
      None \<Rightarrow> (Underflow, a, None)
    | Some a' \<Rightarrow> (Quiet, a', None))"
| "pc_step Quiet a = (Quiet, a, None)"
| "pc_step Underflow a = (Underflow, a, None)"

text \<open>
  \<open>st_held\<close> are the charges admitted and not yet given back; a poller releases a batch of them.
\<close>

inductive sa_step :: "sa_state \<Rightarrow> sa_state \<Rightarrow> bool" where
  reserve_full:
    "i < length (st_pcs s) \<Longrightarrow> st_pcs s ! i = Quiet \<Longrightarrow> take_record (st_shared s) = None \<Longrightarrow>
     sa_step s s"
| reserve_starts:
    "i < length (st_pcs s) \<Longrightarrow> st_pcs s ! i = Quiet \<Longrightarrow> take_record (st_shared s) = Some a \<Longrightarrow>
     sa_step s (s\<lparr>st_shared := a, st_pcs := (st_pcs s)[i := Took_record b]\<rparr>)"
| continues:
    "i < length (st_pcs s) \<Longrightarrow> st_pcs s ! i \<noteq> Quiet \<Longrightarrow>
     pc_step (st_pcs s ! i) (st_shared s) = (pc, a, None) \<Longrightarrow>
     sa_step s (s\<lparr>st_shared := a, st_pcs := (st_pcs s)[i := pc]\<rparr>)"
| admits:
    "i < length (st_pcs s) \<Longrightarrow> st_pcs s ! i \<noteq> Quiet \<Longrightarrow>
     pc_step (st_pcs s ! i) (st_shared s) = (pc, a, Some b) \<Longrightarrow>
     sa_step s (s\<lparr>st_shared := a, st_pcs := (st_pcs s)[i := pc], st_held := add_mset b (st_held s),
       st_admissions := st_admissions s + 1\<rparr>)"
| release_starts:
    "i < length (st_pcs s) \<Longrightarrow> st_pcs s ! i = Quiet \<Longrightarrow> B \<subseteq># st_held s \<Longrightarrow>
     release_records (size B) (st_shared s) = Some a \<Longrightarrow>
     sa_step s (s\<lparr>st_shared := a, st_pcs := (st_pcs s)[i := Freed_records (sum_mset B)],
       st_held := st_held s - B\<rparr>)"
| release_fails:
    "i < length (st_pcs s) \<Longrightarrow> st_pcs s ! i = Quiet \<Longrightarrow> B \<subseteq># st_held s \<Longrightarrow>
     release_records (size B) (st_shared s) = None \<Longrightarrow>
     sa_step s (s\<lparr>st_pcs := (st_pcs s)[i := Underflow], st_held := st_held s - B\<rparr>)"

definition sa_init :: "nat \<Rightarrow> runtime_limits \<Rightarrow> nat option \<Rightarrow> sa_state" where
  "sa_init n limits count_limit =
     \<lparr>st_shared = shared_new limits count_limit, st_pcs = replicate n Quiet,
      st_held = {#}, st_admissions = 0\<rparr>"

section \<open>Invariant\<close>

text \<open>What a poller inside a call still holds of each counter.\<close>

fun pc_records :: "sa_pc \<Rightarrow> nat" where
  "pc_records (Took_record _) = 1"
| "pc_records (Took_bytes _) = 1"
| "pc_records (Undo_bytes _) = 1"
| "pc_records Undo_record = 1"
| "pc_records _ = 0"

fun pc_bytes :: "sa_pc \<Rightarrow> nat" where
  "pc_bytes (Took_bytes b) = b"
| "pc_bytes (Undo_bytes b) = b"
| "pc_bytes (Freed_records b) = b"
| "pc_bytes _ = 0"

definition pcs_records :: "sa_pc list \<Rightarrow> nat" where
  "pcs_records pcs = sum_list (map pc_records pcs)"

definition pcs_bytes :: "sa_pc list \<Rightarrow> nat" where
  "pcs_bytes pcs = sum_list (map pc_bytes pcs)"

text \<open>How many charges are positive, among those in a call and among those admitted.\<close>

definition sgn_nat :: "nat \<Rightarrow> nat" where
  "sgn_nat n = (if n = 0 then 0 else 1)"

definition pcs_positive :: "sa_pc list \<Rightarrow> nat" where
  "pcs_positive pcs = sum_list (map (\<lambda>pc. sgn_nat (pc_bytes pc)) pcs)"

definition held_bytes :: "nat multiset \<Rightarrow> nat" where
  "held_bytes H = sum_mset H"

definition held_positive :: "nat multiset \<Rightarrow> nat" where
  "held_positive H = sum_mset (image_mset sgn_nat H)"

definition sa_ok :: "sa_state \<Rightarrow> bool" where
  "sa_ok s \<longleftrightarrow>
     Underflow \<notin> set (st_pcs s) \<and>
     sa_records (st_shared s) = size (st_held s) + pcs_records (st_pcs s) \<and>
     sa_bytes (st_shared s) = held_bytes (st_held s) + pcs_bytes (st_pcs s) \<and>
     sa_records (st_shared s) \<le> max_inflight_records (sa_limits (st_shared s)) \<and>
     (sa_bytes (st_shared s) \<le> max_inflight_bytes (sa_limits (st_shared s))
       \<or> held_positive (st_held s) + pcs_positive (st_pcs s) \<le> 1) \<and>
     (case sa_count_limit (st_shared s) of None \<Rightarrow> True
      | Some l \<Rightarrow> sa_admitted (st_shared s) = st_admissions s \<and> st_admissions s \<le> l)"

lemma pcs_update:
  assumes "i < length pcs"
  shows "pcs_records (pcs[i := pc]) + pc_records (pcs ! i) = pcs_records pcs + pc_records pc"
    and "pcs_bytes (pcs[i := pc]) + pc_bytes (pcs ! i) = pcs_bytes pcs + pc_bytes pc"
    and "pcs_positive (pcs[i := pc]) + sgn_nat (pc_bytes (pcs ! i)) = pcs_positive pcs + sgn_nat (pc_bytes pc)"
    and "pc_records (pcs ! i) \<le> pcs_records pcs"
    and "pc_bytes (pcs ! i) \<le> pcs_bytes pcs"
    and "sgn_nat (pc_bytes (pcs ! i)) \<le> pcs_positive pcs"
  unfolding pcs_records_def pcs_bytes_def pcs_positive_def
  by (simp_all only: sum_list_map_update [OF assms] sum_list_ge_nth [OF assms]
      sum_list_map_update [OF assms, of "\<lambda>pc. sgn_nat (pc_bytes pc)"]
      sum_list_ge_nth [OF assms, of "\<lambda>pc. sgn_nat (pc_bytes pc)"])

lemma held_add [simp]:
  "held_bytes (add_mset b H) = b + held_bytes H"
  "held_positive (add_mset b H) = sgn_nat b + held_positive H"
  by (simp_all add: held_bytes_def held_positive_def)

lemma held_bytes_sum: "sum_mset B = held_bytes B"
  by (simp add: held_bytes_def)

lemma held_take:
  assumes "B \<subseteq># H"
  shows "held_bytes (H - B) + held_bytes B = held_bytes H"
    and "held_positive (H - B) + held_positive B = held_positive H"
    and "size (H - B) + size B = size H"
proof -
  from assms obtain C where "H = B + C" by (auto simp: mset_subset_eq_exists_conv)
  then show "held_bytes (H - B) + held_bytes B = held_bytes H"
    and "held_positive (H - B) + held_positive B = held_positive H"
    and "size (H - B) + size B = size H"
    by (simp_all add: held_bytes_def held_positive_def)
qed

lemma held_sign: "sgn_nat (held_bytes B) \<le> held_positive B"
  by (induction B) (auto simp: sgn_nat_def held_bytes_def held_positive_def split: if_splits)

lemma none_positive: "held_bytes H = 0 \<Longrightarrow> held_positive H = 0" "pcs_bytes pcs = 0 \<Longrightarrow> pcs_positive pcs = 0"
  by (auto simp: held_bytes_def held_positive_def pcs_bytes_def pcs_positive_def sgn_nat_def)

lemma mem_update: "x \<notin> set xs \<Longrightarrow> x \<noteq> y \<Longrightarrow> x \<notin> set (xs[i := y])"
  by (meson insertE set_update_subset_insert subsetD)

lemma continues_ok:
  assumes ok: "sa_ok s" and i: "i < length (st_pcs s)"
    and step: "pc_step (st_pcs s ! i) (st_shared s) = (pc, a, adm)"
  shows "sa_ok (s\<lparr>st_shared := a, st_pcs := (st_pcs s)[i := pc],
      st_held := (case adm of None \<Rightarrow> st_held s | Some b \<Rightarrow> add_mset b (st_held s)),
      st_admissions := (case adm of None \<Rightarrow> st_admissions s | Some _ \<Rightarrow> st_admissions s + 1)\<rparr>)"
proof -
  note upd = pcs_update [OF i]
  have live: "st_pcs s ! i \<noteq> Underflow" using ok i nth_mem unfolding sa_ok_def by metis
  have fine: "pc \<noteq> Underflow"
    using step live upd(5) ok
    by (cases "st_pcs s ! i") (auto simp: sa_ok_def shared_defs split: option.splits if_splits)
  have "Underflow \<notin> set ((st_pcs s)[i := pc])"
    using ok fine mem_update [of Underflow "st_pcs s" pc i] by (simp add: sa_ok_def)
  then show ?thesis
    using step live upd(1,2,3) [of pc] upd(4,5,6) ok none_positive(1) [of "st_held s"] none_positive(2) [of "st_pcs s"]
    by (cases "st_pcs s ! i")
      (auto simp: sa_ok_def shared_defs sgn_nat_def split: option.splits if_splits)
qed

lemma release_starts_ok:
  assumes ok: "sa_ok s" and i: "i < length (st_pcs s)" and quiet: "st_pcs s ! i = Quiet"
    and B: "B \<subseteq># st_held s" and rel: "release_records (size B) (st_shared s) = Some a"
  shows "sa_ok (s\<lparr>st_shared := a, st_pcs := (st_pcs s)[i := Freed_records (sum_mset B)],
      st_held := st_held s - B\<rparr>)"
proof -
  have "Underflow \<notin> set ((st_pcs s)[i := Freed_records (held_bytes B)])"
    using ok mem_update [of Underflow "st_pcs s" "Freed_records (held_bytes B)" i] by (simp add: sa_ok_def)
  then show ?thesis
    using quiet rel held_take [OF B] pcs_update(1,2,3) [OF i, of "Freed_records (held_bytes B)"]
      ok held_sign [of B]
    by (auto simp: sa_ok_def shared_defs sgn_nat_def held_bytes_sum split: option.splits if_splits)
qed

lemma release_possible:
  assumes "sa_ok s" "B \<subseteq># st_held s"
  shows "release_records (size B) (st_shared s) \<noteq> None"
  using assms size_mset_mono [OF assms(2)] by (auto simp: sa_ok_def shared_defs)

lemma sa_ok_init: "sa_ok (sa_init n limits count_limit)"
  by (auto simp: sa_ok_def sa_init_def shared_new_def pcs_records_def pcs_bytes_def pcs_positive_def
      held_bytes_def held_positive_def sgn_nat_def sum_list_replicate split: option.split)

lemma sa_ok_step:
  assumes "sa_step s s'" "sa_ok s"
  shows "sa_ok s'"
  using assms
proof (induction rule: sa_step.induct)
  case (reserve_starts i s a b)
  have "Underflow \<notin> set ((st_pcs s)[i := Took_record b])"
    using reserve_starts mem_update [of Underflow "st_pcs s" "Took_record b" i] by (simp add: sa_ok_def)
  with reserve_starts pcs_update(1,2,3) [OF reserve_starts.hyps(1), of "Took_record b"] show ?case
    by (auto simp: sa_ok_def shared_defs sgn_nat_def split: option.splits if_splits)
next
  case (continues i s pc a)
  from continues_ok [OF continues.prems continues.hyps(1,3)] show ?case by simp
next
  case (admits i s pc a b)
  from continues_ok [OF admits.prems admits.hyps(1,3)] show ?case by simp
next
  case (release_starts i s B a)
  then show ?case by (blast intro: release_starts_ok)
next
  case (release_fails i s B)
  with release_possible show ?case by blast
qed

lemma pc_step_limits:
  "pc_step pc a = (pc', a', adm) \<Longrightarrow> sa_limits a' = sa_limits a \<and> sa_count_limit a' = sa_count_limit a"
  by (cases pc) (auto simp: shared_defs split: option.splits if_splits)

lemma sa_step_limits:
  "sa_step s s' \<Longrightarrow> sa_limits (st_shared s') = sa_limits (st_shared s) \<and>
     sa_count_limit (st_shared s') = sa_count_limit (st_shared s)"
  by (induction rule: sa_step.induct) (auto simp: shared_defs dest: pc_step_limits split: if_splits)

lemma sa_reachable:
  assumes "sa_step\<^sup>*\<^sup>* (sa_init n limits count_limit) s"
  shows "sa_ok s \<and> sa_limits (st_shared s) = limits \<and> sa_count_limit (st_shared s) = count_limit"
  using assms
proof (induction rule: rtranclp_induct)
  case base
  show ?case using sa_ok_init [of n limits count_limit] by (simp add: sa_init_def shared_new_def)
next
  case (step s s')
  with sa_ok_step sa_step_limits show ?case by metis
qed

section \<open>What the interleaving guarantees\<close>

text \<open>
  C15. Whatever the pollers' atomic updates interleave to: the records in flight never exceed
  their limit, the bytes in flight never exceed theirs unless one record alone accounts for all of
  them, no more records are ever admitted than the count limit, and no release underflows.
\<close>

theorem admission_limits_hold:
  assumes "sa_step\<^sup>*\<^sup>* (sa_init n limits count_limit) s"
  shows "size (st_held s) \<le> max_inflight_records limits
    \<and> (sum_mset (st_held s) \<le> max_inflight_bytes limits \<or> size {#b \<in># st_held s. 0 < b#} \<le> 1)
    \<and> (\<forall>l. count_limit = Some l \<longrightarrow> st_admissions s \<le> l)
    \<and> Underflow \<notin> set (st_pcs s)"
proof -
  have "held_positive H = size {#b \<in># H. 0 < b#}" for H
    by (induction H) (auto simp: held_positive_def sgn_nat_def)
  with sa_reachable [OF assms] show ?thesis
    by (auto simp: sa_ok_def held_bytes_def)
qed

definition race_limits :: runtime_limits where
  "race_limits = \<lparr>max_inflight_records = 2, max_inflight_bytes = 64, max_inflight_per_partition = 1\<rparr>"

text \<open>A race of two pollers: the first admits an oversized record, the second finds no room and undoes.\<close>

definition raced :: sa_state where
  "raced = \<lparr>st_shared = \<lparr>sa_records = 1, sa_bytes = 70, sa_admitted = 1, sa_limits = race_limits,
      sa_count_limit = Some 5\<rparr>, st_pcs = [Quiet, Quiet], st_held = {#70#}, st_admissions = 1\<rparr>"

lemma raced_reachable: "sa_step\<^sup>*\<^sup>* (sa_init 2 race_limits (Some 5)) raced"
proof -
  define sh where "sh r b n = \<lparr>sa_records = r, sa_bytes = b, sa_admitted = n, sa_limits = race_limits,
      sa_count_limit = Some (5::nat)\<rparr>" for r b n
  define st where "st a pcs H n = \<lparr>st_shared = a, st_pcs = pcs, st_held = H, st_admissions = n\<rparr>" for a pcs H n
  note sim = sh_def st_def race_limits_def shared_defs usize_max_def
  have "sa_step (st (sh 0 0 0) [Quiet, Quiet] {#} 0) (st (sh 1 0 0) [Took_record 70, Quiet] {#} 0)"
    using reserve_starts [of 0 "st (sh 0 0 0) [Quiet, Quiet] {#} 0" "sh 1 0 0" 70] by (simp add: sim)
  moreover have "sa_step (st (sh 1 0 0) [Took_record 70, Quiet] {#} 0)
      (st (sh 2 0 0) [Took_record 70, Took_record 10] {#} 0)"
    using reserve_starts [of 1 "st (sh 1 0 0) [Took_record 70, Quiet] {#} 0" "sh 2 0 0" 10] by (simp add: sim)
  moreover have "sa_step (st (sh 2 0 0) [Took_record 70, Took_record 10] {#} 0)
      (st (sh 2 70 0) [Took_bytes 70, Took_record 10] {#} 0)"
    using continues [of 0 "st (sh 2 0 0) [Took_record 70, Took_record 10] {#} 0" "Took_bytes 70" "sh 2 70 0"]
    by (simp add: sim)
  moreover have "sa_step (st (sh 2 70 0) [Took_bytes 70, Took_record 10] {#} 0)
      (st (sh 2 70 0) [Took_bytes 70, Undo_record] {#} 0)"
    using continues [of 1 "st (sh 2 70 0) [Took_bytes 70, Took_record 10] {#} 0" Undo_record "sh 2 70 0"]
    by (simp add: sim)
  moreover have "sa_step (st (sh 2 70 0) [Took_bytes 70, Undo_record] {#} 0)
      (st (sh 2 70 1) [Quiet, Undo_record] {#70#} 1)"
    using admits [of 0 "st (sh 2 70 0) [Took_bytes 70, Undo_record] {#} 0" Quiet "sh 2 70 1" 70]
    by (simp add: sim)
  moreover have "sa_step (st (sh 2 70 1) [Quiet, Undo_record] {#70#} 1) (st (sh 1 70 1) [Quiet, Quiet] {#70#} 1)"
    using continues [of 1 "st (sh 2 70 1) [Quiet, Undo_record] {#70#} 1" Quiet "sh 1 70 1"]
    by (simp add: sim)
  ultimately have "sa_step\<^sup>*\<^sup>* (st (sh 0 0 0) [Quiet, Quiet] {#} 0) (st (sh 1 70 1) [Quiet, Quiet] {#70#} 1)"
    by (meson converse_rtranclp_into_rtranclp rtranclp.rtrancl_refl)
  then show ?thesis
    by (simp add: st_def sh_def raced_def sa_init_def shared_new_def numeral_2_eq_2)
qed

theorem admission_limits_hold_witness:
  "size (st_held raced) \<le> 2 \<and> size {#b \<in># st_held raced. 0 < b#} \<le> 1 \<and> st_admissions raced \<le> 5"
  using admission_limits_hold [OF raced_reachable] by (simp add: raced_def race_limits_def)

text \<open>
  C34. No interleaving leaks budget: whenever every poller is outside its calls, the counters are
  exactly the records and bytes admitted and not yet released, failed attempts leaving no trace.
\<close>

theorem admission_no_leak:
  assumes "sa_step\<^sup>*\<^sup>* (sa_init n limits count_limit) s" "set (st_pcs s) \<subseteq> {Quiet}"
  shows "sa_records (st_shared s) = size (st_held s) \<and> sa_bytes (st_shared s) = sum_mset (st_held s)
    \<and> (count_limit \<noteq> None \<longrightarrow> sa_admitted (st_shared s) = st_admissions s)"
proof -
  have "pcs_records (st_pcs s) = 0" "pcs_bytes (st_pcs s) = 0"
    using assms(2) by (auto simp: pcs_records_def pcs_bytes_def)
  with sa_reachable [OF assms(1)] show ?thesis
    by (auto simp: sa_ok_def held_bytes_def)
qed

theorem admission_no_leak_witness:
  "sa_records (st_shared raced) = size (st_held raced) \<and> sa_bytes (st_shared raced) = sum_mset (st_held raced)"
  using admission_no_leak [OF raced_reachable] by (simp add: raced_def)

section \<open>A call without interference\<close>

text \<open>The steps that poller \<open>i\<close> makes inside a call, and no other poller's.\<close>

inductive solo :: "nat \<Rightarrow> sa_state \<Rightarrow> sa_state \<Rightarrow> bool" for i where
  solo_continues:
    "i < length (st_pcs s) \<Longrightarrow> st_pcs s ! i \<noteq> Quiet \<Longrightarrow>
     pc_step (st_pcs s ! i) (st_shared s) = (pc, a, None) \<Longrightarrow>
     solo i s (s\<lparr>st_shared := a, st_pcs := (st_pcs s)[i := pc]\<rparr>)"
| solo_admits:
    "i < length (st_pcs s) \<Longrightarrow> st_pcs s ! i \<noteq> Quiet \<Longrightarrow>
     pc_step (st_pcs s ! i) (st_shared s) = (pc, a, Some b) \<Longrightarrow>
     solo i s (s\<lparr>st_shared := a, st_pcs := (st_pcs s)[i := pc], st_held := add_mset b (st_held s),
       st_admissions := st_admissions s + 1\<rparr>)"

lemma solo_is_step: "solo i s t \<Longrightarrow> sa_step s t"
  by (induction rule: solo.induct) (blast intro: continues admits)+

lemma solo_deterministic: "solo i s t \<Longrightarrow> solo i s u \<Longrightarrow> t = u"
  by (elim solo.cases) simp_all

lemma solo_quiet: "st_pcs s ! i = Quiet \<Longrightarrow> \<not> solo i s t"
  by (auto elim: solo.cases)

lemma solo_joins:
  assumes "(solo i)\<^sup>*\<^sup>* s t" "(solo i)\<^sup>*\<^sup>* s f" "st_pcs f ! i = Quiet"
  shows "(solo i)\<^sup>*\<^sup>* t f"
  using assms(1)
proof (induction rule: rtranclp_induct)
  case base
  show ?case by (rule assms(2))
next
  case (step t u)
  from step.IH show ?case
  proof (cases rule: converse_rtranclpE)
    case base
    with step.hyps(2) solo_quiet [OF assms(3)] show ?thesis by blast
  next
    case (step v)
    with solo_deterministic [OF step(1) \<open>solo i t u\<close>] show ?thesis by simp
  qed
qed

lemma solo_more:
  assumes "(solo i)\<^sup>*\<^sup>* s t" "i < length (st_pcs t)" "st_pcs t ! i \<noteq> Quiet"
    "pc_step (st_pcs t ! i) (st_shared t) = (pc, a, None)"
  shows "(solo i)\<^sup>*\<^sup>* s (t\<lparr>st_shared := a, st_pcs := (st_pcs t)[i := pc]\<rparr>)"
  using assms solo_continues by (meson rtranclp.rtrancl_into_rtrancl)

text \<open>The state after the call, as \<open>try_reserve\<close> has it.\<close>

definition after_call :: "nat \<Rightarrow> sa_state \<Rightarrow> sa_state" where
  "after_call b s = (case try_reserve b (st_shared s) of (admitted, a) \<Rightarrow>
     if admitted then s\<lparr>st_shared := a, st_held := add_mset b (st_held s), st_admissions := st_admissions s + 1\<rparr>
     else s\<lparr>st_shared := a\<rparr>)"

lemma solo_run:
  assumes i: "i < length (st_pcs s)" "st_pcs s ! i = Quiet" and start: "take_record (st_shared s) = Some a1"
  shows "(solo i)\<^sup>*\<^sup>* (s\<lparr>st_shared := a1, st_pcs := (st_pcs s)[i := Took_record b]\<rparr>) (after_call b s)"
proof -
  let ?s1 = "s\<lparr>st_shared := a1, st_pcs := (st_pcs s)[i := Took_record b]\<rparr>"
  have s1: "(solo i)\<^sup>*\<^sup>* ?s1 ?s1" by blast
  have quiet: "(st_pcs s)[i := Quiet] = st_pcs s" using i(2) by (metis list_update_id)
  show ?thesis
  proof (cases "take_bytes b a1")
    case None
    have "(solo i)\<^sup>*\<^sup>* ?s1 (s\<lparr>st_shared := a1, st_pcs := (st_pcs s)[i := Undo_record]\<rparr>)"
      using solo_more [OF s1, of Undo_record a1] i None by simp
    from solo_more [OF this, of Quiet "undo_record a1"] i quiet show ?thesis
      using start None by (simp add: after_call_def try_reserve_def)
  next
    case a2: (Some a2)
    have s2: "(solo i)\<^sup>*\<^sup>* ?s1 (s\<lparr>st_shared := a2, st_pcs := (st_pcs s)[i := Took_bytes b]\<rparr>)"
      using solo_more [OF s1, of "Took_bytes b" a2] i a2 by simp
    show ?thesis
    proof (cases "take_count a2")
      case None
      have s3: "(solo i)\<^sup>*\<^sup>* ?s1 (s\<lparr>st_shared := a2, st_pcs := (st_pcs s)[i := Undo_bytes b]\<rparr>)"
        using solo_more [OF s2, of "Undo_bytes b" a2] i None by simp
      have "(solo i)\<^sup>*\<^sup>* ?s1 (s\<lparr>st_shared := undo_bytes b a2, st_pcs := (st_pcs s)[i := Undo_record]\<rparr>)"
        using solo_more [OF s3, of Undo_record "undo_bytes b a2"] i by simp
      from solo_more [OF this, of Quiet "undo_record (undo_bytes b a2)"] i quiet show ?thesis
        using start a2 None by (simp add: after_call_def try_reserve_def)
    next
      case a3: (Some a3)
      have "solo i (s\<lparr>st_shared := a2, st_pcs := (st_pcs s)[i := Took_bytes b]\<rparr>)
          (s\<lparr>st_shared := a3, st_pcs := st_pcs s, st_held := add_mset b (st_held s),
             st_admissions := st_admissions s + 1\<rparr>)"
        using solo_admits [of i "s\<lparr>st_shared := a2, st_pcs := (st_pcs s)[i := Took_bytes b]\<rparr>" Quiet a3 b]
          i a3 quiet by simp
      with s2 have "(solo i)\<^sup>*\<^sup>* ?s1 (s\<lparr>st_shared := a3, st_pcs := st_pcs s, st_held := add_mset b (st_held s),
             st_admissions := st_admissions s + 1\<rparr>)"
        by (rule rtranclp.rtrancl_into_rtrancl)
      then show ?thesis using start a2 a3 by (simp add: after_call_def try_reserve_def)
    qed
  qed
qed

text \<open>
  C36. The atomic updates refine the call. When there is no room for a record, the call is over at once: it
  returns false and nothing has changed. Otherwise the poller, running alone from its first update, comes to the end
  of its call, whichever of its steps it has made, and only ever in one state: the one \<open>try_reserve\<close> returns, with every
  counter as there, the charge held and counted when it returned true, and the other pollers untouched.
\<close>

theorem try_reserve_is_solo_run:
  assumes "i < length (st_pcs s)" "st_pcs s ! i = Quiet"
  shows "case take_record (st_shared s) of
      None \<Rightarrow> sa_step s s \<and> try_reserve b (st_shared s) = (False, st_shared s)
    | Some a \<Rightarrow> (let s1 = s\<lparr>st_shared := a, st_pcs := (st_pcs s)[i := Took_record b]\<rparr> in
        sa_step s s1 \<and> (\<forall>t u. solo i t u \<longrightarrow> sa_step t u) \<and>
        (\<forall>t. (solo i)\<^sup>*\<^sup>* s1 t \<longrightarrow> (solo i)\<^sup>*\<^sup>* t (after_call b s)) \<and>
        (\<forall>t. (solo i)\<^sup>*\<^sup>* s1 t \<and> st_pcs t ! i = Quiet \<longleftrightarrow> t = after_call b s))"
proof (cases "take_record (st_shared s)")
  case None
  then show ?thesis using reserve_full [OF assms None] by (simp add: try_reserve_def)
next
  case (Some a)
  let ?s1 = "s\<lparr>st_shared := a, st_pcs := (st_pcs s)[i := Took_record b]\<rparr>" and ?f = "after_call b s"
  note run = solo_run [OF assms Some, of b]
  have final: "st_pcs ?f ! i = Quiet" using assms(2) by (simp add: after_call_def case_prod_beta)
  have joins: "(solo i)\<^sup>*\<^sup>* t ?f" if "(solo i)\<^sup>*\<^sup>* ?s1 t" for t by (rule solo_joins [OF that run final])
  have "t = ?f" if "(solo i)\<^sup>*\<^sup>* ?s1 t" "st_pcs t ! i = Quiet" for t
    using joins [OF that(1)] solo_quiet [OF that(2)] by (metis converse_rtranclpE)
  with reserve_starts [OF assms Some, of b] run final joins solo_is_step show ?thesis
    unfolding Some option.case Let_def by blast
qed

text \<open>After the race above there is no room for ten bytes: the call takes a record, gives it back and changes nothing.\<close>

theorem try_reserve_is_solo_run_witness:
  "\<forall>t. (solo 0)\<^sup>*\<^sup>* (raced\<lparr>st_shared := (st_shared raced)\<lparr>sa_records := 2\<rparr>, st_pcs := [Took_record 10, Quiet]\<rparr>) t \<and>
     st_pcs t ! 0 = Quiet \<longleftrightarrow> t = raced"
proof -
  have start: "take_record (st_shared raced) = Some ((st_shared raced)\<lparr>sa_records := 2\<rparr>)"
    by (simp add: raced_def take_record_def race_limits_def)
  have "0 < length (st_pcs raced)" "st_pcs raced ! 0 = Quiet" "(st_pcs raced)[0 := Took_record 10] = [Took_record 10, Quiet]"
    by (simp_all add: raced_def)
  moreover have "after_call 10 raced = raced"
    by (simp add: after_call_def raced_def try_reserve_def race_limits_def shared_defs usize_max_def)
  ultimately show ?thesis using try_reserve_is_solo_run [of 0 raced 10] unfolding start option.case Let_def by metis
qed

end
