(* ===== verification/Transform.thy ===== *)
theory Transform
  imports Runtime_Types
begin

text \<open>
  Transformation of one record (\<open>src/transform/mod.rs\<close>, \<open>src/transform/jsonata.rs\<close>): compiling the
  plan, evaluating the drop and tombstone predicates in order, rendering the projection or the
  compacted payload into a recycled buffer, and the error policies. The JSONata engine is the
  third-party crate \<open>jx\<close>: its operations are the fields of \<open>jsonata_engine\<close>, a parameter of every definition
  here.
\<close>

section \<open>The engine\<close>

text \<open>
  \<open>'x\<close> is a compiled expression, \<open>'i\<close> a prepared input, \<open>'e\<close> an evaluation, \<open>'v\<close> a value. Errors
  are their messages. The two writers append to a vector and may have written part of it on an error.
\<close>

record ('x, 'i, 'e, 'v) jsonata_engine =
  jx_from_json :: "bytes \<Rightarrow> string + 'v"
  jx_is_object :: "'v \<Rightarrow> bool"
  jx_compile :: "'v option \<Rightarrow> string \<Rightarrow> string + 'x"
  jx_prepare :: "'x list \<Rightarrow> bytes \<Rightarrow> string + 'i"
  jx_evaluate :: "'i \<Rightarrow> nat \<Rightarrow> string + 'e"
  jx_single :: "'e \<Rightarrow> string + 'v option"
  jx_as_bool :: "'v \<Rightarrow> bool option"
  jx_write_json :: "'i \<Rightarrow> nat \<Rightarrow> vec \<Rightarrow> (string + bool) \<times> vec"
  jx_write_compact :: "'i \<Rightarrow> vec \<Rightarrow> (string + unit) \<times> vec"

section \<open>The plan\<close>

record 'x transform_plan =
  tp_drops :: "'x list"
  tp_tombstones :: "'x list"
  tp_drop_tombstones :: bool
  tp_projection :: "'x option"
  tp_parses_json :: bool

definition input_plan :: "'x transform_plan \<Rightarrow> 'x list" where
  "input_plan p = tp_drops p @ tp_tombstones p @ (case tp_projection p of None \<Rightarrow> [] | Some x \<Rightarrow> [x])"

datatype plan_error =
    VarsInvalidJson string
  | VarsNotObject
  | CompileError string string

definition compile_expression ::
    "('x, 'i, 'e, 'v) jsonata_engine \<Rightarrow> 'v option \<Rightarrow> string \<Rightarrow> string \<Rightarrow> plan_error + 'x" where
  "compile_expression jx vars src category = map_err (CompileError category) (jx_compile jx vars src)"

definition numbered :: "string \<Rightarrow> nat \<Rightarrow> string" where
  "numbered category i = category @ '' #'' @ dec_nat (i + 1)"

fun compile_predicates ::
    "('x, 'i, 'e, 'v) jsonata_engine \<Rightarrow> 'v option \<Rightarrow> string \<Rightarrow> nat \<Rightarrow> string list \<Rightarrow> plan_error + 'x list" where
  "compile_predicates jx vars category i [] = Inr []"
| "compile_predicates jx vars category i (src # srcs) =
     bind_r (compile_expression jx vars src (numbered category i)) (\<lambda>x.
     bind_r (compile_predicates jx vars category (i + 1) srcs) (\<lambda>xs. Inr (x # xs)))"

definition parse_variables ::
    "('x, 'i, 'e, 'v) jsonata_engine \<Rightarrow> string option \<Rightarrow> plan_error + 'v option" where
  "parse_variables jx variables = (case variables of
      None \<Rightarrow> Inr None
    | Some src \<Rightarrow> bind_r (map_err VarsInvalidJson (jx_from_json jx src)) (\<lambda>v.
        if \<not> jx_is_object jx v then Inl VarsNotObject else Inr (Some v)))"

definition build_plan ::
    "('x, 'i, 'e, 'v) jsonata_engine \<Rightarrow> string list \<Rightarrow> string list \<Rightarrow> bool \<Rightarrow> string option \<Rightarrow> string option
      \<Rightarrow> bool \<Rightarrow> plan_error + 'x transform_plan" where
  "build_plan jx drops tombstones drop_tombstones projection variables force_json_validation =
     bind_r (parse_variables jx variables) (\<lambda>vars.
     bind_r (compile_predicates jx vars ''drop predicate'' 0 drops) (\<lambda>ds.
     bind_r (compile_predicates jx vars ''tombstone predicate'' 0 tombstones) (\<lambda>ts.
     bind_r (case projection of None \<Rightarrow> Inr None
             | Some src \<Rightarrow> bind_r (compile_expression jx vars src ''projection'') (\<lambda>x. Inr (Some x))) (\<lambda>pr.
     Inr \<lparr>tp_drops = ds, tp_tombstones = ts, tp_drop_tombstones = drop_tombstones, tp_projection = pr,
          tp_parses_json = (force_json_validation \<or> drops \<noteq> [] \<or> tombstones \<noteq> [] \<or> projection \<noteq> None)\<rparr>))))"

section \<open>Policies and errors\<close>

datatype invalid_json_policy = JsonFail | JsonDrop | JsonTombstone | JsonPass
datatype evaluation_policy = EvalFail | EvalDrop | EvalTombstone

record error_policies =
  ep_invalid_json :: invalid_json_policy
  ep_evaluation :: evaluation_policy

datatype transform_error =
    TE_InvalidJson string
  | TE_Evaluation string string

definition transform_error_text :: "transform_error \<Rightarrow> string" where
  "transform_error_text e = (case e of
      TE_InvalidJson m \<Rightarrow> ''invalid JSON: '' @ m
    | TE_Evaluation category m \<Rightarrow> category @ '' evaluation error: '' @ m)"

definition evaluation_error :: "string \<Rightarrow> nat option \<Rightarrow> string \<Rightarrow> transform_error" where
  "evaluation_error category index m =
     TE_Evaluation (case index of None \<Rightarrow> category | Some i \<Rightarrow> numbered category i) m"

definition evaluation_result ::
    "transform_error + action \<Rightarrow> evaluation_policy \<Rightarrow> transform_error + execution" where
  "evaluation_result r policy = (case r of
      Inr a \<Rightarrow> Inr \<lparr>ex_action = a, ex_issue = None\<rparr>
    | Inl e \<Rightarrow> (case policy of
        EvalFail \<Rightarrow> Inl e
      | EvalDrop \<Rightarrow> Inr \<lparr>ex_action = Drop, ex_issue = Some IssueEvaluation\<rparr>
      | EvalTombstone \<Rightarrow> Inr \<lparr>ex_action = Tombstone, ex_issue = Some IssueEvaluation\<rparr>))"

text \<open>The second component is what is left of the source payload.\<close>

definition invalid_json ::
    "invalid_json_policy \<Rightarrow> vec \<Rightarrow> string \<Rightarrow> (transform_error + execution) \<times> vec option" where
  "invalid_json policy original m = (case policy of
      JsonFail \<Rightarrow> (Inl (TE_InvalidJson m), Some original)
    | JsonDrop \<Rightarrow> (Inr \<lparr>ex_action = Drop, ex_issue = Some IssueInvalidJson\<rparr>, Some original)
    | JsonTombstone \<Rightarrow> (Inr \<lparr>ex_action = Tombstone, ex_issue = Some IssueInvalidJson\<rparr>, Some original)
    | JsonPass \<Rightarrow>
        (Inr \<lparr>ex_action = PassThrough (Exact original), ex_issue = Some IssueInvalidJson\<rparr>, None))"

section \<open>The worker\<close>

record 'x worker =
  wk_plan :: "'x transform_plan"
  wk_embeds_json :: bool
  wk_output :: vec
  wk_max_recycled :: nat

definition worker_new :: "'x transform_plan \<Rightarrow> bool \<Rightarrow> nat \<Rightarrow> 'x worker" where
  "worker_new plan embeds limit =
     \<lparr>wk_plan = plan, wk_embeds_json = embeds, wk_output = vec_new, wk_max_recycled = limit\<rparr>"

definition tombstone_action :: "'x transform_plan \<Rightarrow> action" where
  "tombstone_action plan = (if tp_drop_tombstones plan then Drop else Tombstone)"

definition predicate ::
    "('x, 'i, 'e, 'v) jsonata_engine \<Rightarrow> 'i \<Rightarrow> nat \<Rightarrow> string \<Rightarrow> nat \<Rightarrow> transform_error + bool" where
  "predicate jx input expression_index category index =
     bind_r (map_err (evaluation_error category (Some index))
        (bind_r (jx_evaluate jx input expression_index) (jx_single jx))) (\<lambda>value.
     ok_or (Option.bind value (jx_as_bool jx))
       (evaluation_error category (Some index) ''result must be a Boolean''))"

text \<open>One of the two predicate loops, from \<open>index\<close> on with \<open>n\<close> predicates to go.\<close>

fun predicate_loop ::
    "('x, 'i, 'e, 'v) jsonata_engine \<Rightarrow> 'i \<Rightarrow> nat \<Rightarrow> string \<Rightarrow> nat \<Rightarrow> nat \<Rightarrow> transform_error + bool" where
  "predicate_loop jx input base category index 0 = Inr False"
| "predicate_loop jx input base category index (Suc n) =
     bind_r (predicate jx input (base + index) category index) (\<lambda>hit.
       if hit then Inr True else predicate_loop jx input base category (index + 1) n)"

definition evaluate_predicates ::
    "('x, 'i, 'e, 'v) jsonata_engine \<Rightarrow> 'x transform_plan \<Rightarrow> 'i \<Rightarrow> transform_error + action option" where
  "evaluate_predicates jx plan input =
     bind_r (predicate_loop jx input 0 ''drop predicate'' 0 (length (tp_drops plan))) (\<lambda>hit.
       if hit then Inr (Some Drop)
       else bind_r (predicate_loop jx input (length (tp_drops plan)) ''tombstone predicate'' 0
                      (length (tp_tombstones plan))) (\<lambda>hit'.
         if hit' then Inr (Some (tombstone_action plan)) else Inr None))"

text \<open>
  The tail of \<open>execute_report\<close>, after the predicates: render into the cleared scratch buffer, then
  either keep the source and the bounded scratch (error), or hand the scratch out as the result and
  keep the source's allocation as the next scratch when it is small enough.
\<close>

definition render_into ::
    "('x, 'i, 'e, 'v) jsonata_engine \<Rightarrow> 'x transform_plan \<Rightarrow> 'i \<Rightarrow> vec \<Rightarrow> (string + unit) \<times> vec" where
  "render_into jx plan input out =
     (if tp_projection plan \<noteq> None
      then (case jx_write_json jx input (length (tp_drops plan) + length (tp_tombstones plan)) out of
              (r, out') \<Rightarrow>
                (bind_r r (\<lambda>present. if present then Inr () else Inl ''projection emitted no results''), out'))
      else jx_write_compact jx input out)"

definition render_category :: "'x transform_plan \<Rightarrow> string" where
  "render_category plan = (if tp_projection plan \<noteq> None then ''projection'' else ''envelope payload'')"

definition keep_scratch :: "nat \<Rightarrow> vec \<Rightarrow> vec" where
  "keep_scratch limit v = (if vcap v > limit then vec_new else vec_clear v)"

definition render_report ::
    "('x, 'i, 'e, 'v) jsonata_engine \<Rightarrow> error_policies \<Rightarrow> vec \<Rightarrow> 'i \<Rightarrow> 'x worker
      \<Rightarrow> (transform_error + execution) \<times> vec option \<times> 'x worker" where
  "render_report jx policies payload input w =
     (if tp_projection (wk_plan w) = None \<and> \<not> wk_embeds_json w
      then (evaluation_result (Inr (PassThrough (Exact payload))) (ep_evaluation policies), None,
            w\<lparr>wk_output := vec_clear (wk_output w)\<rparr>)
      else (case render_into jx (wk_plan w) input (vec_clear (wk_output w)) of
          (Inl m, out) \<Rightarrow>
            (evaluation_result (Inl (evaluation_error (render_category (wk_plan w)) None m))
               (ep_evaluation policies),
             Some payload,
             w\<lparr>wk_output := keep_scratch (wk_max_recycled w) out\<rparr>)
        | (Inr _, out) \<Rightarrow>
            (evaluation_result
               (Inr (if tp_projection (wk_plan w) \<noteq> None then Project out
                     else PassThrough (PassJson out (length (vbytes payload)))))
               (ep_evaluation policies),
             None,
             w\<lparr>wk_output := keep_scratch (wk_max_recycled w) payload\<rparr>)))"

text \<open>\<open>Worker::execute_report\<close>: the outcome, what is left of the source, and the worker.\<close>

definition execute_report ::
    "('x, 'i, 'e, 'v) jsonata_engine \<Rightarrow> error_policies \<Rightarrow> vec option \<Rightarrow> 'x worker
      \<Rightarrow> (transform_error + execution) \<times> vec option \<times> 'x worker" where
  "execute_report jx policies src w =
     (case src of
        None \<Rightarrow> (evaluation_result (Inr (tombstone_action (wk_plan w))) (ep_evaluation policies), None, w)
      | Some payload \<Rightarrow>
          if \<not> tp_parses_json (wk_plan w)
          then (evaluation_result (Inr (PassThrough (Exact payload))) (ep_evaluation policies), None, w)
          else case jx_prepare jx (input_plan (wk_plan w)) (vbytes payload) of
            Inl m \<Rightarrow> (case invalid_json (ep_invalid_json policies) payload m of (r, left) \<Rightarrow> (r, left, w))
          | Inr input \<Rightarrow>
              (case evaluate_predicates jx (wk_plan w) input of
                 Inl e \<Rightarrow> (evaluation_result (Inl e) (ep_evaluation policies), Some payload, w)
               | Inr (Some a) \<Rightarrow> (evaluation_result (Inr a) (ep_evaluation policies), Some payload, w)
               | Inr None \<Rightarrow> render_report jx policies payload input w))"

end
