(* ===== verification/Stats.thy ===== *)
theory Stats
  imports Transform
begin

text \<open>
  The run statistics of \<open>src/runtime.rs\<close>: \<open>Stats\<close> with its counting operations, \<open>StatsSnapshot\<close> with the
  window difference and the report text, and the windows of the periodic reporter. The counters are
  relaxed atomics; an operation is given by its effect on all of them, and every update is a wrapping
  \<open>fetch_add\<close>.
\<close>

record snapshot =
  st_admitted :: nat
  st_input_tombstones :: nat
  st_input_bytes :: nat
  st_dropped :: nat
  st_generated_tombstones :: nat
  st_passed :: nat
  st_projected :: nat
  st_invalid_json :: nat
  st_evaluation_failures :: nat
  st_output_records :: nat
  st_output_bytes :: nat

record stats =
  st_enabled :: bool
  st_counters :: snapshot

definition snapshot_zero :: snapshot where
  "snapshot_zero = \<lparr>st_admitted = 0, st_input_tombstones = 0, st_input_bytes = 0, st_dropped = 0,
     st_generated_tombstones = 0, st_passed = 0, st_projected = 0, st_invalid_json = 0,
     st_evaluation_failures = 0, st_output_records = 0, st_output_bytes = 0\<rparr>"

definition stats_new :: "bool \<Rightarrow> stats" where
  "stats_new enabled = \<lparr>st_enabled = enabled, st_counters = snapshot_zero\<rparr>"

definition since :: "snapshot \<Rightarrow> snapshot \<Rightarrow> snapshot" where
  "since s p =
     \<lparr>st_admitted = saturating_sub (st_admitted s) (st_admitted p),
      st_input_tombstones = saturating_sub (st_input_tombstones s) (st_input_tombstones p),
      st_input_bytes = saturating_sub (st_input_bytes s) (st_input_bytes p),
      st_dropped = saturating_sub (st_dropped s) (st_dropped p),
      st_generated_tombstones = saturating_sub (st_generated_tombstones s) (st_generated_tombstones p),
      st_passed = saturating_sub (st_passed s) (st_passed p),
      st_projected = saturating_sub (st_projected s) (st_projected p),
      st_invalid_json = saturating_sub (st_invalid_json s) (st_invalid_json p),
      st_evaluation_failures = saturating_sub (st_evaluation_failures s) (st_evaluation_failures p),
      st_output_records = saturating_sub (st_output_records s) (st_output_records p),
      st_output_bytes = saturating_sub (st_output_bytes s) (st_output_bytes p)\<rparr>"

text \<open>The elapsed time in milliseconds.\<close>

definition report_text :: "snapshot \<Rightarrow> nat \<Rightarrow> string" where
  "report_text s elapsed =
     ''admitted='' @ dec_nat (st_admitted s)
     @ '' input_tombstones='' @ dec_nat (st_input_tombstones s)
     @ '' input_bytes='' @ dec_nat (st_input_bytes s)
     @ '' dropped='' @ dec_nat (st_dropped s)
     @ '' generated_tombstones='' @ dec_nat (st_generated_tombstones s)
     @ '' passed='' @ dec_nat (st_passed s)
     @ '' projected='' @ dec_nat (st_projected s)
     @ '' invalid_json='' @ dec_nat (st_invalid_json s)
     @ '' evaluation_failures='' @ dec_nat (st_evaluation_failures s)
     @ '' output_records='' @ dec_nat (st_output_records s)
     @ '' output_bytes='' @ dec_nat (st_output_bytes s)
     @ '' elapsed_ms='' @ dec_nat elapsed"

definition stats_report :: "stats \<Rightarrow> nat \<Rightarrow> string" where
  "stats_report st elapsed = report_text (st_counters st) elapsed"

text \<open>\<open>add\<close>: the value as \<open>u64\<close>, which every \<open>usize\<close> is, then \<open>fetch_add\<close>.\<close>

definition counter_add :: "nat \<Rightarrow> nat \<Rightarrow> nat" where
  "counter_add counter v = u64_add counter (if v \<le> u64_max then v else u64_max)"

definition stats_admit :: "owned_record \<Rightarrow> stats \<Rightarrow> stats" where
  "stats_admit r st =
     (if \<not> st_enabled st then st
      else let c = st_counters st in st\<lparr>st_counters := c
        \<lparr>st_admitted := u64_inc (st_admitted c),
         st_input_tombstones := (if r_payload r = None then u64_inc (st_input_tombstones c)
                                 else st_input_tombstones c),
         st_input_bytes := counter_add (st_input_bytes c)
           (case r_payload r of None \<Rightarrow> 0 | Some v \<Rightarrow> length (vbytes v))\<rparr>\<rparr>)"

definition count_issue :: "execution_issue option \<Rightarrow> snapshot \<Rightarrow> snapshot" where
  "count_issue issue c = (case issue of
      Some IssueInvalidJson \<Rightarrow> c\<lparr>st_invalid_json := u64_inc (st_invalid_json c)\<rparr>
    | Some IssueEvaluation \<Rightarrow> c\<lparr>st_evaluation_failures := u64_inc (st_evaluation_failures c)\<rparr>
    | None \<Rightarrow> c)"

definition count_action :: "action \<Rightarrow> bool \<Rightarrow> snapshot \<Rightarrow> snapshot" where
  "count_action a source_tombstone c = (case a of
      Drop \<Rightarrow> c\<lparr>st_dropped := u64_inc (st_dropped c)\<rparr>
    | Tombstone \<Rightarrow>
        if \<not> source_tombstone then c\<lparr>st_generated_tombstones := u64_inc (st_generated_tombstones c)\<rparr> else c
    | PassThrough _ \<Rightarrow> c\<lparr>st_passed := u64_inc (st_passed c)\<rparr>
    | Project _ \<Rightarrow> c\<lparr>st_projected := u64_inc (st_projected c)\<rparr>)"

definition stats_transformed :: "action \<Rightarrow> execution_issue option \<Rightarrow> bool \<Rightarrow> stats \<Rightarrow> stats" where
  "stats_transformed a issue source_tombstone st =
     (if \<not> st_enabled st then st
      else st\<lparr>st_counters := count_action a source_tombstone (count_issue issue (st_counters st))\<rparr>)"

definition stats_failed :: "transform_error \<Rightarrow> stats \<Rightarrow> stats" where
  "stats_failed e st =
     (if \<not> st_enabled st then st
      else let c = st_counters st in st\<lparr>st_counters := (case e of
          TE_InvalidJson _ \<Rightarrow> c\<lparr>st_invalid_json := u64_inc (st_invalid_json c)\<rparr>
        | TE_Evaluation _ _ \<Rightarrow> c\<lparr>st_evaluation_failures := u64_inc (st_evaluation_failures c)\<rparr>)\<rparr>)"

definition stats_emitted :: "nat \<Rightarrow> stats \<Rightarrow> stats" where
  "stats_emitted n st =
     (if st_enabled st then let c = st_counters st in st\<lparr>st_counters := c
        \<lparr>st_output_records := u64_inc (st_output_records c),
         st_output_bytes := counter_add (st_output_bytes c) n\<rparr>\<rparr>
      else st)"

section \<open>Periodic windows\<close>

text \<open>
  \<open>report_periodically\<close>: at each timeout of the stop channel it takes a snapshot with its elapsed
  time and prints the difference to the one before. \<open>ticks\<close> are those snapshots.
\<close>

fun windows :: "snapshot \<Rightarrow> nat \<Rightarrow> (snapshot \<times> nat) list \<Rightarrow> (snapshot \<times> nat) list" where
  "windows previous previous_elapsed [] = []"
| "windows previous previous_elapsed ((current, elapsed) # ticks) =
     (since current previous, saturating_sub elapsed previous_elapsed) # windows current elapsed ticks"

definition report_periodically :: "(snapshot \<times> nat) list \<Rightarrow> string list" where
  "report_periodically ticks =
     map (\<lambda>(w, ms). ''jkq: stats window '' @ report_text w ms) (windows snapshot_zero 0 ticks)"

text \<open>All counters of a snapshot, in report order.\<close>

definition counters :: "snapshot \<Rightarrow> nat list" where
  "counters s = [st_admitted s, st_input_tombstones s, st_input_bytes s, st_dropped s,
     st_generated_tombstones s, st_passed s, st_projected s, st_invalid_json s,
     st_evaluation_failures s, st_output_records s, st_output_bytes s]"

definition snapshot_le :: "snapshot \<Rightarrow> snapshot \<Rightarrow> bool" where
  "snapshot_le a b = list_all2 (\<le>) (counters a) (counters b)"

lemma counters_zero: "counters snapshot_zero = replicate 11 0"
  by (simp add: counters_def snapshot_zero_def numeral_eq_Suc)

lemma counters_length [simp]: "length (counters s) = 11"
  by (simp add: counters_def)

lemma counters_since: "counters (since a b) = map2 (-) (counters a) (counters b)"
  by (simp add: counters_def since_def saturating_sub_def)

lemma since_add:
  assumes "snapshot_le a b" "i < 11"
  shows "counters (since b a) ! i + counters a ! i = counters b ! i"
  using assms list_all2_nthD [of "(\<le>)" "counters a" "counters b" i]
  by (simp add: counters_since snapshot_le_def)

lemma windows_sum:
  assumes "sorted_wrt snapshot_le (p # map fst ticks)" "i < 11"
  shows "(\<Sum>(w, _)\<leftarrow>windows p e ticks. counters w ! i) + counters p ! i = counters (last (p # map fst ticks)) ! i"
  using assms(1)
proof (induction ticks arbitrary: p e)
  case Nil
  then show ?case by simp
next
  case (Cons t ticks)
  obtain s ms where t: "t = (s, ms)" by fastforce
  have le: "snapshot_le p s" using Cons.prems t by simp
  have "sorted_wrt snapshot_le (s # map fst ticks)" using Cons.prems t by simp
  from Cons.IH [OF this, of ms] since_add [OF le assms(2)] show ?case by (simp add: t)
qed

text \<open>
  The reporter loses nothing: when the counters only grow, the windows it prints add up, counter by
  counter, to the last snapshot taken.
\<close>

theorem windows_add_up:
  assumes "sorted_wrt snapshot_le (map fst ticks)" "ticks \<noteq> []" "i < 11"
  shows "(\<Sum>(w, _)\<leftarrow>windows snapshot_zero 0 ticks. counters w ! i) = counters (fst (last ticks)) ! i"
proof -
  have "snapshot_le snapshot_zero s" for s
    by (simp add: snapshot_le_def counters_zero list_all2_conv_all_nth)
  with assms(1) have "sorted_wrt snapshot_le (snapshot_zero # map fst ticks)" by simp
  from windows_sum [OF this assms(3), of 0] assms(2,3) show ?thesis
    by (simp add: counters_zero last_map)
qed

theorem windows_add_up_witness:
  "(\<Sum>(w, _)\<leftarrow>windows snapshot_zero 0 [(snapshot_zero\<lparr>st_passed := 2\<rparr>, 10), (snapshot_zero\<lparr>st_passed := 5\<rparr>, 20)].
      counters w ! 5) = 5"
  using windows_add_up [of "[(snapshot_zero\<lparr>st_passed := 2\<rparr>, 10), (snapshot_zero\<lparr>st_passed := 5\<rparr>, 20)]" 5]
  by (simp add: snapshot_le_def counters_def snapshot_zero_def)

definition outcomes :: "snapshot \<Rightarrow> nat" where
  "outcomes c = st_dropped c + st_generated_tombstones c + st_passed c + st_projected c"

text \<open>
  With statistics on and no counter at its limit, each transformed record raises exactly one of the
  outcome counters by one, except that a source tombstone kept as a tombstone raises none, and it
  raises the counter of its issue only when it has one; with statistics off nothing changes.
\<close>

theorem transformed_counts_once:
  assumes "st_enabled st" "\<forall>n \<in> set (counters (st_counters st)). n < u64_max"
  shows "outcomes (st_counters (stats_transformed a issue src_tomb st)) =
      outcomes (st_counters st) + (if a = Tombstone \<and> src_tomb then 0 else 1)
    \<and> st_invalid_json (st_counters (stats_transformed a issue src_tomb st)) =
      st_invalid_json (st_counters st) + (if issue = Some IssueInvalidJson then 1 else 0)
    \<and> st_evaluation_failures (st_counters (stats_transformed a issue src_tomb st)) =
      st_evaluation_failures (st_counters st) + (if issue = Some IssueEvaluation then 1 else 0)"
  using assms
  by (auto simp: stats_transformed_def count_action_def count_issue_def outcomes_def counters_def u64_inc_small
      split: action.split option.split execution_issue.split)

theorem transformed_counts_once_witness:
  "outcomes (st_counters (stats_transformed Drop (Some IssueEvaluation) False (stats_new True))) = 1"
  using transformed_counts_once [of "stats_new True" Drop "Some IssueEvaluation" False]
  by (simp add: stats_new_def counters_def snapshot_zero_def u64_max_def outcomes_def)

end
