(* ===== verification/Failure.thy ===== *)
theory Failure
  imports Sink
begin

text \<open>
  How the pipeline fails (\<open>src/runtime.rs\<close>): the two kinds of pipeline error, and the failure cell shared by
  all threads, which the first failure fills for good.
\<close>

datatype pipeline_error = RuntimeError string | OutputError io_error

datatype recorded_failure = StartupFailure string | RuntimeFailure string | OutputFailure io_kind string

definition from_error :: "pipeline_error \<Rightarrow> recorded_failure" where
  "from_error e = (case e of
      RuntimeError m \<Rightarrow> RuntimeFailure m
    | OutputError io \<Rightarrow> OutputFailure (io_kind io) (io_text io))"

definition into_error :: "recorded_failure \<Rightarrow> pipeline_error" where
  "into_error f = (case f of
      StartupFailure m \<Rightarrow> RuntimeError m
    | RuntimeFailure m \<Rightarrow> RuntimeError m
    | OutputFailure k m \<Rightarrow> OutputError \<lparr>io_kind = k, io_text = m\<rparr>)"

definition pipeline_error_text :: "pipeline_error \<Rightarrow> string" where
  "pipeline_error_text e = (case e of
      RuntimeError m \<Rightarrow> m
    | OutputError io \<Rightarrow> ''output error: '' @ io_text io)"

text \<open>The shared cell (\<open>OnceLock\<close>) and the shutdown flag.\<close>

record control =
  ct_first :: "recorded_failure option"
  ct_shutdown :: bool

definition once_set :: "recorded_failure \<Rightarrow> control \<Rightarrow> control" where
  "once_set f c = (case ct_first c of None \<Rightarrow> c\<lparr>ct_first := Some f\<rparr> | Some _ \<Rightarrow> c)"

definition record_failure :: "pipeline_error \<Rightarrow> control \<Rightarrow> control" where
  "record_failure e c = once_set (from_error e) c"

definition runtime_failure :: "string \<Rightarrow> control \<Rightarrow> control" where
  "runtime_failure m c = (record_failure (RuntimeError m) c)\<lparr>ct_shutdown := True\<rparr>"

definition thread_start_failure :: "string \<Rightarrow> string \<Rightarrow> control \<Rightarrow> control" where
  "thread_start_failure role err c =
     (once_set (StartupFailure (''cannot start '' @ role @ '': '' @ err)) c)\<lparr>ct_shutdown := True\<rparr>"

text \<open>\<open>guard_thread\<close>: \<open>None\<close> as result of the task is a panic.\<close>

definition guard_thread :: "string \<Rightarrow> 'a option \<times> control \<Rightarrow> 'a option \<times> control" where
  "guard_thread role run = (case run of
      (Some a, c) \<Rightarrow> (Some a, c)
    | (None, c) \<Rightarrow> (None, (record_failure (RuntimeError (role @ '' panicked'')) c)\<lparr>ct_shutdown := True\<rparr>))"

lemma from_into [simp]: "into_error (from_error e) = e"
  by (cases e) (simp_all add: into_error_def from_error_def)

lemma once_set_first: "ct_first (once_set f c) = (case ct_first c of None \<Rightarrow> Some f | Some g \<Rightarrow> Some g)"
  by (simp add: once_set_def split: option.split)

lemma once_set_shutdown [simp]: "ct_shutdown (once_set f c) = ct_shutdown c"
  by (simp add: once_set_def split: option.split)

lemma record_failure_first:
  "ct_first (record_failure e c) = (case ct_first c of None \<Rightarrow> Some (from_error e) | Some g \<Rightarrow> Some g)"
  by (simp add: record_failure_def once_set_first)

lemma record_failure_shutdown [simp]: "ct_shutdown (record_failure e c) = ct_shutdown c"
  by (simp add: record_failure_def)

end
