(* ===== verification/Config.thy ===== *)
theory Config
  imports Transform
begin

text \<open>
  The resolved configuration (\<open>RuntimeConfig\<close> in \<open>src/cli.rs\<close>) that every component reads, and what its
  output plan asks of the input side.
\<close>

datatype envelope_payload = EnvelopeString | EnvelopeValue

datatype kafka_error_policy = KafkaFail | KafkaContinue

datatype start_position =
    Beginning
  | EndOfLog
  | Absolute int
  | RelativeToEnd nat
  | StartTimestamp int

datatype end_position =
    ExclusiveOffset int
  | EndTimestamp int
  | Snapshot

text \<open>The payload format, when there is one, and the format; or the envelope.\<close>

datatype output_plan =
    FormatPlan "format_token list option" "format_token list"
  | EnvelopePlan envelope_payload

record 'x runtime_config =
  cf_topic :: string
  cf_partitions :: "int list option"
  cf_start :: start_position
  cf_end :: "end_position option"
  cf_count_limit :: "nat option"
  cf_count_per_partition :: "nat option"
  cf_exit_at_end :: bool
  cf_consumers :: nat
  cf_range_sharding :: bool
  cf_unordered :: bool
  cf_limits :: runtime_limits
  cf_transform :: "'x transform_plan"
  cf_output :: output_plan
  cf_errors :: error_policies
  cf_kafka_error :: kafka_error_policy
  cf_kafka_properties :: "(string, string) btree"
  cf_unbuffered :: bool
  cf_stats :: bool
  cf_stats_interval :: "nat option"
  cf_quiet :: bool
  cf_check :: bool

text \<open>\<open>OutputPlan::requirements\<close>: the union over both formats, or everything for an envelope.\<close>

definition plan_requirements :: "output_plan \<Rightarrow> output_requirements" where
  "plan_requirements plan = (case plan of
      FormatPlan payload_format format \<Rightarrow>
        (let r = format_requirements format in
         case payload_format of
           None \<Rightarrow> r
         | Some pf \<Rightarrow>
             (let q = format_requirements pf in
              r\<lparr>req_key := req_key r \<or> req_key q,
                req_headers := req_headers r \<or> req_headers q,
                req_timestamp := req_timestamp r \<or> req_timestamp q\<rparr>))
    | EnvelopePlan _ \<Rightarrow> \<lparr>req_key = True, req_headers = True, req_timestamp = True\<rparr>)"

definition embeds_json :: "output_plan \<Rightarrow> bool" where
  "embeds_json plan \<longleftrightarrow> plan = EnvelopePlan EnvelopeValue"

text \<open>The invariant between output plan, transform plan and policies that \<open>resolve\<close> establishes.\<close>

definition config_coherent :: "'x runtime_config \<Rightarrow> bool" where
  "config_coherent cf \<longleftrightarrow>
     (embeds_json (cf_output cf) \<longrightarrow>
        tp_parses_json (cf_transform cf) \<and> ep_invalid_json (cf_errors cf) \<noteq> JsonPass) \<and>
     (\<not> tp_parses_json (cf_transform cf) \<longrightarrow> input_plan (cf_transform cf) = [])"

end
