(* ===== verification/Kafka_Ranges.thy ===== *)
theory Kafka_Ranges
  imports Config "HOL-Library.Multiset"
begin

text \<open>
  What \<open>KafkaInput::prepare\<close> (\<open>src/kafka.rs\<close>) decides before any record is read: the partitions, their
  start and end offsets, and which consumer reads which range. The cluster is behind rdkafka, a
  third-party crate: its metadata, watermark and timestamp queries are the fields of \<open>cluster\<close>.
\<close>

section \<open>Offsets and ranges\<close>

datatype koffset = KBeginning | KEnd | KStored | KInvalid | KOffset int | KOffsetTail int

record partition_range =
  pr_partition :: int
  pr_start :: koffset
  pr_end :: "int option"

record consumer_assignment =
  ca_ranges :: "partition_range list"
  ca_max_inflight :: nat

text \<open>\<open>PrepareError\<close> names the messages of the source; \<open>Panic\<close> is a failed \<open>expect\<close> or index.\<close>

datatype prepare_error =
    MetadataFailed string
  | TopicMissing
  | TopicFailed string
  | NoPartitions
  | TooManyPartitions
  | WatermarkFailed int string
  | SetOffsetFailed int string
  | TimesFailed int string
  | TimeFailed int int string
  | UnexpectedOffset int int koffset
  | UnresolvedBoundaries
  | OutsideWatermarks int int int int int
  | ShardCountOverflow
  | ConsumerFailed string
  | AssignFailed string
  | Panic string

record topic_metadata =
  tm_name :: string
  tm_error :: "string option"
  tm_partitions :: "int list"

record cluster =
  kc_metadata :: "string \<Rightarrow> string + topic_metadata list"
  kc_watermarks :: "string \<Rightarrow> int \<Rightarrow> string + int \<times> int"
  kc_add_offset :: "string \<Rightarrow> int \<Rightarrow> koffset \<Rightarrow> string + unit"
  kc_offsets_for_times :: "string \<Rightarrow> (int \<times> koffset) list \<Rightarrow> string + (int \<times> (string + koffset)) list"

definition expect :: "string \<Rightarrow> 'a option \<Rightarrow> prepare_error + 'a" where
  "expect m x = ok_or x (Panic m)"

section \<open>Queries\<close>

definition max_assigned_partitions :: nat where
  "max_assigned_partitions = 100000"

definition fetch_topic_partitions :: "cluster \<Rightarrow> string \<Rightarrow> prepare_error + int list" where
  "fetch_topic_partitions kc topic =
     bind_r (map_err MetadataFailed (kc_metadata kc topic)) (\<lambda>topics.
     bind_r (ok_or (find (\<lambda>t. tm_name t = topic) topics) TopicMissing) (\<lambda>t.
     case tm_error t of Some e \<Rightarrow> Inl (TopicFailed e)
     | None \<Rightarrow>
         if tm_partitions t = [] then Inl NoPartitions
         else if length (tm_partitions t) > max_assigned_partitions then Inl TooManyPartitions
         else Inr (tm_partitions t)))"

definition watermarks_required :: "start_position \<Rightarrow> end_position option \<Rightarrow> bool" where
  "watermarks_required start finish = (case start of
      Beginning \<Rightarrow> finish \<noteq> None
    | Absolute _ \<Rightarrow> (case finish of Some (EndTimestamp _) \<Rightarrow> True | Some Snapshot \<Rightarrow> True | _ \<Rightarrow> False)
    | _ \<Rightarrow> True)"

definition fetch_watermarks ::
    "cluster \<Rightarrow> string \<Rightarrow> int list \<Rightarrow> prepare_error + (int, int \<times> int) btree" where
  "fetch_watermarks kc topic partitions =
     bind_r (collect_r (map (\<lambda>p. bind_r (map_err (WatermarkFailed p) (kc_watermarks kc topic p))
                                 (\<lambda>w. Inr (p, w))) partitions))
       (\<lambda>ws. Inr (bt_of_list ws))"

definition timestamp_offset :: "koffset \<Rightarrow> int \<Rightarrow> int \<Rightarrow> int \<Rightarrow> prepare_error + int" where
  "timestamp_offset off high p ts = (case off of
      KOffset n \<Rightarrow> Inr n
    | KInvalid \<Rightarrow> Inr high
    | KEnd \<Rightarrow> Inr high
    | other \<Rightarrow> Inl (UnexpectedOffset ts p other))"

definition resolve_time ::
    "int \<Rightarrow> (int, int \<times> int) btree \<Rightarrow> int \<times> (string + koffset) \<Rightarrow> prepare_error + int \<times> int" where
  "resolve_time ts watermarks el = (case el of (p, r) \<Rightarrow>
     bind_r (map_err (TimeFailed ts p) r) (\<lambda>off.
     bind_r (expect ''watermarks'' (bt_get watermarks p)) (\<lambda>w.
     bind_r (timestamp_offset off (snd w) p ts) (\<lambda>n. Inr (p, n)))))"

definition offsets_for_timestamp ::
    "cluster \<Rightarrow> string \<Rightarrow> int list \<Rightarrow> int \<Rightarrow> (int, int \<times> int) btree \<Rightarrow> prepare_error + (int, int) btree" where
  "offsets_for_timestamp kc topic partitions ts watermarks =
     bind_r (collect_r (map (\<lambda>p. map_err (SetOffsetFailed p) (kc_add_offset kc topic p (KOffset ts))) partitions)) (\<lambda>_.
     bind_r (map_err (TimesFailed ts) (kc_offsets_for_times kc topic (map (\<lambda>p. (p, KOffset ts)) partitions))) (\<lambda>els.
     bind_r (collect_r (map (resolve_time ts watermarks) els)) (\<lambda>os. Inr (bt_of_list os))))"

section \<open>Starts and ends\<close>

text \<open>\<open>i64::try_from(distance).unwrap_or(i64::MAX)\<close>, a saturating subtraction, and the low watermark.\<close>

definition relative_start :: "nat \<Rightarrow> int \<times> int \<Rightarrow> int" where
  "relative_start distance w = (case w of (low, high) \<Rightarrow>
     max (i64_saturating_sub high (if int distance \<le> i64_max then int distance else i64_max)) low)"

definition resolve_start ::
    "start_position \<Rightarrow> (int, int \<times> int) btree option \<Rightarrow> (int, int) btree option \<Rightarrow> int
      \<Rightarrow> prepare_error + koffset" where
  "resolve_start start watermarks stamps p = (case start of
      Beginning \<Rightarrow> (case watermarks of
          None \<Rightarrow> Inr KBeginning
        | Some ws \<Rightarrow> bind_r (expect ''watermarks'' (bt_get ws p)) (\<lambda>w. Inr (KOffset (fst w))))
    | EndOfLog \<Rightarrow>
        bind_r (expect ''end requires watermarks'' watermarks) (\<lambda>ws.
        bind_r (expect ''watermarks'' (bt_get ws p)) (\<lambda>w. Inr (KOffset (snd w))))
    | Absolute n \<Rightarrow> Inr (KOffset n)
    | RelativeToEnd distance \<Rightarrow>
        bind_r (expect ''relative start requires watermarks'' watermarks) (\<lambda>ws.
        bind_r (expect ''watermarks'' (bt_get ws p)) (\<lambda>w. Inr (KOffset (relative_start distance w))))
    | StartTimestamp _ \<Rightarrow>
        bind_r (expect ''timestamp starts were resolved'' stamps) (\<lambda>ts.
        bind_r (expect ''timestamp starts'' (bt_get ts p)) (\<lambda>n. Inr (KOffset n))))"

definition resolve_starts ::
    "start_position \<Rightarrow> (int, int \<times> int) btree option \<Rightarrow> (int, int) btree option \<Rightarrow> int list
      \<Rightarrow> prepare_error + (int, koffset) btree" where
  "resolve_starts start watermarks stamps partitions =
     bind_r (collect_r (map (\<lambda>p. bind_r (resolve_start start watermarks stamps p) (\<lambda>s. Inr (p, s))) partitions))
       (\<lambda>ss. Inr (bt_of_list ss))"

definition fixed_ends ::
    "cluster \<Rightarrow> string \<Rightarrow> end_position option \<Rightarrow> int list \<Rightarrow> (int, int \<times> int) btree option
      \<Rightarrow> prepare_error + (int, int) btree option" where
  "fixed_ends kc topic finish partitions watermarks = (case finish of
      None \<Rightarrow> Inr None
    | Some (ExclusiveOffset n) \<Rightarrow> Inr (Some (bt_of_list (map (\<lambda>p. (p, n)) partitions)))
    | Some (EndTimestamp ts) \<Rightarrow>
        bind_r (expect ''timestamp ends require watermarks'' watermarks) (\<lambda>ws.
        bind_r (offsets_for_timestamp kc topic partitions ts ws) (\<lambda>os. Inr (Some os)))
    | Some Snapshot \<Rightarrow>
        bind_r (expect ''snapshot requires watermarks'' watermarks) (\<lambda>ws.
        Inr (Some (bt_of_list (map (\<lambda>(p, w). (p, snd w)) ws)))))"

definition range_of ::
    "(int, koffset) btree \<Rightarrow> (int, int) btree option \<Rightarrow> int \<Rightarrow> prepare_error + partition_range" where
  "range_of starts ends p =
     bind_r (expect ''starts'' (bt_get starts p)) (\<lambda>s.
     bind_r (case ends of None \<Rightarrow> Inr None
             | Some es \<Rightarrow> bind_r (expect ''ends'' (bt_get es p)) (\<lambda>e. Inr (Some e))) (\<lambda>e.
     Inr \<lparr>pr_partition = p, pr_start = s, pr_end = e\<rparr>))"

text \<open>The check of one range before it is sharded.\<close>

definition shardable ::
    "(int, int \<times> int) btree option \<Rightarrow> partition_range \<Rightarrow> prepare_error + unit" where
  "shardable watermarks r =
     bind_r (expect ''sharding needs watermarks'' watermarks) (\<lambda>ws.
     bind_r (expect ''watermarks'' (bt_get ws (pr_partition r))) (\<lambda>(low, high).
     case (pr_start r, pr_end r) of
       (KOffset s, Some e) \<Rightarrow>
         if e > high \<or> (s < e \<and> (s < low \<or> s > high))
         then Inl (OutsideWatermarks (pr_partition r) s e low high)
         else Inr ()
     | _ \<Rightarrow> Inl UnresolvedBoundaries))"

text \<open>
  \<open>KafkaInput::prepare\<close> up to the assignments: the startup watermarks when they are needed, and one
  range for each partition, checked when ranges are to be sharded.
\<close>

definition timestamp_starts ::
    "cluster \<Rightarrow> 'x runtime_config \<Rightarrow> int list \<Rightarrow> (int, int \<times> int) btree option
      \<Rightarrow> prepare_error + (int, int) btree option" where
  "timestamp_starts kc cf partitions watermarks = (case cf_start cf of
      StartTimestamp ts \<Rightarrow>
        bind_r (expect ''timestamp starts require watermarks'' watermarks) (\<lambda>ws.
        bind_r (offsets_for_timestamp kc (cf_topic cf) partitions ts ws) (\<lambda>os. Inr (Some os)))
    | _ \<Rightarrow> Inr None)"

definition startup_watermarks ::
    "cluster \<Rightarrow> 'x runtime_config \<Rightarrow> int list \<Rightarrow> prepare_error + (int, int \<times> int) btree option" where
  "startup_watermarks kc cf partitions =
     (if cf_range_sharding cf \<or> watermarks_required (cf_start cf) (cf_end cf)
      then bind_r (fetch_watermarks kc (cf_topic cf) partitions) (\<lambda>ws. Inr (Some ws))
      else Inr None)"

definition prepare_ranges :: "cluster \<Rightarrow> 'x runtime_config \<Rightarrow> prepare_error + partition_range list" where
  "prepare_ranges kc cf =
     bind_r (case cf_partitions cf of Some ps \<Rightarrow> Inr ps | None \<Rightarrow> fetch_topic_partitions kc (cf_topic cf))
       (\<lambda>partitions.
     bind_r (startup_watermarks kc cf partitions) (\<lambda>watermarks.
     bind_r (timestamp_starts kc cf partitions watermarks) (\<lambda>stamps.
     bind_r (resolve_starts (cf_start cf) watermarks stamps partitions) (\<lambda>starts.
     bind_r (fixed_ends kc (cf_topic cf) (cf_end cf) partitions watermarks) (\<lambda>ends.
     bind_r (collect_r (map (range_of starts ends) partitions)) (\<lambda>ranges.
     if cf_range_sharding cf
     then bind_r (collect_r (map (shardable watermarks) ranges)) (\<lambda>_. Inr ranges)
     else Inr ranges))))))"

section \<open>Assignments\<close>

text \<open>Round robin: range \<open>i\<close> goes to consumer \<open>i % n\<close>, which panics for no consumer at all.\<close>

fun deal :: "nat \<Rightarrow> partition_range list \<Rightarrow> consumer_assignment list \<Rightarrow> consumer_assignment list" where
  "deal i [] assignments = assignments"
| "deal i (r # rs) assignments =
     (let k = i mod length assignments; a = assignments ! k
      in deal (i + 1) rs (assignments[k := a\<lparr>ca_ranges := ca_ranges a @ [r]\<rparr>]))"

definition shard_end :: "int \<Rightarrow> int \<Rightarrow> int \<Rightarrow> int \<Rightarrow> int \<Rightarrow> int" where
  "shard_end width divisor last_end shard next_start =
     (if width = 0 then last_end
      else next_start + width div divisor + (if shard < width mod divisor then 1 else 0))"

text \<open>The loop \<open>for shard in 0..divisor\<close>; \<open>n\<close> counts the shards still to cut, \<open>next_start\<close> is where the next begins.\<close>

fun shard_loop :: "int \<Rightarrow> int \<Rightarrow> int \<Rightarrow> int \<Rightarrow> nat \<Rightarrow> nat \<Rightarrow> int \<Rightarrow> consumer_assignment list" where
  "shard_loop p width divisor last_end allowance 0 next_start = []"
| "shard_loop p width divisor last_end allowance (Suc n) next_start =
     (let e = shard_end width divisor last_end (divisor - 1 - int n) next_start
      in \<lparr>ca_ranges = [\<lparr>pr_partition = p, pr_start = KOffset next_start, pr_end = Some e\<rparr>],
          ca_max_inflight = allowance\<rparr> # shard_loop p width divisor last_end allowance n e)"

definition range_width :: "int \<Rightarrow> int \<Rightarrow> int" where
  "range_width s e = max (i64_saturating_sub e s) 0"

definition shard_count :: "nat \<Rightarrow> nat \<Rightarrow> nat \<Rightarrow> nat \<Rightarrow> int \<Rightarrow> nat" where
  "shard_count consumers n_ranges i limit width =
     min (min (consumers div n_ranges + (if i < consumers mod n_ranges then 1 else 0)) (max (nat width) 1)) limit"

definition shard_range :: "nat \<Rightarrow> nat \<Rightarrow> nat \<Rightarrow> nat \<Rightarrow> partition_range \<Rightarrow> prepare_error + consumer_assignment list" where
  "shard_range consumers n_ranges limit i r = (case (pr_start r, pr_end r) of
      (KOffset s, Some e) \<Rightarrow>
        (let width = range_width s e; count = shard_count consumers n_ranges i limit width in
         if int count > i64_max then Inl ShardCountOverflow
         else Inr (shard_loop (pr_partition r) width (int count) e (limit div count) count s))
    | _ \<Rightarrow> Inl UnresolvedBoundaries)"

fun shard_all :: "nat \<Rightarrow> nat \<Rightarrow> nat \<Rightarrow> nat \<Rightarrow> partition_range list \<Rightarrow> prepare_error + consumer_assignment list" where
  "shard_all consumers n_ranges limit i [] = Inr []"
| "shard_all consumers n_ranges limit i (r # rs) =
     bind_r (shard_range consumers n_ranges limit i r) (\<lambda>xs.
     bind_r (shard_all consumers n_ranges limit (i + 1) rs) (\<lambda>ys. Inr (xs @ ys)))"

definition consumer_assignments ::
    "partition_range list \<Rightarrow> nat \<Rightarrow> bool \<Rightarrow> nat \<Rightarrow> prepare_error + consumer_assignment list" where
  "consumer_assignments ranges consumers range_sharding limit =
     (if \<not> range_sharding \<or> consumers \<le> length ranges
      then if consumers = 0 \<and> ranges \<noteq> [] then Inl (Panic ''remainder with a divisor of zero'')
        else Inr (deal 0 ranges (replicate (min consumers (length ranges)) \<lparr>ca_ranges = [], ca_max_inflight = limit\<rparr>))
      else shard_all consumers (length ranges) limit 0 ranges)"

end
