(* ===== verification/Payload_Buffers.thy ===== *)
theory Payload_Buffers
  imports Runtime_Types
begin

text \<open>
  The pool of payload vectors a poller reuses (\<open>PayloadBuffers\<close> in \<open>src/kafka.rs\<close>): \<open>copy\<close> takes a spare
  vector for a payload, \<open>recycle\<close> takes one back unless the pool's bounds are reached.
\<close>

definition max_reusable_payload_capacity :: nat where
  "max_reusable_payload_capacity = 16 * 1024"

definition max_spare_payload_bytes :: nat where
  "max_spare_payload_bytes = 1024 * 1024"

record payload_buffers =
  pb_free :: "vec list"
  pb_capacity :: nat
  pb_max_records :: nat
  pb_max_bytes :: nat
  pb_max_buffer_capacity :: nat

definition buffers_new :: "runtime_limits \<Rightarrow> payload_buffers" where
  "buffers_new limits =
     \<lparr>pb_free = [], pb_capacity = 0, pb_max_records = max_inflight_records limits,
      pb_max_bytes = min (max_inflight_bytes limits) max_spare_payload_bytes,
      pb_max_buffer_capacity = min (max_inflight_bytes limits) max_reusable_payload_capacity\<rparr>"

text \<open>\<open>grow\<close> is the allocator's; the spare vectors are a stack with its top at the end.\<close>

definition buffer_copy :: "(nat \<Rightarrow> nat \<Rightarrow> nat) \<Rightarrow> bytes \<Rightarrow> payload_buffers \<Rightarrow> vec \<times> payload_buffers" where
  "buffer_copy grow src pb =
     (if length src > pb_max_buffer_capacity pb then (to_vec src, pb)
      else let buffer = (if pb_free pb = [] then vec_new else last (pb_free pb)) in
        (vec_extend grow buffer src,
         pb\<lparr>pb_free := butlast (pb_free pb), pb_capacity := usize_sub (pb_capacity pb) (vcap buffer)\<rparr>))"

definition recycle :: "vec \<Rightarrow> payload_buffers \<Rightarrow> payload_buffers" where
  "recycle buffer pb =
     (if vcap buffer = 0 \<or> vcap buffer > pb_max_buffer_capacity pb
         \<or> length (pb_free pb) = pb_max_records pb
         \<or> vcap buffer > usize_sub (pb_max_bytes pb) (pb_capacity pb)
      then pb
      else pb\<lparr>pb_capacity := pb_capacity pb + vcap buffer, pb_free := pb_free pb @ [vec_clear buffer]\<rparr>)"

section \<open>Bounds\<close>

definition buffers_ok :: "payload_buffers \<Rightarrow> bool" where
  "buffers_ok pb \<longleftrightarrow> pb_capacity pb = sum_list (map vcap (pb_free pb)) \<and> pb_capacity pb \<le> pb_max_bytes pb \<and>
     length (pb_free pb) \<le> pb_max_records pb \<and> pb_max_bytes pb \<le> max_spare_payload_bytes \<and>
     (\<forall>v \<in> set (pb_free pb). vbytes v = [] \<and> 0 < vcap v \<and> vcap v \<le> pb_max_buffer_capacity pb)"

declare buffers_ok_def [inv_defs]

lemma buffers_ok_new [simp]: "buffers_ok (buffers_new limits)"
  by (simp add: buffers_ok_def buffers_new_def)

lemma usize_sub_exact [simp]: "b \<le> a \<Longrightarrow> usize_sub a b = a - b"
  by (simp add: usize_sub_def)

lemma buffer_copy_ok:
  assumes "buffers_ok pb" "buffer_copy grow src pb = (v, pb')"
  shows "buffers_ok pb'" "vbytes v = src" "vec_wf v"
proof -
  have "buffers_ok pb' \<and> vbytes v = src \<and> vec_wf v"
  proof (cases "pb_free pb" rule: rev_cases)
    case Nil
    with assms show ?thesis by (auto simp: buffer_copy_def buffers_ok_def Let_def split: if_splits)
  next
    case (snoc free b)
    with assms(1) have b: "vcap b \<le> pb_capacity pb" "vec_wf b" "vbytes b = []"
      by (auto simp: buffers_ok_def vec_wf_def)
    with snoc assms show ?thesis
      by (auto simp: buffer_copy_def buffers_ok_def Let_def split: if_splits)
  qed
  then show "buffers_ok pb'" "vbytes v = src" "vec_wf v" by auto
qed

lemma recycle_ok: "buffers_ok pb \<Longrightarrow> buffers_ok (recycle v pb)"
  by (auto simp: buffers_ok_def recycle_def)

lemma buffer_bounds_kept [simp]:
  "pb_max_records (recycle v pb) = pb_max_records pb" "pb_max_bytes (recycle v pb) = pb_max_bytes pb"
  "pb_max_buffer_capacity (recycle v pb) = pb_max_buffer_capacity pb"
  "pb_max_records (snd (buffer_copy grow src pb)) = pb_max_records pb"
  "pb_max_bytes (snd (buffer_copy grow src pb)) = pb_max_bytes pb"
  "pb_max_buffer_capacity (snd (buffer_copy grow src pb)) = pb_max_buffer_capacity pb"
  by (simp_all add: recycle_def buffer_copy_def Let_def)

datatype buffer_op = BufferCopy bytes | BufferRecycle vec

fun buffer_step :: "(nat \<Rightarrow> nat \<Rightarrow> nat) \<Rightarrow> buffer_op \<Rightarrow> payload_buffers \<Rightarrow> payload_buffers" where
  "buffer_step grow (BufferCopy src) pb = snd (buffer_copy grow src pb)"
| "buffer_step grow (BufferRecycle v) pb = recycle v pb"

lemma buffer_steps_ok: "buffers_ok pb \<Longrightarrow> buffers_ok (fold (buffer_step grow) ops pb)"
proof (induction ops arbitrary: pb)
  case (Cons op ops)
  have "buffers_ok (buffer_step grow op pb)"
    using Cons.prems buffer_copy_ok(1) [OF Cons.prems] recycle_ok by (cases op) (auto simp: prod_eq_iff)
  with Cons.IH show ?case by simp
qed simp

lemma buffer_steps_bounds [simp]:
  "pb_max_records (fold (buffer_step grow) ops pb) = pb_max_records pb"
  "pb_max_bytes (fold (buffer_step grow) ops pb) = pb_max_bytes pb"
proof -
  have "pb_max_records (buffer_step grow op pb) = pb_max_records pb \<and>
      pb_max_bytes (buffer_step grow op pb) = pb_max_bytes pb" for op pb
    by (cases op) simp_all
  then show "pb_max_records (fold (buffer_step grow) ops pb) = pb_max_records pb"
    "pb_max_bytes (fold (buffer_step grow) ops pb) = pb_max_bytes pb"
    by (induction ops arbitrary: pb) simp_all
qed

text \<open>
  C35. Whatever is copied and recycled in whatever order: the pool holds at most the in-flight record
  limit of spare vectors, all empty, with at most 1 MiB and at most the byte budget of storage in total,
  which its counter tracks exactly; and a copy always holds the bytes it was asked for.
\<close>

theorem payload_pool_bounded:
  "let pb = fold (buffer_step grow) ops (buffers_new limits) in
     pb_capacity pb = sum_list (map vcap (pb_free pb))
     \<and> sum_list (map vcap (pb_free pb)) \<le> min (max_inflight_bytes limits) (1024 * 1024)
     \<and> length (pb_free pb) \<le> max_inflight_records limits
     \<and> list_all (\<lambda>v. vbytes v = []) (pb_free pb)
     \<and> vbytes (fst (buffer_copy grow src pb)) = src"
proof -
  define pb where "pb = fold (buffer_step grow) ops (buffers_new limits)"
  have ok: "buffers_ok pb" by (simp add: pb_def buffer_steps_ok)
  have bounds: "pb_max_records pb = max_inflight_records limits"
    "pb_max_bytes pb = min (max_inflight_bytes limits) max_spare_payload_bytes"
    by (simp_all add: pb_def) (simp_all add: buffers_new_def)
  have "vbytes (fst (buffer_copy grow src pb)) = src"
    using buffer_copy_ok(2) [OF ok, of grow src] by (metis prod.collapse)
  with ok bounds show ?thesis
    by (auto simp: Let_def buffers_ok_def max_spare_payload_bytes_def list_all_iff simp flip: pb_def)
qed

end
