(* ===== verification/Fetch.thy ===== *)
theory Fetch
  imports Runtime_Types
begin

text \<open>
  Batched reading from librdkafka (\<open>src/kafka/fetch.rs\<close>): \<open>FetchConsumer\<close> keeps an array of extracted
  messages, of which \<open>next..len\<close> are still to be handed out. The native queue and the event poll of
  \<open>BaseConsumer\<close> are third-party: they are the fields of \<open>kafka_ops\<close>, on a client state \<open>'k\<close>.
\<close>

section \<open>Messages\<close>

datatype resp_code = RespNoError | RespPartitionEof | RespFatal | RespState | RespAutoOffsetReset | RespOther int

datatype kafka_error =
    MessageConsumption resp_code
  | MessageConsumptionFatal resp_code
  | OtherKafkaError string

datatype timestamp_kind = KindNotAvailable | KindCreateTime | KindLogAppendTime

text \<open>
  The native message: a null key, payload or header list is \<open>None\<close>. \<open>key_len\<close> is a field of its own, and
  the timestamp is what \<open>rd_kafka_message_timestamp\<close> gives.
\<close>

record native_message =
  nm_err :: resp_code
  nm_partition :: int
  nm_offset :: int
  nm_key :: "bytes option"
  nm_key_len :: nat
  nm_payload :: "bytes option"
  nm_raw_timestamp :: "int \<times> timestamp_kind"
  nm_headers :: "header list option"

datatype kafka_timestamp = NotAvailable | KafkaCreateTime int | KafkaLogAppendTime int

definition is_partition_eof :: "native_message \<Rightarrow> bool" where
  "is_partition_eof m \<longleftrightarrow> nm_err m = RespPartitionEof"

definition native_timestamp :: "native_message \<Rightarrow> kafka_timestamp" where
  "native_timestamp m = (case nm_raw_timestamp m of (t, kind) \<Rightarrow>
     if t = -1 then NotAvailable
     else case kind of
       KindCreateTime \<Rightarrow> KafkaCreateTime t
     | KindLogAppendTime \<Rightarrow> KafkaLogAppendTime t
     | KindNotAvailable \<Rightarrow> NotAvailable)"

section \<open>The client\<close>

text \<open>
  \<open>ko_events\<close> is \<open>BaseConsumer::poll\<close> with no timeout; \<open>ko_extract t n\<close> is \<open>rd_kafka_consume_batch_queue\<close>
  with a timeout in milliseconds and room for \<open>n\<close> messages: the last error, or the messages.
\<close>

record 'k kafka_ops =
  ko_events :: "'k \<Rightarrow> (kafka_error + unit) option \<times> 'k"
  ko_extract :: "int \<Rightarrow> nat \<Rightarrow> 'k \<Rightarrow> (resp_code + native_message list) \<times> 'k"
  ko_pause :: "string \<Rightarrow> int \<Rightarrow> 'k \<Rightarrow> (string + unit) \<times> 'k"
  ko_code :: "kafka_error \<Rightarrow> resp_code option"
  ko_text :: "kafka_error \<Rightarrow> string"
  ko_grow :: "nat \<Rightarrow> nat \<Rightarrow> nat"

definition batch_size :: nat where
  "batch_size = 32"

record 'k fetch_consumer =
  fc_pending :: "native_message option list"
  fc_next :: nat
  fc_len :: nat
  fc_kafka :: 'k

definition fetch_new :: "'k \<Rightarrow> 'k fetch_consumer" where
  "fetch_new k = \<lparr>fc_pending = replicate batch_size None, fc_next = 0, fc_len = 0, fc_kafka = k\<rparr>"

text \<open>\<open>NullMessage\<close> is the dereference of a slot that holds no message.\<close>

datatype polled = Polled native_message | PollError kafka_error | NullMessage

definition fetch_extract ::
    "'k kafka_ops \<Rightarrow> int \<Rightarrow> nat \<Rightarrow> 'k fetch_consumer \<Rightarrow> (resp_code + nat) \<times> 'k fetch_consumer" where
  "fetch_extract ko timeout n fc = (case ko_extract ko timeout n (fc_kafka fc) of
      (Inl code, k) \<Rightarrow> (Inl code, fc\<lparr>fc_kafka := k\<rparr>)
    | (Inr ms, k) \<Rightarrow> (Inr (length ms),
        fc\<lparr>fc_kafka := k, fc_pending := map Some ms @ drop (length ms) (fc_pending fc)\<rparr>))"

definition fetch_two ::
    "'k kafka_ops \<Rightarrow> nat \<Rightarrow> 'k fetch_consumer \<Rightarrow> (resp_code + nat) \<times> 'k fetch_consumer" where
  "fetch_two ko timeout fc = (case fetch_extract ko 0 batch_size fc of
      (Inr n, fc') \<Rightarrow>
        if n = 0 \<and> timeout \<noteq> 0 then fetch_extract ko (min (int timeout) i32_max) 1 fc' else (Inr n, fc')
    | (Inl code, fc') \<Rightarrow> (Inl code, fc'))"

text \<open>The refill of an exhausted batch: an early return of \<open>poll\<close>, or \<open>None\<close> to go on.\<close>

definition fetch_refill ::
    "'k kafka_ops \<Rightarrow> nat \<Rightarrow> 'k fetch_consumer \<Rightarrow> polled option option \<times> 'k fetch_consumer" where
  "fetch_refill ko timeout fc = (case ko_events ko (fc_kafka fc) of
      (Some (Inl e), k) \<Rightarrow> (Some (Some (PollError e)), fc\<lparr>fc_kafka := k\<rparr>)
    | (Some (Inr _), k) \<Rightarrow> (Some (Some (PollError (MessageConsumptionFatal RespState))), fc\<lparr>fc_kafka := k\<rparr>)
    | (None, k) \<Rightarrow>
        (case fetch_two ko timeout (fc\<lparr>fc_kafka := k\<rparr>) of
           (Inl code, fc') \<Rightarrow> (Some (Some (PollError (MessageConsumption code))), fc')
         | (Inr n, fc') \<Rightarrow>
             (if n = 0 then Some None else None, fc'\<lparr>fc_next := 0, fc_len := n\<rparr>)))"

definition outcome_of :: "native_message \<Rightarrow> polled" where
  "outcome_of m = (case nm_err m of
      RespNoError \<Rightarrow> Polled m
    | RespPartitionEof \<Rightarrow> Polled m
    | RespFatal \<Rightarrow> PollError (MessageConsumptionFatal (nm_err m))
    | _ \<Rightarrow> PollError (MessageConsumption (nm_err m)))"

definition fetch_take :: "'k fetch_consumer \<Rightarrow> polled option \<times> 'k fetch_consumer" where
  "fetch_take fc =
     (Some (case fc_pending fc ! fc_next fc of None \<Rightarrow> NullMessage | Some m \<Rightarrow> outcome_of m),
      fc\<lparr>fc_pending := (fc_pending fc)[fc_next fc := None], fc_next := fc_next fc + 1\<rparr>)"

text \<open>Timeouts are whole milliseconds.\<close>

definition fetch_poll :: "'k kafka_ops \<Rightarrow> nat \<Rightarrow> 'k fetch_consumer \<Rightarrow> polled option \<times> 'k fetch_consumer" where
  "fetch_poll ko timeout fc =
     (if fc_next fc = fc_len fc
      then case fetch_refill ko timeout fc of
          (Some r, fc') \<Rightarrow> (r, fc')
        | (None, fc') \<Rightarrow> fetch_take fc'
      else fetch_take fc)"

text \<open>\<open>Drop\<close>: the messages destroyed with the consumer.\<close>

definition fetch_dropped :: "'k fetch_consumer \<Rightarrow> native_message option list" where
  "fetch_dropped fc = drop (fc_next fc) (take (fc_len fc) (fc_pending fc))"

section \<open>Order and ownership\<close>

definition fetch_ok :: "'k fetch_consumer \<Rightarrow> bool" where
  "fetch_ok fc \<longleftrightarrow> length (fc_pending fc) = batch_size \<and> fc_next fc \<le> fc_len fc \<and> fc_len fc \<le> batch_size \<and>
     (\<forall>i < batch_size. fc_pending fc ! i \<noteq> None \<longleftrightarrow> fc_next fc \<le> i \<and> i < fc_len fc)"

text \<open>
  librdkafka's queue hands its messages out once each and in order, at most as many as asked for:
  \<open>incoming k\<close> is what the queue of client state \<open>k\<close> will hand out.
\<close>

definition queue_law :: "'k kafka_ops \<Rightarrow> ('k \<Rightarrow> native_message list) \<Rightarrow> bool" where
  "queue_law ko incoming \<longleftrightarrow>
     (\<forall>k r k'. ko_events ko k = (r, k') \<longrightarrow> incoming k' = incoming k) \<and>
     (\<forall>t n k c k'. ko_extract ko t n k = (Inl c, k') \<longrightarrow> incoming k' = incoming k) \<and>
     (\<forall>t n k ms k'. ko_extract ko t n k = (Inr ms, k') \<longrightarrow> length ms \<le> n \<and> incoming k = ms @ incoming k')"

definition backlog :: "('k \<Rightarrow> native_message list) \<Rightarrow> 'k fetch_consumer \<Rightarrow> native_message list" where
  "backlog incoming fc = map the (fetch_dropped fc) @ incoming (fc_kafka fc)"

lemma fetch_ok_new: "fetch_ok (fetch_new k)"
  by (simp add: fetch_ok_def fetch_new_def)

lemma backlog_new [simp]: "backlog incoming (fetch_new k) = incoming k"
  by (simp add: backlog_def fetch_new_def fetch_dropped_def)

lemma fetch_take_ok:
  assumes "fetch_ok fc" "fc_next fc < fc_len fc" "fetch_take fc = (r, fc')"
  shows "fetch_ok fc' \<and> (\<exists>m. backlog incoming fc = m # backlog incoming fc' \<and> r = Some (outcome_of m))"
proof -
  have i: "fc_next fc < batch_size" using assms by (simp add: fetch_ok_def)
  with assms(1,2) obtain m where m: "fc_pending fc ! fc_next fc = Some m" by (fastforce simp: fetch_ok_def)
  have "fetch_dropped fc = Some m # drop (Suc (fc_next fc)) (take (fc_len fc) (fc_pending fc))"
    unfolding fetch_dropped_def using assms m i by (subst Cons_nth_drop_Suc [symmetric]) (auto simp: fetch_ok_def)
  moreover have "fetch_dropped fc' = drop (Suc (fc_next fc)) (take (fc_len fc) (fc_pending fc))"
    using assms(3) by (auto simp: fetch_take_def fetch_dropped_def take_update_swap)
  ultimately have "backlog incoming fc = m # backlog incoming fc'"
    using assms(3) by (auto simp: backlog_def fetch_take_def)
  moreover have "fetch_ok fc'"
    using assms m by (auto simp: fetch_ok_def fetch_take_def nth_list_update less_Suc_eq_le Suc_le_eq
      order_less_le split: if_splits)
  ultimately show ?thesis using assms(3) m by (auto simp: fetch_take_def)
qed

lemma refilled_ok:
  assumes "length ms \<le> batch_size" "length (fc_pending fc) = batch_size" "\<forall>i < batch_size. fc_pending fc ! i = None"
  shows "fetch_ok (fc\<lparr>fc_kafka := k, fc_pending := map Some ms @ drop (length ms) (fc_pending fc),
      fc_next := 0, fc_len := length ms\<rparr>)"
    and "backlog incoming (fc\<lparr>fc_kafka := k, fc_pending := map Some ms @ drop (length ms) (fc_pending fc),
      fc_next := 0, fc_len := length ms\<rparr>) = ms @ incoming k"
  using assms by (auto simp: fetch_ok_def backlog_def fetch_dropped_def nth_append comp_def)

text \<open>An extraction into the empty array: the array and the queue hold what the queue held.\<close>

definition extracted ::
    "('k \<Rightarrow> native_message list) \<Rightarrow> 'k fetch_consumer \<Rightarrow> (resp_code + nat) \<times> 'k fetch_consumer \<Rightarrow> bool" where
  "extracted incoming fc res \<longleftrightarrow> (case res of
      (Inl c, fc') \<Rightarrow> fc' = fc\<lparr>fc_kafka := fc_kafka fc'\<rparr> \<and> incoming (fc_kafka fc') = incoming (fc_kafka fc)
    | (Inr n, fc') \<Rightarrow> \<exists>ms. n = length ms \<and> n \<le> batch_size \<and> incoming (fc_kafka fc) = ms @ incoming (fc_kafka fc') \<and>
        fc' = fc\<lparr>fc_kafka := fc_kafka fc', fc_pending := map Some ms @ drop (length ms) (fc_pending fc)\<rparr>)"

lemma fetch_extract_extracted:
  "queue_law ko incoming \<Longrightarrow> n \<le> batch_size \<Longrightarrow> extracted incoming fc (fetch_extract ko t n fc)"
  by (fastforce simp: extracted_def fetch_extract_def queue_law_def split: prod.splits sum.splits)

lemma fetch_two_extracted:
  assumes "queue_law ko incoming"
  shows "extracted incoming fc (fetch_two ko timeout fc)"
proof -
  note one = fetch_extract_extracted [OF assms]
  obtain r fc1 where first: "fetch_extract ko 0 batch_size fc = (r, fc1)" by fastforce
  have law: "extracted incoming fc (r, fc1)" using one [of batch_size fc 0] first by simp
  show ?thesis
  proof (cases "r = Inr 0 \<and> timeout \<noteq> 0")
    case False
    with first have "fetch_two ko timeout fc = (r, fc1)" by (cases r) (auto simp: fetch_two_def)
    with law show ?thesis by simp
  next
    case True
    with law have fc1: "fc1 = fc\<lparr>fc_kafka := fc_kafka fc1\<rparr>" "incoming (fc_kafka fc) = incoming (fc_kafka fc1)"
      by (auto simp: extracted_def)
    from True first have two: "fetch_two ko timeout fc = fetch_extract ko (min (int timeout) i32_max) 1 fc1"
      by (simp add: fetch_two_def)
    have "extracted incoming fc1 (fetch_extract ko (min (int timeout) i32_max) 1 fc1)"
      by (rule one) (simp add: batch_size_def)
    then have "extracted incoming (fc\<lparr>fc_kafka := fc_kafka fc1\<rparr>) (fetch_two ko timeout fc)"
      unfolding two by (subst fc1(1) [symmetric])
    then show ?thesis using fc1(2)
      by (auto simp: extracted_def split: prod.splits sum.splits)
  qed
qed

definition list_kafka :: "native_message list kafka_ops" where
  "list_kafka =
     \<lparr>ko_events = (\<lambda>k. (None, k)), ko_extract = (\<lambda>t n k. (Inr (take n k), drop n k)),
      ko_pause = (\<lambda>topic p k. (Inr (), filter (\<lambda>m. nm_partition m \<noteq> p) k)),
      ko_code = (\<lambda>e. case e of MessageConsumption c \<Rightarrow> Some c | MessageConsumptionFatal c \<Rightarrow> Some c | _ \<Rightarrow> None),
      ko_text = (\<lambda>e. ''error''), ko_grow = (\<lambda>c n. n)\<rparr>"

definition plain_message :: "int \<Rightarrow> int \<Rightarrow> bytes \<Rightarrow> native_message" where
  "plain_message p n payload =
     \<lparr>nm_err = RespNoError, nm_partition = p, nm_offset = n, nm_key = None, nm_key_len = 0,
      nm_payload = Some payload, nm_raw_timestamp = (-1, KindNotAvailable), nm_headers = None\<rparr>"

lemma list_kafka_law: "queue_law list_kafka (\<lambda>k. k)"
  by (auto simp: queue_law_def list_kafka_def)

lemma fetch_poll_step:
  assumes law: "queue_law ko incoming" and ok: "fetch_ok fc" and poll: "fetch_poll ko timeout fc = (r, fc')"
  shows "fetch_ok fc' \<and> r \<noteq> Some NullMessage \<and>
    ((\<exists>m. backlog incoming fc = m # backlog incoming fc' \<and> r = Some (outcome_of m)) \<or>
     backlog incoming fc' = backlog incoming fc \<and> (r = None \<or> (\<exists>e. r = Some (PollError e))))"
proof -
  have real: "outcome_of m \<noteq> NullMessage" for m by (cases "nm_err m") (simp_all add: outcome_of_def)
  show ?thesis
  proof (cases "fc_next fc = fc_len fc")
    case False
    with ok poll have "fc_next fc < fc_len fc" "fetch_take fc = (r, fc')" by (auto simp: fetch_ok_def fetch_poll_def)
    from fetch_take_ok [OF ok this, of incoming] real show ?thesis by auto
  next
    case True
    then have empty: "backlog incoming fc = incoming (fc_kafka fc)" "length (fc_pending fc) = batch_size"
      "\<forall>i < batch_size. fc_pending fc ! i = None"
      using ok by (auto simp: backlog_def fetch_dropped_def fetch_ok_def)
    have kafka_only: "fetch_ok (fc\<lparr>fc_kafka := k\<rparr>)" "backlog incoming (fc\<lparr>fc_kafka := k\<rparr>) = incoming k" for k
      using ok True by (auto simp: fetch_ok_def backlog_def fetch_dropped_def)
    obtain ev k where ev: "ko_events ko (fc_kafka fc) = (ev, k)" by fastforce
    then have same: "incoming k = incoming (fc_kafka fc)" using law by (simp add: queue_law_def)
    show ?thesis
    proof (cases ev)
      case (Some x)
      with True poll ev obtain e where "r = Some (PollError e)" "fc' = fc\<lparr>fc_kafka := k\<rparr>"
        by (cases x) (auto simp: fetch_poll_def fetch_refill_def)
      with kafka_only same empty show ?thesis by simp
    next
      case None
      let ?fc = "fc\<lparr>fc_kafka := k\<rparr>"
      obtain res fc2 where two: "fetch_two ko timeout ?fc = (res, fc2)" by fastforce
      with fetch_two_extracted [OF law, of ?fc timeout] have ext: "extracted incoming ?fc (res, fc2)" by simp
      show ?thesis
      proof (cases res)
        case (Inl c)
        with True poll ev None two have "r = Some (PollError (MessageConsumption c))" "fc' = fc2"
          by (auto simp: fetch_poll_def fetch_refill_def)
        moreover have "fc2 = fc\<lparr>fc_kafka := fc_kafka fc2\<rparr>" "incoming (fc_kafka fc2) = incoming k"
          using ext Inl by (auto simp: extracted_def)
        then have "fetch_ok fc2" "backlog incoming fc2 = incoming k"
          using kafka_only [of "fc_kafka fc2"] by metis+
        ultimately show ?thesis using same empty(1) by simp
      next
        case (Inr n)
        with ext obtain ms where ms: "n = length ms" "n \<le> batch_size" "incoming k = ms @ incoming (fc_kafka fc2)"
          "fc2 = fc\<lparr>fc_kafka := fc_kafka fc2, fc_pending := map Some ms @ drop (length ms) (fc_pending fc)\<rparr>"
          by (auto simp: extracted_def)
        define fc3 where "fc3 = fc2\<lparr>fc_next := 0, fc_len := n\<rparr>"
        have fc3: "fetch_ok fc3" "backlog incoming fc3 = incoming k"
          using refilled_ok [where ms = ms and fc = fc and k = "fc_kafka fc2"] ms empty(2,3) unfolding fc3_def by metis+
        show ?thesis
        proof (cases "n = 0")
          case True
          with \<open>fc_next fc = fc_len fc\<close> poll ev None two Inr have "r = None" "fc' = fc3"
            by (auto simp: fetch_poll_def fetch_refill_def fc3_def)
          with fc3 same empty show ?thesis by simp
        next
          case False
          with True poll ev None two Inr have "fetch_take fc3 = (r, fc')"
            by (auto simp: fetch_poll_def fetch_refill_def fc3_def)
          moreover have "fc_next fc3 < fc_len fc3" using False by (simp add: fc3_def)
          ultimately show ?thesis
            using fetch_take_ok [OF fc3(1), of r fc' incoming] real fc3(2) same empty(1) by auto
        qed
      qed
    qed
  qed
qed

text \<open>
  C23. On a queue that hands each message out once and in order, so does the batching on top of it: a
  poll takes the next message of batch and queue or leaves them as they are, with no message or an error;
  it never reads an empty slot, and what is left is destroyed with the consumer.
\<close>

theorem fetch_poll_fifo:
  assumes law: "queue_law ko incoming" and ok: "fetch_ok fc" and poll: "fetch_poll ko timeout fc = (r, fc')"
  shows "fetch_ok fc' \<and> r \<noteq> Some NullMessage \<and>
    ((\<exists>m. backlog incoming fc = m # backlog incoming fc' \<and> r = Some (outcome_of m)) \<or>
     backlog incoming fc' = backlog incoming fc \<and> (r = None \<or> (\<exists>e. r = Some (PollError e))))"
  using assms by (rule fetch_poll_step)

theorem fetch_poll_fifo_witness:
  "fst (fetch_poll list_kafka 100 (fetch_new [plain_message 0 7 ''a'', plain_message 0 8 ''b''])) =
      Some (Polled (plain_message 0 7 ''a''))
    \<and> backlog (\<lambda>k. k) (snd (fetch_poll list_kafka 100 (fetch_new [plain_message 0 7 ''a'', plain_message 0 8 ''b''])))
      = [plain_message 0 8 ''b'']"
proof -
  let ?fc = "fetch_new [plain_message 0 7 ''a'', plain_message 0 8 ''b'']"
  have some: "fst (fetch_poll list_kafka 100 ?fc) = Some (Polled (plain_message 0 7 ''a''))"
    by (simp add: fetch_poll_def fetch_refill_def fetch_new_def list_kafka_def fetch_two_def fetch_extract_def
        fetch_take_def batch_size_def outcome_of_def plain_message_def)
  from fetch_poll_fifo [OF list_kafka_law fetch_ok_new prod.collapse [symmetric], of 100 "[plain_message 0 7 ''a'', plain_message 0 8 ''b'']"]
  show ?thesis using some by (auto simp: outcome_of_def)
qed

end
