(* ===== verification/Kafka_Input.thy ===== *)
theory Kafka_Input
  imports Kafka_Ranges Payload_Buffers Fetch
begin

text \<open>
  One consumer's input (\<open>KafkaInput\<close> in \<open>src/kafka.rs\<close>): its assigned partitions with their bounds and
  whether they are done, and what a poll makes of the next message. \<open>ki_notices\<close> are the lines it prints
  to standard error.
\<close>

section \<open>Client configuration\<close>

type_synonym client_config = "string \<Rightarrow> string option"

text \<open>\<open>consumer_config\<close>: \<open>ClientConfig::set\<close> replaces a key.\<close>

definition consumer_config :: "(string, string) btree \<Rightarrow> client_config" where
  "consumer_config properties =
     (let client = fold (\<lambda>(k, v) m. m(k \<mapsto> v)) properties [''fetch.queue.backoff.ms'' \<mapsto> ''100''];
          client = (if bt_get properties ''group.id'' = None then client(''group.id'' \<mapsto> ''jkq'') else client)
      in client(''auto.offset.reset'' \<mapsto> ''error'', ''enable.auto.commit'' \<mapsto> ''false'',
           ''enable.auto.offset.store'' \<mapsto> ''false'', ''enable.partition.eof'' \<mapsto> ''true''))"

section \<open>State\<close>

record partition_state =
  ps_range :: partition_range
  ps_done :: bool

datatype input_error =
    OffsetReset kafka_error
  | FatalConsumer kafka_error
  | RecordError kafka_error
  | UnassignedRecord int
  | FinishUnassigned int
  | PauseUnassigned int
  | PauseFailed int string
  | RetainedOverflow
  | NullDereference

text \<open>The message of an error, for topic \<open>topic\<close>; \<open>text\<close> renders an rdkafka error.\<close>

definition at_partition :: "string \<Rightarrow> string \<Rightarrow> int \<Rightarrow> string" where
  "at_partition what topic p = what @ topic @ '' partition '' @ dec_int p"

definition input_error_text :: "(kafka_error \<Rightarrow> string) \<Rightarrow> string \<Rightarrow> input_error \<Rightarrow> string" where
  "input_error_text render topic e = (case e of
      OffsetReset err \<Rightarrow> ''Kafka offset error: '' @ render err
    | FatalConsumer err \<Rightarrow> ''fatal Kafka consumer error: '' @ render err
    | RecordError err \<Rightarrow> ''Kafka record error: '' @ render err
    | UnassignedRecord p \<Rightarrow> at_partition ''received unassigned record for topic '' topic p
    | FinishUnassigned p \<Rightarrow> at_partition ''cannot finish unassigned topic '' topic p
    | PauseUnassigned p \<Rightarrow> at_partition ''cannot pause unassigned topic '' topic p
    | PauseFailed p err \<Rightarrow> at_partition ''cannot pause '' topic p @ '': '' @ err
    | RetainedOverflow \<Rightarrow> ''record retained-byte charge overflowed usize''
    | NullDereference \<Rightarrow> ''null message'')"

datatype poll_event = PollRecord owned_record | PollIdle | PollDone

record 'k kafka_input =
  ki_payload_buffers :: payload_buffers
  ki_consumer :: "'k fetch_consumer"
  ki_topic :: string
  ki_partitions :: "(int, partition_state) btree"
  ki_remaining :: nat
  ki_max_inflight :: nat
  ki_requirements :: output_requirements
  ki_exit_at_end :: bool
  ki_error_policy :: kafka_error_policy
  ki_quiet :: bool
  ki_notices :: "string list"

definition assigned_partitions :: "'k kafka_input \<Rightarrow> int list" where
  "assigned_partitions ki = bt_keys (ki_partitions ki)"

section \<open>Finishing a partition\<close>

definition pause :: "'k kafka_ops \<Rightarrow> int \<Rightarrow> 'k kafka_input \<Rightarrow> (input_error + unit) \<times> 'k kafka_input" where
  "pause ko p ki =
     (if bt_get (ki_partitions ki) p = None then (Inl (PauseUnassigned p), ki)
      else case ko_pause ko (ki_topic ki) p (fc_kafka (ki_consumer ki)) of (r, k) \<Rightarrow>
        (map_err (PauseFailed p) r, ki\<lparr>ki_consumer := (ki_consumer ki)\<lparr>fc_kafka := k\<rparr>\<rparr>))"

definition finish :: "'k kafka_ops \<Rightarrow> int \<Rightarrow> 'k kafka_input \<Rightarrow> (input_error + unit) \<times> 'k kafka_input" where
  "finish ko p ki = (case bt_get (ki_partitions ki) p of
      None \<Rightarrow> (Inl (FinishUnassigned p), ki)
    | Some st \<Rightarrow>
        if ps_done st then (Inr (), ki)
        else pause ko p (ki\<lparr>ki_remaining := usize_sub (ki_remaining ki) 1,
          ki_partitions := bt_insert p (st\<lparr>ps_done := True\<rparr>) (ki_partitions ki)\<rparr>))"

definition handle_eof :: "'k kafka_ops \<Rightarrow> int \<Rightarrow> int \<Rightarrow> 'k kafka_input \<Rightarrow> (input_error + unit) \<times> 'k kafka_input" where
  "handle_eof ko p n ki = (case bt_get (ki_partitions ki) p of
      None \<Rightarrow> (Inr (), ki)
    | Some st \<Rightarrow>
        if (case pr_end (ps_range st) of Some e \<Rightarrow> n \<ge> e | None \<Rightarrow> ki_exit_at_end ki)
        then finish ko p ki else (Inr (), ki))"

section \<open>The record\<close>

text \<open>\<open>size_of::<Header>()\<close>: a \<open>String\<close> and an optional \<open>Vec\<close>, three words each.\<close>

definition header_size :: nat where
  "header_size = 48"

fun add_headers :: "nat \<Rightarrow> header list \<Rightarrow> input_error + nat" where
  "add_headers n [] = Inr n"
| "add_headers n (h # hs) =
     bind_r (ok_or (Option.bind (checked_add n (length (h_name h)))
                     (\<lambda>n. checked_add n (case h_value h of None \<Rightarrow> 0 | Some v \<Rightarrow> length v))) RetainedOverflow)
       (\<lambda>n. add_headers n hs)"

definition retained_bytes :: "native_message \<Rightarrow> output_requirements \<Rightarrow> input_error + nat" where
  "retained_bytes m req =
     (let n = (case nm_payload m of None \<Rightarrow> 0 | Some bs \<Rightarrow> length bs) in
      bind_r (if req_key req then ok_or (checked_add n (nm_key_len m)) RetainedOverflow else Inr n) (\<lambda>n.
      case (if req_headers req then nm_headers m else None) of
        None \<Rightarrow> Inr n
      | Some hs \<Rightarrow>
          bind_r (ok_or (Option.bind (checked_mul (length hs) header_size) (checked_add n)) RetainedOverflow)
            (\<lambda>n. add_headers n hs)))"

definition kafka_record_timestamp :: "kafka_timestamp \<Rightarrow> timestamp option" where
  "kafka_record_timestamp t = (case t of
      NotAvailable \<Rightarrow> None
    | KafkaCreateTime ms \<Rightarrow> Some \<lparr>milliseconds = ms, ts_kind = CreateTime\<rparr>
    | KafkaLogAppendTime ms \<Rightarrow> Some \<lparr>milliseconds = ms, ts_kind = LogAppendTime\<rparr>)"

definition copy_payload :: "'k kafka_ops \<Rightarrow> bytes option \<Rightarrow> payload_buffers \<Rightarrow> vec option \<times> payload_buffers" where
  "copy_payload ko payload pb = (case payload of
      None \<Rightarrow> (None, pb)
    | Some bs \<Rightarrow> (case buffer_copy (ko_grow ko) bs pb of (v, pb') \<Rightarrow> (Some v, pb')))"

definition own_record ::
    "'k kafka_ops \<Rightarrow> native_message \<Rightarrow> nat \<Rightarrow> 'k kafka_input \<Rightarrow> owned_record \<times> 'k kafka_input" where
  "own_record ko m retained ki =
     (let req = ki_requirements ki in
      case copy_payload ko (nm_payload m) (ki_payload_buffers ki) of (payload, pb) \<Rightarrow>
        (\<lparr>r_partition = nm_partition m, r_offset = nm_offset m,
          r_timestamp = (if req_timestamp req then kafka_record_timestamp (native_timestamp m) else None),
          r_key = (if req_key req then nm_key m else None),
          r_headers = (if req_headers req then (case nm_headers m of None \<Rightarrow> [] | Some hs \<Rightarrow> hs) else []),
          r_payload = payload, r_retained_bytes = retained\<rparr>,
         ki\<lparr>ki_payload_buffers := pb\<rparr>))"

section \<open>Polling\<close>

definition idle_after :: "(input_error + unit) \<times> 'k kafka_input \<Rightarrow> (input_error + poll_event) \<times> 'k kafka_input" where
  "idle_after res = (case res of (r, ki) \<Rightarrow> (bind_r r (\<lambda>_. Inr PollIdle), ki))"

definition poll_error :: "'k kafka_ops \<Rightarrow> kafka_error \<Rightarrow> 'k kafka_input \<Rightarrow> (input_error + poll_event) \<times> 'k kafka_input" where
  "poll_error ko e ki =
     (if ko_code ko e = Some RespAutoOffsetReset then (Inl (OffsetReset e), ki)
      else case e of
        MessageConsumptionFatal _ \<Rightarrow> (Inl (FatalConsumer e), ki)
      | _ \<Rightarrow>
          if ki_error_policy ki = KafkaContinue
          then (Inr PollIdle,
            if ki_quiet ki then ki
            else ki\<lparr>ki_notices := ki_notices ki @ [''jkq: Kafka record error: '' @ ko_text ko e]\<rparr>)
          else (Inl (RecordError e), ki))"

definition take_message :: "'k kafka_ops \<Rightarrow> native_message \<Rightarrow> 'k kafka_input \<Rightarrow> (input_error + poll_event) \<times> 'k kafka_input" where
  "take_message ko m ki =
     (if is_partition_eof m then idle_after (handle_eof ko (nm_partition m) (nm_offset m) ki)
      else case bt_get (ki_partitions ki) (nm_partition m) of
        None \<Rightarrow> (Inl (UnassignedRecord (nm_partition m)), ki)
      | Some st \<Rightarrow>
          if ps_done st then (Inr PollIdle, ki)
          else if (case pr_end (ps_range st) of Some e \<Rightarrow> nm_offset m \<ge> e | None \<Rightarrow> False)
          then idle_after (finish ko (nm_partition m) ki)
          else if (case pr_start (ps_range st) of KOffset s \<Rightarrow> nm_offset m < s | _ \<Rightarrow> False)
          then (Inr PollIdle, ki)
          else case retained_bytes m (ki_requirements ki) of
              Inl e \<Rightarrow> (Inl e, ki)
            | Inr n \<Rightarrow> (case own_record ko m n ki of (r, ki') \<Rightarrow> (Inr (PollRecord r), ki')))"

definition poll_with_timeout :: "'k kafka_ops \<Rightarrow> nat \<Rightarrow> 'k kafka_input \<Rightarrow> (input_error + poll_event) \<times> 'k kafka_input" where
  "poll_with_timeout ko timeout ki =
     (if ki_remaining ki = 0 then (Inr PollDone, ki)
      else case fetch_poll ko timeout (ki_consumer ki) of (r, fc) \<Rightarrow>
        (let ki = ki\<lparr>ki_consumer := fc\<rparr> in
         case r of
           None \<Rightarrow> (Inr PollIdle, ki)
         | Some NullMessage \<Rightarrow> (Inl NullDereference, ki)
         | Some (PollError e) \<Rightarrow> poll_error ko e ki
         | Some (Polled m) \<Rightarrow> take_message ko m ki))"

definition poll_timeout :: nat where
  "poll_timeout = 100"

definition input_poll :: "'k kafka_ops \<Rightarrow> 'k kafka_input \<Rightarrow> (input_error + poll_event) \<times> 'k kafka_input" where
  "input_poll ko ki = poll_with_timeout ko poll_timeout ki"

section \<open>Assignment\<close>

text \<open>
  \<open>ka_create n\<close> is the creation of the client of consumer \<open>n\<close>, which may end differently for each;
  \<open>ka_assign\<close> stands for the native part of \<open>FetchConsumer::new\<close>: it redirects the partitions' queues and
  assigns them to the client; its handles are in \<open>Fetch_Handles\<close>.
\<close>

record 'k kafka_admin =
  ka_create :: "nat \<Rightarrow> client_config \<Rightarrow> string + 'k"
  ka_assign :: "string \<Rightarrow> partition_range list \<Rightarrow> 'k \<Rightarrow> string + 'k"

definition initially_done :: "partition_range \<Rightarrow> bool" where
  "initially_done r = (case (pr_start r, pr_end r) of (KOffset s, Some e) \<Rightarrow> s \<ge> e | _ \<Rightarrow> False)"

definition partition_states :: "partition_range list \<Rightarrow> (int, partition_state) btree" where
  "partition_states ranges =
     bt_of_list (map (\<lambda>r. (pr_partition r, \<lparr>ps_range = r, ps_done = initially_done r\<rparr>)) ranges)"

definition input_new :: "'x runtime_config \<Rightarrow> consumer_assignment \<Rightarrow> 'k \<Rightarrow> 'k kafka_input" where
  "input_new cf a k =
     (let parts = partition_states (ca_ranges a) in
      \<lparr>ki_payload_buffers = buffers_new (cf_limits cf), ki_consumer = fetch_new k, ki_topic = cf_topic cf,
       ki_partitions = parts, ki_remaining = length (filter (\<lambda>st. \<not> ps_done st) (bt_values parts)),
       ki_max_inflight = ca_max_inflight a, ki_requirements = plan_requirements (cf_output cf),
       ki_exit_at_end = cf_exit_at_end cf, ki_error_policy = cf_kafka_error cf, ki_quiet = cf_quiet cf,
       ki_notices = []\<rparr>)"

fun pause_all :: "'k kafka_ops \<Rightarrow> int list \<Rightarrow> 'k kafka_input \<Rightarrow> (input_error + unit) \<times> 'k kafka_input" where
  "pause_all ko [] ki = (Inr (), ki)"
| "pause_all ko (p # ps) ki = (case pause ko p ki of
      (Inl e, ki') \<Rightarrow> (Inl e, ki')
    | (Inr _, ki') \<Rightarrow> pause_all ko ps ki')"

datatype start_error = PrepareError prepare_error | InputError input_error

definition assign ::
    "'k kafka_ops \<Rightarrow> 'k kafka_admin \<Rightarrow> cluster \<Rightarrow> 'x runtime_config \<Rightarrow> 'k \<Rightarrow> consumer_assignment
      \<Rightarrow> start_error + 'k kafka_input" where
  "assign ko ka kc cf consumer a =
     bind_r (map_err PrepareError (collect_r (map (\<lambda>r. map_err (SetOffsetFailed (pr_partition r))
              (kc_add_offset kc (cf_topic cf) (pr_partition r) (pr_start r))) (ca_ranges a)))) (\<lambda>_.
     bind_r (map_err (PrepareError \<circ> AssignFailed) (ka_assign ka (cf_topic cf) (ca_ranges a) consumer)) (\<lambda>k.
     (let ki = input_new cf a k in
      case pause_all ko (map fst (filter (\<lambda>(p, st). ps_done st) (ki_partitions ki))) ki of
        (Inl e, _) \<Rightarrow> Inl (InputError e)
      | (Inr _, ki') \<Rightarrow> Inr ki')))"

text \<open>\<open>KafkaInput::prepare\<close>: the first consumer also asks the cluster; the others are made afterwards.\<close>

definition create_consumer :: "'k kafka_admin \<Rightarrow> 'x runtime_config \<Rightarrow> nat \<Rightarrow> start_error + 'k" where
  "create_consumer ka cf n =
     map_err (PrepareError \<circ> ConsumerFailed) (ka_create ka n (consumer_config (cf_kafka_properties cf)))"

definition prepare ::
    "'k kafka_ops \<Rightarrow> 'k kafka_admin \<Rightarrow> cluster \<Rightarrow> 'x runtime_config \<Rightarrow> start_error + 'k kafka_input list" where
  "prepare ko ka kc cf =
     bind_r (create_consumer ka cf 0) (\<lambda>consumer.
     bind_r (map_err PrepareError (prepare_ranges kc cf)) (\<lambda>ranges.
     bind_r (map_err PrepareError (consumer_assignments ranges (cf_consumers cf) (cf_range_sharding cf)
               (max_inflight_per_partition (cf_limits cf)))) (\<lambda>assignments.
     bind_r (collect_r (map (create_consumer ka cf) [1..<length assignments])) (\<lambda>more_consumers.
     collect_r (map (\<lambda>(consumer, a). assign ko ka kc cf consumer a)
       (zip (consumer # more_consumers) assignments))))))"

end
