(* ===== verification/Poller.thy ===== *)
theory Poller
  imports Admission Shared_Admission Stats Failure Kafka_Input
begin

text \<open>
  The input side of \<open>src/runtime.rs\<close>: a poller admits the records of its consumer, numbers them, collects
  them in batches for the evaluators (or completes them itself when nothing is evaluated), and takes the
  writer's releases back. One iteration of \<open>poll_loop\<close> is one function of the poller's state and of what
  the rest of the process did in the meantime; channel sends are logged in \<open>pl_sent\<close>.
\<close>

section \<open>Batches\<close>

definition batch_records :: nat where
  "batch_records = 64"

definition batch_bytes :: nat where
  "batch_bytes = 1024 * 1024"

text \<open>The evaluators' channel, or the writer's with the \<open>drop_tombstones\<close> option.\<close>

datatype destination = Evaluate | WriteDirect bool

record poller_buffer =
  bf_consumer :: nat
  bf_destination :: destination
  bf_pending :: "work_item list"
  bf_retained :: nat

datatype dispatch = SentWork record_batch | SentCompletions completion_batch

definition buffer_new :: "nat \<Rightarrow> destination \<Rightarrow> poller_buffer" where
  "buffer_new consumer destination =
     \<lparr>bf_consumer = consumer, bf_destination = destination, bf_pending = [], bf_retained = 0\<rparr>"

text \<open>What a record becomes when no evaluator is involved.\<close>

definition direct_action :: "bool \<Rightarrow> owned_record \<Rightarrow> action" where
  "direct_action drop_tombstones r = (case r_payload r of
      Some v \<Rightarrow> PassThrough (Exact v)
    | None \<Rightarrow> if drop_tombstones then Drop else Tombstone)"

definition direct_completion :: "nat \<Rightarrow> bool \<Rightarrow> work_item \<Rightarrow> completion" where
  "direct_completion consumer drop_tombstones work =
     (let r = w_record work in
      \<lparr>c_spare_payload = None, c_consumer = consumer, c_partition = r_partition r, c_sequence = w_sequence work,
       c_retained_bytes = r_retained_bytes r, c_source = source_of r,
       c_outcome = Done (direct_action drop_tombstones r)\<rparr>)"

definition count_direct :: "bool \<Rightarrow> work_item \<Rightarrow> stats \<Rightarrow> stats" where
  "count_direct drop_tombstones work =
     stats_transformed (direct_action drop_tombstones (w_record work)) None (r_payload (w_record work) = None)"

text \<open>\<open>refusal\<close> is the channel's answer to a send: an error text when the receiver is gone.\<close>

definition buffer_flush ::
    "string option \<Rightarrow> poller_buffer \<Rightarrow> stats \<Rightarrow> (string + unit) \<times> dispatch list \<times> poller_buffer \<times> stats" where
  "buffer_flush refusal b st =
     (if bf_pending b = [] then (Inr (), [], b, st)
      else
        let b' = b\<lparr>bf_retained := 0, bf_pending := []\<rparr>;
            (sent, st') = (case bf_destination b of
              Evaluate \<Rightarrow> (SentWork \<lparr>rb_consumer = bf_consumer b, rb_items = bf_pending b\<rparr>, st)
            | WriteDirect drop_tombstones \<Rightarrow>
                (SentCompletions \<lparr>cb_consumer = bf_consumer b,
                   cb_items = map (direct_completion (bf_consumer b) drop_tombstones) (bf_pending b)\<rparr>,
                 fold (count_direct drop_tombstones) (bf_pending b) st))
        in case refusal of
            None \<Rightarrow> (Inr (), [sent], b', st')
          | Some err \<Rightarrow> (Inl err, [], b', st'))"

definition buffer_push ::
    "string option \<Rightarrow> owned_record \<Rightarrow> nat \<Rightarrow> poller_buffer \<Rightarrow> stats
      \<Rightarrow> (string + unit) \<times> dispatch list \<times> poller_buffer \<times> stats" where
  "buffer_push refusal r n b st =
     (let b' = b\<lparr>bf_retained := u64_add (bf_retained b) (r_retained_bytes r),
                 bf_pending := bf_pending b @ [\<lparr>w_sequence = n, w_record = r\<rparr>]\<rparr>
      in if length (bf_pending b') \<ge> batch_records \<or> bf_retained b' \<ge> batch_bytes
         then buffer_flush refusal b' st
         else (Inr (), [], b', st))"

definition evaluator_count :: "nat \<Rightarrow> nat \<Rightarrow> nat \<Rightarrow> nat" where
  "evaluator_count parallelism pollers max_inflight =
     min (max (max (saturating_sub parallelism (saturating_add pollers 1)) (div_ceil parallelism 2)) 1) max_inflight"

section \<open>Releases\<close>

definition admission_error_text :: "admission_error \<Rightarrow> string" where
  "admission_error_text e = (case e of
      NoCapacity \<Rightarrow> ''record admitted without available capacity''
    | UnknownPartition p \<Rightarrow> ''record received for unknown partition '' @ dec_int p
    | SequenceOverflow p \<Rightarrow> ''partition '' @ dec_int p @ '' sequence overflow''
    | UnknownRelease p \<Rightarrow> ''completion released unknown partition '' @ dec_int p
    | InvalidRelease p \<Rightarrow> ''invalid completion release for partition '' @ dec_int p)"

definition shared_error_text :: "shared_error \<Rightarrow> string" where
  "shared_error_text e = (case e of
      RecordUnderflow \<Rightarrow> ''shared in-flight record accounting underflow''
    | ByteUnderflow \<Rightarrow> ''shared retained-byte accounting underflow'')"

text \<open>The state a batch of releases is taken back into: the admissions and the payload pool.\<close>

type_synonym holdings = "admission \<times> shared_admission \<times> payload_buffers"

fun total_charge :: "nat \<Rightarrow> release list \<Rightarrow> nat option" where
  "total_charge n [] = Some n"
| "total_charge n (r # rs) = Option.bind (checked_add n (rel_retained_bytes r)) (\<lambda>n. total_charge n rs)"

fun release_each :: "release list \<Rightarrow> admission \<times> payload_buffers \<Rightarrow> (admission_error + unit) \<times> admission \<times> payload_buffers" where
  "release_each [] s = (Inr (), s)"
| "release_each (r # rs) s = (case s of (a, pb) \<Rightarrow>
     (case admission_release a (rel_partition r) of
        (Inl e, a') \<Rightarrow> (Inl e, a', pb)
      | (Inr _, a') \<Rightarrow>
          release_each rs (a', case rel_payload r of None \<Rightarrow> pb | Some v \<Rightarrow> recycle v pb)))"

definition release_batch :: "release list \<Rightarrow> holdings \<Rightarrow> (string + unit) \<times> holdings" where
  "release_batch releases h = (case h of (a, sh, pb) \<Rightarrow>
     (case total_charge 0 releases of
        None \<Rightarrow> (Inl ''release byte count overflowed usize'', h)
      | Some charge \<Rightarrow>
          (case release_each releases (a, pb) of
             (Inl e, a', pb') \<Rightarrow> (Inl (admission_error_text e), a', sh, pb')
           | (Inr _, a', pb') \<Rightarrow>
               (case shared_release (length releases) charge sh of
                  (res, sh') \<Rightarrow> (map_err shared_error_text res, a', sh', pb')))))"

section \<open>The poller\<close>

record 'k poller =
  pl_input :: "'k kafka_input"
  pl_admission :: admission
  pl_buffer :: "poller_buffer option"
  pl_pending :: "owned_record option"
  pl_stopping :: bool
  pl_shared :: shared_admission
  pl_control :: control
  pl_stats :: stats
  pl_sent :: "dispatch list"

datatype received = ReceivedReleases "release list" | ReceivedTimeout | ReceivedDisconnect

text \<open>
  What the other threads did before and during an iteration: what became of the shared counters and flags, the
  releases already in its channel, the answer to a send, and how its last wait ended.
\<close>

record turn =
  tn_shared :: "shared_admission \<Rightarrow> shared_admission"
  tn_control :: "control \<Rightarrow> control"
  tn_releases :: "release list list"
  tn_refusal :: "string option"
  tn_received :: received

text \<open>How an iteration goes on: next iteration, loop left, wait for releases, or a panic.\<close>

datatype flow = Again | Stopped | Waits | Crashed

definition fail :: "string \<Rightarrow> 'k poller \<Rightarrow> 'k poller" where
  "fail m p = p\<lparr>pl_control := runtime_failure m (pl_control p)\<rparr>"

definition take_back :: "release list \<Rightarrow> 'k poller \<Rightarrow> 'k poller" where
  "take_back releases p =
     (case release_batch releases (pl_admission p, pl_shared p, ki_payload_buffers (pl_input p)) of
        (res, a, sh, pb) \<Rightarrow>
          (let p' = p\<lparr>pl_admission := a, pl_shared := sh, pl_input := (pl_input p)\<lparr>ki_payload_buffers := pb\<rparr>\<rparr>
           in case res of Inl m \<Rightarrow> fail m p' | Inr _ \<Rightarrow> p'))"

definition dispatch_error :: "string \<Rightarrow> string" where
  "dispatch_error err = ''cannot dispatch admitted record batch: '' @ err"

text \<open>\<open>buffer.flush(&stats)\<close> with the handling of its error: \<open>Stopped\<close>, or \<open>next_flow\<close>.\<close>

definition flush_or_stop :: "turn \<Rightarrow> flow \<Rightarrow> poller_buffer \<Rightarrow> 'k poller \<Rightarrow> flow \<times> 'k poller" where
  "flush_or_stop tn next_flow b p =
     (case buffer_flush (tn_refusal tn) b (pl_stats p) of
        (res, sent, b', st) \<Rightarrow>
          (let p' = p\<lparr>pl_buffer := Some b', pl_stats := st, pl_sent := pl_sent p @ sent\<rparr> in
           case res of Inl err \<Rightarrow> (Stopped, fail (dispatch_error err) p') | Inr _ \<Rightarrow> (next_flow, p')))"

definition admit ::
    "turn \<Rightarrow> owned_record \<Rightarrow> poller_buffer \<Rightarrow> 'k poller \<Rightarrow> (string + nat) \<times> 'k poller" where
  "admit tn r b p =
     (case reserve (pl_admission p) (r_partition r) of
        (Inl e, a) \<Rightarrow>
          (case shared_release 1 (r_retained_bytes r) (pl_shared p) of
             (res, sh) \<Rightarrow>
               (Inl (case res of Inl e' \<Rightarrow> shared_error_text e' | Inr _ \<Rightarrow> admission_error_text e),
                p\<lparr>pl_admission := a, pl_shared := sh, pl_buffer := Some b\<rparr>))
      | (Inr n, a) \<Rightarrow>
          (case buffer_push (tn_refusal tn) r n b (stats_admit r (pl_stats p)) of
             (res, sent, b', st) \<Rightarrow>
               (bind_r (map_err dispatch_error res) (\<lambda>_. Inr n),
                p\<lparr>pl_admission := a, pl_buffer := Some b', pl_stats := st, pl_sent := pl_sent p @ sent\<rparr>)))"

text \<open>An admitted record: \<open>--count-per-partition\<close> finishes its partition.\<close>

definition after_admit ::
    "'k kafka_ops \<Rightarrow> 'x runtime_config \<Rightarrow> int \<Rightarrow> (string + nat) \<times> 'k poller \<Rightarrow> flow \<times> 'k poller" where
  "after_admit ko cf part res = (case res of
      (Inl m, p) \<Rightarrow> (Stopped, fail m p)
    | (Inr n, p) \<Rightarrow>
        if (case cf_count_per_partition cf of None \<Rightarrow> False | Some limit \<Rightarrow> n + 1 \<ge> limit)
        then (case finish ko part (pl_input p) of
            (Inl e, ki) \<Rightarrow> (Again, fail (input_error_text (ko_text ko) (ki_topic ki) e) (p\<lparr>pl_input := ki\<rparr>))
          | (Inr _, ki) \<Rightarrow> (Again, p\<lparr>pl_input := ki\<rparr>))
        else (Again, p))"

text \<open>A record at hand is admitted when both budgets have room, and kept for the next iteration otherwise.\<close>

definition offer ::
    "'k kafka_ops \<Rightarrow> 'x runtime_config \<Rightarrow> turn \<Rightarrow> owned_record \<Rightarrow> poller_buffer \<Rightarrow> 'k poller \<Rightarrow> flow \<times> 'k poller" where
  "offer ko cf tn r b p =
     (if can_reserve (pl_admission p) (r_partition r)
      then case try_reserve (r_retained_bytes r) (pl_shared p) of
          (True, sh) \<Rightarrow> after_admit ko cf (r_partition r) (admit tn r b (p\<lparr>pl_shared := sh\<rparr>))
        | (False, sh) \<Rightarrow> flush_or_stop tn Waits b (p\<lparr>pl_shared := sh, pl_pending := Some r\<rparr>)
      else flush_or_stop tn Waits b (p\<lparr>pl_pending := Some r\<rparr>))"

definition running ::
    "'k kafka_ops \<Rightarrow> 'x runtime_config \<Rightarrow> turn \<Rightarrow> 'k poller \<Rightarrow> flow \<times> 'k poller" where
  "running ko cf tn p = (case pl_buffer p of
      None \<Rightarrow> (Crashed, p)
    | Some b \<Rightarrow>
        (case pl_pending p of
           Some r \<Rightarrow> offer ko cf tn r b (p\<lparr>pl_pending := None\<rparr>)
         | None \<Rightarrow>
             (case (if bf_pending b = [] then input_poll ko (pl_input p)
                    else poll_with_timeout ko 0 (pl_input p)) of
                (Inr (PollRecord r), ki) \<Rightarrow> offer ko cf tn r b (p\<lparr>pl_input := ki\<rparr>)
              | (Inr PollIdle, ki) \<Rightarrow> flush_or_stop tn Again b (p\<lparr>pl_input := ki\<rparr>)
              | (Inr PollDone, ki) \<Rightarrow> (Again, p\<lparr>pl_input := ki, pl_stopping := True\<rparr>)
              | (Inl e, ki) \<Rightarrow>
                  (Again, fail (input_error_text (ko_text ko) (ki_topic ki) e) (p\<lparr>pl_input := ki\<rparr>)))))"

text \<open>Stopping: the buffered records go out once, then the loop only waits for their releases.\<close>

definition stopping :: "turn \<Rightarrow> 'k poller \<Rightarrow> flow \<times> 'k poller" where
  "stopping tn p =
     (case (case pl_buffer p of
              None \<Rightarrow> (Waits, p)
            | Some b \<Rightarrow> (case flush_or_stop tn Waits b p of (fl, p') \<Rightarrow> (fl, p'\<lparr>pl_buffer := None\<rparr>))) of
        (Stopped, p') \<Rightarrow> (Stopped, p')
      | (_, p') \<Rightarrow>
          (let p' = p'\<lparr>pl_pending := None\<rparr> in
           if total_records (pl_admission p') = 0 then (Stopped, p') else (Waits, p')))"

definition wait :: "turn \<Rightarrow> flow \<times> 'k poller \<Rightarrow> flow \<times> 'k poller" where
  "wait tn res = (case res of
      (Waits, p) \<Rightarrow> (case tn_received tn of
          ReceivedReleases releases \<Rightarrow> (Again, take_back releases p)
        | ReceivedTimeout \<Rightarrow> (Again, p)
        | ReceivedDisconnect \<Rightarrow> (Stopped, fail ''completion release channel closed early'' p))
    | (fl, p) \<Rightarrow> (fl, p))"

definition begin_turn :: "turn \<Rightarrow> 'k poller \<Rightarrow> 'k poller" where
  "begin_turn tn p =
     (let p = fold take_back (tn_releases tn) (p\<lparr>pl_shared := tn_shared tn (pl_shared p), pl_control := tn_control tn (pl_control p)\<rparr>)
      in p\<lparr>pl_stopping := pl_stopping p \<or> ct_shutdown (pl_control p) \<or> count_reached (pl_shared p)\<rparr>)"

definition poll_turn ::
    "'k kafka_ops \<Rightarrow> 'x runtime_config \<Rightarrow> turn \<Rightarrow> 'k poller \<Rightarrow> flow \<times> 'k poller" where
  "poll_turn ko cf tn p =
     (let p = begin_turn tn p in wait tn (if pl_stopping p then stopping tn p else running ko cf tn p))"

text \<open>\<open>poll_loop\<close> over the iterations' turns, until it is left.\<close>

fun poll_loop :: "'k kafka_ops \<Rightarrow> 'x runtime_config \<Rightarrow> turn list \<Rightarrow> 'k poller \<Rightarrow> flow \<times> 'k poller" where
  "poll_loop ko cf [] p = (Again, p)"
| "poll_loop ko cf (tn # tns) p = (case poll_turn ko cf tn p of
      (Again, p') \<Rightarrow> poll_loop ko cf tns p'
    | (fl, p') \<Rightarrow> (fl, p'))"

definition poller_new ::
    "'x runtime_config \<Rightarrow> nat \<Rightarrow> 'k kafka_input \<Rightarrow> shared_admission \<Rightarrow> control \<Rightarrow> stats \<Rightarrow> 'k poller" where
  "poller_new cf consumer ki sh ct st =
     \<lparr>pl_input = ki, pl_admission = admission_new (assigned_partitions ki) (ki_max_inflight ki),
      pl_buffer = Some (buffer_new consumer
        (if tp_parses_json (cf_transform cf) then Evaluate else WriteDirect (tp_drop_tombstones (cf_transform cf)))),
      pl_pending = None, pl_stopping = False, pl_shared = sh, pl_control = ct, pl_stats = st, pl_sent = []\<rparr>"

end
