(* ===== verification/Kafka_Ranges_Facts.thy ===== *)
theory Kafka_Ranges_Facts
  imports Kafka_Ranges
begin

text \<open>
  Facts on the startup decisions of \<open>src/kafka.rs\<close>: the assignments cover every offset as often as the
  ranges do, keep the consumer and in-flight limits, and the queries are always there when needed.
\<close>

section \<open>Assignments\<close>

definition covers :: "partition_range \<Rightarrow> int \<Rightarrow> int \<Rightarrow> bool" where
  "covers r p n \<longleftrightarrow> pr_partition r = p \<and>
     (case pr_start r of KOffset s \<Rightarrow> s \<le> n | _ \<Rightarrow> True) \<and>
     (case pr_end r of None \<Rightarrow> True | Some e \<Rightarrow> n < e)"

definition readers :: "consumer_assignment list \<Rightarrow> int \<Rightarrow> int \<Rightarrow> nat" where
  "readers as p n = length (filter (\<lambda>r. covers r p n) (concat (map ca_ranges as)))"

text \<open>What the consumers that read partition \<open>p\<close> may hold of it together.\<close>

definition allowance :: "consumer_assignment list \<Rightarrow> int \<Rightarrow> nat" where
  "allowance as p = sum_list (map (\<lambda>a. if list_ex (\<lambda>r. pr_partition r = p) (ca_ranges a)
     then ca_max_inflight a else 0) as)"

lemma readers_simps [simp]:
  "readers [] p n = 0"
  "readers (a # as) p n = length (filter (\<lambda>r. covers r p n) (ca_ranges a)) + readers as p n"
  "readers (as @ bs) p n = readers as p n + readers bs p n"
  by (simp_all add: readers_def)

lemma allowance_simps [simp]:
  "allowance [] p = 0"
  "allowance (as @ bs) p = allowance as p + allowance bs p"
  by (simp_all add: allowance_def)

lemma readers_mset:
  assumes "mset (concat (map ca_ranges as)) = mset rs"
  shows "readers as p n = length (filter (\<lambda>r. covers r p n) rs)"
  using arg_cong [OF assms, of "\<lambda>M. size (filter_mset (\<lambda>r. covers r p n) M)"]
  by (simp add: readers_def flip: mset_filter)

lemma deal_ranges:
  "as \<noteq> [] \<Longrightarrow> mset (concat (map ca_ranges (deal i rs as))) = mset (concat (map ca_ranges as)) + mset rs"
proof (induction i rs as rule: deal.induct)
  case (2 i r rs as)
  define k where "k = i mod length as"
  have k: "k < length as" using 2 by (simp add: k_def)
  have "mset (concat (map ca_ranges (as[k := (as ! k)\<lparr>ca_ranges := ca_ranges (as ! k) @ [r]\<rparr>])))
      = add_mset r (mset (concat (map ca_ranges as)))"
    using k by (subst (4) id_take_nth_drop [OF k]) (simp add: upd_conv_take_nth_drop)
  with 2 show ?case by (simp add: Let_def k_def)
qed simp

lemma deal_length [simp]: "length (deal i rs as) = length as"
  by (induction i rs as rule: deal.induct) (simp_all add: Let_def)

lemma deal_allowance: "as \<noteq> [] \<Longrightarrow> \<forall>a \<in> set as. ca_max_inflight a = l \<Longrightarrow>
  \<forall>a \<in> set (deal i rs as). ca_max_inflight a = l"
proof (induction i rs as rule: deal.induct)
  case (2 i r rs as)
  define k where "k = i mod length as"
  define as' where "as' = as[k := (as ! k)\<lparr>ca_ranges := ca_ranges (as ! k) @ [r]\<rparr>]"
  have "ca_max_inflight (as ! k) = l" using 2(2,3) by (simp add: k_def)
  then have "\<forall>a \<in> set as'. ca_max_inflight a = l" "as' \<noteq> []"
    using 2(2,3) set_update_subset_insert [of as k "(as ! k)\<lparr>ca_ranges := ca_ranges (as ! k) @ [r]\<rparr>"]
    by (auto simp: as'_def)
  moreover have "deal i (r # rs) as = deal (i + 1) rs as'" by (simp add: Let_def k_def as'_def)
  ultimately show ?case using 2(1) [OF refl refl] by (simp add: k_def as'_def)
qed simp

lemma allowance_uniform:
  "\<forall>a \<in> set as. ca_max_inflight a = l \<Longrightarrow>
     allowance as p \<le> l * length (filter (\<lambda>r. pr_partition r = p) (concat (map ca_ranges as)))"
proof (induction as)
  case (Cons a as)
  have "filter (\<lambda>r. pr_partition r = p) (ca_ranges a) \<noteq> []" if "list_ex (\<lambda>r. pr_partition r = p) (ca_ranges a)"
    using that by (auto simp: list_ex_iff filter_empty_conv)
  then have "(if list_ex (\<lambda>r. pr_partition r = p) (ca_ranges a) then l else 0)
      \<le> l * length (filter (\<lambda>r. pr_partition r = p) (ca_ranges a))" by (simp add: Suc_leI)
  moreover have "allowance as p \<le> l * length (filter (\<lambda>r. pr_partition r = p) (concat (map ca_ranges as)))"
    using Cons by simp
  moreover have "allowance (a # as) p =
      (if list_ex (\<lambda>r. pr_partition r = p) (ca_ranges a) then l else 0) + allowance as p"
    using Cons.prems by (simp add: allowance_def)
  ultimately show ?case by (simp only: list.map concat.simps filter_append length_append distrib_left add_mono)
qed simp

lemma distinct_partition:
  "distinct (map pr_partition rs) \<Longrightarrow> length (filter (\<lambda>r. pr_partition r = p) rs) \<le> 1"
  by (induction rs) (auto simp: filter_empty_conv intro: rev_image_eqI)

lemma allowance_outside:
  "\<forall>a \<in> set as. \<forall>r \<in> set (ca_ranges a). pr_partition r \<noteq> p \<Longrightarrow> allowance as p = 0"
  by (induction as) (auto simp: allowance_def list_ex_iff)

section \<open>Shards of one range\<close>

text \<open>\<open>n\<close> shards are left to cut of \<open>d\<close>; the \<open>m\<close> first ones are longer by one.\<close>

lemma shard_loop_readers:
  assumes "0 < width" "0 < d" "int n \<le> d"
  shows "readers (shard_loop p width d e l n s) p' x =
    (if p' = p \<and> s \<le> x \<and> x < s + int n * (width div d) + max 0 (width mod d - (d - int n)) then 1 else 0)"
  using assms(3)
proof (induction n arbitrary: s)
  case (Suc n)
  define q m where "q = width div d" and "m = width mod d"
  have q: "0 \<le> int n * q" "0 \<le> q" using assms by (simp_all add: q_def pos_imp_zdiv_nonneg_iff)
  define f where "f = shard_end width d e (d - 1 - int n) s"
  have f: "f = s + q + (if d - 1 - int n < m then 1 else 0)"
    using assms by (simp add: f_def shard_end_def q_def m_def)
  have rest: "readers (shard_loop p width d e l n f) p' x =
      (if p' = p \<and> f \<le> x \<and> x < f + int n * q + max 0 (m - (d - int n)) then 1 else 0)"
    using Suc by (simp add: q_def m_def)
  have total: "f + int n * q + max 0 (m - (d - int n)) = s + int (Suc n) * q + max 0 (m - (d - int (Suc n)))"
    by (simp add: f distrib_right)
  have "s \<le> f" "f \<le> f + int n * q + max 0 (m - (d - int n))" using q by (auto simp: f)
  then have "readers (shard_loop p width d e l (Suc n) s) p' x =
      (if p' = p \<and> s \<le> x \<and> x < f + int n * q + max 0 (m - (d - int n)) then 1 else 0)"
    using rest by (auto simp: covers_def Let_def simp flip: f_def)
  then show ?case unfolding total unfolding q_def m_def .
qed (use assms pos_mod_bound [of d width] in auto)

lemma shard_loop_empty: "s \<ge> e \<Longrightarrow> readers (shard_loop p 0 d e l (Suc 0) s) p' x = 0"
  by (auto simp: shard_end_def covers_def)

lemma shard_loop_length [simp]: "length (shard_loop p width d e l n s) = n"
  by (induction n arbitrary: s) (simp_all add: Let_def)

lemma shard_loop_allowance: "allowance (shard_loop p width d e l n s) p' = (if p' = p then n * l else 0)"
  by (induction n arbitrary: s) (simp_all add: allowance_def Let_def)

lemma shard_loop_parts:
  "a \<in> set (shard_loop p width d e l n s) \<Longrightarrow> ca_max_inflight a = l \<and> (\<forall>r \<in> set (ca_ranges a). pr_partition r = p)"
  by (induction n arbitrary: s) (auto simp: Let_def)

lemma range_width_exact:
  "e - s \<le> i64_max \<Longrightarrow> range_width s e = max (e - s) 0"
  by (auto simp: range_width_def i64_saturating_sub_def int_bounds)

lemma shard_count_bounds:
  assumes "n_ranges < consumers" "0 < n_ranges" "0 < limit"
  shows "0 < shard_count consumers n_ranges i limit width"
    "shard_count consumers n_ranges i limit width \<le> limit"
    "shard_count consumers n_ranges i limit width \<le>
       consumers div n_ranges + (if i < consumers mod n_ranges then 1 else 0)"
    "shard_count consumers n_ranges i limit width \<le> max (nat width) 1"
proof -
  have "0 < consumers div n_ranges" using assms by (simp add: div_greater_zero_iff)
  with assms show "0 < shard_count consumers n_ranges i limit width" by (simp add: shard_count_def)
qed (simp_all add: shard_count_def)

lemma shard_range_readers:
  assumes shard: "shard_range consumers n_ranges limit i r = Inr xs"
    and bounds: "n_ranges < consumers" "0 < n_ranges" "0 < limit"
    and fits: "\<forall>s e. pr_start r = KOffset s \<and> pr_end r = Some e \<longrightarrow> e - s \<le> i64_max"
  shows "readers xs p x = (if covers r p x then 1 else 0)"
proof -
  from shard obtain s e where r: "pr_start r = KOffset s" "pr_end r = Some e"
    and xs: "xs = shard_loop (pr_partition r) (range_width s e)
      (int (shard_count consumers n_ranges i limit (range_width s e))) e
      (limit div shard_count consumers n_ranges i limit (range_width s e))
      (shard_count consumers n_ranges i limit (range_width s e)) s"
    by (auto simp: shard_range_def Let_def split: koffset.splits option.splits if_splits)
  from fits r have w: "range_width s e = max (e - s) 0" by (simp add: range_width_exact)
  note c = shard_count_bounds [OF bounds, of i "range_width s e"]
  show ?thesis
  proof (cases "e \<le> s")
    case True
    with w c(1,4) have "range_width s e = 0" "shard_count consumers n_ranges i limit (range_width s e) = Suc 0"
      by auto
    with True xs have "readers xs p x = 0" by (simp add: shard_end_def covers_def)
    with True r show ?thesis by (auto simp: covers_def)
  next
    case False
    define d where "d = int (shard_count consumers n_ranges i limit (range_width s e))"
    have d: "0 < d" using c(1) by (simp add: d_def)
    have width: "range_width s e = e - s" "0 < e - s" using w False by auto
    have total: "d * ((e - s) div d) + max 0 ((e - s) mod d - (d - d)) = e - s"
      using d by simp
    have "readers xs p x = (if p = pr_partition r \<and> s \<le> x \<and>
        x < s + d * ((e - s) div d) + max 0 ((e - s) mod d - (d - d)) then 1 else 0)"
      using xs shard_loop_readers [OF width(2) d, of "shard_count consumers n_ranges i limit (range_width s e)"]
      by (simp add: d_def width(1))
    then have "readers xs p x = (if p = pr_partition r \<and> s \<le> x \<and> x < e then 1 else 0)"
      using total by (simp add: add.assoc)
    with r show ?thesis by (auto simp: covers_def)
  qed
qed

lemma shard_range_limits:
  assumes shard: "shard_range consumers n_ranges limit i r = Inr xs"
    and bounds: "n_ranges < consumers" "0 < n_ranges" "0 < limit"
  shows "length xs \<le> consumers div n_ranges + (if i < consumers mod n_ranges then 1 else 0)"
    "allowance xs p \<le> (if p = pr_partition r then limit else 0)"
    "a \<in> set xs \<Longrightarrow> 0 < ca_max_inflight a"
proof -
  from shard obtain s e where xs: "xs = shard_loop (pr_partition r) (range_width s e)
      (int (shard_count consumers n_ranges i limit (range_width s e))) e
      (limit div shard_count consumers n_ranges i limit (range_width s e))
      (shard_count consumers n_ranges i limit (range_width s e)) s"
    by (auto simp: shard_range_def Let_def split: koffset.splits option.splits if_splits)
  note c = shard_count_bounds [OF bounds, of i "range_width s e"]
  show "length xs \<le> consumers div n_ranges + (if i < consumers mod n_ranges then 1 else 0)"
    using c(3) by (simp add: xs)
  show "allowance xs p \<le> (if p = pr_partition r then limit else 0)"
    by (simp add: xs shard_loop_allowance)
  show "a \<in> set xs \<Longrightarrow> 0 < ca_max_inflight a"
    using c(1,2) by (auto simp: xs dest!: shard_loop_parts simp: div_greater_zero_iff)
qed

lemma shard_all_spec:
  assumes "shard_all consumers n_ranges limit i rs = Inr xs"
    and bounds: "n_ranges < consumers" "0 < n_ranges" "0 < limit"
    and "\<forall>r \<in> set rs. \<forall>s e. pr_start r = KOffset s \<and> pr_end r = Some e \<longrightarrow> e - s \<le> i64_max"
  shows "readers xs p x = length (filter (\<lambda>r. covers r p x) rs)
    \<and> length xs \<le> length rs * (consumers div n_ranges) + (consumers mod n_ranges - i)
    \<and> allowance xs p \<le> limit * length (filter (\<lambda>r. pr_partition r = p) rs)
    \<and> (\<forall>a \<in> set xs. 0 < ca_max_inflight a)"
  using assms(1,5)
proof (induction rs arbitrary: i xs)
  case Nil
  then show ?case by simp
next
  case (Cons r rs)
  from Cons.prems(1) obtain ys zs where ys: "shard_range consumers n_ranges limit i r = Inr ys"
    and zs: "shard_all consumers n_ranges limit (i + 1) rs = Inr zs" and xs: "xs = ys @ zs"
    by (auto simp: bind_r_Inr_iff)
  have readers: "readers ys p x = (if covers r p x then 1 else 0)"
    using shard_range_readers [OF ys bounds] Cons.prems(2) by simp
  have limits: "length ys \<le> consumers div n_ranges + (if i < consumers mod n_ranges then 1 else 0)"
    "allowance ys p \<le> (if p = pr_partition r then limit else 0)" "\<forall>a \<in> set ys. 0 < ca_max_inflight a"
    using shard_range_limits [OF ys bounds] by blast+
  have "readers zs p x = length (filter (\<lambda>r. covers r p x) rs)
    \<and> length zs \<le> length rs * (consumers div n_ranges) + (consumers mod n_ranges - (i + 1))
    \<and> allowance zs p \<le> limit * length (filter (\<lambda>r. pr_partition r = p) rs)
    \<and> (\<forall>a \<in> set zs. 0 < ca_max_inflight a)"
    using Cons.IH [OF zs] Cons.prems(2) by simp
  with readers limits xs show ?case by (auto split: if_splits)
qed


lemma shard_loop_single: "a \<in> set (shard_loop p width d e l n s) \<Longrightarrow> length (ca_ranges a) = 1"
  by (induction n arbitrary: s) (auto simp: Let_def)

lemma shard_all_single:
  "shard_all consumers n limit i rs = Inr as \<Longrightarrow> a \<in> set as \<Longrightarrow> length (ca_ranges a) = 1"
proof (induction rs arbitrary: i as)
  case (Cons r rs)
  then obtain xs ys where "shard_range consumers n limit i r = Inr xs" "as = xs @ ys"
    "shard_all consumers n limit (i + 1) rs = Inr ys" by (auto simp: bind_r_Inr_iff)
  with Cons show ?case
    by (auto simp: shard_range_def Let_def shard_loop_single split: koffset.splits option.splits if_splits)
qed simp

text \<open>No consumer gets two ranges of the same partition.\<close>

lemma assignments_distinct:
  assumes as: "consumer_assignments ranges consumers sharding limit = Inr as"
    and distinct: "distinct (map pr_partition ranges)" and a: "a \<in> set as"
  shows "distinct (map pr_partition (ca_ranges a))"
proof (cases "\<not> sharding \<or> consumers \<le> length ranges")
  case True
  define start where "start = replicate (min consumers (length ranges)) \<lparr>ca_ranges = [], ca_max_inflight = limit\<rparr>"
  from True as have deal: "as = deal 0 ranges start" and ne: "ranges \<noteq> [] \<longrightarrow> start \<noteq> []"
    by (auto simp: consumer_assignments_def start_def split: if_splits)
  have "concat (map ca_ranges start) = []" by (simp add: start_def)
  then have "mset (concat (map ca_ranges as)) = mset ranges"
    using deal_ranges [of start 0 ranges] ne by (cases "ranges = []") (auto simp: deal)
  then have "mset (map pr_partition (concat (map ca_ranges as))) = mset (map pr_partition ranges)" by simp
  then have "distinct (map pr_partition (concat (map ca_ranges as)))" using distinct by (metis mset_eq_imp_distinct_iff)
  then show ?thesis using a by (induction as) auto
next
  case False
  with as have "shard_all consumers (length ranges) limit 0 ranges = Inr as"
    by (simp add: consumer_assignments_def)
  then have "length (ca_ranges a) = 1" using a by (rule shard_all_single)
  then show ?thesis by (cases "ca_ranges a") auto
qed

definition three_ranges :: "partition_range list" where
  "three_ranges =
     [\<lparr>pr_partition = 0, pr_start = KOffset 10, pr_end = Some 20\<rparr>,
      \<lparr>pr_partition = 4, pr_start = KOffset 7, pr_end = Some 7\<rparr>,
      \<lparr>pr_partition = 2, pr_start = KOffset 0, pr_end = Some 2\<rparr>]"

lemma assignments_cover:
  assumes "consumer_assignments ranges consumers sharding limit = Inr as" "0 < limit"
    and "distinct (map pr_partition ranges)"
    and "\<forall>r \<in> set ranges. \<forall>s e. pr_start r = KOffset s \<and> pr_end r = Some e \<longrightarrow> e - s \<le> i64_max"
  shows "(\<forall>p n. readers as p n = length (filter (\<lambda>r. covers r p n) ranges))
    \<and> length as \<le> consumers \<and> (\<forall>p. allowance as p \<le> limit) \<and> (\<forall>a \<in> set as. 0 < ca_max_inflight a)"
proof (cases "\<not> sharding \<or> consumers \<le> length ranges")
  case True
  define start where "start = replicate (min consumers (length ranges)) \<lparr>ca_ranges = [], ca_max_inflight = limit\<rparr>"
  from True assms(1) have as: "as = deal 0 ranges start" and ne: "ranges \<noteq> [] \<longrightarrow> start \<noteq> []"
    by (auto simp: consumer_assignments_def start_def split: if_splits)
  have empty: "concat (map ca_ranges start) = []" by (simp add: start_def)
  have dealt: "mset (concat (map ca_ranges as)) = mset ranges"
    using deal_ranges [of start 0 ranges] ne empty by (cases "ranges = []") (auto simp: as)
  have uniform: "\<forall>a \<in> set as. ca_max_inflight a = limit"
    using deal_allowance [of start limit 0 ranges] ne by (cases "ranges = []") (auto simp: as start_def)
  have "allowance as p \<le> limit" for p
  proof -
    have "length (filter (\<lambda>r. pr_partition r = p) (concat (map ca_ranges as)))
        = length (filter (\<lambda>r. pr_partition r = p) ranges)"
      using dealt by (metis mset_filter size_mset)
    then have "allowance as p \<le> limit * length (filter (\<lambda>r. pr_partition r = p) ranges)"
      using allowance_uniform [OF uniform, of p] by simp
    also have "\<dots> \<le> limit * 1" by (rule mult_le_mono2 [OF distinct_partition [OF assms(3)]])
    finally show ?thesis by simp
  qed
  moreover have "length as \<le> consumers" by (simp add: as start_def)
  ultimately show ?thesis using readers_mset [OF dealt] uniform assms(2) by simp
next
  case False
  then have shards: "shard_all consumers (length ranges) limit 0 ranges = Inr as"
    using assms(1) by (simp add: consumer_assignments_def)
  show ?thesis
  proof (cases "ranges = []")
    case True
    with shards show ?thesis by simp
  next
    case ne: False
    with False have bounds: "length ranges < consumers" "0 < length ranges" "0 < limit" using assms(2) by auto
    note spec = shard_all_spec [OF shards bounds assms(4)]
    have "allowance as p \<le> limit" for p
    proof -
      have "allowance as p \<le> limit * length (filter (\<lambda>r. pr_partition r = p) ranges)" using spec by blast
      also have "\<dots> \<le> limit * 1" by (rule mult_le_mono2 [OF distinct_partition [OF assms(3)]])
      finally show ?thesis by simp
    qed
    moreover have "length as \<le> consumers" using spec [THEN conjunct2, THEN conjunct1] by simp
    ultimately show ?thesis using spec by blast
  qed
qed

text \<open>
  C13. However partitions are dealt out or ranges are cut: each offset of each partition is read by
  exactly as many consumers as there are ranges that hold it, no more consumers are used than asked for,
  the consumers of a partition together keep its in-flight limit, and each may hold a record.
\<close>

theorem assignments_cover_exactly:
  assumes "consumer_assignments ranges consumers sharding limit = Inr as" "0 < limit"
    and "distinct (map pr_partition ranges)"
    and "\<forall>r \<in> set ranges. \<forall>s e. pr_start r = KOffset s \<and> pr_end r = Some e \<longrightarrow> e - s \<le> i64_max"
  shows "(\<forall>p n. readers as p n = length (filter (\<lambda>r. covers r p n) ranges))
    \<and> length as \<le> consumers \<and> (\<forall>p. allowance as p \<le> limit) \<and> (\<forall>a \<in> set as. 0 < ca_max_inflight a)"
  using assms by (rule assignments_cover)

theorem assignments_cover_exactly_witness:
  "\<exists>as. consumer_assignments three_ranges 8 True 5 = Inr as \<and> length as = 6
    \<and> readers as 0 12 = 1 \<and> readers as 4 7 = 0 \<and> allowance as 0 \<le> 5"
proof -
  have "\<exists>as. consumer_assignments three_ranges 8 True 5 = Inr as \<and> length as = 6"
    by (simp add: consumer_assignments_def three_ranges_def shard_range_def shard_count_def range_width_def
        i64_saturating_sub_def int_bounds Let_def)
  then obtain as where as: "consumer_assignments three_ranges 8 True 5 = Inr as" "length as = 6" by blast
  with assignments_cover_exactly [OF as(1)] show ?thesis
    by (auto simp: three_ranges_def covers_def int_bounds)
qed

section \<open>Resolution\<close>

definition panicking :: "prepare_error + 'a \<Rightarrow> bool" where
  "panicking r \<longleftrightarrow> (\<exists>m. r = Inl (Panic m))"

lemma panics_simps [simp]:
  "\<not> panicking (Inr x)"
  "panicking (Inl e) \<longleftrightarrow> (\<exists>m. e = Panic m)"
  "panicking (expect m y) \<longleftrightarrow> y = None"
  by (simp_all add: panicking_def expect_def ok_or_def split: option.splits)

lemma panics_bind [simp]: "panicking (bind_r r f) \<longleftrightarrow> panicking r \<or> (\<exists>x. r = Inr x \<and> panicking (f x))"
  by (cases r) (auto simp: panicking_def)

lemma panics_map_err: "(\<And>e. c e \<noteq> Panic m) \<Longrightarrow> map_err c r \<noteq> Inl (Panic m)"
  by (cases r) simp_all

lemma panics_queries [simp]:
  "\<not> panicking (map_err MetadataFailed r1)"
  "\<not> panicking (map_err (WatermarkFailed p) r2)"
  "\<not> panicking (map_err (SetOffsetFailed p) r3)"
  "\<not> panicking (map_err (TimesFailed t) r4)"
  "\<not> panicking (map_err (TimeFailed t p) r5)"
  by (simp_all add: panicking_def panics_map_err)

lemma panics_collect: "panicking (collect_r rs) \<Longrightarrow> \<exists>r \<in> set rs. panicking r"
  by (induction rs) auto

lemma expect_simps [simp]:
  "expect m x = Inr y \<longleftrightarrow> x = Some y"
  "expect m (Some y) = Inr y"
  "expect m None = Inl (Panic m)"
  by (simp_all add: expect_def)

text \<open>A step that does not panic and whose result, if it has one, satisfies \<open>P\<close>.\<close>

definition yields :: "prepare_error + 'a \<Rightarrow> ('a \<Rightarrow> bool) \<Rightarrow> bool" where
  "yields r P \<longleftrightarrow> \<not> panicking r \<and> (\<forall>x. r = Inr x \<longrightarrow> P x)"

lemma yields_bind:
  assumes "yields r P" "\<And>x. r = Inr x \<Longrightarrow> P x \<Longrightarrow> yields (f x) Q"
  shows "yields (bind_r r f) Q"
  using assms by (cases r) (auto simp: yields_def)

lemma yields_Inr [simp]: "yields (Inr x) P \<longleftrightarrow> P x"
  by (simp add: yields_def)

text \<open>A map collected over the partitions has exactly their keys, each with its own result.\<close>

lemma bt_get_collect:
  assumes "collect_r (map (\<lambda>p. bind_r (f p) (\<lambda>x. Inr (p, x))) ps) = Inr xs"
  shows "bt_get (bt_of_list xs) p = (if p \<in> set ps then Some (projr (f p)) else None)"
    and "p \<in> set ps \<Longrightarrow> f p = Inr (projr (f p))"
proof -
  from assms have f: "\<forall>p \<in> set ps. f p = Inr (projr (f p))" and xs: "xs = map (\<lambda>p. (p, projr (f p))) ps"
    unfolding collect_r_Inr_iff by (induction ps arbitrary: xs) (auto simp: bind_r_Inr_iff Cons_eq_map_conv)
  from f show "p \<in> set ps \<Longrightarrow> f p = Inr (projr (f p))" by blast
  show "bt_get (bt_of_list xs) p = (if p \<in> set ps then Some (projr (f p)) else None)"
    unfolding bt_get_of_list xs rev_map by (simp add: map_of_map_keys map_of_map_restrict)
qed

lemma fetched_watermarks:
  assumes "fetch_watermarks kc topic ps = Inr ws"
  shows "bt_get ws p = (if p \<in> set ps then Some (projr (kc_watermarks kc topic p)) else None)"
    and "p \<in> set ps \<Longrightarrow> kc_watermarks kc topic p = Inr (projr (kc_watermarks kc topic p))"
    and "bt_ok ws"
proof -
  from assms obtain xs where xs: "collect_r (map (\<lambda>p. bind_r (map_err (WatermarkFailed p) (kc_watermarks kc topic p))
      (\<lambda>w. Inr (p, w))) ps) = Inr xs" and ws: "ws = bt_of_list xs"
    by (auto simp: fetch_watermarks_def bind_r_Inr_iff)
  note got = bt_get_collect [OF xs, of p]
  show fetched: "kc_watermarks kc topic p = Inr (projr (kc_watermarks kc topic p))" if "p \<in> set ps"
    using got(2) [OF that] by (cases "kc_watermarks kc topic p") simp_all
  then show "bt_get ws p = (if p \<in> set ps then Some (projr (kc_watermarks kc topic p)) else None)"
    using got(1) by (cases "kc_watermarks kc topic p") (auto simp: ws)
  show "bt_ok ws" by (simp add: ws)
qed

text \<open>\<open>offsets_for_times\<close> answers with the elements of its request, each with its offset or error.\<close>

definition answers_exactly :: "cluster \<Rightarrow> bool" where
  "answers_exactly kc \<longleftrightarrow> (\<forall>topic req els. kc_offsets_for_times kc topic req = Inr els \<longrightarrow> map fst els = map fst req)"

definition resolved_time :: "cluster \<Rightarrow> string \<Rightarrow> int list \<Rightarrow> int \<Rightarrow> int \<Rightarrow> int \<Rightarrow> bool" where
  "resolved_time kc topic ps ts p n \<longleftrightarrow> (\<exists>els off low high.
     kc_offsets_for_times kc topic (map (\<lambda>p. (p, KOffset ts)) ps) = Inr els \<and> (p, Inr off) \<in> set els \<and>
     kc_watermarks kc topic p = Inr (low, high) \<and>
     (off = KOffset n \<or> (off = KInvalid \<or> off = KEnd) \<and> n = high))"

lemma timestamp_offset_Inr:
  "timestamp_offset off high p ts = Inr n \<longleftrightarrow> off = KOffset n \<or> (off = KInvalid \<or> off = KEnd) \<and> n = high"
  by (cases off) (auto simp: timestamp_offset_def)

lemma timestamp_offset_plain [simp]: "\<not> panicking (timestamp_offset off high p ts)"
  by (cases off) (simp_all add: timestamp_offset_def)

lemma answered_partitions:
  assumes "answers_exactly kc" "kc_offsets_for_times kc topic (map (\<lambda>p. (p, KOffset ts)) ps) = Inr els"
  shows "map fst els = ps"
proof -
  have "map fst els = map fst (map (\<lambda>p. (p, KOffset ts)) ps)"
    using assms unfolding answers_exactly_def by blast
  then show ?thesis by (simp add: comp_def)
qed

lemma resolve_time_Inr:
  assumes "resolve_time ts ws el = Inr y"
  shows "fst y = fst el \<and> (\<exists>off w. el = (fst el, Inr off) \<and> bt_get ws (fst el) = Some w \<and>
    (off = KOffset (snd y) \<or> (off = KInvalid \<or> off = KEnd) \<and> snd y = snd w))"
  using assms
  by (auto simp: resolve_time_def bind_r_Inr_iff timestamp_offset_Inr split: prod.splits)

lemma offsets_resolved:
  assumes law: "answers_exactly kc" and ws: "fetch_watermarks kc topic ps = Inr ws"
    and os: "offsets_for_timestamp kc topic ps ts ws = Inr os" and p: "p \<in> set ps"
  shows "\<exists>n. bt_get os p = Some n \<and> resolved_time kc topic ps ts p n"
proof -
  from os obtain els xs where els: "kc_offsets_for_times kc topic (map (\<lambda>p. (p, KOffset ts)) ps) = Inr els"
    and xs: "map (resolve_time ts ws) els = map Inr xs" and os': "os = bt_of_list xs"
    by (auto simp: offsets_for_timestamp_def bind_r_Inr_iff collect_r_Inr_iff)
  from xs have all: "list_all2 (\<lambda>el y. resolve_time ts ws el = Inr y) els xs"
    by (simp add: list_all2_conv_all_nth list_eq_iff_nth_eq)
  then have "map fst xs = map fst els" by (induction rule: list_all2_induct) (auto dest: resolve_time_Inr)
  also have "\<dots> = ps" by (rule answered_partitions [OF law els])
  finally have "p \<in> fst ` set (rev xs)" using p by (metis list.set_map set_rev)
  then obtain n where n: "map_of (rev xs) p = Some n"
    by (metis domD map_of_eq_None_iff not_None_eq)
  then have "(p, n) \<in> set xs" using map_of_SomeD by fastforce
  then have "Inr (p, n) \<in> set (map (resolve_time ts ws) els)" by (simp add: xs)
  then obtain el where el: "el \<in> set els" "resolve_time ts ws el = Inr (p, n)" by force
  from resolve_time_Inr [OF el(2)] obtain off w where "el = (p, Inr off)" and w: "bt_get ws p = Some w"
    "off = KOffset n \<or> (off = KInvalid \<or> off = KEnd) \<and> n = snd w" by auto
  with el(1) have off: "(p, Inr off) \<in> set els" "bt_get ws p = Some w"
    "off = KOffset n \<or> (off = KInvalid \<or> off = KEnd) \<and> n = snd w" by simp_all
  have "kc_watermarks kc topic p = Inr (fst w, snd w)"
    using fetched_watermarks(1,2) [OF ws, of p] p off(2) by simp
  with off els n show ?thesis
    unfolding resolved_time_def os' bt_get_of_list by blast
qed

lemma offsets_never_panic:
  assumes law: "answers_exactly kc" and ws: "fetch_watermarks kc topic ps = Inr ws"
  shows "\<not> panicking (offsets_for_timestamp kc topic ps ts ws)"
proof -
  have "\<not> panicking (resolve_time ts ws el)" if "fst el \<in> set ps" for el
    using that fetched_watermarks(1) [OF ws]
    by (auto simp: resolve_time_def split: prod.splits)
  moreover have "fst el \<in> set ps"
    if "kc_offsets_for_times kc topic (map (\<lambda>p. (p, KOffset ts)) ps) = Inr els" "el \<in> set els" for els el
    using answered_partitions [OF law that(1)] that(2) by (metis image_eqI list.set_map)
  ultimately show ?thesis
    by (fastforce simp: offsets_for_timestamp_def dest!: panics_collect)
qed

definition starts_at :: "cluster \<Rightarrow> 'x runtime_config \<Rightarrow> int list \<Rightarrow> int \<Rightarrow> koffset \<Rightarrow> bool" where
  "starts_at kc cf ps p s = (case cf_start cf of
      Beginning \<Rightarrow> s = KBeginning \<or> (\<exists>low high. kc_watermarks kc (cf_topic cf) p = Inr (low, high) \<and> s = KOffset low)
    | EndOfLog \<Rightarrow> \<exists>low high. kc_watermarks kc (cf_topic cf) p = Inr (low, high) \<and> s = KOffset high
    | Absolute n \<Rightarrow> s = KOffset n
    | RelativeToEnd d \<Rightarrow> \<exists>low high. kc_watermarks kc (cf_topic cf) p = Inr (low, high) \<and>
        (0 \<le> low \<and> low \<le> high \<and> high \<le> i64_max \<longrightarrow> s = KOffset (max low (high - int d)))
    | StartTimestamp ts \<Rightarrow> \<exists>n. resolved_time kc (cf_topic cf) ps ts p n \<and> s = KOffset n)"

definition ends_at :: "cluster \<Rightarrow> 'x runtime_config \<Rightarrow> int list \<Rightarrow> int \<Rightarrow> int option \<Rightarrow> bool" where
  "ends_at kc cf ps p e = (case cf_end cf of
      None \<Rightarrow> e = None
    | Some (ExclusiveOffset n) \<Rightarrow> e = Some n
    | Some (EndTimestamp ts) \<Rightarrow> \<exists>n. resolved_time kc (cf_topic cf) ps ts p n \<and> e = Some n
    | Some Snapshot \<Rightarrow> \<exists>low high. kc_watermarks kc (cf_topic cf) p = Inr (low, high) \<and> e = Some high)"

lemma relative_start_exact:
  "0 \<le> low \<Longrightarrow> low \<le> high \<Longrightarrow> high \<le> i64_max \<Longrightarrow> relative_start d (low, high) = max low (high - int d)"
  by (auto simp: relative_start_def i64_saturating_sub_def int_bounds)

text \<open>What the watermarks hold when they were fetched: the answer for every partition.\<close>

definition holds_watermarks ::
    "cluster \<Rightarrow> string \<Rightarrow> int list \<Rightarrow> (int, int \<times> int) btree \<Rightarrow> bool" where
  "holds_watermarks kc topic ps ws \<longleftrightarrow> bt_ok ws \<and>
     (\<forall>p. bt_get ws p = (if p \<in> set ps then Some (projr (kc_watermarks kc topic p)) else None)) \<and>
     (\<forall>p \<in> set ps. kc_watermarks kc topic p = Inr (projr (kc_watermarks kc topic p)))"

lemma holds_fetched: "fetch_watermarks kc topic ps = Inr ws \<Longrightarrow> holds_watermarks kc topic ps ws"
  unfolding holds_watermarks_def using fetched_watermarks by blast

lemma resolve_start_spec:
  assumes wm: "watermarks = (if need then Some ws else None)" "need \<longrightarrow> fetch_watermarks kc (cf_topic cf) ps = Inr ws"
    and need: "watermarks_required (cf_start cf) (cf_end cf) \<longrightarrow> need"
    and stamps: "timestamp_starts kc cf ps watermarks = Inr stamps"
    and law: "answers_exactly kc" and p: "p \<in> set ps"
  shows "\<exists>s. resolve_start (cf_start cf) watermarks stamps p = Inr s \<and> starts_at kc cf ps p s"
proof -
  obtain low high where "projr (kc_watermarks kc (cf_topic cf) p) = (low, high)" by fastforce
  then have got: "bt_get ws p = Some (low, high)" "kc_watermarks kc (cf_topic cf) p = Inr (low, high)" if need
    using holds_fetched [OF wm(2) [rule_format, OF that]] p by (auto simp: holds_watermarks_def)
  show ?thesis
  proof (cases "cf_start cf")
    case Beginning
    with got wm(1) show ?thesis by (cases need) (auto simp: resolve_start_def starts_at_def expect_def)
  next
    case EndOfLog
    with got wm(1) need show ?thesis
      by (auto simp: resolve_start_def starts_at_def expect_def watermarks_required_def)
  next
    case (Absolute n)
    then show ?thesis by (simp add: resolve_start_def starts_at_def)
  next
    case (RelativeToEnd d)
    with need have need by (simp add: watermarks_required_def)
    with got wm(1) RelativeToEnd show ?thesis
      using relative_start_exact [of low high d]
      by (auto simp: resolve_start_def starts_at_def expect_def)
  next
    case (StartTimestamp ts)
    with need have need by (simp add: watermarks_required_def)
    with stamps StartTimestamp wm(1) obtain os where
      os: "offsets_for_timestamp kc (cf_topic cf) ps ts ws = Inr os" "stamps = Some os"
      by (auto simp: timestamp_starts_def bind_r_Inr_iff)
    with offsets_resolved [OF law wm(2) [rule_format, OF \<open>need\<close>] os(1) p] StartTimestamp show ?thesis
      by (auto simp: resolve_start_def starts_at_def expect_def)
  qed
qed

lemma fixed_ends_spec:
  assumes wm: "watermarks = (if need then Some ws else None)" "need \<longrightarrow> fetch_watermarks kc (cf_topic cf) ps = Inr ws"
    and need: "watermarks_required (cf_start cf) (cf_end cf) \<longrightarrow> need"
    and ends: "fixed_ends kc (cf_topic cf) (cf_end cf) ps watermarks = Inr ends"
    and law: "answers_exactly kc" and p: "p \<in> set ps"
  shows "\<exists>e. (case ends of None \<Rightarrow> e = None | Some es \<Rightarrow> e = bt_get es p \<and> e \<noteq> None) \<and> ends_at kc cf ps p e"
proof (cases "cf_end cf")
  case None
  with ends show ?thesis by (simp add: fixed_ends_def ends_at_def)
next
  case (Some finish)
  show ?thesis
  proof (cases finish)
    case (ExclusiveOffset n)
    have "map_of (map (\<lambda>p. (p, n)) (rev ps)) p = Some n" using p by (simp add: map_of_map_restrict)
    with ExclusiveOffset Some ends show ?thesis
      by (auto simp: fixed_ends_def ends_at_def bt_get_of_list rev_map)
  next
    case (EndTimestamp ts)
    with Some need have need by (cases "cf_start cf") (auto simp: watermarks_required_def)
    with ends EndTimestamp Some wm(1) obtain os where
      os: "offsets_for_timestamp kc (cf_topic cf) ps ts ws = Inr os" "ends = Some os"
      by (auto simp: fixed_ends_def bind_r_Inr_iff)
    with offsets_resolved [OF law wm(2) [rule_format, OF \<open>need\<close>] os(1) p] EndTimestamp Some show ?thesis
      by (auto simp: ends_at_def)
  next
    case Snapshot
    with Some need have need by (cases "cf_start cf") (auto simp: watermarks_required_def)
    then have holds: "holds_watermarks kc (cf_topic cf) ps ws" using wm(2) holds_fetched by blast
    obtain low high where "projr (kc_watermarks kc (cf_topic cf) p) = (low, high)" by fastforce
    then have get: "bt_get ws p = Some (low, high)" "kc_watermarks kc (cf_topic cf) p = Inr (low, high)"
      using holds p by (auto simp: holds_watermarks_def)
    have "map fst (map (\<lambda>(p, w). (p, snd w)) ws) = bt_keys ws" by (auto simp: bt_keys_def)
    then have "distinct (map fst (rev (map (\<lambda>(p, w). (p, snd w)) ws)))"
      using holds bt_ok_distinct [of ws] by (simp only: holds_watermarks_def rev_map [symmetric] distinct_rev)
    moreover have "(p, high) \<in> set (rev (map (\<lambda>(p, w). (p, snd w)) ws))"
      using get(1) by (force simp: bt_get_def dest: map_of_SomeD)
    ultimately have "map_of (rev (map (\<lambda>(p, w). (p, snd w)) ws)) p = Some (high)" by simp
    with ends Snapshot Some wm(1) \<open>need\<close> get(2) show ?thesis
      by (auto simp: fixed_ends_def bind_r_Inr_iff ends_at_def bt_get_of_list)
  qed
qed

lemma shardable_spec:
  assumes "shardable (Some ws) r = Inr u" "holds_watermarks kc topic ps ws" "pr_partition r \<in> set ps"
  shows "\<exists>s e low high. pr_start r = KOffset s \<and> pr_end r = Some e \<and>
    kc_watermarks kc topic (pr_partition r) = Inr (low, high) \<and> e \<le> high \<and> (s < e \<longrightarrow> low \<le> s)"
proof -
  obtain low high where w: "projr (kc_watermarks kc topic (pr_partition r)) = (low, high)" by fastforce
  with assms(2,3) have got: "bt_get ws (pr_partition r) = Some (low, high)"
    "kc_watermarks kc topic (pr_partition r) = Inr (low, high)"
    by (auto simp: holds_watermarks_def)
  show ?thesis
  proof (cases "pr_start r")
    case (KOffset s)
    with got assms(1) show ?thesis
      by (cases "pr_end r") (auto simp: shardable_def split: if_splits)
  qed (use got assms(1) in \<open>auto simp: shardable_def\<close>)
qed

definition chosen_partitions :: "cluster \<Rightarrow> 'x runtime_config \<Rightarrow> prepare_error + int list" where
  "chosen_partitions kc cf =
     (case cf_partitions cf of Some ps \<Rightarrow> Inr ps | None \<Rightarrow> fetch_topic_partitions kc (cf_topic cf))"

lemma fetch_topic_plain: "\<not> panicking (chosen_partitions kc cf)"
  by (cases "cf_partitions cf")
    (auto simp: chosen_partitions_def fetch_topic_partitions_def ok_or_def split: option.splits)

text \<open>The shape of a preparation: each of its steps and what the step has established.\<close>

lemma ranges_of_parts:
  assumes "\<forall>p \<in> set ps. \<exists>s. bt_get starts p = Some s \<and> S p s"
    and "\<forall>p \<in> set ps. \<exists>e. (case ends of None \<Rightarrow> e = None | Some es \<Rightarrow> e = bt_get es p \<and> e \<noteq> None) \<and> E p e"
  shows "\<exists>ranges. collect_r (map (range_of starts ends) ps) = Inr ranges \<and> map pr_partition ranges = ps \<and>
    (\<forall>r \<in> set ranges. S (pr_partition r) (pr_start r) \<and> E (pr_partition r) (pr_end r))"
  using assms
proof (induction ps)
  case (Cons p ps)
  then obtain ranges where ranges: "collect_r (map (range_of starts ends) ps) = Inr ranges"
    "map pr_partition ranges = ps" "\<forall>r \<in> set ranges. S (pr_partition r) (pr_start r) \<and> E (pr_partition r) (pr_end r)"
    by auto
  from Cons.prems obtain s e where s: "bt_get starts p = Some s" "S p s"
    and e: "case ends of None \<Rightarrow> e = None | Some es \<Rightarrow> e = bt_get es p \<and> e \<noteq> None" "E p e" by auto
  have "range_of starts ends p = Inr \<lparr>pr_partition = p, pr_start = s, pr_end = e\<rparr>"
    using s e by (cases ends) (auto simp: range_of_def expect_def)
  with ranges s e show ?case by simp
qed simp

lemma resolve_starts_spec:
  assumes "\<forall>p \<in> set ps. \<exists>s. resolve_start start watermarks stamps p = Inr s \<and> S p s"
  shows "\<exists>starts. resolve_starts start watermarks stamps ps = Inr starts \<and>
    (\<forall>p \<in> set ps. \<exists>s. bt_get starts p = Some s \<and> S p s)"
proof -
  let ?f = "\<lambda>p. bind_r (resolve_start start watermarks stamps p) (\<lambda>s. Inr (p, s))"
  have "map ?f ps = map Inr (map (\<lambda>p. (p, projr (resolve_start start watermarks stamps p))) ps)"
    using assms by fastforce
  then obtain xs where xs: "collect_r (map ?f ps) = Inr xs" using collect_r_Inr_iff by blast
  have "\<forall>p \<in> set ps. \<exists>s. bt_get (bt_of_list xs) p = Some s \<and> S p s"
    using assms bt_get_collect(1) [OF xs] by fastforce
  with xs show ?thesis by (simp add: resolve_starts_def)
qed

lemma startup_yields:
  defines "need cf \<equiv> cf_range_sharding cf \<or> watermarks_required (cf_start cf) (cf_end cf)"
  shows "yields (startup_watermarks kc cf ps) (\<lambda>watermarks. \<exists>ws.
    watermarks = (if need cf then Some ws else None) \<and>
    (need cf \<longrightarrow> fetch_watermarks kc (cf_topic cf) ps = Inr ws))"
proof (cases "need cf")
  case True
  have "\<not> panicking (fetch_watermarks kc (cf_topic cf) ps)"
    by (fastforce simp: fetch_watermarks_def dest!: panics_collect)
  with True show ?thesis
    by (auto simp: startup_watermarks_def need_def yields_def bind_r_Inr_iff)
qed (simp add: startup_watermarks_def need_def)

lemma prepared:
  assumes law: "answers_exactly kc" and ps: "chosen_partitions kc cf = Inr ps"
  shows "yields (prepare_ranges kc cf) (\<lambda>ranges. map pr_partition ranges = ps \<and>
      (\<forall>r \<in> set ranges. starts_at kc cf ps (pr_partition r) (pr_start r) \<and> ends_at kc cf ps (pr_partition r) (pr_end r) \<and>
        (cf_range_sharding cf \<longrightarrow> (\<exists>s e low high. pr_start r = KOffset s \<and> pr_end r = Some e \<and>
           kc_watermarks kc (cf_topic cf) (pr_partition r) = Inr (low, high) \<and> e \<le> high \<and> (s < e \<longrightarrow> low \<le> s)))))"
  (is "yields _ ?P")
proof -
  define need where "need \<longleftrightarrow> cf_range_sharding cf \<or> watermarks_required (cf_start cf) (cf_end cf)"
  have required: "watermarks_required (cf_start cf) (cf_end cf) \<longrightarrow> need" by (simp add: need_def)
  have after: "yields (bind_r (timestamp_starts kc cf ps watermarks) (\<lambda>stamps.
     bind_r (resolve_starts (cf_start cf) watermarks stamps ps) (\<lambda>starts.
     bind_r (fixed_ends kc (cf_topic cf) (cf_end cf) ps watermarks) (\<lambda>ends.
     bind_r (collect_r (map (range_of starts ends) ps)) (\<lambda>ranges.
     if cf_range_sharding cf
     then bind_r (collect_r (map (shardable watermarks) ranges)) (\<lambda>_. Inr ranges)
     else Inr ranges))))) ?P"
    if wm: "watermarks = (if need then Some ws else None)"
      and got: "need \<longrightarrow> fetch_watermarks kc (cf_topic cf) ps = Inr ws" for watermarks ws
  proof (rule yields_bind [of _ "\<lambda>_. True"])
    have "\<not> panicking (timestamp_starts kc cf ps watermarks)"
      using wm got required offsets_never_panic [OF law]
      by (auto simp: timestamp_starts_def watermarks_required_def split: start_position.splits)
    then show "yields (timestamp_starts kc cf ps watermarks) (\<lambda>_. True)" by (simp add: yields_def)
  next
    fix stamps assume stamps: "timestamp_starts kc cf ps watermarks = Inr stamps"
    obtain starts where starts: "resolve_starts (cf_start cf) watermarks stamps ps = Inr starts"
      "\<forall>p \<in> set ps. \<exists>s. bt_get starts p = Some s \<and> starts_at kc cf ps p s"
      using resolve_starts_spec [where S = "starts_at kc cf ps"]
        resolve_start_spec [OF wm got required stamps law] by blast
    have "\<not> panicking (fixed_ends kc (cf_topic cf) (cf_end cf) ps watermarks)"
      using wm got required offsets_never_panic [OF law]
      by (auto simp: fixed_ends_def watermarks_required_def split: option.splits end_position.splits start_position.splits)
    then have ends_ok: "yields (fixed_ends kc (cf_topic cf) (cf_end cf) ps watermarks) (\<lambda>_. True)"
      by (simp add: yields_def)
    have rest: "yields (bind_r (collect_r (map (range_of starts ends) ps)) (\<lambda>ranges.
        if cf_range_sharding cf
        then bind_r (collect_r (map (shardable watermarks) ranges)) (\<lambda>_. Inr ranges)
        else Inr ranges)) ?P"
      if ends: "fixed_ends kc (cf_topic cf) (cf_end cf) ps watermarks = Inr ends" for ends
    proof -
      obtain ranges where ranges: "collect_r (map (range_of starts ends) ps) = Inr ranges"
        "map pr_partition ranges = ps" and parts: "\<forall>r \<in> set ranges. starts_at kc cf ps (pr_partition r) (pr_start r) \<and>
          ends_at kc cf ps (pr_partition r) (pr_end r)"
        using ranges_of_parts [OF starts(2)] fixed_ends_spec [OF wm got required ends law] by blast
      show ?thesis
      proof (cases "cf_range_sharding cf")
        case True
        then have holds: "holds_watermarks kc (cf_topic cf) ps ws" and wm': "watermarks = Some ws"
          using wm got holds_fetched by (simp_all add: need_def)
        have inps: "\<forall>r \<in> set ranges. pr_partition r \<in> set ps" using ranges(2) by auto
        have "\<not> panicking (shardable (Some ws) r)" if "r \<in> set ranges" for r
          using that inps holds by (cases "pr_start r"; cases "pr_end r")
            (auto simp: shardable_def holds_watermarks_def split: prod.splits if_splits)
        then have "\<not> panicking (collect_r (map (shardable (Some ws)) ranges))" by (auto dest!: panics_collect)
        moreover have "shardable (Some ws) r = Inr ()"
          if "collect_r (map (shardable (Some ws)) ranges) = Inr us" "r \<in> set ranges" for us r
          using that by (force simp: collect_r_Inr_iff list_eq_iff_nth_eq in_set_conv_nth)
        ultimately show ?thesis
          using ranges parts inps shardable_spec [OF _ holds] True wm'
          by (auto simp: yields_def bind_r_Inr_iff)
      qed (use ranges parts in simp)
    qed
    from starts(1) ends_ok rest show "yields (bind_r (resolve_starts (cf_start cf) watermarks stamps ps) (\<lambda>starts.
     bind_r (fixed_ends kc (cf_topic cf) (cf_end cf) ps watermarks) (\<lambda>ends.
     bind_r (collect_r (map (range_of starts ends) ps)) (\<lambda>ranges.
     if cf_range_sharding cf
     then bind_r (collect_r (map (shardable watermarks) ranges)) (\<lambda>_. Inr ranges)
     else Inr ranges)))) ?P"
      by (simp add: yields_bind)
  qed
  show ?thesis
    unfolding prepare_ranges_def chosen_partitions_def [symmetric] ps bind_r_simps
    by (rule yields_bind [OF startup_yields]) (use after in \<open>auto simp: need_def\<close>)
qed

definition small_cluster :: cluster where
  "small_cluster =
     \<lparr>kc_metadata = (\<lambda>topic. Inr [\<lparr>tm_name = topic, tm_error = None, tm_partitions = [0, 1]\<rparr>]),
      kc_watermarks = (\<lambda>topic p. Inr (5, 20 + p)),
      kc_add_offset = (\<lambda>topic p off. Inr ()),
      kc_offsets_for_times = (\<lambda>topic req. Inr (map (\<lambda>(p, off). (p, Inr KEnd)) req))\<rparr>"

lemma small_cluster_answers: "answers_exactly small_cluster"
  by (auto simp: answers_exactly_def small_cluster_def)

definition last_records :: "string runtime_config \<Rightarrow> string runtime_config" where
  "last_records cf = cf\<lparr>cf_partitions := None, cf_start := RelativeToEnd 7, cf_end := Some Snapshot,
     cf_range_sharding := True\<rparr>"

lemma ranges_prepared:
  assumes "answers_exactly kc"
  shows "(\<forall>m. prepare_ranges kc cf \<noteq> Inl (Panic m)) \<and>
    (\<forall>ranges. prepare_ranges kc cf = Inr ranges \<longrightarrow>
      (\<exists>ps. chosen_partitions kc cf = Inr ps \<and> map pr_partition ranges = ps \<and>
        (\<forall>r \<in> set ranges. starts_at kc cf ps (pr_partition r) (pr_start r) \<and> ends_at kc cf ps (pr_partition r) (pr_end r) \<and>
          (cf_range_sharding cf \<longrightarrow> (\<exists>s e low high. pr_start r = KOffset s \<and> pr_end r = Some e \<and>
             kc_watermarks kc (cf_topic cf) (pr_partition r) = Inr (low, high) \<and> e \<le> high \<and> (s < e \<longrightarrow> low \<le> s))))))"
proof (cases "chosen_partitions kc cf")
  case (Inl e)
  then have "prepare_ranges kc cf = Inl e"
    unfolding prepare_ranges_def chosen_partitions_def [symmetric] by simp
  moreover have "\<not> panicking (Inl e :: prepare_error + int list)" using fetch_topic_plain [of kc cf] Inl by simp
  ultimately show ?thesis by simp
next
  case (Inr ps)
  from prepared [OF assms Inr] show ?thesis by (simp add: yields_def panicking_def Inr)
qed

text \<open>
  C25. When the cluster's timestamp answers match their requests, the preparation never meets one of
  its \<open>expect\<close>s or a missing map entry, and what it resolves is one range per partition, in order, with the
  start and end the options mean; a sharded range is fixed and inside the startup watermarks.
\<close>

theorem ranges_resolved:
  assumes "answers_exactly kc"
  shows "(\<forall>m. prepare_ranges kc cf \<noteq> Inl (Panic m)) \<and>
    (\<forall>ranges. prepare_ranges kc cf = Inr ranges \<longrightarrow>
      (\<exists>ps. chosen_partitions kc cf = Inr ps \<and> map pr_partition ranges = ps \<and>
        (\<forall>r \<in> set ranges. starts_at kc cf ps (pr_partition r) (pr_start r) \<and> ends_at kc cf ps (pr_partition r) (pr_end r) \<and>
          (cf_range_sharding cf \<longrightarrow> (\<exists>s e low high. pr_start r = KOffset s \<and> pr_end r = Some e \<and>
             kc_watermarks kc (cf_topic cf) (pr_partition r) = Inr (low, high) \<and> e \<le> high \<and> (s < e \<longrightarrow> low \<le> s))))))"
  using assms by (rule ranges_prepared)

theorem ranges_resolved_witness:
  "\<forall>cf m. prepare_ranges small_cluster (last_records cf) \<noteq> Inl (Panic m)
    \<and> prepare_ranges small_cluster (last_records cf) =
      Inr [\<lparr>pr_partition = 0, pr_start = KOffset 13, pr_end = Some 20\<rparr>,
           \<lparr>pr_partition = 1, pr_start = KOffset 14, pr_end = Some 21\<rparr>]"
proof (intro allI conjI)
  fix cf m
  show "prepare_ranges small_cluster (last_records cf) \<noteq> Inl (Panic m)"
    using ranges_resolved [OF small_cluster_answers, of "last_records cf"] by blast
next
  fix cf
  show "prepare_ranges small_cluster (last_records cf) =
      Inr [\<lparr>pr_partition = 0, pr_start = KOffset 13, pr_end = Some 20\<rparr>,
           \<lparr>pr_partition = 1, pr_start = KOffset 14, pr_end = Some 21\<rparr>]"
    by (simp add: prepare_ranges_def small_cluster_def last_records_def fetch_topic_partitions_def
        max_assigned_partitions_def startup_watermarks_def fetch_watermarks_def timestamp_starts_def resolve_starts_def
        resolve_start_def relative_start_def i64_saturating_sub_def int_bounds fixed_ends_def range_of_def shardable_def
        bt_of_list_def bt_empty_def bt_get_def expect_def)
qed

end
