(* ===== verification/Kafka_Input_Facts.thy ===== *)
theory Kafka_Input_Facts
  imports Kafka_Input Kafka_Ranges_Facts
begin

text \<open>
  Facts on the input side of \<open>src/kafka.rs\<close>: the invariant of a consumer's input, which every operation
  keeps, and what one poll does with the next message.
\<close>

section \<open>Invariant\<close>

definition input_ok :: "'k kafka_input \<Rightarrow> bool" where
  "input_ok ki \<longleftrightarrow> bt_ok (ki_partitions ki) \<and> buffers_ok (ki_payload_buffers ki) \<and> fetch_ok (ki_consumer ki) \<and>
     ki_remaining ki = length (filter (\<lambda>st. \<not> ps_done st) (bt_values (ki_partitions ki))) \<and>
     (\<forall>p st. bt_get (ki_partitions ki) p = Some st \<longrightarrow> pr_partition (ps_range st) = p)"

declare input_ok_def [inv_defs]

text \<open>Partitions stay assigned with their ranges, and what is done stays done.\<close>

definition later :: "'k kafka_input \<Rightarrow> 'k kafka_input \<Rightarrow> bool" where
  "later ki ki' \<longleftrightarrow> (\<forall>p. case bt_get (ki_partitions ki) p of
       None \<Rightarrow> bt_get (ki_partitions ki') p = None
     | Some st \<Rightarrow> \<exists>d. bt_get (ki_partitions ki') p = Some (st\<lparr>ps_done := d\<rparr>) \<and> (ps_done st \<longrightarrow> d))"

lemma done_same: "\<exists>d. st = st\<lparr>ps_done := d\<rparr> \<and> (ps_done st \<longrightarrow> d)"
  by (rule exI [of _ "ps_done st"], cases st) simp

lemma later_same [simp]: "ki_partitions ki' = ki_partitions ki \<Longrightarrow> later ki ki'"
  unfolding later_def by (simp add: done_same split: option.split)

text \<open>The number of open partitions is a sum, so it follows one update of the map.\<close>

lemma open_count: "length (filter (\<lambda>st. \<not> ps_done st) sts) = sum_list (map (\<lambda>st. if ps_done st then 0 else 1) sts)"
  by (induction sts) simp_all

lemma finish_effect:
  assumes ok: "input_ok ki" and get: "bt_get (ki_partitions ki) p = Some st" and undone: "\<not> ps_done st"
    and fin: "finish ko p ki = (r, ki')"
  shows "input_ok ki' \<and> later ki ki' \<and> bt_get (ki_partitions ki') p = Some (st\<lparr>ps_done := True\<rparr>)
    \<and> Suc (ki_remaining ki') = ki_remaining ki
    \<and> ki' = ki\<lparr>ki_remaining := ki_remaining ki', ki_partitions := ki_partitions ki',
        ki_consumer := (ki_consumer ki)\<lparr>fc_kafka := snd (ko_pause ko (ki_topic ki) p (fc_kafka (ki_consumer ki)))\<rparr>\<rparr>
    \<and> r = map_err (PauseFailed p) (fst (ko_pause ko (ki_topic ki) p (fc_kafka (ki_consumer ki))))"
proof -
  define parts where "parts = bt_insert p (st\<lparr>ps_done := True\<rparr>) (ki_partitions ki)"
  obtain res k where pause: "ko_pause ko (ki_topic ki) p (fc_kafka (ki_consumer ki)) = (res, k)" by fastforce
  have get': "bt_get parts q = (if q = p then Some (st\<lparr>ps_done := True\<rparr>) else bt_get (ki_partitions ki) q)" for q
    by (simp add: parts_def bt_get_insert)
  from fin get undone pause have ki': "ki' = ki\<lparr>ki_remaining := usize_sub (ki_remaining ki) 1,
      ki_partitions := parts, ki_consumer := (ki_consumer ki)\<lparr>fc_kafka := k\<rparr>\<rparr>"
    and r: "r = map_err (PauseFailed p) res"
    by (auto simp: finish_def pause_def get' simp flip: parts_def)
  have ok': "bt_ok (ki_partitions ki)" "ki_remaining ki = sum_list (map (\<lambda>st. if ps_done st then 0 else 1) (bt_values (ki_partitions ki)))"
    using ok by (simp_all add: input_ok_def open_count)
  have count: "Suc (sum_list (map (\<lambda>st. if ps_done st then 0 else 1) (bt_values parts))) = ki_remaining ki"
    using bt_sum_update [OF ok'(1) get, of "\<lambda>st. if ps_done st then 0 else 1" "st\<lparr>ps_done := True\<rparr>"] undone ok'(2)
    by (simp add: parts_def)
  then have rem: "usize_sub (ki_remaining ki) 1 = sum_list (map (\<lambda>st. if ps_done st then 0 else 1) (bt_values parts))"
    by (simp add: usize_sub_def)
  have "input_ok ki'"
    using ok get' rem ok'(1) by (auto simp: input_ok_def ki' open_count parts_def bt_ok_insert fetch_ok_def get split: if_splits)
  moreover have "later ki ki'"
  proof -
    have "case bt_get (ki_partitions ki) q of None \<Rightarrow> bt_get parts q = None
        | Some st \<Rightarrow> \<exists>d. bt_get parts q = Some (st\<lparr>ps_done := d\<rparr>) \<and> (ps_done st \<longrightarrow> d)" for q
    proof (cases "q = p")
      case True
      with get get' show ?thesis by (simp add: exI [of _ True])
    next
      case False
      with get' show ?thesis by (simp add: done_same split: option.split)
    qed
    note step = this
    have parts: "ki_partitions ki' = parts" by (simp add: ki')
    show ?thesis unfolding later_def parts by (rule allI) (rule step)
  qed
  ultimately show ?thesis using count rem get' r pause by (simp add: ki')
qed

section \<open>One message\<close>

definition open_at :: "'k kafka_input \<Rightarrow> int \<Rightarrow> bool" where
  "open_at ki p \<longleftrightarrow> (case bt_get (ki_partitions ki) p of None \<Rightarrow> True | Some st \<Rightarrow> \<not> ps_done st)"

text \<open>The messages that become records: of an assigned, unfinished partition, within its range.\<close>

definition wanted :: "'k kafka_input \<Rightarrow> native_message \<Rightarrow> bool" where
  "wanted ki m \<longleftrightarrow> nm_err m = RespNoError \<and> (case bt_get (ki_partitions ki) (nm_partition m) of
      None \<Rightarrow> False
    | Some st \<Rightarrow> \<not> ps_done st \<and> covers (ps_range st) (nm_partition m) (nm_offset m))"

definition header_charge :: "header \<Rightarrow> nat" where
  "header_charge h = length (h_name h) + (case h_value h of None \<Rightarrow> 0 | Some v \<Rightarrow> length v)"

definition charge :: "output_requirements \<Rightarrow> native_message \<Rightarrow> nat" where
  "charge req m = (case nm_payload m of None \<Rightarrow> 0 | Some bs \<Rightarrow> length bs) +
     (if req_key req then nm_key_len m else 0) +
     (case (if req_headers req then nm_headers m else None) of None \<Rightarrow> 0
      | Some hs \<Rightarrow> 48 * length hs + sum_list (map header_charge hs))"

text \<open>The record holds the message's bytes and what the output plan requires of the rest.\<close>

definition carries :: "output_requirements \<Rightarrow> native_message \<Rightarrow> owned_record \<Rightarrow> bool" where
  "carries req m r \<longleftrightarrow> r_partition r = nm_partition m \<and> r_offset r = nm_offset m \<and>
     map_option vbytes (r_payload r) = nm_payload m \<and>
     r_key r = (if req_key req then nm_key m else None) \<and>
     r_headers r = (if req_headers req then (case nm_headers m of None \<Rightarrow> [] | Some hs \<Rightarrow> hs) else []) \<and>
     r_timestamp r = (if req_timestamp req then kafka_record_timestamp (native_timestamp m) else None) \<and>
     r_retained_bytes r = charge req m \<and> charge req m \<le> usize_max"

lemma add_headers_spec:
  "add_headers n hs = (let t = n + sum_list (map header_charge hs) in
     if hs = [] \<or> t \<le> usize_max then Inr t else Inl RetainedOverflow)"
proof (induction hs arbitrary: n)
  case (Cons h hs)
  show ?case
    by (cases "h_value h")
      (auto simp: Cons.IH header_charge_def Let_def checked_add_def)
qed simp

lemma retained_bytes_spec:
  assumes "\<forall>bs. nm_payload m = Some bs \<longrightarrow> length bs \<le> usize_max"
  shows "retained_bytes m req = (if charge req m \<le> usize_max then Inr (charge req m) else Inl RetainedOverflow)"
  using assms
  by (cases "nm_payload m"; cases "nm_headers m"; cases "req_key req"; cases "req_headers req")
    (auto simp: retained_bytes_def charge_def Let_def checked_add_def checked_mul_def header_size_def add_headers_spec
      bind_r_def ok_or_def usize_max_def)

text \<open>Pausing a partition affects the queue's messages of that partition at most.\<close>

definition pause_law :: "'k kafka_ops \<Rightarrow> ('k \<Rightarrow> native_message list) \<Rightarrow> bool" where
  "pause_law ko incoming \<longleftrightarrow> (\<forall>topic p k r k'. ko_pause ko topic p k = (r, k') \<longrightarrow>
     filter (\<lambda>m. nm_partition m \<noteq> p) (incoming k') = filter (\<lambda>m. nm_partition m \<noteq> p) (incoming k))"

text \<open>What is left to read of the partitions still open in \<open>ki\<close>, in the queue of \<open>fc\<close>.\<close>

definition unread ::
    "('k \<Rightarrow> native_message list) \<Rightarrow> 'k kafka_input \<Rightarrow> 'k fetch_consumer \<Rightarrow> native_message list" where
  "unread incoming ki fc = filter (\<lambda>m. open_at ki (nm_partition m)) (backlog incoming fc)"

text \<open>What any operation between two extractions keeps.\<close>

definition keeps :: "('k \<Rightarrow> native_message list) \<Rightarrow> 'k kafka_input \<Rightarrow> 'k kafka_input \<Rightarrow> bool" where
  "keeps incoming ki ki' \<longleftrightarrow> input_ok ki' \<and> later ki ki' \<and>
     unread incoming ki' (ki_consumer ki') = unread incoming ki' (ki_consumer ki) \<and>
     fetch_dropped (ki_consumer ki') = fetch_dropped (ki_consumer ki) \<and> ki_requirements ki' = ki_requirements ki"

lemma keeps_same [simp]:
  "input_ok ki' \<Longrightarrow> ki_partitions ki' = ki_partitions ki \<Longrightarrow> ki_consumer ki' = ki_consumer ki \<Longrightarrow>
     ki_requirements ki' = ki_requirements ki \<Longrightarrow> keeps incoming ki ki'"
  by (simp add: keeps_def)

lemma finish_keeps:
  assumes ok: "input_ok ki" and law: "pause_law ko incoming" and get: "bt_get (ki_partitions ki) p = Some st"
    and fin: "finish ko p ki = (r, ki')"
  shows "keeps incoming ki ki' \<and> (r = Inr () \<or> (\<exists>err. r = Inl (PauseFailed p err)))"
proof (cases "ps_done st")
  case True
  with get fin ok show ?thesis by (auto simp: finish_def)
next
  case False
  define res where "res = ko_pause ko (ki_topic ki) p (fc_kafka (ki_consumer ki))"
  note eff = finish_effect [OF ok get False fin, folded res_def]
  define k where "k = snd res"
  have "ki' = ki\<lparr>ki_remaining := ki_remaining ki', ki_partitions := ki_partitions ki',
        ki_consumer := (ki_consumer ki)\<lparr>fc_kafka := k\<rparr>\<rparr>" using eff by (simp add: k_def)
  then have fc: "ki_consumer ki' = (ki_consumer ki)\<lparr>fc_kafka := k\<rparr>"
    by (metis kafka_input.select_convs(2) kafka_input.surjective kafka_input.update_convs(2))
  have req: "ki_requirements ki' = ki_requirements ki"
    using eff by (cases ki, cases ki') simp
  have "filter (\<lambda>m. nm_partition m \<noteq> p) (incoming k) = filter (\<lambda>m. nm_partition m \<noteq> p) (incoming (fc_kafka (ki_consumer ki)))"
    using law unfolding pause_law_def k_def res_def by (metis prod.collapse)
  moreover have "filter (\<lambda>m. open_at ki' (nm_partition m)) ms =
      filter (\<lambda>m. open_at ki' (nm_partition m)) (filter (\<lambda>m. nm_partition m \<noteq> p) ms)" for ms
    using eff by (induction ms) (auto simp: open_at_def)
  ultimately have "filter (\<lambda>m. open_at ki' (nm_partition m)) (incoming k) =
      filter (\<lambda>m. open_at ki' (nm_partition m)) (incoming (fc_kafka (ki_consumer ki)))"
    by metis
  then have "unread incoming ki' (ki_consumer ki') = unread incoming ki' (ki_consumer ki)"
    by (simp add: unread_def fc backlog_def fetch_dropped_def)
  with eff req show ?thesis by (cases "fst res") (auto simp: keeps_def fc fetch_dropped_def)
qed

lemma handle_eof_keeps:
  assumes "input_ok ki" "pause_law ko incoming" "handle_eof ko p n ki = (r, ki')"
  shows "keeps incoming ki ki'"
  using assms finish_keeps [OF assms(1,2)]
  by (fastforce simp: handle_eof_def split: option.splits if_splits)

lemma own_record_spec:
  assumes ok: "input_ok ki" and size: "charge (ki_requirements ki) m \<le> usize_max"
    and own: "own_record ko m (charge (ki_requirements ki) m) ki = (r, ki')"
  shows "keeps incoming ki ki' \<and> carries (ki_requirements ki) m r"
proof -
  have buffers: "buffers_ok (ki_payload_buffers ki)" using ok by (simp add: input_ok_def)
  obtain payload pb where copy: "copy_payload ko (nm_payload m) (ki_payload_buffers ki) = (payload, pb)" by fastforce
  have "buffers_ok pb \<and> map_option vbytes payload = nm_payload m"
  proof (cases "nm_payload m")
    case (Some bs)
    obtain v pb2 where "buffer_copy (ko_grow ko) bs (ki_payload_buffers ki) = (v, pb2)" by fastforce
    with buffer_copy_ok [OF buffers this] Some copy show ?thesis by (auto simp: copy_payload_def)
  qed (use copy buffers in \<open>simp add: copy_payload_def\<close>)
  with copy own ok size show ?thesis
    by (auto simp: own_record_def carries_def input_ok_def)
qed

text \<open>What became of message \<open>m\<close>.\<close>

definition decided :: "'k kafka_input \<Rightarrow> native_message \<Rightarrow> input_error + poll_event \<Rightarrow> bool" where
  "decided ki m r = (case r of
      Inr (PollRecord rc) \<Rightarrow> wanted ki m \<and> carries (ki_requirements ki) m rc
    | Inr PollIdle \<Rightarrow> \<not> wanted ki m
    | Inr PollDone \<Rightarrow> False
    | Inl e \<Rightarrow> wanted ki m \<longrightarrow> e = RetainedOverflow)"

lemma take_message_decides:
  assumes ok: "input_ok ki" and law: "pause_law ko incoming"
    and size: "\<forall>bs. nm_payload m = Some bs \<longrightarrow> length bs \<le> usize_max"
    and code: "nm_err m = RespNoError \<or> nm_err m = RespPartitionEof"
    and take: "take_message ko m ki = (r, ki')"
  shows "keeps incoming ki ki' \<and> decided ki m r"
proof (cases "nm_err m = RespPartitionEof")
  case True
  then have unwanted: "\<not> wanted ki m" by (simp add: wanted_def)
  obtain r2 ki2 where eof: "handle_eof ko (nm_partition m) (nm_offset m) ki = (r2, ki2)" by fastforce
  with True take have "ki' = ki2" "r = bind_r r2 (\<lambda>_. Inr PollIdle)"
    by (auto simp: take_message_def is_partition_eof_def idle_after_def)
  with handle_eof_keeps [OF ok law eof] unwanted show ?thesis by (cases r2) (auto simp: decided_def)
next
  case False
  then have err: "nm_err m = RespNoError" using code by simp
  show ?thesis
  proof (cases "bt_get (ki_partitions ki) (nm_partition m)")
    case None
    with False take ok show ?thesis by (auto simp: take_message_def is_partition_eof_def decided_def wanted_def)
  next
    case (Some st)
    then have part: "pr_partition (ps_range st) = nm_partition m" using ok by (simp add: input_ok_def)
    have wanted: "wanted ki m \<longleftrightarrow> \<not> ps_done st \<and>
        (case pr_end (ps_range st) of Some e \<Rightarrow> nm_offset m < e | None \<Rightarrow> True) \<and>
        (case pr_start (ps_range st) of KOffset s \<Rightarrow> s \<le> nm_offset m | _ \<Rightarrow> True)"
      using err Some part by (auto simp: wanted_def covers_def)
    consider (over) "ps_done st"
      | (ended) e where "\<not> ps_done st" "pr_end (ps_range st) = Some e" "nm_offset m \<ge> e"
      | (before) s where "\<not> ps_done st" "pr_start (ps_range st) = KOffset s" "nm_offset m < s"
          "case pr_end (ps_range st) of Some e \<Rightarrow> nm_offset m < e | None \<Rightarrow> True"
      | (inside) "wanted ki m"
      unfolding wanted by (cases "pr_end (ps_range st)"; cases "pr_start (ps_range st)") force+
    then show ?thesis
    proof cases
      case over
      with Some take ok False wanted show ?thesis
        by (auto simp: take_message_def is_partition_eof_def decided_def)
    next
      case ended
      obtain r2 ki2 where fin: "finish ko (nm_partition m) ki = (r2, ki2)" by fastforce
      with ended Some take False have "ki' = ki2" "r = bind_r r2 (\<lambda>_. Inr PollIdle)"
        by (auto simp: take_message_def is_partition_eof_def idle_after_def)
      with finish_keeps [OF ok law Some fin] ended wanted show ?thesis by (auto simp: decided_def)
    next
      case before
      with Some take ok False wanted show ?thesis
        by (cases "pr_end (ps_range st)") (auto simp: take_message_def is_partition_eof_def decided_def)
    next
      case inside
      obtain rc ki2 where own: "own_record ko m (charge (ki_requirements ki) m) ki = (rc, ki2)" by fastforce
      have "(r, ki') = (if charge (ki_requirements ki) m \<le> usize_max then (Inr (PollRecord rc), ki2)
          else (Inl RetainedOverflow, ki))"
        using inside Some take False own retained_bytes_spec [OF size, of "ki_requirements ki"]
        unfolding wanted
        by (cases "pr_end (ps_range st)"; cases "pr_start (ps_range st)";
            cases "charge (ki_requirements ki) m \<le> usize_max")
          (simp_all add: take_message_def is_partition_eof_def)
      with own_record_spec [OF ok _ own, of incoming] inside ok show ?thesis
        by (auto simp: decided_def split: if_splits)
    qed
  qed
qed

section \<open>One poll\<close>

lemma remaining_zero_iff:
  assumes "input_ok ki"
  shows "ki_remaining ki = 0 \<longleftrightarrow> (\<forall>p st. bt_get (ki_partitions ki) p = Some st \<longrightarrow> ps_done st)"
  using assms bt.entries_get [of "ki_partitions ki"]
  by (fastforce simp: input_ok_def filter_empty_conv bt_values_def)

lemma poll_error_spec:
  "input_ok ki \<Longrightarrow> poll_error ko e ki = (r, ki') \<Longrightarrow> keeps incoming ki ki' \<and>
     (r = Inr PollIdle \<or> r = Inl (OffsetReset e) \<or> r = Inl (FatalConsumer e) \<or> r = Inl (RecordError e))"
  by (cases e) (auto simp: poll_error_def input_ok_def split: if_splits)

lemma finish_real: "fst (finish ko p ki) \<noteq> Inl NullDereference"
  by (auto simp: finish_def pause_def map_err_def split: option.split prod.split sum.split)

lemma handle_eof_real: "fst (handle_eof ko p n ki) \<noteq> Inl NullDereference"
  by (simp add: handle_eof_def finish_real split: option.split)

lemma idle_after_real: "fst x \<noteq> Inl NullDereference \<Longrightarrow> fst (idle_after x) \<noteq> Inl NullDereference"
  by (cases "fst x") (auto simp: idle_after_def case_prod_beta)

lemma take_message_real:
  assumes "\<forall>bs. nm_payload m = Some bs \<longrightarrow> length bs \<le> usize_max"
  shows "fst (take_message ko m ki) \<noteq> Inl NullDereference"
  unfolding take_message_def retained_bytes_spec [OF assms]
  by (simp add: idle_after_real finish_real handle_eof_real split: option.split prod.split)

definition polled_well :: "('k \<Rightarrow> native_message list) \<Rightarrow> 'k kafka_input \<Rightarrow> input_error + poll_event \<Rightarrow> 'k kafka_input \<Rightarrow> bool" where
  "polled_well incoming ki r ki' \<longleftrightarrow> (\<exists>rest.
     unread incoming ki' (ki_consumer ki') = filter (\<lambda>m. open_at ki' (nm_partition m)) rest \<and>
     ((\<exists>m. backlog incoming (ki_consumer ki) = m # rest \<and> decided ki m r) \<or>
      backlog incoming (ki_consumer ki) = rest \<and> (\<forall>rc. r \<noteq> Inr (PollRecord rc))))"

definition two_partitions :: "'k \<Rightarrow> 'k kafka_input" where
  "two_partitions ms =
     \<lparr>ki_payload_buffers = buffers_new \<lparr>max_inflight_records = 4, max_inflight_bytes = 100, max_inflight_per_partition = 2\<rparr>,
      ki_consumer = fetch_new ms, ki_topic = ''t'',
      ki_partitions = partition_states
        [\<lparr>pr_partition = 0, pr_start = KOffset 5, pr_end = Some 8\<rparr>, \<lparr>pr_partition = 1, pr_start = KBeginning, pr_end = None\<rparr>],
      ki_remaining = 2, ki_max_inflight = 2, ki_requirements = \<lparr>req_key = True, req_headers = False, req_timestamp = False\<rparr>,
      ki_exit_at_end = True, ki_error_policy = KafkaFail, ki_quiet = False, ki_notices = []\<rparr>"

lemma two_partitions_ok: "input_ok (two_partitions ms)"
  by (auto simp: input_ok_def two_partitions_def partition_states_def fetch_ok_new initially_done_def bt_of_list_def
      bt_empty_def bt_get_def bt_ok_def bt_keys_def bt_values_def split: if_splits)

lemma poll_record_partitions:
  "poll_with_timeout ko timeout ki = (Inr (PollRecord rc), ki') \<Longrightarrow> ki_partitions ki' = ki_partitions ki"
  by (auto simp: poll_with_timeout_def Let_def take_message_def idle_after_def own_record_def poll_error_def
      bind_r_Inr_iff split: prod.splits option.splits polled.splits if_splits sum.splits kafka_error.splits)

lemma poll_step:
  assumes ok: "input_ok ki" and laws: "queue_law ko incoming" "pause_law ko incoming"
    and size: "\<forall>m \<in> set (backlog incoming (ki_consumer ki)). \<forall>bs. nm_payload m = Some bs \<longrightarrow> length bs \<le> usize_max"
    and poll: "poll_with_timeout ko timeout ki = (r, ki')"
  shows "input_ok ki' \<and> later ki ki' \<and> r \<noteq> Inl NullDereference \<and>
    (r = Inr PollDone \<longleftrightarrow> (\<forall>p st. bt_get (ki_partitions ki) p = Some st \<longrightarrow> ps_done st)) \<and>
    polled_well incoming ki r ki' \<and>
    set (map the (fetch_dropped (ki_consumer ki'))) \<subseteq> set (backlog incoming (ki_consumer ki)) \<and>
    ki_requirements ki' = ki_requirements ki"
proof (cases "ki_remaining ki = 0")
  case True
  with poll have "r = Inr PollDone" "ki' = ki" by (simp_all add: poll_with_timeout_def)
  then have "polled_well incoming ki r ki'" by (auto simp: polled_well_def unread_def)
  moreover have "set (map the (fetch_dropped (ki_consumer ki))) \<subseteq> set (backlog incoming (ki_consumer ki))"
    by (auto simp: backlog_def)
  ultimately show ?thesis using ok remaining_zero_iff [OF ok] True \<open>r = Inr PollDone\<close> \<open>ki' = ki\<close> by auto
next
  case False
  obtain r1 fc where fetch: "fetch_poll ko timeout (ki_consumer ki) = (r1, fc)" by fastforce
  define ki1 where "ki1 = ki\<lparr>ki_consumer := fc\<rparr>"
  have fc_ok: "fetch_ok (ki_consumer ki)" using ok by (simp add: input_ok_def)
  note fifo = fetch_poll_step [OF laws(1) fc_ok fetch]
  have ki1: "input_ok ki1" "ki_partitions ki1 = ki_partitions ki" "ki_consumer ki1 = fc"
    "ki_requirements ki1 = ki_requirements ki"
    using ok fifo by (simp_all add: ki1_def input_ok_def)
  have wanted: "wanted ki1 = wanted ki" and later: "later ki1 = later ki"
    by (simp_all add: fun_eq_iff wanted_def later_def ki1)
  have "decided ki1 = decided ki"
    unfolding fun_eq_iff decided_def wanted ki1(4) by simp
  note same = wanted this later
  have unfinished: "(\<forall>p st. bt_get (ki_partitions ki) p = Some st \<longrightarrow> ps_done st) = False"
    using remaining_zero_iff [OF ok] False by blast
  have close: ?thesis
    if keeps: "keeps incoming ki1 ki'" and r: "r \<noteq> Inr PollDone" "r \<noteq> Inl NullDereference"
      and cases: "(\<exists>m. backlog incoming (ki_consumer ki) = m # backlog incoming fc \<and> decided ki m r) \<or>
        backlog incoming (ki_consumer ki) = backlog incoming fc \<and> (\<forall>rc. r \<noteq> Inr (PollRecord rc))"
  proof -
    have "set (map the (fetch_dropped fc)) \<subseteq> set (backlog incoming (ki_consumer ki))"
    proof -
      have "set (map the (fetch_dropped fc)) \<subseteq> set (backlog incoming fc)" by (auto simp: backlog_def)
      also have "\<dots> \<subseteq> set (backlog incoming (ki_consumer ki))"
        using cases by (elim disjE exE conjE) (simp_all add: subset_insertI)
      finally show ?thesis .
    qed
    with keeps r cases unfinished show ?thesis
      by (auto simp: keeps_def same ki1 polled_well_def unread_def intro!: exI [of _ "backlog incoming fc"])
  qed
  show ?thesis
  proof (cases r1)
    case None
    with poll False fetch have "r = Inr PollIdle" "ki' = ki1" by (simp_all add: poll_with_timeout_def ki1_def Let_def)
    moreover have "backlog incoming (ki_consumer ki) = backlog incoming fc" using fifo None by simp
    ultimately show ?thesis using ki1 by (intro close) auto
  next
    case (Some out)
    show ?thesis
    proof (cases out)
      case NullMessage
      with fifo Some show ?thesis by simp
    next
      case (PollError e)
      with poll False fetch Some have "poll_error ko e ki1 = (r, ki')"
        by (simp add: poll_with_timeout_def ki1_def Let_def)
      note spec = poll_error_spec [OF ki1(1) this, of incoming]
      have "\<not> wanted ki m" if "outcome_of m = PollError e" for m
        using that by (auto simp: outcome_of_def wanted_def)
      with spec fifo Some PollError show ?thesis
        by (intro close) (auto simp: decided_def)
    next
      case (Polled m)
      with fifo Some obtain m' where m': "backlog incoming (ki_consumer ki) = m' # backlog incoming fc"
        "outcome_of m' = Polled m" by auto
      then have m: "m' = m" "nm_err m = RespNoError \<or> nm_err m = RespPartitionEof"
        by (auto simp: outcome_of_def split: resp_code.splits)
      from poll False fetch Some Polled have take: "take_message ko m ki1 = (r, ki')"
        by (simp add: poll_with_timeout_def ki1_def Let_def)
      have fits: "\<forall>bs. nm_payload m = Some bs \<longrightarrow> length bs \<le> usize_max" using size m' m by auto
      note spec = take_message_decides [OF ki1(1) laws(2) fits m(2) take]
      have "r \<noteq> Inl NullDereference"
        using take_message_real [OF fits, of ko ki1] take by simp
      with spec m' m show ?thesis
        by (intro close) (auto simp: same decided_def)
    qed
  qed
qed

text \<open>
  What has to become of an answer of the queue, option by option. A message ends its partition, when that is
  still open, at or past the end of a bounded range, be it a record or an end-of-partition notice, and at
  an end-of-partition notice when the range has no end and the run exits at the end.
\<close>

definition closes :: "'k kafka_input \<Rightarrow> native_message \<Rightarrow> bool" where
  "closes ki m \<longleftrightarrow> (case bt_get (ki_partitions ki) (nm_partition m) of
      None \<Rightarrow> False
    | Some st \<Rightarrow> \<not> ps_done st \<and> (case pr_end (ps_range st) of
          Some e \<Rightarrow> e \<le> nm_offset m
        | None \<Rightarrow> nm_err m = RespPartitionEof \<and> ki_exit_at_end ki))"

text \<open>An offset reset and a fatal error always fail; of the other errors only a failing policy makes one.\<close>

definition error_answer :: "'k kafka_ops \<Rightarrow> 'k kafka_input \<Rightarrow> kafka_error \<Rightarrow> input_error option" where
  "error_answer ko ki e =
     (if ko_code ko e = Some RespAutoOffsetReset then Some (OffsetReset e)
      else if \<exists>code. e = MessageConsumptionFatal code then Some (FatalConsumer e)
      else case ki_error_policy ki of KafkaFail \<Rightarrow> Some (RecordError e) | KafkaContinue \<Rightarrow> None)"

definition answered ::
    "'k kafka_ops \<Rightarrow> 'k kafka_input \<Rightarrow> polled option \<Rightarrow> input_error + poll_event \<Rightarrow> 'k kafka_input \<Rightarrow> bool" where
  "answered ko ki got r ki' \<longleftrightarrow> (case got of
      None \<Rightarrow> r = Inr PollIdle \<and> ki' = ki
    | Some NullMessage \<Rightarrow> False
    | Some (PollError e) \<Rightarrow> (case error_answer ko ki e of
          Some err \<Rightarrow> r = Inl err \<and> ki' = ki
        | None \<Rightarrow> r = Inr PollIdle \<and>
            (if ki_quiet ki then ki' = ki
             else ki' = ki\<lparr>ki_notices := ki_notices ki @ [''jkq: Kafka record error: '' @ ko_text ko e]\<rparr>))
    | Some (Polled m) \<Rightarrow>
        if closes ki m
        then (case ko_pause ko (ki_topic ki) (nm_partition m) (fc_kafka (ki_consumer ki)) of (paused, k) \<Rightarrow>
          r = (case paused of Inl err \<Rightarrow> Inl (PauseFailed (nm_partition m) err) | Inr _ \<Rightarrow> Inr PollIdle) \<and>
          (\<exists>parts. ki' = ki\<lparr>ki_remaining := ki_remaining ki - 1, ki_partitions := parts,
              ki_consumer := (ki_consumer ki)\<lparr>fc_kafka := k\<rparr>\<rparr> \<and>
            (\<forall>q. bt_get parts q = (if q = nm_partition m
               then map_option (ps_done_update (\<lambda>_. True)) (bt_get (ki_partitions ki) q) else bt_get (ki_partitions ki) q))))
        else if wanted ki m
        then (if charge (ki_requirements ki) m \<le> usize_max
          then (\<exists>rc. r = Inr (PollRecord rc) \<and> carries (ki_requirements ki) m rc) \<and>
            (\<exists>pb. ki' = ki\<lparr>ki_payload_buffers := pb\<rparr>)
          else r = Inl RetainedOverflow \<and> ki' = ki)
        else ki' = ki \<and>
          r = (if nm_err m = RespNoError \<and> bt_get (ki_partitions ki) (nm_partition m) = None
            then Inl (UnassignedRecord (nm_partition m)) else Inr PollIdle))"

lemma poll_error_answers: "poll_error ko e ki = (r, ki') \<Longrightarrow> answered ko ki (Some (PollError e)) r ki'"
  by (cases e; cases "ki_error_policy ki")
    (auto simp: poll_error_def answered_def error_answer_def split: if_splits)

lemma finish_closes:
  assumes ok: "input_ok ki" and get: "bt_get (ki_partitions ki) (nm_partition m) = Some st" and "\<not> ps_done st"
    and closes: "closes ki m" and fin: "idle_after (finish ko (nm_partition m) ki) = (r, ki')"
  shows "answered ko ki (Some (Polled m)) r ki'"
proof -
  obtain paused k where pause: "ko_pause ko (ki_topic ki) (nm_partition m) (fc_kafka (ki_consumer ki)) = (paused, k)"
    by fastforce
  have "finish ko (nm_partition m) ki = (map_err (PauseFailed (nm_partition m)) paused,
      ki\<lparr>ki_remaining := usize_sub (ki_remaining ki) 1,
        ki_partitions := bt_insert (nm_partition m) (st\<lparr>ps_done := True\<rparr>) (ki_partitions ki),
        ki_consumer := (ki_consumer ki)\<lparr>fc_kafka := k\<rparr>\<rparr>)"
    using get \<open>\<not> ps_done st\<close> pause by (simp add: finish_def pause_def bt_get_insert)
  moreover from finish_effect [OF ok get \<open>\<not> ps_done st\<close> this] have "usize_sub (ki_remaining ki) 1 = ki_remaining ki - 1"
    by simp
  ultimately show ?thesis
    using fin closes get pause
    by (cases paused) (auto simp: answered_def idle_after_def bt_get_insert)
qed

lemma take_message_answers:
  assumes ok: "input_ok ki" and size: "\<forall>bs. nm_payload m = Some bs \<longrightarrow> length bs \<le> usize_max"
    and code: "nm_err m = RespNoError \<or> nm_err m = RespPartitionEof"
    and take: "take_message ko m ki = (r, ki')"
  shows "answered ko ki (Some (Polled m)) r ki'"
proof (cases "closes ki m")
  case True
  then obtain st where st: "bt_get (ki_partitions ki) (nm_partition m) = Some st" "\<not> ps_done st"
    "case pr_end (ps_range st) of Some e \<Rightarrow> e \<le> nm_offset m | None \<Rightarrow> nm_err m = RespPartitionEof \<and> ki_exit_at_end ki"
    by (auto simp: closes_def split: option.splits)
  then have "idle_after (finish ko (nm_partition m) ki) = (r, ki')"
    using take code by (auto simp: take_message_def is_partition_eof_def handle_eof_def split: option.splits)
  with finish_closes [OF ok st(1,2) True] show ?thesis by blast
next
  case open_still: False
  show ?thesis
  proof (cases "wanted ki m")
    case True
    then obtain st where st: "bt_get (ki_partitions ki) (nm_partition m) = Some st" "\<not> ps_done st"
      "covers (ps_range st) (nm_partition m) (nm_offset m)" and err: "nm_err m = RespNoError"
      by (auto simp: wanted_def split: option.splits)
    obtain rc ki2 where own: "own_record ko m (charge (ki_requirements ki) m) ki = (rc, ki2)" by fastforce
    have "(r, ki') = (if charge (ki_requirements ki) m \<le> usize_max then (Inr (PollRecord rc), ki2)
        else (Inl RetainedOverflow, ki))"
      using st err take own retained_bytes_spec [OF size, of "ki_requirements ki"]
      by (cases "pr_end (ps_range st)"; cases "pr_start (ps_range st)";
          cases "charge (ki_requirements ki) m \<le> usize_max")
        (simp_all add: take_message_def is_partition_eof_def covers_def)
    moreover have "\<exists>pb. ki2 = ki\<lparr>ki_payload_buffers := pb\<rparr>"
      using own by (auto simp: own_record_def Let_def split: prod.splits)
    ultimately show ?thesis
      using own_record_spec [OF ok _ own] True open_still by (auto simp: answered_def split: if_splits)
  next
    case False
    have "ki' = ki \<and> r = (if nm_err m = RespNoError \<and> bt_get (ki_partitions ki) (nm_partition m) = None
        then Inl (UnassignedRecord (nm_partition m)) else Inr PollIdle)"
    proof (cases "bt_get (ki_partitions ki) (nm_partition m)")
      case None
      with take code show ?thesis
        by (auto simp: take_message_def is_partition_eof_def handle_eof_def idle_after_def)
    next
      case (Some st)
      have part: "pr_partition (ps_range st) = nm_partition m" using ok Some by (simp add: input_ok_def)
      show ?thesis
        using take code Some False open_still part
        by (cases "ps_done st"; cases "pr_end (ps_range st)"; cases "pr_start (ps_range st)")
          (auto simp: take_message_def is_partition_eof_def handle_eof_def idle_after_def finish_def wanted_def
            closes_def covers_def split: if_splits)
    qed
    with False open_still show ?thesis by (simp add: answered_def)
  qed
qed

lemma poll_answers:
  assumes ok: "input_ok ki" and law: "queue_law ko incoming"
    and size: "\<forall>m \<in> set (backlog incoming (ki_consumer ki)). \<forall>bs. nm_payload m = Some bs \<longrightarrow> length bs \<le> usize_max"
    and poll: "poll_with_timeout ko timeout ki = (r, ki')" and fetch: "fetch_poll ko timeout (ki_consumer ki) = (got, fc)"
    and more: "ki_remaining ki \<noteq> 0"
  shows "answered ko (ki\<lparr>ki_consumer := fc\<rparr>) got r ki'"
proof -
  let ?ki = "ki\<lparr>ki_consumer := fc\<rparr>"
  have fc_ok: "fetch_ok (ki_consumer ki)" using ok by (simp add: input_ok_def)
  note fifo = fetch_poll_step [OF law fc_ok fetch]
  have ok': "input_ok ?ki" using ok fifo by (simp add: input_ok_def)
  show ?thesis
  proof (cases got)
    case None
    with poll fetch more show ?thesis by (auto simp: poll_with_timeout_def answered_def Let_def)
  next
    case (Some out)
    show ?thesis
    proof (cases out)
      case NullMessage
      with fifo Some show ?thesis by simp
    next
      case (PollError e)
      with Some poll fetch more show ?thesis
        by (auto simp: poll_with_timeout_def Let_def intro: poll_error_answers)
    next
      case (Polled m)
      with fifo Some obtain m' where "backlog incoming (ki_consumer ki) = m' # backlog incoming fc"
        "outcome_of m' = Polled m" by auto
      then have "m \<in> set (backlog incoming (ki_consumer ki))" "nm_err m = RespNoError \<or> nm_err m = RespPartitionEof"
        by (auto simp: outcome_of_def split: resp_code.splits)
      with size Some Polled poll fetch more show ?thesis
        by (auto simp: poll_with_timeout_def Let_def intro!: take_message_answers [OF ok'])
    qed
  qed
qed

text \<open>
  C22. What one poll does, option by option. It reports the end exactly when every partition is done, and then
  changes nothing. Otherwise it asks the queue once: an error fails the run, or is noted and passed over,
  as its kind and the policy say; a message at or past its partition's end, or the end of the log where the
  run exits there, finishes the partition and pauses it; a wanted message becomes its record (or an error when its
  charge overflows); a record of an unassigned partition is an error; anything else is passed over. The
  input's invariant and every partition's range are kept, and a finished partition loses no message
  of the others.
\<close>

theorem poll_takes_next:
  assumes ok: "input_ok ki" and laws: "queue_law ko incoming" "pause_law ko incoming"
    and size: "\<forall>m \<in> set (backlog incoming (ki_consumer ki)). \<forall>bs. nm_payload m = Some bs \<longrightarrow> length bs \<le> usize_max"
    and poll: "poll_with_timeout ko timeout ki = (r, ki')"
  shows "input_ok ki' \<and> later ki ki' \<and> r \<noteq> Inl NullDereference \<and>
    (r = Inr PollDone \<longleftrightarrow> (\<forall>p st. bt_get (ki_partitions ki) p = Some st \<longrightarrow> ps_done st)) \<and>
    polled_well incoming ki r ki' \<and>
    (if r = Inr PollDone then ki' = ki
     else case fetch_poll ko timeout (ki_consumer ki) of (got, fc) \<Rightarrow> answered ko (ki\<lparr>ki_consumer := fc\<rparr>) got r ki')"
proof -
  note step = poll_step [OF assms]
  obtain got fc where fetch: "fetch_poll ko timeout (ki_consumer ki) = (got, fc)" by fastforce
  have "if r = Inr PollDone then ki' = ki else answered ko (ki\<lparr>ki_consumer := fc\<rparr>) got r ki'"
  proof (cases "ki_remaining ki = 0")
    case True
    with poll show ?thesis by (simp add: poll_with_timeout_def)
  next
    case False
    with step remaining_zero_iff [OF ok] have "r \<noteq> Inr PollDone" by simp
    with poll_answers [OF ok laws(1) size poll fetch False] show ?thesis by simp
  qed
  with step fetch show ?thesis by simp
qed

text \<open>Partition 1 has no end: its end-of-partition notice finishes it, since the run exits at the end.\<close>

theorem poll_takes_next_witness:
  "\<exists>ki'. poll_with_timeout list_kafka 100 (two_partitions [(plain_message 1 9 [])\<lparr>nm_err := RespPartitionEof\<rparr>])
      = (Inr PollIdle, ki') \<and> ki_remaining ki' = 1
    \<and> map_option ps_done (bt_get (ki_partitions ki') 1) = Some True
    \<and> map_option ps_done (bt_get (ki_partitions ki') 0) = Some False"
proof -
  let ?m = "(plain_message 1 9 [])\<lparr>nm_err := RespPartitionEof\<rparr>"
  let ?ki = "two_partitions [?m]"
  have pause: "pause_law list_kafka (\<lambda>k. k)" by (auto simp: pause_law_def list_kafka_def)
  have size: "\<forall>m \<in> set (backlog (\<lambda>k. k) (ki_consumer ?ki)). \<forall>bs. nm_payload m = Some bs \<longrightarrow> length bs \<le> usize_max"
    by (simp add: two_partitions_def plain_message_def usize_max_def)
  obtain r ki' where poll: "poll_with_timeout list_kafka 100 ?ki = (r, ki')" by fastforce
  obtain got fc where fetch: "fetch_poll list_kafka 100 (ki_consumer ?ki) = (got, fc)" by fastforce
  then have got: "got = Some (Polled ?m)"
    by (simp add: two_partitions_def fetch_poll_def fetch_refill_def fetch_new_def list_kafka_def fetch_two_def
      fetch_extract_def fetch_take_def batch_size_def outcome_of_def plain_message_def)
  have parts: "ki_partitions ?ki = [(0, \<lparr>ps_range = \<lparr>pr_partition = 0, pr_start = KOffset 5, pr_end = Some 8\<rparr>, ps_done = False\<rparr>),
      (1, \<lparr>ps_range = \<lparr>pr_partition = 1, pr_start = KBeginning, pr_end = None\<rparr>, ps_done = False\<rparr>)]"
    by (simp add: two_partitions_def partition_states_def initially_done_def bt_of_list_def bt_empty_def)
  have fixed: "ki_remaining ?ki = 2" "ki_exit_at_end ?ki" by (simp_all add: two_partitions_def)
  have m: "nm_partition ?m = 1" "nm_err ?m = RespPartitionEof" by (simp_all add: plain_message_def)
  from poll_takes_next [OF two_partitions_ok list_kafka_law pause size poll]
  have "r \<noteq> Inr PollDone" "answered list_kafka (?ki\<lparr>ki_consumer := fc\<rparr>) got r ki'"
    by (auto simp: parts bt_get_def fetch split: if_splits)
  moreover have "closes (?ki\<lparr>ki_consumer := fc\<rparr>) ?m" by (simp add: closes_def parts fixed m bt_get_def)
  moreover have "ko_pause list_kafka topic p k = (Inr (), filter (\<lambda>m. nm_partition m \<noteq> p) k)" for topic p k
    by (simp add: list_kafka_def)
  ultimately obtain parts where "r = Inr PollIdle" "ki_remaining ki' = 1" "ki_partitions ki' = parts"
    "\<forall>q. bt_get parts q = (if q = 1
      then map_option (ps_done_update (\<lambda>_. True)) (bt_get (ki_partitions ?ki) q) else bt_get (ki_partitions ?ki) q)"
    unfolding got answered_def by (auto simp: m fixed)
  with poll show ?thesis by (simp add: parts bt_get_def)
qed

section \<open>Assignment\<close>

lemma pause_all_effect:
  "pause_all ko ps ki = (Inr u, ki') \<Longrightarrow> \<exists>k. ki' = ki\<lparr>ki_consumer := (ki_consumer ki)\<lparr>fc_kafka := k\<rparr>\<rparr>"
proof (induction ps arbitrary: ki)
  case Nil
  then show ?case by (auto intro!: exI [of _ "fc_kafka (ki_consumer ki)"])
next
  case (Cons p ps)
  then obtain ki2 where "pause ko p ki = (Inr (), ki2)" "pause_all ko ps ki2 = (Inr u, ki')"
    by (auto split: prod.splits sum.splits)
  with Cons.IH [of ki2] show ?case by (auto simp: pause_def split: if_splits prod.splits)
qed

lemma partition_states_get:
  "distinct (map pr_partition rs) \<Longrightarrow>
     bt_get (partition_states rs) p = Some st \<longleftrightarrow>
       (\<exists>r \<in> set rs. pr_partition r = p \<and> st = \<lparr>ps_range = r, ps_done = initially_done r\<rparr>)"
proof -
  assume distinct: "distinct (map pr_partition rs)"
  let ?pairs = "map (\<lambda>r. (pr_partition r, \<lparr>ps_range = r, ps_done = initially_done r\<rparr>)) rs"
  have "distinct (map fst (rev ?pairs))" using distinct by (simp add: rev_map [symmetric] comp_def)
  then have "map_of (rev ?pairs) p = Some st \<longleftrightarrow> (p, st) \<in> set (rev ?pairs)" by (rule map_of_eq_Some_iff)
  then show ?thesis by (auto simp: partition_states_def bt_get_of_list)
qed

lemma input_new_ok:
  "distinct (map pr_partition (ca_ranges a)) \<Longrightarrow> input_ok (input_new cf a k)"
  by (auto simp: input_ok_def input_new_def Let_def fetch_ok_new partition_states_get)
    (simp add: partition_states_def)

lemma initially_done_covers: "initially_done r \<Longrightarrow> \<not> covers r p n"
  by (auto simp: initially_done_def covers_def split: koffset.splits option.splits)

lemma wanted_new:
  assumes "distinct (map pr_partition (ca_ranges a))" "nm_err m = RespNoError"
  shows "(if wanted (input_new cf a k) m then 1 else 0) =
    length (filter (\<lambda>r. covers r (nm_partition m) (nm_offset m)) (ca_ranges a))"
proof -
  have "wanted (input_new cf a k) m \<longleftrightarrow> (\<exists>r \<in> set (ca_ranges a). covers r (nm_partition m) (nm_offset m))"
  proof (cases "bt_get (partition_states (ca_ranges a)) (nm_partition m)")
    case None
    then have "\<not> covers r (nm_partition m) (nm_offset m)" if "r \<in> set (ca_ranges a)" for r
      using that partition_states_get [OF assms(1), of "nm_partition m"] by (auto simp: covers_def)
    with None show ?thesis by (auto simp: wanted_def input_new_def Let_def)
  next
    case (Some st)
    then obtain r where r: "r \<in> set (ca_ranges a)" "pr_partition r = nm_partition m"
      "st = \<lparr>ps_range = r, ps_done = initially_done r\<rparr>"
      using partition_states_get [OF assms(1)] by auto
    have "r' = r" if "r' \<in> set (ca_ranges a)" "covers r' (nm_partition m) (nm_offset m)" for r'
      using that r assms(1) by (auto simp: covers_def distinct_map inj_on_def)
    then have "(\<exists>r' \<in> set (ca_ranges a). covers r' (nm_partition m) (nm_offset m)) \<longleftrightarrow>
        covers r (nm_partition m) (nm_offset m)" using r(1) by blast
    with r(3) Some assms(2) initially_done_covers [of r "nm_partition m" "nm_offset m"] show ?thesis
      by (auto simp: wanted_def input_new_def Let_def)
  qed
  moreover have "length (filter (\<lambda>r. covers r p n) rs) = (if \<exists>r \<in> set rs. covers r p n then 1 else 0)"
    if "distinct (map pr_partition rs)" for rs p n
    using that by (induction rs) (auto simp: covers_def filter_empty_conv intro: rev_image_eqI)
  ultimately show ?thesis using assms(1) by simp
qed

lemma assign_result:
  assumes "assign ko ka kc cf consumer a = Inr ki"
  shows "\<exists>k k'. ki = (input_new cf a k)\<lparr>ki_consumer := (ki_consumer (input_new cf a k))\<lparr>fc_kafka := k'\<rparr>\<rparr>"
proof -
  from assms obtain k where step: "(case pause_all ko (map fst (filter (\<lambda>(p, st). ps_done st)
      (ki_partitions (input_new cf a k)))) (input_new cf a k) of
      (Inl e, _) \<Rightarrow> Inl (InputError e) | (Inr _, ki') \<Rightarrow> Inr ki') = Inr ki"
    by (auto simp: assign_def bind_r_Inr_iff Let_def)
  then obtain ps where "pause_all ko ps (input_new cf a k) = (Inr (), ki)"
    by (auto split: prod.splits sum.splits)
  then show ?thesis using pause_all_effect by blast
qed

lemma assign_spec:
  assumes "assign ko ka kc cf consumer a = Inr ki" "distinct (map pr_partition (ca_ranges a))"
  shows "input_ok ki \<and> (nm_err m = RespNoError \<longrightarrow> (if wanted ki m then 1 else 0) =
    length (filter (\<lambda>r. covers r (nm_partition m) (nm_offset m)) (ca_ranges a)))"
proof -
  from assign_result [OF assms(1)] obtain k k' where
    ki: "ki = (input_new cf a k)\<lparr>ki_consumer := (ki_consumer (input_new cf a k))\<lparr>fc_kafka := k'\<rparr>\<rparr>" by blast
  have "wanted ki m = wanted (input_new cf a k) m" by (simp add: wanted_def ki)
  moreover have "input_ok ki" using input_new_ok [OF assms(2), of cf k] by (simp add: ki input_ok_def fetch_ok_def)
  ultimately show ?thesis using wanted_new [OF assms(2), of m cf k] by simp
qed

definition list_admin :: "native_message list kafka_admin" where
  "list_admin = \<lparr>ka_create = (\<lambda>n client. Inr []), ka_assign = (\<lambda>topic ranges k. Inr k)\<rparr>"

definition shard_config :: "string runtime_config" where
  "shard_config =
     \<lparr>cf_topic = ''t'', cf_partitions = Some [0, 1], cf_start = Beginning, cf_end = Some Snapshot,
      cf_count_limit = None, cf_count_per_partition = None, cf_exit_at_end = False, cf_consumers = 5,
      cf_range_sharding = True, cf_unordered = True,
      cf_limits = \<lparr>max_inflight_records = 8, max_inflight_bytes = 100, max_inflight_per_partition = 4\<rparr>,
      cf_transform = \<lparr>tp_drops = [], tp_tombstones = [], tp_drop_tombstones = False, tp_projection = None,
        tp_parses_json = False\<rparr>,
      cf_output = FormatPlan None [], cf_errors = \<lparr>ep_invalid_json = JsonFail, ep_evaluation = EvalFail\<rparr>,
      cf_kafka_error = KafkaFail, cf_kafka_properties = [], cf_unbuffered = False, cf_stats = False,
      cf_stats_interval = None, cf_quiet = False, cf_check = False\<rparr>"

definition shard_ranges :: "partition_range list" where
  "shard_ranges =
     [\<lparr>pr_partition = 0, pr_start = KOffset 5, pr_end = Some 20\<rparr>,
      \<lparr>pr_partition = 1, pr_start = KOffset 5, pr_end = Some 21\<rparr>]"

lemma shard_config_ranges: "prepare_ranges small_cluster shard_config = Inr shard_ranges"
  by (simp add: prepare_ranges_def small_cluster_def shard_config_def shard_ranges_def
      startup_watermarks_def fetch_watermarks_def timestamp_starts_def resolve_starts_def
      resolve_start_def fixed_ends_def range_of_def shardable_def bt_of_list_def bt_empty_def bt_get_def expect_def)

text \<open>The list client is prepared whenever the ranges and the assignments are.\<close>

lemma list_prepares:
  assumes adds: "kc_add_offset kc = (\<lambda>topic p off. Inr ())" and ranges: "prepare_ranges kc cf = Inr ranges"
    and as: "consumer_assignments ranges (cf_consumers cf) (cf_range_sharding cf)
      (max_inflight_per_partition (cf_limits cf)) = Inr as"
  shows "\<exists>inputs. prepare list_kafka list_admin kc cf = Inr inputs"
proof -
  have paused: "\<exists>ki'. pause_all list_kafka ps ki = (Inr (), ki')"
    if "\<forall>p \<in> set ps. bt_get (ki_partitions ki) p \<noteq> None" for ps and ki :: "native_message list kafka_input"
    using that
  proof (induction ps arbitrary: ki)
    case (Cons p ps)
    then show ?case by (auto simp: pause_def list_kafka_def)
  qed simp
  have one: "\<exists>ki. assign list_kafka list_admin kc cf k a = Inr ki" for k a
  proof -
    let ?ki = "input_new cf a k"
    have "\<forall>p \<in> set (map fst (filter (\<lambda>(p, st). ps_done st) (ki_partitions ?ki))). bt_get (ki_partitions ?ki) p \<noteq> None"
      unfolding bt_get_def map_of_eq_None_iff by (simp add: rev_image_eqI split_beta)
    from paused [OF this] obtain ki where
      "pause_all list_kafka (map fst (filter (\<lambda>(p, st). ps_done st) (ki_partitions ?ki))) ?ki = (Inr (), ki)" ..
    then have "assign list_kafka list_admin kc cf k a = Inr ki"
      by (simp add: assign_def list_admin_def adds collect_r_Inr_iff [THEN iffD2, of _ "map (\<lambda>_. ()) (ca_ranges a)"])
    then show ?thesis ..
  qed
  have collect: "\<exists>ys. collect_r (map f xs) = Inr ys" if "\<And>x. \<exists>y. f x = Inr y"
    for f :: "'z \<Rightarrow> start_error + native_message list kafka_input" and xs
  proof (induction xs)
    case (Cons x xs)
    from that [of x] Cons show ?case by auto
  qed simp
  have "\<exists>ys. collect_r (map (\<lambda>(consumer, a). assign list_kafka list_admin kc cf consumer a) xs) = Inr ys"
    for xs by (rule collect) (use one in \<open>simp split: prod.split\<close>)
  moreover have "create_consumer list_admin cf = (\<lambda>n. Inr [])" by (simp add: fun_eq_iff create_consumer_def list_admin_def)
  moreover have "collect_r (map (\<lambda>_. Inr []) xs) = (Inr (map (\<lambda>_. []) xs) :: start_error + native_message list list)"
    for xs :: "nat list"
    by (induction xs) simp_all
  ultimately show ?thesis by (simp add: prepare_def ranges as)
qed

lemma shard_config_prepares: "\<exists>inputs. prepare list_kafka list_admin small_cluster shard_config = Inr inputs"
proof -
  have "\<exists>as. consumer_assignments shard_ranges 5 True 4 = Inr as"
    by (simp add: consumer_assignments_def shard_ranges_def shard_range_def shard_count_def range_width_def
        i64_saturating_sub_def int_bounds Let_def)
  moreover have "cf_consumers shard_config = 5" "cf_range_sharding shard_config"
    "max_inflight_per_partition (cf_limits shard_config) = 4" by (simp_all add: shard_config_def)
  ultimately show ?thesis
    using list_prepares [OF _ shard_config_ranges] by (auto simp: small_cluster_def)
qed

lemma prepare_assigns:
  assumes "prepare ko ka kc cf = Inr inputs" "prepare_ranges kc cf = Inr ranges"
  obtains ks as where
    "consumer_assignments ranges (cf_consumers cf) (cf_range_sharding cf) (max_inflight_per_partition (cf_limits cf)) = Inr as"
    "length inputs = length as" "\<And>i. i < length as \<Longrightarrow> assign ko ka kc cf (ks ! i) (as ! i) = Inr (inputs ! i)"
proof -
  from assms obtain k as ks where
    as: "consumer_assignments ranges (cf_consumers cf) (cf_range_sharding cf) (max_inflight_per_partition (cf_limits cf)) = Inr as"
    and ks: "map (create_consumer ka cf) [1..<length as] = map Inr ks"
    and inputs: "map (\<lambda>(consumer, a). assign ko ka kc cf consumer a) (zip (k # ks) as) = map Inr inputs"
    by (auto simp: prepare_def bind_r_Inr_iff collect_r_Inr_iff)
  have "length as - 1 = length ks" using arg_cong [OF ks, of length] by simp
  then have len: "length (zip (k # ks) as) = length as" by (cases as) auto
  then have n: "length inputs = length as" using arg_cong [OF inputs, of length] by simp
  moreover have "assign ko ka kc cf ((k # ks) ! i) (as ! i) = Inr (inputs ! i)" if "i < length as" for i
    using that inputs len n by (auto simp: list_eq_iff_nth_eq)
  ultimately show ?thesis using that [OF as] by blast
qed

lemma inputs_reading:
  assumes prep: "prepare ko ka kc cf = Inr inputs" and ranges: "prepare_ranges kc cf = Inr ranges"
    and distinct: "distinct (map pr_partition ranges)" and limit: "0 < max_inflight_per_partition (cf_limits cf)"
    and widths: "\<forall>r \<in> set ranges. \<forall>s e. pr_start r = KOffset s \<and> pr_end r = Some e \<longrightarrow> e - s \<le> i64_max"
  shows "list_all input_ok inputs \<and> length inputs \<le> cf_consumers cf \<and>
    (\<forall>m. nm_err m = RespNoError \<longrightarrow> length (filter (\<lambda>ki. wanted ki m) inputs) =
       length (filter (\<lambda>r. covers r (nm_partition m) (nm_offset m)) ranges))"
proof -
  from prep ranges obtain ks as where
    as: "consumer_assignments ranges (cf_consumers cf) (cf_range_sharding cf) (max_inflight_per_partition (cf_limits cf)) = Inr as"
    and n: "length inputs = length as" and each: "\<And>i. i < length as \<Longrightarrow> assign ko ka kc cf (ks ! i) (as ! i) = Inr (inputs ! i)"
    using prepare_assigns by blast
  note cover = assignments_cover [OF as limit distinct widths]
  have dist: "distinct (map pr_partition (ca_ranges (as ! i)))" if "i < length as" for i
    using assignments_distinct [OF as distinct] that by simp
  have all: "list_all input_ok inputs"
    using assign_spec [OF each dist] n by (simp add: list_all_length)
  have "length (filter (\<lambda>ki. wanted ki m) inputs) = readers as (nm_partition m) (nm_offset m)"
    if err: "nm_err m = RespNoError" for m
  proof -
    have "length (filter (\<lambda>ki. wanted ki m) inputs) = sum_list (map (\<lambda>ki. if wanted ki m then 1 else 0) inputs)"
      by (induction inputs) simp_all
    also have "\<dots> = sum_list (map (\<lambda>a. length (filter (\<lambda>r. covers r (nm_partition m) (nm_offset m)) (ca_ranges a))) as)"
      using assign_spec [OF each dist, of _ m] err n
      by (intro arg_cong [of _ _ sum_list] nth_equalityI) auto
    also have "\<dots> = readers as (nm_partition m) (nm_offset m)" by (induction as) simp_all
    finally show ?thesis .
  qed
  with all n cover show ?thesis by simp
qed

text \<open>
  The inputs that a preparation makes all satisfy the invariant, there are no more of them than
  consumers were asked for, and every message of the topic is wanted by exactly as many of them as there
  are ranges that hold its offset: one for each record that was asked for, none for any other.
\<close>

theorem inputs_read_once:
  assumes prep: "prepare ko ka kc cf = Inr inputs" and ranges: "prepare_ranges kc cf = Inr ranges"
    and distinct: "distinct (map pr_partition ranges)" and limit: "0 < max_inflight_per_partition (cf_limits cf)"
    and widths: "\<forall>r \<in> set ranges. \<forall>s e. pr_start r = KOffset s \<and> pr_end r = Some e \<longrightarrow> e - s \<le> i64_max"
  shows "list_all input_ok inputs \<and> length inputs \<le> cf_consumers cf \<and>
    (\<forall>m. nm_err m = RespNoError \<longrightarrow> length (filter (\<lambda>ki. wanted ki m) inputs) =
       length (filter (\<lambda>r. covers r (nm_partition m) (nm_offset m)) ranges))"
  using assms by (rule inputs_reading)

theorem inputs_read_once_witness:
  "\<exists>inputs. prepare list_kafka list_admin small_cluster shard_config = Inr inputs \<and> length inputs \<le> 5 \<and>
     length (filter (\<lambda>ki. wanted ki (plain_message 0 12 [])) inputs) = 1 \<and>
     length (filter (\<lambda>ki. wanted ki (plain_message 1 21 [])) inputs) = 0"
proof -
  obtain inputs where inputs: "prepare list_kafka list_admin small_cluster shard_config = Inr inputs"
    using shard_config_prepares by blast
  have "distinct (map pr_partition shard_ranges)" "0 < max_inflight_per_partition (cf_limits shard_config)"
    "\<forall>r \<in> set shard_ranges. \<forall>s e. pr_start r = KOffset s \<and> pr_end r = Some e \<longrightarrow> e - s \<le> i64_max"
    by (auto simp: shard_ranges_def shard_config_def int_bounds)
  note read = inputs_read_once [OF inputs shard_config_ranges this]
  have "length (filter (\<lambda>ki. wanted ki m) inputs) =
      length (filter (\<lambda>r. covers r (nm_partition m) (nm_offset m)) shard_ranges)" if "nm_err m = RespNoError" for m
    using read that by blast
  note at = this
  have "length (filter (\<lambda>r. covers r 0 12) shard_ranges) = 1" "length (filter (\<lambda>r. covers r 1 21) shard_ranges) = 0"
    by (simp_all add: shard_ranges_def covers_def)
  then have "length (filter (\<lambda>ki. wanted ki (plain_message 0 12 [])) inputs) = 1"
    "length (filter (\<lambda>ki. wanted ki (plain_message 1 21 [])) inputs) = 0"
    using at [of "plain_message 0 12 []"] at [of "plain_message 1 21 []"] by (simp_all add: plain_message_def)
  moreover have "length inputs \<le> 5" using read by (simp add: shard_config_def)
  ultimately show ?thesis using inputs by blast
qed

end
