(* ===== verification/Poller_Facts.thy ===== *)
theory Poller_Facts
  imports Poller Kafka_Input_Facts
begin

text \<open>
  Facts on the poller: the batches it sends hold the records of its consumer in the order of the queue,
  none left out and none twice, numbered densely per partition; and its bounds.
\<close>

section \<open>What a poller has admitted\<close>

definition package :: "nat \<Rightarrow> destination \<Rightarrow> work_item list \<Rightarrow> dispatch" where
  "package consumer dest ws = (case dest of
      Evaluate \<Rightarrow> SentWork \<lparr>rb_consumer = consumer, rb_items = ws\<rparr>
    | WriteDirect drops \<Rightarrow> SentCompletions \<lparr>cb_consumer = consumer, cb_items = map (direct_completion consumer drops) ws\<rparr>)"

definition buffered :: "'k poller \<Rightarrow> work_item list" where
  "buffered p = (case pl_buffer p of None \<Rightarrow> [] | Some b \<Rightarrow> bf_pending b)"

text \<open>The admitted items: in batches of 1 to 64 on their way, and in the buffer.\<close>

definition packed :: "nat \<Rightarrow> destination \<Rightarrow> work_item list \<Rightarrow> 'k poller \<Rightarrow> bool" where
  "packed consumer dest its p \<longleftrightarrow>
     (\<exists>groups. pl_sent p = map (package consumer dest) groups \<and> its = concat groups @ buffered p \<and>
        (\<forall>g \<in> set groups. g \<noteq> [] \<and> length g \<le> batch_records)) \<and>
     (case pl_buffer p of None \<Rightarrow> True
      | Some b \<Rightarrow> bf_consumer b = consumer \<and> bf_destination b = dest \<and> length (bf_pending b) < batch_records)"

definition items_of :: "int \<Rightarrow> work_item list \<Rightarrow> work_item list" where
  "items_of q its = filter (\<lambda>w. r_partition (w_record w) = q) its"

definition numbered :: "work_item list \<Rightarrow> admission \<Rightarrow> bool" where
  "numbered its a \<longleftrightarrow> admission_ok a \<and> (\<forall>q. map w_sequence (items_of q its) = [0..<next_sequence_of a q])"

text \<open>The messages of a partition's range.\<close>

definition due :: "partition_state \<Rightarrow> native_message \<Rightarrow> bool" where
  "due st m \<longleftrightarrow> nm_err m = RespNoError \<and> covers (ps_range st) (nm_partition m) (nm_offset m)"

definition held :: "int \<Rightarrow> 'k poller \<Rightarrow> owned_record list" where
  "held q p = (case pl_pending p of None \<Rightarrow> [] | Some r \<Rightarrow> if r_partition r = q then [r] else [])"

text \<open>
  Of the messages \<open>start\<close> of the queue, the due ones of each partition have become its admitted records and the
  one held back, in order; while the partition is open the remaining due ones are still in the queue.
\<close>

definition follows_queue ::
    "('k \<Rightarrow> native_message list) \<Rightarrow> native_message list \<Rightarrow> work_item list \<Rightarrow> 'k poller \<Rightarrow> bool" where
  "follows_queue incoming start its p \<longleftrightarrow>
     (\<forall>q st. bt_get (ki_partitions (pl_input p)) q = Some st \<longrightarrow>
        (\<exists>xs rest. filter (due st) start = xs @ rest \<and>
           list_all2 (carries (ki_requirements (pl_input p))) xs (map w_record (items_of q its) @ held q p) \<and>
           (\<not> ps_done st \<and> \<not> pl_stopping p \<longrightarrow> rest = filter (due st) (backlog incoming (ki_consumer (pl_input p))))))"

text \<open>\<open>--count-per-partition\<close>: a partition still open has room for a record.\<close>

definition counted :: "nat option \<Rightarrow> 'k poller \<Rightarrow> bool" where
  "counted limit p \<longleftrightarrow> (case limit of None \<Rightarrow> True | Some l \<Rightarrow>
     (\<forall>q. next_sequence_of (pl_admission p) q \<le> l) \<and>
     (\<forall>q st. bt_get (ki_partitions (pl_input p)) q = Some st \<and> \<not> ps_done st \<longrightarrow>
        next_sequence_of (pl_admission p) q < l))"

text \<open>A held record belongs to an open partition, admitted ones to assigned partitions.\<close>

definition placed :: "work_item list \<Rightarrow> 'k poller \<Rightarrow> bool" where
  "placed its p \<longleftrightarrow> (\<forall>w \<in> set its. bt_get (ki_partitions (pl_input p)) (r_partition (w_record w)) \<noteq> None) \<and>
     (\<forall>r. pl_pending p = Some r \<longrightarrow>
        (\<exists>st. bt_get (ki_partitions (pl_input p)) (r_partition r) = Some st \<and> \<not> ps_done st))"

definition fits_memory :: "native_message \<Rightarrow> bool" where
  "fits_memory m \<longleftrightarrow> (\<forall>bs. nm_payload m = Some bs \<longrightarrow> length bs \<le> usize_max)"

definition poller_ok ::
    "('k \<Rightarrow> native_message list) \<Rightarrow> native_message list \<Rightarrow> 'x runtime_config \<Rightarrow> nat \<Rightarrow> destination
      \<Rightarrow> work_item list \<Rightarrow> 'k poller \<Rightarrow> bool" where
  "poller_ok incoming start cf consumer dest its p \<longleftrightarrow>
     input_ok (pl_input p) \<and> (\<forall>m \<in> set (map the (fetch_dropped (ki_consumer (pl_input p)))). fits_memory m) \<and>
     packed consumer dest its p \<and> numbered its (pl_admission p) \<and> follows_queue incoming start its p \<and>
     counted (cf_count_per_partition cf) p \<and> placed its p"

definition failed :: "'k poller \<Rightarrow> bool" where
  "failed p \<longleftrightarrow> ct_first (pl_control p) \<noteq> None"

lemma fail_fails [simp]: "failed (fail m p)"
  by (simp add: failed_def fail_def runtime_failure_def record_failure_first split: option.split)

lemma items_of_simps [simp]:
  "items_of q [] = []" "items_of q (xs @ ys) = items_of q xs @ items_of q ys"
  by (simp_all add: items_of_def)

section \<open>Buffer\<close>

lemma buffer_flush_packed:
  assumes "packed consumer dest its p" "pl_buffer p = Some b"
    and "buffer_flush refusal b st = (Inr (), sent, b', st')"
  shows "packed consumer dest its (p\<lparr>pl_buffer := Some b', pl_sent := pl_sent p @ sent\<rparr>)" and "bf_pending b' = []"
proof -
  from assms(1,2) obtain groups where g: "pl_sent p = map (package consumer dest) groups"
    "its = concat groups @ bf_pending b" "\<forall>g \<in> set groups. g \<noteq> [] \<and> length g \<le> batch_records"
    "bf_consumer b = consumer" "bf_destination b = dest" "length (bf_pending b) < batch_records"
    by (auto simp: packed_def buffered_def)
  show "bf_pending b' = []" using assms(3)
    by (auto simp: buffer_flush_def Let_def split: if_splits option.splits prod.splits)
  show "packed consumer dest its (p\<lparr>pl_buffer := Some b', pl_sent := pl_sent p @ sent\<rparr>)"
  proof (cases "bf_pending b = []")
    case True
    with assms g show ?thesis by (auto simp: buffer_flush_def packed_def buffered_def)
  next
    case False
    with assms(3) g have "sent = [package consumer dest (bf_pending b)]" "b' = b\<lparr>bf_retained := 0, bf_pending := []\<rparr>"
      by (auto simp: buffer_flush_def Let_def package_def split: option.splits prod.splits destination.splits)
    with g False show ?thesis
      by (auto simp: packed_def buffered_def batch_records_def intro!: exI [of _ "groups @ [bf_pending b]"])
  qed
qed

lemma buffer_push_packed:
  assumes "packed consumer dest its p" "pl_buffer p = Some b"
    and "buffer_push refusal r n b st = (Inr (), sent, b', st')"
  shows "packed consumer dest (its @ [\<lparr>w_sequence = n, w_record = r\<rparr>])
    (p\<lparr>pl_buffer := Some b', pl_sent := pl_sent p @ sent\<rparr>)"
proof -
  let ?w = "\<lparr>w_sequence = n, w_record = r\<rparr>"
  define c where "c = b\<lparr>bf_retained := u64_add (bf_retained b) (r_retained_bytes r), bf_pending := bf_pending b @ [?w]\<rparr>"
  from assms(1,2) obtain groups where g: "pl_sent p = map (package consumer dest) groups"
    "its = concat groups @ bf_pending b" "\<forall>g \<in> set groups. g \<noteq> [] \<and> length g \<le> batch_records"
    "bf_consumer b = consumer" "bf_destination b = dest" "length (bf_pending b) < batch_records"
    by (auto simp: packed_def buffered_def)
  show ?thesis
  proof (cases "length (bf_pending c) \<ge> batch_records \<or> bf_retained c \<ge> batch_bytes")
    case True
    with assms(3) have flush: "buffer_flush refusal c st = (Inr (), sent, b', st')"
      by (simp add: buffer_push_def Let_def flip: c_def)
    then have "sent = [package consumer dest (bf_pending c)]" "b' = c\<lparr>bf_retained := 0, bf_pending := []\<rparr>"
      using g by (auto simp: buffer_flush_def Let_def package_def c_def split: option.splits prod.splits destination.splits)
    with g show ?thesis
      by (auto simp: packed_def buffered_def c_def batch_records_def intro!: exI [of _ "groups @ [bf_pending c]"])
  next
    case False
    with assms(3) have "b' = c" "sent = []" by (auto simp: buffer_push_def Let_def simp flip: c_def)
    with g False show ?thesis by (auto simp: packed_def buffered_def c_def)
  qed
qed

section \<open>Releases\<close>

lemma poller_ok_cong:
  assumes "pl_input p' = pl_input p" "pl_admission p' = pl_admission p" "pl_buffer p' = pl_buffer p"
    "pl_pending p' = pl_pending p" "pl_stopping p' = pl_stopping p" "pl_sent p' = pl_sent p"
  shows "poller_ok incoming start cf consumer dest its p' = poller_ok incoming start cf consumer dest its p"
  using assms
  by (simp add: poller_ok_def packed_def buffered_def follows_queue_def held_def counted_def placed_def
      cong: option.case_cong)

lemma poller_ok_stopping:
  "poller_ok incoming start cf consumer dest its p \<Longrightarrow> pl_stopping p \<longrightarrow> b \<Longrightarrow>
     poller_ok incoming start cf consumer dest its (p\<lparr>pl_stopping := b\<rparr>)"
  by (simp add: poller_ok_def packed_def buffered_def follows_queue_def held_def counted_def placed_def
      cong: option.case_cong) blast

lemma admission_release_keeps:
  "admission_ok a \<Longrightarrow> admission_release a p = (Inr u, a') \<Longrightarrow> admission_ok a' \<and> next_sequence_of a' = next_sequence_of a"
proof
  assume a: "admission_ok a" "admission_release a p = (Inr u, a')"
  then show "admission_ok a'" by (rule admission_release_ok)
  from a(2) show "next_sequence_of a' = next_sequence_of a"
    by (auto simp: next_sequence_of_def fun_eq_iff bt_get_insert elim!: admission_release_cases)
qed

lemma release_each_keeps:
  "admission_ok a \<Longrightarrow> buffers_ok pb \<Longrightarrow> release_each rs (a, pb) = (Inr u, a', pb') \<Longrightarrow>
     admission_ok a' \<and> next_sequence_of a' = next_sequence_of a \<and> buffers_ok pb'"
proof (induction rs arbitrary: a pb)
  case (Cons r rs)
  from Cons.prems(3) obtain a2 where a2: "admission_release a (rel_partition r) = (Inr (), a2)"
    and rest: "release_each rs (a2, case rel_payload r of None \<Rightarrow> pb | Some v \<Rightarrow> recycle v pb) = (Inr u, a', pb')"
    by (auto split: prod.splits sum.splits)
  have "buffers_ok (case rel_payload r of None \<Rightarrow> pb | Some v \<Rightarrow> recycle v pb)"
    using Cons.prems(2) by (simp add: recycle_ok split: option.split)
  from Cons.IH [OF _ this rest] admission_release_keeps [OF Cons.prems(1) a2] show ?case by simp
qed simp

lemma take_back_ok:
  assumes ok: "poller_ok incoming start cf consumer dest its p"
  shows "failed (take_back rs p) \<or> poller_ok incoming start cf consumer dest its (take_back rs p)"
proof -
  obtain res a sh pb where res: "release_batch rs (pl_admission p, pl_shared p, ki_payload_buffers (pl_input p)) = (res, a, sh, pb)"
    by (metis prod.exhaust)
  show ?thesis
  proof (cases res)
    case (Inl m)
    with res show ?thesis by (simp add: take_back_def)
  next
    case (Inr u)
    have parts: "admission_ok (pl_admission p)" "buffers_ok (ki_payload_buffers (pl_input p))"
      using ok by (simp_all add: poller_ok_def numbered_def input_ok_def)
    from res Inr have "admission_ok a \<and> next_sequence_of a = next_sequence_of (pl_admission p) \<and> buffers_ok pb"
      using release_each_keeps [OF parts, of rs]
      by (auto simp: release_batch_def split: option.splits prod.splits sum.splits)
    with res Inr ok show ?thesis
      by (simp add: take_back_def Let_def poller_ok_def input_ok_def packed_def buffered_def numbered_def
          follows_queue_def held_def counted_def placed_def cong: option.case_cong)
  qed
qed

lemma take_back_failed: "failed p \<Longrightarrow> failed (take_back rs p)"
  by (auto simp: take_back_def failed_def fail_def Let_def runtime_failure_def record_failure_first
      split: prod.split sum.split option.split)

text \<open>The other threads never clear the first failure.\<close>

definition steady :: "turn \<Rightarrow> bool" where
  "steady tn \<longleftrightarrow> (\<forall>c. ct_first c \<noteq> None \<longrightarrow> ct_first (tn_control tn c) \<noteq> None)"

lemma begin_turn_ok:
  assumes "steady tn" "failed p \<or> poller_ok incoming start cf consumer dest its p"
  shows "failed (begin_turn tn p) \<or> poller_ok incoming start cf consumer dest its (begin_turn tn p)"
proof -
  define p0 where "p0 = p\<lparr>pl_shared := tn_shared tn (pl_shared p), pl_control := tn_control tn (pl_control p)\<rparr>"
  have "failed p0 \<or> poller_ok incoming start cf consumer dest its p0"
  proof -
    have "poller_ok incoming start cf consumer dest its p0 = poller_ok incoming start cf consumer dest its p"
      by (rule poller_ok_cong) (simp_all add: p0_def)
    then show ?thesis using assms by (auto simp: p0_def failed_def steady_def)
  qed
  then have "failed (fold take_back rs p0) \<or> poller_ok incoming start cf consumer dest its (fold take_back rs p0)" for rs
  proof (induction rs arbitrary: p0)
    case (Cons r rs)
    then show ?case using take_back_ok take_back_failed by (metis fold_simps(2))
  qed simp
  moreover have "failed (q\<lparr>pl_stopping := b\<rparr>) = failed q" for q :: "'a poller" and b by (simp add: failed_def)
  moreover have "poller_ok incoming start cf consumer dest its q \<Longrightarrow>
      poller_ok incoming start cf consumer dest its (q\<lparr>pl_stopping := pl_stopping q \<or> b\<rparr>)" for q b
    by (simp add: poller_ok_stopping)
  ultimately show ?thesis unfolding begin_turn_def p0_def [symmetric] Let_def by metis
qed

section \<open>Polling\<close>

text \<open>The assumptions on the client: its queue keeps the order, pausing is local, payloads fit in memory.\<close>

definition client_law :: "'k kafka_ops \<Rightarrow> ('k \<Rightarrow> native_message list) \<Rightarrow> bool" where
  "client_law ko incoming \<longleftrightarrow> queue_law ko incoming \<and> pause_law ko incoming \<and>
     (\<forall>k. \<forall>m \<in> set (incoming k). fits_memory m)"

lemma due_open:
  assumes "pr_partition (ps_range st) = q" "open_at ki q"
  shows "filter (due st) (filter (\<lambda>m. open_at ki (nm_partition m)) ms) = filter (due st) ms"
  using assms by (induction ms) (auto simp: due_def covers_def)

lemma later_done: "later ki ki' \<Longrightarrow> bt_get (ki_partitions ki') q = Some st' \<Longrightarrow>
  \<exists>st. bt_get (ki_partitions ki) q = Some st \<and> due st = due st' \<and> (ps_done st \<longrightarrow> ps_done st')"
  unfolding later_def by (cases "bt_get (ki_partitions ki) q") (force simp: due_def fun_eq_iff dest: spec [of _ q])+

lemma later_assigned:
  assumes "later ki ki'"
  shows "bt_get (ki_partitions ki') q = None \<longleftrightarrow> bt_get (ki_partitions ki) q = None"
proof -
  have "case bt_get (ki_partitions ki) q of None \<Rightarrow> bt_get (ki_partitions ki') q = None
     | Some st \<Rightarrow> \<exists>d. bt_get (ki_partitions ki') q = Some (st\<lparr>ps_done := d\<rparr>) \<and> (ps_done st \<longrightarrow> d)"
    using assms unfolding later_def by (rule spec)
  then show ?thesis by (cases "bt_get (ki_partitions ki) q") auto
qed

text \<open>One poll with nothing held back: the record it yields is the next due one of its partition.\<close>

lemma poll_follows:
  assumes law: "client_law ko incoming" and ok: "poller_ok incoming start cf consumer dest its p"
    and none: "pl_pending p = None" and run: "\<not> pl_stopping p"
    and poll: "poll_with_timeout ko timeout (pl_input p) = (r, ki)"
  shows "(case r of
      Inr (PollRecord rc) \<Rightarrow> poller_ok incoming start cf consumer dest its (p\<lparr>pl_input := ki, pl_pending := Some rc\<rparr>)
    | Inr PollIdle \<Rightarrow> poller_ok incoming start cf consumer dest its (p\<lparr>pl_input := ki\<rparr>)
    | Inr PollDone \<Rightarrow> poller_ok incoming start cf consumer dest its (p\<lparr>pl_input := ki, pl_stopping := True\<rparr>)
    | Inl _ \<Rightarrow> True)"
proof -
  have iok: "input_ok (pl_input p)" using ok by (simp add: poller_ok_def)
  have size: "\<forall>m \<in> set (backlog incoming (ki_consumer (pl_input p))). \<forall>bs. nm_payload m = Some bs \<longrightarrow> length bs \<le> usize_max"
    using ok law by (auto simp: poller_ok_def client_law_def backlog_def fits_memory_def)
  have laws: "queue_law ko incoming" "pause_law ko incoming" using law by (simp_all add: client_law_def)
  note step = poll_step [OF iok laws size poll]
  have later: "later (pl_input p) ki" and iok': "input_ok ki" and req: "ki_requirements ki = ki_requirements (pl_input p)"
    using step by blast+
  have size': "\<forall>m \<in> set (map the (fetch_dropped (ki_consumer ki))). fits_memory m"
    using step size unfolding fits_memory_def by blast
  obtain rest where unread: "unread incoming ki (ki_consumer ki) = filter (\<lambda>m. open_at ki (nm_partition m)) rest"
    and taken: "(\<exists>m. backlog incoming (ki_consumer (pl_input p)) = m # rest \<and> decided (pl_input p) m r) \<or>
      backlog incoming (ki_consumer (pl_input p)) = rest \<and> (\<forall>rc. r \<noteq> Inr (PollRecord rc))"
    using step unfolding polled_well_def by blast
  have left: "filter (due st) rest = filter (due st) (backlog incoming (ki_consumer ki))"
    if "bt_get (ki_partitions ki) q = Some st" "\<not> ps_done st" for q st
  proof -
    have range: "pr_partition (ps_range st) = q" using iok' that(1) by (simp add: input_ok_def)
    have "open_at ki q" using that by (simp add: open_at_def)
    from due_open [OF range this, of rest] due_open [OF range this, of "backlog incoming (ki_consumer ki)"] unread
    show ?thesis unfolding unread_def by metis
  qed
  have counted: "counted (cf_count_per_partition cf) (p\<lparr>pl_input := ki\<rparr>)"
  proof (cases "cf_count_per_partition cf")
    case (Some l)
    with ok have "next_sequence_of (pl_admission p) q \<le> l" and room: "bt_get (ki_partitions (pl_input p)) q = Some st \<Longrightarrow>
        \<not> ps_done st \<Longrightarrow> next_sequence_of (pl_admission p) q < l" for q st
      by (auto simp: poller_ok_def counted_def)
    moreover have "next_sequence_of (pl_admission p) q < l"
      if "bt_get (ki_partitions ki) q = Some st'" "\<not> ps_done st'" for q st'
      using later_done [OF later that(1)] room that(2) by blast
    ultimately show ?thesis by (simp add: counted_def Some)
  qed (simp add: counted_def)
  have assigned: "bt_get (ki_partitions ki) q \<noteq> None" if "bt_get (ki_partitions (pl_input p)) q \<noteq> None" for q
    using that later_assigned [OF later, of q] by simp
  have placed: "placed its (p\<lparr>pl_input := ki\<rparr>)"
    using ok assigned none by (auto simp: poller_ok_def placed_def)
  have packed: "packed consumer dest its (p\<lparr>pl_input := ki, pl_pending := x, pl_stopping := y\<rparr>)" for x y
    using ok by (simp add: poller_ok_def packed_def buffered_def cong: option.case_cong)
  have follows: "follows_queue incoming start its p" and held: "held q p = []" for q
    using ok none by (simp_all add: poller_ok_def held_def)
  have due_wanted: "due st m \<Longrightarrow> bt_get (ki_partitions (pl_input p)) q = Some st \<Longrightarrow> \<not> ps_done st \<Longrightarrow>
      wanted (pl_input p) m \<and> nm_partition m = q" for st m q
    using iok by (auto simp: due_def wanted_def input_ok_def covers_def)
  text \<open>Without a record the due messages are left where they are.\<close>
  have idle: "follows_queue incoming start its (p\<lparr>pl_input := ki, pl_stopping := b\<rparr>)"
    if unwanted: "\<forall>m. backlog incoming (ki_consumer (pl_input p)) = m # rest \<longrightarrow> \<not> wanted (pl_input p) m"
      and taken: "(\<exists>m. backlog incoming (ki_consumer (pl_input p)) = m # rest) \<or>
        backlog incoming (ki_consumer (pl_input p)) = rest" for b
    unfolding follows_queue_def
  proof (intro allI impI)
    fix q st'
    assume get': "bt_get (ki_partitions (pl_input (p\<lparr>pl_input := ki, pl_stopping := b\<rparr>))) q = Some st'"
    then obtain st where st: "bt_get (ki_partitions (pl_input p)) q = Some st" "due st = due st'" "ps_done st \<longrightarrow> ps_done st'"
      using later_done [OF later] by fastforce
    from follows st(1) obtain xs rest0 where xs: "filter (due st') start = xs @ rest0"
      "list_all2 (carries (ki_requirements ki)) xs (map w_record (items_of q its) @ held q p)"
      "\<not> ps_done st \<longrightarrow> rest0 = filter (due st') (backlog incoming (ki_consumer (pl_input p)))"
      using run unfolding follows_queue_def req st(2) [symmetric] by blast
    have "rest0 = filter (due st') (backlog incoming (ki_consumer ki))" if "\<not> ps_done st'"
    proof -
      have undone: "\<not> ps_done st" using st(3) that by blast
      have "filter (due st') (backlog incoming (ki_consumer (pl_input p))) = filter (due st') rest"
        using taken unwanted due_wanted [OF _ st(1) undone] st(2) by auto
      with xs(3) undone left [of q st'] get' that show ?thesis by simp
    qed
    with xs(1,2) show "\<exists>xs rest. filter (due st') start = xs @ rest \<and>
        list_all2 (carries (ki_requirements (pl_input (p\<lparr>pl_input := ki, pl_stopping := b\<rparr>)))) xs
          (map w_record (items_of q its) @ held q (p\<lparr>pl_input := ki, pl_stopping := b\<rparr>)) \<and>
        (\<not> ps_done st' \<and> \<not> pl_stopping (p\<lparr>pl_input := ki, pl_stopping := b\<rparr>) \<longrightarrow>
          rest = filter (due st') (backlog incoming (ki_consumer (pl_input (p\<lparr>pl_input := ki, pl_stopping := b\<rparr>)))))"
      using none by (auto simp: held_def)
  qed
  have quiet: "poller_ok incoming start cf consumer dest its (p\<lparr>pl_input := ki, pl_stopping := b\<rparr>)"
    if "follows_queue incoming start its (p\<lparr>pl_input := ki, pl_stopping := b\<rparr>)" for b
  proof -
    have "counted (cf_count_per_partition cf) (p\<lparr>pl_input := ki, pl_stopping := b\<rparr>)" "placed its (p\<lparr>pl_input := ki, pl_stopping := b\<rparr>)"
      using counted placed by (simp_all add: counted_def placed_def cong: option.case_cong)
    moreover have "packed consumer dest its (p\<lparr>pl_input := ki, pl_stopping := b\<rparr>)" using packed [where x = "pl_pending p" and y = b] by simp
    moreover have "numbered its (pl_admission p)" using ok by (simp add: poller_ok_def)
    ultimately show ?thesis using that iok' size' by (simp add: poller_ok_def)
  qed
  show ?thesis
  proof (cases r)
    case (Inl e)
    then show ?thesis by simp
  next
    case (Inr ev)
    show ?thesis
    proof (cases ev)
      case PollIdle
      with Inr taken have "follows_queue incoming start its (p\<lparr>pl_input := ki, pl_stopping := False\<rparr>)"
        by (intro idle) (auto simp: decided_def)
      from quiet [OF this] have "poller_ok incoming start cf consumer dest its (p\<lparr>pl_input := ki, pl_stopping := False\<rparr>)" .
      moreover have "p\<lparr>pl_input := ki, pl_stopping := False\<rparr> = p\<lparr>pl_input := ki\<rparr>" using run by (cases p) simp
      ultimately show ?thesis using Inr PollIdle by simp
    next
      case PollDone
      with Inr taken have "follows_queue incoming start its (p\<lparr>pl_input := ki, pl_stopping := True\<rparr>)"
        by (intro idle) (auto simp: decided_def)
      from quiet [OF this] show ?thesis using Inr PollDone by simp
    next
      case (PollRecord rc)
      with Inr taken obtain m where m: "backlog incoming (ki_consumer (pl_input p)) = m # rest"
        "wanted (pl_input p) m" "carries (ki_requirements ki) m rc"
        by (auto simp: decided_def req)
      have same: "ki_partitions ki = ki_partitions (pl_input p)"
        using poll_record_partitions poll Inr PollRecord by blast
      have part: "r_partition rc = nm_partition m" using m(3) by (simp add: carries_def)
      define p' where "p' = p\<lparr>pl_input := ki, pl_pending := Some rc\<rparr>"
      have "follows_queue incoming start its p'"
        unfolding follows_queue_def
      proof (intro allI impI)
        fix q st
        assume "bt_get (ki_partitions (pl_input p')) q = Some st"
        then have st: "bt_get (ki_partitions (pl_input p)) q = Some st" "bt_get (ki_partitions ki) q = Some st"
          by (simp_all add: p'_def same)
        from follows st(1) obtain xs rest0 where xs: "filter (due st) start = xs @ rest0"
          "list_all2 (carries (ki_requirements ki)) xs (map w_record (items_of q its) @ held q p)"
          "\<not> ps_done st \<longrightarrow> rest0 = filter (due st) (backlog incoming (ki_consumer (pl_input p)))"
          using run unfolding follows_queue_def req by blast
        have held': "held q p = []" "held q p' = (if nm_partition m = q then [rc] else [])"
          using none by (simp_all add: held_def p'_def part)
        show "\<exists>xs rest. filter (due st) start = xs @ rest \<and>
            list_all2 (carries (ki_requirements (pl_input p'))) xs (map w_record (items_of q its) @ held q p') \<and>
            (\<not> ps_done st \<and> \<not> pl_stopping p' \<longrightarrow> rest = filter (due st) (backlog incoming (ki_consumer (pl_input p'))))"
        proof (cases "nm_partition m = q")
          case True
          with m(2) st(1) have undone: "\<not> ps_done st" "due st m" by (auto simp: wanted_def due_def)
          with xs m(1) have "filter (due st) start = (xs @ [m]) @ filter (due st) rest" by simp
          moreover have "list_all2 (carries (ki_requirements ki)) (xs @ [m]) (map w_record (items_of q its) @ held q p')"
            using xs(2) m(3) True held' by (simp add: list_all2_appendI)
          ultimately show ?thesis using left [OF st(2) undone(1)]
            by - (rule exI [of _ "xs @ [m]"], rule exI [of _ "filter (due st) rest"], simp add: p'_def)
        next
          case False
          then have "\<not> due st m" if "\<not> ps_done st" using due_wanted [OF _ st(1) that] by blast
          then have "rest0 = filter (due st) (backlog incoming (ki_consumer ki))" if "\<not> ps_done st"
            using xs(3) m(1) left [OF st(2) that] that by simp
          with xs held' False show ?thesis by (auto simp: p'_def)
        qed
      qed
      moreover have "placed its p'"
        using ok m(2) by (auto simp: poller_ok_def placed_def p'_def same part wanted_def split: option.splits)
      moreover have "counted (cf_count_per_partition cf) p'"
        using counted by (simp add: counted_def p'_def cong: option.case_cong)
      moreover have "packed consumer dest its p'" using packed [where x = "Some rc" and y = "pl_stopping p"] by (simp add: p'_def)
      moreover have "numbered its (pl_admission p')" using ok by (simp add: poller_ok_def p'_def)
      ultimately show ?thesis using iok' size' Inr PollRecord by (simp add: poller_ok_def p'_def)
    qed
  qed
qed

section \<open>Admitting\<close>

abbreviation unlimited :: "'x runtime_config \<Rightarrow> 'x runtime_config" where
  "unlimited cf \<equiv> cf\<lparr>cf_count_per_partition := None\<rparr>"

lemma poller_ok_unlimited:
  "poller_ok incoming start cf consumer dest its p \<longleftrightarrow>
     poller_ok incoming start (unlimited cf) consumer dest its p \<and> counted (cf_count_per_partition cf) p"
  by (auto simp: poller_ok_def counted_def)

lemma flush_or_stop_ok:
  assumes ok: "poller_ok incoming start cf consumer dest its p" and b: "pl_buffer p = Some b"
    and flush: "flush_or_stop tn nf b p = (fl, p')"
  shows "failed p' \<or> poller_ok incoming start cf consumer dest its p' \<and> pl_stopping p' = pl_stopping p \<and>
    pl_input p' = pl_input p \<and> pl_pending p' = pl_pending p \<and> buffered p' = []"
proof -
  obtain res sent b' st where run: "buffer_flush (tn_refusal tn) b (pl_stats p) = (res, sent, b', st)"
    by (metis prod.exhaust)
  show ?thesis
  proof (cases res)
    case (Inl err)
    with flush run show ?thesis by (auto simp: flush_or_stop_def Let_def)
  next
    case (Inr u)
    define p1 where "p1 = p\<lparr>pl_buffer := Some b', pl_sent := pl_sent p @ sent\<rparr>"
    have p': "p' = p1\<lparr>pl_stats := st\<rparr>" using flush run Inr by (auto simp: flush_or_stop_def Let_def p1_def)
    have run': "buffer_flush (tn_refusal tn) b (pl_stats p) = (Inr (), sent, b', st)" using run Inr by simp
    have "packed consumer dest its p" using ok by (simp add: poller_ok_def)
    from buffer_flush_packed [OF this b run'] have "packed consumer dest its p1" "bf_pending b' = []"
      by (simp_all add: p1_def)
    moreover from this(1) have "packed consumer dest its p'"
      by (simp add: packed_def buffered_def p' cong: option.case_cong)
    ultimately show ?thesis using ok
      by (simp add: poller_ok_def follows_queue_def held_def counted_def placed_def p' p1_def buffered_def
          cong: option.case_cong)
  qed
qed

lemma reserve_numbered:
  assumes "numbered its a" "reserve a (r_partition r) = (Inr n, a')"
  shows "numbered (its @ [\<lparr>w_sequence = n, w_record = r\<rparr>]) a' \<and>
    next_sequence_of a' = (next_sequence_of a)(r_partition r := Suc n) \<and> n = next_sequence_of a (r_partition r)"
proof -
  from assms(2) obtain s where s: "bt_get (adm_partitions a) (r_partition r) = Some s" "n = pa_next_sequence s"
    "a' = a\<lparr>adm_partitions := bt_insert (r_partition r) \<lparr>pa_next_sequence = Suc n, pa_in_flight = Suc (pa_in_flight s)\<rparr>
        (adm_partitions a), total_records := Suc (total_records a)\<rparr>"
    by (rule reserve_cases)
  have ok: "admission_ok a'" using assms reserve_ok by (auto simp: numbered_def)
  have seq: "next_sequence_of a' = (next_sequence_of a)(r_partition r := Suc n)"
    and n: "n = next_sequence_of a (r_partition r)"
    by (auto simp: next_sequence_of_def fun_eq_iff s bt_get_insert)
  have "map w_sequence (items_of q its) = [0..<next_sequence_of a q]" for q
    using assms(1) by (simp add: numbered_def)
  then show ?thesis using ok seq n by (auto simp: numbered_def items_of_def)
qed

text \<open>Nothing taken from the queue, perhaps a partition finished.\<close>

lemma follows_later:
  assumes follows: "follows_queue incoming start its p" and later: "later (pl_input p) ki" and ok: "input_ok ki"
    and req: "ki_requirements ki = ki_requirements (pl_input p)"
    and unread: "unread incoming ki (ki_consumer ki) = unread incoming ki (ki_consumer (pl_input p))"
  shows "follows_queue incoming start its (p\<lparr>pl_input := ki\<rparr>)"
  unfolding follows_queue_def
proof (intro allI impI)
  fix q st'
  assume "bt_get (ki_partitions (pl_input (p\<lparr>pl_input := ki\<rparr>))) q = Some st'"
  then have get': "bt_get (ki_partitions ki) q = Some st'" by simp
  from later_done [OF later this] obtain st where
    st: "bt_get (ki_partitions (pl_input p)) q = Some st" "due st = due st'" "ps_done st \<longrightarrow> ps_done st'" by blast
  from follows st(1) obtain xs rest where xs: "filter (due st') start = xs @ rest"
    "list_all2 (carries (ki_requirements ki)) xs (map w_record (items_of q its) @ held q p)"
    "\<not> ps_done st \<and> \<not> pl_stopping p \<longrightarrow> rest = filter (due st') (backlog incoming (ki_consumer (pl_input p)))"
    unfolding follows_queue_def req st(2) [symmetric] by blast
  have "filter (due st') (backlog incoming (ki_consumer (pl_input p))) = filter (due st') (backlog incoming (ki_consumer ki))"
    if "\<not> ps_done st'"
  proof -
    have range: "pr_partition (ps_range st') = q" "open_at ki q"
      using ok get' that by (simp_all add: input_ok_def open_at_def)
    from due_open [OF range, of "backlog incoming (ki_consumer (pl_input p))"]
      due_open [OF range, of "backlog incoming (ki_consumer ki)"] unread show ?thesis unfolding unread_def by metis
  qed
  with xs st(3) show "\<exists>xs rest. filter (due st') start = xs @ rest \<and>
      list_all2 (carries (ki_requirements (pl_input (p\<lparr>pl_input := ki\<rparr>)))) xs
        (map w_record (items_of q its) @ held q (p\<lparr>pl_input := ki\<rparr>)) \<and>
      (\<not> ps_done st' \<and> \<not> pl_stopping (p\<lparr>pl_input := ki\<rparr>) \<longrightarrow>
        rest = filter (due st') (backlog incoming (ki_consumer (pl_input (p\<lparr>pl_input := ki\<rparr>)))))"
    by (auto simp: held_def cong: option.case_cong)
qed

lemma finish_ok:
  assumes law: "client_law ko incoming" and ok: "poller_ok incoming start (unlimited cf) consumer dest its p"
    and none: "pl_pending p = None" and get: "bt_get (ki_partitions (pl_input p)) q = Some st"
    and fin: "finish ko q (pl_input p) = (r, ki)"
  shows "poller_ok incoming start (unlimited cf) consumer dest its (p\<lparr>pl_input := ki\<rparr>) \<and>
    (\<forall>q' st'. bt_get (ki_partitions ki) q' = Some st' \<and> \<not> ps_done st' \<longrightarrow>
       q' \<noteq> q \<and> bt_get (ki_partitions (pl_input p)) q' = Some st')"
proof -
  have iok: "input_ok (pl_input p)" using ok by (simp add: poller_ok_def)
  have "pause_law ko incoming" using law by (simp add: client_law_def)
  from finish_keeps [OF iok this get fin] have keeps: "keeps incoming (pl_input p) ki" by blast
  then have later: "later (pl_input p) ki" by (simp add: keeps_def)
  have "follows_queue incoming start its (p\<lparr>pl_input := ki\<rparr>)"
    using ok keeps by (intro follows_later) (auto simp: poller_ok_def keeps_def)
  moreover have "placed its (p\<lparr>pl_input := ki\<rparr>)"
    using ok none later_assigned [OF later] by (auto simp: poller_ok_def placed_def)
  moreover have "packed consumer dest its (p\<lparr>pl_input := ki\<rparr>)"
    using ok by (simp add: poller_ok_def packed_def buffered_def cong: option.case_cong)
  moreover have "q' \<noteq> q \<and> bt_get (ki_partitions (pl_input p)) q' = Some st'"
    if "bt_get (ki_partitions ki) q' = Some st'" "\<not> ps_done st'" for q' st'
  proof (cases "ps_done st")
    case True
    with fin get that show ?thesis by (auto simp: finish_def)
  next
    case False
    with fin get have "ki_partitions ki = bt_insert q (st\<lparr>ps_done := True\<rparr>) (ki_partitions (pl_input p))"
      by (auto simp: finish_def pause_def split: if_splits prod.splits)
    with that show ?thesis by (auto simp: bt_get_insert split: if_splits)
  qed
  ultimately show ?thesis
    using ok keeps by (auto simp: poller_ok_def keeps_def counted_def)
qed

definition grows :: "('k poller \<Rightarrow> work_item list \<Rightarrow> bool) \<Rightarrow> work_item list \<Rightarrow> 'k poller \<Rightarrow> bool" where
  "grows P its p \<longleftrightarrow> failed p \<or> (\<exists>new. P p (its @ new))"

lemma growsI: "failed p \<or> P p its \<Longrightarrow> grows P its p"
  unfolding grows_def by (metis append_Nil2)

lemma offer_ok:
  fixes p :: "'k poller"
  assumes law: "client_law ko incoming"
    and ok: "poller_ok incoming start cf consumer dest its (p\<lparr>pl_pending := Some r\<rparr>)"
    and none: "pl_pending p = None" and b: "pl_buffer p = Some b"
    and offer: "offer ko cf tn r b p = (fl, p')"
  shows "grows (\<lambda>p its. poller_ok incoming start cf consumer dest its p) its p'"
proof -
  let ?q = "r_partition r"
  have waits: "grows (\<lambda>p its. poller_ok incoming start cf consumer dest its p) its p'"
    if "flush_or_stop tn Waits b (p\<lparr>pl_shared := sh, pl_pending := Some r\<rparr>) = (fl, p')" for sh
  proof -
    have "poller_ok incoming start cf consumer dest its (p\<lparr>pl_shared := sh, pl_pending := Some r\<rparr>)"
      using ok poller_ok_cong [of "p\<lparr>pl_shared := sh, pl_pending := Some r\<rparr>" "p\<lparr>pl_pending := Some r\<rparr>" incoming start cf
        consumer dest its] by simp
    from flush_or_stop_ok [OF this _ that] b show ?thesis by (auto intro!: growsI)
  qed
  have shared_same: "p\<lparr>pl_shared := pl_shared p, pl_pending := Some r\<rparr> = p\<lparr>pl_pending := Some r\<rparr>" by (cases p) simp
  show ?thesis
  proof (cases "can_reserve (pl_admission p) ?q \<and> fst (try_reserve (r_retained_bytes r) (pl_shared p))")
    case False
    then show ?thesis
      using offer waits [of "pl_shared p"] waits [of "snd (try_reserve (r_retained_bytes r) (pl_shared p))"] shared_same
      by (cases "try_reserve (r_retained_bytes r) (pl_shared p)") (auto simp: offer_def split: if_splits)
  next
    case True
    then obtain sh where "try_reserve (r_retained_bytes r) (pl_shared p) = (True, sh)" by (metis prod.collapse)
    with True offer have after: "after_admit ko cf ?q (admit tn r b (p\<lparr>pl_shared := sh\<rparr>)) = (fl, p')"
      by (simp add: offer_def)
    obtain res p1 where admit: "admit tn r b (p\<lparr>pl_shared := sh\<rparr>) = (res, p1)" by fastforce
    show ?thesis
    proof (cases res)
      case (Inl m)
      with after admit show ?thesis by (auto simp: after_admit_def grows_def)
    next
      case (Inr n)
      let ?w = "\<lparr>w_sequence = n, w_record = r\<rparr>"
      from admit Inr obtain a where a: "reserve (pl_admission p) ?q = (Inr n, a)"
        by (auto simp: admit_def bind_r_Inr_iff split: prod.splits sum.splits)
      obtain res2 sent b' st where push: "buffer_push (tn_refusal tn) r n b (stats_admit r (pl_stats p)) = (res2, sent, b', st)"
        by (metis prod.exhaust)
      have res2: "res2 = Inr ()" and p1: "p1 = p\<lparr>pl_shared := sh, pl_admission := a, pl_buffer := Some b', pl_stats := st,
          pl_sent := pl_sent p @ sent\<rparr>"
        using admit Inr a push by (auto simp: admit_def bind_r_Inr_iff)
      have "packed consumer dest its p" using ok by (simp add: poller_ok_def packed_def buffered_def cong: option.case_cong)
      then have packed: "packed consumer dest (its @ [?w]) p1"
        using buffer_push_packed [OF _ b push [unfolded res2]]
        by (simp add: p1 packed_def buffered_def cong: option.case_cong)
      have num: "numbered its (pl_admission p)" using ok by (simp add: poller_ok_def)
      note numbered = reserve_numbered [OF num a]
      from ok obtain stq where stq: "bt_get (ki_partitions (pl_input p)) ?q = Some stq" "\<not> ps_done stq"
        by (auto simp: poller_ok_def placed_def)
      have held: "map w_record (items_of q its) @ held q (p\<lparr>pl_pending := Some r\<rparr>) =
          map w_record (items_of q (its @ [?w])) @ held q p1" for q
        using none by (simp add: held_def items_of_def p1)
      have core: "poller_ok incoming start (unlimited cf) consumer dest (its @ [?w]) p1"
      proof -
        have "follows_queue incoming start its (p\<lparr>pl_pending := Some r\<rparr>)" using ok by (simp add: poller_ok_def)
        then have "follows_queue incoming start (its @ [?w]) p1"
          unfolding follows_queue_def held by (simp add: p1)
        moreover have "placed (its @ [?w]) p1" using ok stq none by (auto simp: poller_ok_def placed_def p1)
        moreover have "numbered (its @ [?w]) (pl_admission p1)"
        proof -
          have "pl_admission p1 = a" by (simp add: p1)
          then show ?thesis using numbered by blast
        qed
        moreover have "input_ok (pl_input p1)" "\<forall>m \<in> set (map the (fetch_dropped (ki_consumer (pl_input p1)))). fits_memory m"
          using ok by (simp_all add: poller_ok_def p1)
        moreover have "counted (cf_count_per_partition (unlimited cf)) p1" by (simp add: counted_def)
        ultimately show ?thesis using packed unfolding poller_ok_def by blast
      qed
      have none1: "pl_pending p1 = None" and input1: "pl_input p1 = pl_input p" "pl_admission p1 = a"
        using none by (simp_all add: p1)
      have before: "counted (cf_count_per_partition cf) p"
        using ok by (simp add: poller_ok_def counted_def cong: option.case_cong)
      show ?thesis
      proof (cases "case cf_count_per_partition cf of None \<Rightarrow> False | Some limit \<Rightarrow> n + 1 \<ge> limit")
        case False
        with after admit Inr have "p' = p1" by (simp add: after_admit_def)
        moreover have "counted (cf_count_per_partition cf) p1"
          using before numbered False stq by (auto simp: counted_def input1 Suc_le_eq split: option.splits)
        ultimately show ?thesis using core poller_ok_unlimited unfolding grows_def by blast
      next
        case True
        obtain fr ki where fin: "finish ko ?q (pl_input p) = (fr, ki)" by fastforce
        have p': "failed p' \<or> p' = p1\<lparr>pl_input := ki\<rparr>"
          using after admit Inr True fin by (cases fr) (auto simp: after_admit_def input1)
        have get1: "bt_get (ki_partitions (pl_input p1)) ?q = Some stq" using stq by (simp add: input1)
        note finished = finish_ok [OF law core none1 get1, unfolded input1(1), OF fin]
        have "counted (cf_count_per_partition cf) (p1\<lparr>pl_input := ki\<rparr>)"
        proof (cases "cf_count_per_partition cf")
          case (Some l)
          have "next_sequence_of (pl_admission p) ?q < l" using before stq Some by (auto simp: counted_def)
          then have "next_sequence_of a q \<le> l" for q
            using before Some numbered by (auto simp: counted_def)
          moreover have "next_sequence_of a q' < l"
            if "bt_get (ki_partitions ki) q' = Some st'" "\<not> ps_done st'" for q' st'
          proof -
            have "q' \<noteq> ?q" "bt_get (ki_partitions (pl_input p)) q' = Some st'" using finished that by blast+
            then show ?thesis using before Some numbered that(2) by (auto simp: counted_def)
          qed
          ultimately show ?thesis by (simp add: counted_def Some input1)
        qed (simp add: counted_def)
        then show ?thesis using p' finished poller_ok_unlimited unfolding grows_def by blast
      qed
    qed
  qed
qed

section \<open>One iteration\<close>

lemma running_ok:
  assumes law: "client_law ko incoming" and ok: "poller_ok incoming start cf consumer dest its p"
    and run: "\<not> pl_stopping p" and running: "running ko cf tn p = (fl, p')"
  shows "grows (\<lambda>p its. poller_ok incoming start cf consumer dest its p) its p'"
proof (cases "pl_buffer p")
  case None
  with running ok show ?thesis by (auto simp: running_def intro!: growsI)
next
  case (Some b)
  show ?thesis
  proof (cases "pl_pending p")
    case (Some r)
    have "(p\<lparr>pl_pending := None\<rparr>)\<lparr>pl_pending := Some r\<rparr> = p" using Some by (cases p) simp
    with ok have "poller_ok incoming start cf consumer dest its ((p\<lparr>pl_pending := None\<rparr>)\<lparr>pl_pending := Some r\<rparr>)" by simp
    from offer_ok [OF law this _ _] running Some \<open>pl_buffer p = Some b\<close> show ?thesis by (simp add: running_def)
  next
    case None
    define timeout where "timeout = (if bf_pending b = [] then poll_timeout else 0)"
    have timeout: "(if bf_pending b = [] then input_poll ko (pl_input p)
        else poll_with_timeout ko 0 (pl_input p)) = poll_with_timeout ko timeout (pl_input p)"
      by (simp add: input_poll_def timeout_def)
    obtain r ki where poll: "poll_with_timeout ko timeout (pl_input p) = (r, ki)" by fastforce
    note follows = poll_follows [OF law ok None run poll]
    show ?thesis
    proof (cases r)
      case (Inl e)
      with running Some None timeout poll show ?thesis by (auto simp: running_def grows_def)
    next
      case (Inr ev)
      show ?thesis
      proof (cases ev)
        case (PollRecord rc)
        with follows Inr have held: "poller_ok incoming start cf consumer dest its ((p\<lparr>pl_input := ki\<rparr>)\<lparr>pl_pending := Some rc\<rparr>)"
          by simp
        have "offer ko cf tn rc b (p\<lparr>pl_input := ki\<rparr>) = (fl, p')"
          using running Some None timeout poll Inr PollRecord by (simp add: running_def)
        then show ?thesis by (rule offer_ok [OF law held, rotated 2]) (use Some None in simp_all)
      next
        case PollIdle
        with follows Inr have "poller_ok incoming start cf consumer dest its (p\<lparr>pl_input := ki\<rparr>)" by simp
        moreover have "flush_or_stop tn Again b (p\<lparr>pl_input := ki\<rparr>) = (fl, p')"
          using running Some None timeout poll Inr PollIdle by (simp add: running_def)
        ultimately show ?thesis using flush_or_stop_ok [of incoming start cf consumer dest its "p\<lparr>pl_input := ki\<rparr>" b] Some
          by (auto intro!: growsI)
      next
        case PollDone
        with follows Inr running Some None timeout poll show ?thesis
          by (auto simp: running_def intro!: growsI)
      qed
    qed
  qed
qed

lemma drop_held_ok:
  assumes "poller_ok incoming start cf consumer dest its p" "pl_stopping p"
  shows "poller_ok incoming start cf consumer dest its (p\<lparr>pl_pending := None\<rparr>)"
proof -
  have "follows_queue incoming start its (p\<lparr>pl_pending := None\<rparr>)"
    unfolding follows_queue_def
  proof (intro allI impI)
    fix q st
    assume "bt_get (ki_partitions (pl_input (p\<lparr>pl_pending := None\<rparr>))) q = Some st"
    then have "bt_get (ki_partitions (pl_input p)) q = Some st" by simp
    moreover have "follows_queue incoming start its p" using assms(1) by (simp add: poller_ok_def)
    ultimately obtain xs rest where xs: "filter (due st) start = xs @ rest"
      "list_all2 (carries (ki_requirements (pl_input p))) xs (map w_record (items_of q its) @ held q p)"
      unfolding follows_queue_def by blast
    then obtain ys zs where "xs = ys @ zs" "list_all2 (carries (ki_requirements (pl_input p))) ys (map w_record (items_of q its))"
      by (auto simp: list_all2_append2)
    with xs(1) assms(2) show "\<exists>xs rest. filter (due st) start = xs @ rest \<and>
        list_all2 (carries (ki_requirements (pl_input (p\<lparr>pl_pending := None\<rparr>)))) xs
          (map w_record (items_of q its) @ held q (p\<lparr>pl_pending := None\<rparr>)) \<and>
        (\<not> ps_done st \<and> \<not> pl_stopping (p\<lparr>pl_pending := None\<rparr>) \<longrightarrow>
          rest = filter (due st) (backlog incoming (ki_consumer (pl_input (p\<lparr>pl_pending := None\<rparr>)))))"
      by (auto simp: held_def)
  qed
  with assms(1) show ?thesis
    by (simp add: poller_ok_def packed_def buffered_def counted_def placed_def cong: option.case_cong)
qed

lemma drop_buffer_ok:
  "poller_ok incoming start cf consumer dest its p \<Longrightarrow> buffered p = [] \<Longrightarrow>
     poller_ok incoming start cf consumer dest its (p\<lparr>pl_buffer := None\<rparr>)"
  by (simp add: poller_ok_def packed_def buffered_def follows_queue_def held_def counted_def placed_def
      cong: option.case_cong)

lemma stopping_ok:
  assumes ok: "poller_ok incoming start cf consumer dest its p" and stop: "pl_stopping p"
    and stopping: "stopping tn p = (fl, p')"
  shows "failed p' \<or> poller_ok incoming start cf consumer dest its p'"
proof -
  obtain fl1 p1 where first: "(case pl_buffer p of None \<Rightarrow> (Waits, p)
      | Some b \<Rightarrow> (case flush_or_stop tn Waits b p of (fl, p') \<Rightarrow> (fl, p'\<lparr>pl_buffer := None\<rparr>))) = (fl1, p1)"
    by fastforce
  have p1: "failed p1 \<or> poller_ok incoming start cf consumer dest its p1 \<and> pl_stopping p1"
  proof (cases "pl_buffer p")
    case None
    with first ok stop show ?thesis by simp
  next
    case (Some b)
    obtain fl2 p2 where flush: "flush_or_stop tn Waits b p = (fl2, p2)" by fastforce
    from flush_or_stop_ok [OF ok Some flush] first Some flush drop_buffer_ok stop show ?thesis
      by (auto simp: failed_def)
  qed
  have failed_same: "failed (q\<lparr>pl_pending := None\<rparr>) = failed q" for q :: "'a poller" by (simp add: failed_def)
  have "p' = p1 \<or> p' = p1\<lparr>pl_pending := None\<rparr>"
    using stopping first by (cases fl1) (auto simp: stopping_def Let_def split: if_splits)
  with p1 drop_held_ok failed_same show ?thesis by blast
qed

lemma wait_ok:
  assumes "grows (\<lambda>p its. poller_ok incoming start cf consumer dest its p) its p" "wait tn (fl, p) = (fl', p')"
  shows "grows (\<lambda>p its. poller_ok incoming start cf consumer dest its p) its p'"
proof (cases "p' = p")
  case True
  with assms show ?thesis by simp
next
  case False
  with assms(2) have "failed p' \<or> (\<exists>rs. p' = take_back rs p)"
    by (auto simp: wait_def split: flow.splits received.splits)
  with assms(1) take_back_ok take_back_failed show ?thesis unfolding grows_def by blast
qed

text \<open>A failure stays recorded.\<close>

lemma flush_or_stop_failed: "failed p \<Longrightarrow> failed (snd (flush_or_stop tn nf b p))"
  by (auto simp: flush_or_stop_def Let_def failed_def fail_def runtime_failure_def record_failure_first
      split: prod.split sum.split option.split)

lemma admit_failed: "failed p \<Longrightarrow> failed (snd (admit tn r b p))"
  by (auto simp: admit_def failed_def split: prod.split sum.split)

lemma after_admit_failed: "failed (snd x) \<Longrightarrow> failed (snd (after_admit ko cf q x))"
  by (auto simp: after_admit_def failed_def fail_def runtime_failure_def record_failure_first
      split: prod.split sum.split option.split)

lemma offer_failed: "failed p \<Longrightarrow> failed (snd (offer ko cf tn r b p))"
proof -
  assume "failed p"
  then have other: "failed (p\<lparr>pl_shared := sh, pl_pending := x\<rparr>)" "failed (p\<lparr>pl_pending := x\<rparr>)" "failed (p\<lparr>pl_shared := sh\<rparr>)" for sh x
    by (simp_all add: failed_def)
  show ?thesis
    by (auto simp: offer_def intro!: flush_or_stop_failed after_admit_failed admit_failed other split: prod.split bool.split)
qed

lemma running_failed: "failed p \<Longrightarrow> failed (snd (running ko cf tn p))"
proof -
  assume "failed p"
  then have other: "failed p" "failed (p\<lparr>pl_input := ki\<rparr>)" "failed (p\<lparr>pl_pending := x\<rparr>)"
    "failed (p\<lparr>pl_input := ki, pl_stopping := y\<rparr>)" for ki x y
    by (simp_all add: failed_def)
  show ?thesis unfolding running_def
    by (auto intro!: flush_or_stop_failed offer_failed other split: prod.split sum.split option.split poll_event.split)
qed

lemma stopping_failed: "failed p \<Longrightarrow> failed (snd (stopping tn p))"
proof -
  assume failed: "failed p"
  have same: "failed (q\<lparr>pl_pending := x\<rparr>) = failed q" "failed (q\<lparr>pl_buffer := y\<rparr>) = failed q" for q :: "'a poller" and x y
    by (simp_all add: failed_def)
  have "failed (snd (case pl_buffer p of None \<Rightarrow> (Waits, p)
      | Some b \<Rightarrow> (case flush_or_stop tn Waits b p of (fl, p') \<Rightarrow> (fl, p'\<lparr>pl_buffer := None\<rparr>))))"
  proof (cases "pl_buffer p")
    case (Some b)
    with flush_or_stop_failed [OF failed, of tn Waits b] show ?thesis by (simp add: case_prod_beta same)
  qed (simp add: failed)
  then show ?thesis unfolding stopping_def by (auto simp: same Let_def split: prod.split flow.split)
qed

lemma poll_turn_ok:
  assumes law: "client_law ko incoming" and steady: "steady tn"
    and ok: "grows (\<lambda>p its. poller_ok incoming start cf consumer dest its p) its p"
    and turn: "poll_turn ko cf tn p = (fl, p')"
  shows "grows (\<lambda>p its. poller_ok incoming start cf consumer dest its p) its p'"
proof -
  define p0 where "p0 = begin_turn tn p"
  from ok obtain new where "failed p \<or> poller_ok incoming start cf consumer dest (its @ new) p" by (auto simp: grows_def)
  from begin_turn_ok [OF steady this] have p0: "failed p0 \<or> poller_ok incoming start cf consumer dest (its @ new) p0"
    by (simp add: p0_def)
  obtain fl1 p1 where step: "(if pl_stopping p0 then stopping tn p0 else running ko cf tn p0) = (fl1, p1)" by fastforce
  have "grows (\<lambda>p its. poller_ok incoming start cf consumer dest its p) its p1"
  proof (cases "failed p0")
    case True
    with step show ?thesis
      using running_failed [of p0 ko cf tn] stopping_failed [of p0 tn] by (auto simp: grows_def split: if_splits)
  next
    case False
    with p0 have ok: "poller_ok incoming start cf consumer dest (its @ new) p0" by simp
    show ?thesis
    proof (cases "pl_stopping p0")
      case True
      with step have "stopping tn p0 = (fl1, p1)" by simp
      from stopping_ok [OF ok True this] show ?thesis by (auto simp: grows_def)
    next
      case False
      with step have "running ko cf tn p0 = (fl1, p1)" by simp
      from running_ok [OF law ok False this] show ?thesis by (auto simp: grows_def)
    qed
  qed
  with wait_ok turn step show ?thesis by (auto simp: poll_turn_def Let_def simp flip: p0_def)
qed

section \<open>The layout stays\<close>

text \<open>Partition ranges and requirements are fixed, and a poller without buffer is stopping.\<close>

definition layout_of :: "'k kafka_input \<Rightarrow> (int \<Rightarrow> partition_range option) \<times> output_requirements" where
  "layout_of ki = ((\<lambda>q. map_option ps_range (bt_get (ki_partitions ki) q)), ki_requirements ki)"

definition alive :: "'k kafka_input \<Rightarrow> 'k poller \<Rightarrow> bool" where
  "alive ki p \<longleftrightarrow> layout_of (pl_input p) = layout_of ki \<and> (pl_buffer p = None \<longrightarrow> pl_stopping p)"

lemma layout_update [simp]:
  "layout_of (ki\<lparr>ki_consumer := c\<rparr>) = layout_of ki" "layout_of (ki\<lparr>ki_payload_buffers := b\<rparr>) = layout_of ki"
  "layout_of (ki\<lparr>ki_notices := ns\<rparr>) = layout_of ki"
  by (simp_all add: layout_of_def)

lemma layout_pause: "layout_of (snd (pause ko q ki)) = layout_of ki"
  by (simp add: pause_def split: prod.split)

lemma layout_finish: "layout_of (snd (finish ko q ki)) = layout_of ki"
proof -
  have fin: "layout_of (ki\<lparr>ki_remaining := n, ki_partitions := bt_insert q (st\<lparr>ps_done := True\<rparr>) (ki_partitions ki)\<rparr>) = layout_of ki"
    if "bt_get (ki_partitions ki) q = Some st" for n st
    using that by (simp add: layout_of_def bt_get_insert fun_eq_iff)
  show ?thesis
    by (simp add: finish_def layout_pause fin split: option.split)
qed

lemma layout_poll: "layout_of (snd (poll_with_timeout ko timeout ki)) = layout_of ki"
proof -
  have eof: "layout_of (snd (handle_eof ko q n ki)) = layout_of ki" for q n ki
    by (simp add: handle_eof_def layout_finish split: option.split)
  have idle: "snd (idle_after x) = snd x" for x :: "(input_error + unit) \<times> 'a kafka_input"
    by (simp add: idle_after_def case_prod_beta)
  have "layout_of (snd (take_message ko m ki)) = layout_of ki" for m ki
    by (simp add: take_message_def idle eof layout_finish own_record_def Let_def case_prod_beta split: option.split sum.split)
  moreover have "layout_of (snd (poll_error ko e ki)) = layout_of ki" for e ki
    by (simp add: poll_error_def split: kafka_error.split)
  ultimately show ?thesis
    by (simp add: poll_with_timeout_def Let_def case_prod_beta split: option.split polled.split)
qed

lemma take_back_alive: "alive ki p \<Longrightarrow> alive ki (take_back rs p)"
  by (auto simp: alive_def take_back_def Let_def fail_def split: prod.split sum.split)

lemma begin_turn_alive: "alive ki p \<Longrightarrow> alive ki (begin_turn tn p)"
proof -
  have "alive ki q \<Longrightarrow> alive ki (fold take_back rs q)" for rs q
    by (induction rs arbitrary: q) (simp_all add: take_back_alive)
  moreover assume "alive ki p"
  then have "alive ki (p\<lparr>pl_shared := tn_shared tn (pl_shared p), pl_control := tn_control tn (pl_control p)\<rparr>)"
    by (simp add: alive_def)
  ultimately show ?thesis by (auto simp: begin_turn_def Let_def alive_def)
qed

lemma flush_or_stop_alive: "layout_of (pl_input p) = layout_of ki \<Longrightarrow> nf \<noteq> Crashed \<Longrightarrow>
  flush_or_stop tn nf b p = (fl, p') \<Longrightarrow> alive ki p' \<and> fl \<noteq> Crashed"
  by (auto simp: flush_or_stop_def alive_def Let_def fail_def split: prod.splits sum.splits)

lemma offer_alive:
  assumes "layout_of (pl_input p) = layout_of ki" "offer ko cf tn r b p = (fl, p')"
  shows "alive ki p' \<and> fl \<noteq> Crashed"
proof -
  have admitted: "alive ki (snd (admit tn r b (p\<lparr>pl_shared := sh\<rparr>)))" for sh
    using assms(1) by (auto simp: admit_def alive_def split: prod.split sum.split)
  have "alive ki (snd (after_admit ko cf q x)) \<and> fst (after_admit ko cf q x) \<noteq> Crashed" if "alive ki (snd x)" for q x
    using that layout_finish [of ko q "pl_input (snd x)"]
    by (auto simp: after_admit_def alive_def fail_def split: prod.split sum.split option.split)
  then have after: "alive ki (snd (after_admit ko cf q (admit tn r b (p\<lparr>pl_shared := sh\<rparr>)))) \<and>
      fst (after_admit ko cf q (admit tn r b (p\<lparr>pl_shared := sh\<rparr>))) \<noteq> Crashed" for q sh
    using admitted by blast
  consider (waits) q where "layout_of (pl_input q) = layout_of ki" "flush_or_stop tn Waits b q = (fl, p')"
    | (admits) sh where "after_admit ko cf (r_partition r) (admit tn r b (p\<lparr>pl_shared := sh\<rparr>)) = (fl, p')"
  proof (cases "can_reserve (pl_admission p) (r_partition r)")
    case False
    then show ?thesis using assms waits [of "p\<lparr>pl_pending := Some r\<rparr>"] by (simp add: offer_def)
  next
    case True
    obtain ok sh where "try_reserve (r_retained_bytes r) (pl_shared p) = (ok, sh)" by fastforce
    then show ?thesis
      using True assms waits [of "p\<lparr>pl_shared := sh, pl_pending := Some r\<rparr>"] admits [of sh]
      by (cases ok) (simp_all add: offer_def)
  qed
  then show ?thesis
  proof cases
    case waits
    then show ?thesis using flush_or_stop_alive by blast
  next
    case admits
    with after [where sh = sh and q = "r_partition r"] show ?thesis by simp
  qed
qed

lemma poll_turn_alive:
  assumes alive: "alive ki p" and turn: "poll_turn ko cf tn p = (fl, p')"
  shows "alive ki p' \<and> fl \<noteq> Crashed"
proof -
  define p0 where "p0 = begin_turn tn p"
  have p0: "alive ki p0" using begin_turn_alive [OF alive] by (simp add: p0_def)
  then have layout: "layout_of (pl_input p0) = layout_of ki" by (simp add: alive_def)
  obtain fl1 p1 where step: "(if pl_stopping p0 then stopping tn p0 else running ko cf tn p0) = (fl1, p1)" by fastforce
  have "alive ki p1 \<and> fl1 \<noteq> Crashed"
  proof (cases "pl_stopping p0")
    case True
    obtain fl2 p2 where first: "(case pl_buffer p0 of None \<Rightarrow> (Waits, p0)
      | Some b \<Rightarrow> (case flush_or_stop tn Waits b p0 of (fl, p') \<Rightarrow> (fl, p'\<lparr>pl_buffer := None\<rparr>))) = (fl2, p2)"
      by fastforce
    have "layout_of (pl_input p2) = layout_of ki \<and> pl_stopping p2 \<and> fl2 \<noteq> Crashed \<and> fl2 \<noteq> Again"
      using first True layout
      by (auto simp: flush_or_stop_def Let_def fail_def split: option.splits prod.splits sum.splits)
    with step True first show ?thesis
      by (cases fl2) (auto simp: stopping_def Let_def alive_def split: if_splits)
  next
    case False
    then obtain b where b: "pl_buffer p0 = Some b" using p0 by (auto simp: alive_def)
    from step False have run: "running ko cf tn p0 = (fl1, p1)" by simp
    show ?thesis
    proof (cases "pl_pending p0")
      case (Some r)
      with run b have "offer ko cf tn r b (p0\<lparr>pl_pending := None\<rparr>) = (fl1, p1)" by (simp add: running_def)
      from offer_alive [OF _ this] layout show ?thesis by simp
    next
      case None
      define polled where "polled = (if bf_pending b = [] then input_poll ko (pl_input p0) else poll_with_timeout ko 0 (pl_input p0))"
      have kept: "layout_of (snd polled) = layout_of ki"
        by (simp add: polled_def input_poll_def layout_poll layout)
      obtain r ki2 where polled: "polled = (r, ki2)" by fastforce
      have inner: "layout_of (pl_input (p0\<lparr>pl_input := ki2\<rparr>)) = layout_of ki" using kept polled by simp
      from run b None polled have "(case r of
          Inr (PollRecord r) \<Rightarrow> offer ko cf tn r b (p0\<lparr>pl_input := ki2\<rparr>)
        | Inr PollIdle \<Rightarrow> flush_or_stop tn Again b (p0\<lparr>pl_input := ki2\<rparr>)
        | Inr PollDone \<Rightarrow> (Again, p0\<lparr>pl_input := ki2, pl_stopping := True\<rparr>)
        | Inl e \<Rightarrow> (Again, fail (input_error_text (ko_text ko) (ki_topic ki2) e) (p0\<lparr>pl_input := ki2\<rparr>))) = (fl1, p1)"
        unfolding running_def polled_def by (auto split: sum.splits poll_event.splits)
      note next_step = this
      show ?thesis
      proof (cases r)
        case (Inl e)
        with next_step inner b show ?thesis by (auto simp: alive_def fail_def)
      next
        case (Inr ev)
        show ?thesis
        proof (cases ev)
          case (PollRecord rc)
          with next_step Inr show ?thesis using offer_alive [OF inner] by simp
        next
          case PollIdle
          with next_step Inr have "flush_or_stop tn Again b (p0\<lparr>pl_input := ki2\<rparr>) = (fl1, p1)" by simp
          from flush_or_stop_alive [OF inner _ this] show ?thesis by simp
        next
          case PollDone
          with next_step Inr inner show ?thesis by (auto simp: alive_def)
        qed
      qed
    qed
  qed
  then show ?thesis using turn step take_back_alive
    by (cases fl1) (auto simp: poll_turn_def Let_def wait_def alive_def fail_def simp flip: p0_def split: received.splits)
qed

section \<open>The whole loop\<close>

lemma poll_loop_ok:
  assumes "client_law ko incoming" "\<forall>tn \<in> set tns. steady tn"
    and "grows (\<lambda>p its. poller_ok incoming start cf consumer dest its p) its p" "alive ki p"
    and "poll_loop ko cf tns p = (fl, p')"
  shows "grows (\<lambda>p its. poller_ok incoming start cf consumer dest its p) its p' \<and> alive ki p' \<and> fl \<noteq> Crashed"
  using assms(2-)
proof (induction tns arbitrary: p)
  case (Cons tn tns)
  obtain fl1 p1 where turn: "poll_turn ko cf tn p = (fl1, p1)" by fastforce
  have "steady tn" using Cons.prems(1) by simp
  note step = poll_turn_ok [OF assms(1) this Cons.prems(2) turn] poll_turn_alive [OF Cons.prems(3) turn]
  show ?case
  proof (cases "fl1 = Again")
    case True
    with turn Cons.prems(4) have "poll_loop ko cf tns p1 = (fl, p')" by simp
    with Cons.IH [OF _ step(1) _ this] step(2) Cons.prems(1) show ?thesis by simp
  next
    case False
    with turn Cons.prems(4) have "fl = fl1" "p' = p1" by (cases fl1; simp)+
    with step show ?thesis by simp
  qed
qed simp

lemma next_sequence_new [simp]: "next_sequence_of (admission_new qs limit) q = 0"
proof -
  have "bt_get (adm_partitions (admission_new qs limit)) q = Some s \<Longrightarrow> pa_next_sequence s = 0" for s
    by (auto simp: admission_new_def bt_get_of_list dest!: map_of_SomeD)
  then show ?thesis by (simp add: next_sequence_of_def split: option.split)
qed

definition destination_of :: "'x runtime_config \<Rightarrow> destination" where
  "destination_of cf =
     (if tp_parses_json (cf_transform cf) then Evaluate else WriteDirect (tp_drop_tombstones (cf_transform cf)))"

lemma poller_new_ok:
  assumes "input_ok ki" "\<forall>m \<in> set (map the (fetch_dropped (ki_consumer ki))). fits_memory m"
    and "cf_count_per_partition cf \<noteq> Some 0"
  shows "poller_ok incoming (backlog incoming (ki_consumer ki)) cf consumer (destination_of cf) []
    (poller_new cf consumer ki sh ct st)"
  using assms
  by (auto simp: poller_ok_def poller_new_def packed_def buffered_def buffer_new_def batch_records_def destination_of_def
      numbered_def follows_queue_def held_def counted_def placed_def split: option.splits)

text \<open>The admitted items of a run: those in the batches sent, then those still in the buffer.\<close>

definition admitted_items :: "work_item list list \<Rightarrow> 'k poller \<Rightarrow> work_item list" where
  "admitted_items groups p = concat groups @ buffered p"

lemma poll_loop_admits:
  assumes "client_law ko incoming" "\<forall>tn \<in> set tns. steady tn" "input_ok ki"
    and "\<forall>m \<in> set (map the (fetch_dropped (ki_consumer ki))). fits_memory m" "cf_count_per_partition cf \<noteq> Some 0"
    and "poll_loop ko cf tns (poller_new cf consumer ki sh ct st) = (fl, p)"
  shows "fl \<noteq> Crashed \<and> (failed p \<or> (\<exists>groups.
    pl_sent p = map (package consumer (destination_of cf)) groups \<and>
    (\<forall>g \<in> set groups. g \<noteq> [] \<and> length g \<le> 64) \<and>
    (\<forall>q. map w_sequence (items_of q (admitted_items groups p)) = [0..<length (items_of q (admitted_items groups p))]) \<and>
    (\<forall>q. next_sequence_of (pl_admission p) q = length (items_of q (admitted_items groups p))) \<and>
    (\<forall>w \<in> set (admitted_items groups p). w_sequence w < u64_max \<and>
       bt_get (ki_partitions ki) (r_partition (w_record w)) \<noteq> None) \<and>
    (\<forall>q limit. cf_count_per_partition cf = Some limit \<longrightarrow> length (items_of q (admitted_items groups p)) \<le> limit) \<and>
    (\<forall>q part. bt_get (ki_partitions ki) q = Some part \<longrightarrow>
      list_all2 (carries (ki_requirements ki))
        (take (length (items_of q (admitted_items groups p))) (filter (due part) (backlog incoming (ki_consumer ki))))
        (map w_record (items_of q (admitted_items groups p))))))"
proof -
  let ?p0 = "poller_new cf consumer ki sh ct st"
  have "alive ki ?p0" by (simp add: alive_def poller_new_def)
  moreover have "grows (\<lambda>p its. poller_ok incoming (backlog incoming (ki_consumer ki)) cf consumer (destination_of cf) its p) [] ?p0"
    by (rule growsI) (use poller_new_ok [OF assms(3-5)] in blast)
  ultimately have fin: "grows (\<lambda>p its. poller_ok incoming (backlog incoming (ki_consumer ki)) cf consumer (destination_of cf) its p) [] p"
    "alive ki p" "fl \<noteq> Crashed"
    using poll_loop_ok [OF assms(1,2) _ _ assms(6)] by blast+
  show ?thesis
  proof (cases "failed p")
    case False
    with fin(1) obtain its where ok: "poller_ok incoming (backlog incoming (ki_consumer ki)) cf consumer (destination_of cf) its p"
      by (auto simp: grows_def)
    then obtain groups where groups: "pl_sent p = map (package consumer (destination_of cf)) groups"
      "its = admitted_items groups p" "\<forall>g \<in> set groups. g \<noteq> [] \<and> length g \<le> 64"
      by (auto simp: poller_ok_def packed_def admitted_items_def batch_records_def)
    have seq: "map w_sequence (items_of q its) = [0..<next_sequence_of (pl_admission p) q]" for q
      using ok by (simp add: poller_ok_def numbered_def)
    from arg_cong [OF this, of length] have len: "next_sequence_of (pl_admission p) q = length (items_of q its)" for q
      by simp
    have carried: "list_all2 (carries (ki_requirements ki))
         (take (length (items_of q its)) (filter (due part) (backlog incoming (ki_consumer ki)))) (map w_record (items_of q its))"
      if "bt_get (ki_partitions ki) q = Some part" for q part
    proof -
      have layout: "layout_of (pl_input p) = layout_of ki" using fin(2) by (simp add: alive_def)
      then have "map_option ps_range (bt_get (ki_partitions (pl_input p)) q) = Some (ps_range part)"
        using that by (auto simp: layout_of_def dest: fun_cong [of _ _ q])
      then obtain part' where part': "bt_get (ki_partitions (pl_input p)) q = Some part'" "due part' = due part"
        by (auto simp: due_def fun_eq_iff)
      have req: "ki_requirements (pl_input p) = ki_requirements ki" using layout by (simp add: layout_of_def)
      from ok part' obtain xs rest where xs: "filter (due part) (backlog incoming (ki_consumer ki)) = xs @ rest"
        "list_all2 (carries (ki_requirements ki)) xs (map w_record (items_of q its) @ held q p)"
        unfolding poller_ok_def follows_queue_def req [symmetric] part'(2) [symmetric] by blast
      then obtain ys zs where ys: "xs = ys @ zs" "list_all2 (carries (ki_requirements ki)) ys (map w_record (items_of q its))"
        by (auto simp: list_all2_append2)
      with xs(1) list_all2_lengthD [OF ys(2)] show ?thesis by simp
    qed
    have placed: "w_sequence w < u64_max \<and> bt_get (ki_partitions ki) (r_partition (w_record w)) \<noteq> None" if w: "w \<in> set its" for w
    proof
      let ?q = "r_partition (w_record w)"
      have "w_sequence w \<in> set (map w_sequence (items_of ?q its))" using w by (auto simp: items_of_def)
      then have "w_sequence w < next_sequence_of (pl_admission p) ?q" by (simp add: seq)
      also have "\<dots> \<le> u64_max" using ok by (auto simp: poller_ok_def numbered_def intro: next_sequence_le)
      finally show "w_sequence w < u64_max" .
      have "map_option ps_range (bt_get (ki_partitions (pl_input p)) ?q) = map_option ps_range (bt_get (ki_partitions ki) ?q)"
        using fin(2) by (auto simp: alive_def layout_of_def dest: fun_cong [of _ _ ?q])
      moreover have "bt_get (ki_partitions (pl_input p)) ?q \<noteq> None" using ok w by (auto simp: poller_ok_def placed_def)
      ultimately show "bt_get (ki_partitions ki) ?q \<noteq> None" by (cases "bt_get (ki_partitions ki) ?q") auto
    qed
    have limits: "length (items_of q its) \<le> limit" if "cf_count_per_partition cf = Some limit" for q limit
      using ok that len by (auto simp: poller_ok_def counted_def)
    from seq len have seqs: "map w_sequence (items_of q its) = [0..<length (items_of q its)]" for q by simp
    show ?thesis
      using fin(3) groups(1,3) seqs len placed limits carried unfolding groups(2) by blast
  qed (use fin in simp)
qed

definition demo_log :: "native_message list" where
  "demo_log = [plain_message 0 4 ''z'', plain_message 0 6 ''a'', plain_message 1 3 ''b'', plain_message 0 9 ''c'']"

text \<open>A client that reads a fixed log; its state is the position.\<close>

definition log_kafka :: "nat kafka_ops" where
  "log_kafka =
     \<lparr>ko_events = (\<lambda>k. (None, k)), ko_extract = (\<lambda>t n k. (Inr (take n (drop k demo_log)), k + n)),
      ko_pause = (\<lambda>topic p k. (Inr (), k)),
      ko_code = (\<lambda>e. case e of MessageConsumption c \<Rightarrow> Some c | MessageConsumptionFatal c \<Rightarrow> Some c | _ \<Rightarrow> None),
      ko_text = (\<lambda>e. ''error''), ko_grow = (\<lambda>c n. n)\<rparr>"

lemma log_kafka_law: "client_law log_kafka (\<lambda>k. drop k demo_log)"
proof -
  have "take n xs @ drop (k + n) demo_log = drop k demo_log" if "xs = drop k demo_log" for n k and xs
    using that append_take_drop_id [of n "drop k demo_log"] by (simp add: add.commute)
  moreover have "\<forall>m \<in> set demo_log. fits_memory m"
    by (simp add: demo_log_def plain_message_def fits_memory_def usize_max_def)
  ultimately show ?thesis
    by (auto simp: client_law_def queue_law_def pause_law_def log_kafka_def dest: in_set_dropD)
qed

definition quiet_turn :: turn where
  "quiet_turn = \<lparr>tn_shared = id, tn_control = id, tn_releases = [], tn_refusal = None, tn_received = ReceivedTimeout\<rparr>"

definition demo_run :: "nat \<Rightarrow> flow \<times> nat poller" where
  "demo_run n = poll_loop log_kafka shard_config (replicate n quiet_turn)
     (poller_new shard_config 0 (two_partitions 0)
       (shared_new \<lparr>max_inflight_records = 8, max_inflight_bytes = 100, max_inflight_per_partition = 4\<rparr> None)
       \<lparr>ct_first = None, ct_shutdown = False\<rparr> (stats_new False))"

text \<open>
  C10. Whatever the other threads do, as long as they leave a recorded failure in place: the loop never panics for
  want of its buffer, and unless the run has failed, the batches a poller sends hold 1 to 64 records each, and
  per partition the admitted records, as many as the admission has numbered, have the numbers \<open>0, 1, 2, \<dots>\<close>, keep \<open>--count-per-partition\<close>, and carry the
  first messages of the partition's range in the queue, in order, with none left out and none twice.
\<close>

theorem poller_admits_in_order:
  assumes "client_law ko incoming" "\<forall>tn \<in> set tns. steady tn" "input_ok ki"
    and "\<forall>m \<in> set (map the (fetch_dropped (ki_consumer ki))). fits_memory m" "cf_count_per_partition cf \<noteq> Some 0"
    and "poll_loop ko cf tns (poller_new cf consumer ki sh ct st) = (fl, p)"
  shows "fl \<noteq> Crashed \<and> (failed p \<or> (\<exists>groups.
    pl_sent p = map (package consumer (destination_of cf)) groups \<and>
    (\<forall>g \<in> set groups. g \<noteq> [] \<and> length g \<le> 64) \<and>
    (\<forall>q. map w_sequence (items_of q (admitted_items groups p)) = [0..<length (items_of q (admitted_items groups p))]) \<and>
    (\<forall>q. next_sequence_of (pl_admission p) q = length (items_of q (admitted_items groups p))) \<and>
    (\<forall>q limit. cf_count_per_partition cf = Some limit \<longrightarrow> length (items_of q (admitted_items groups p)) \<le> limit) \<and>
    (\<forall>q part. bt_get (ki_partitions ki) q = Some part \<longrightarrow>
      list_all2 (carries (ki_requirements ki))
        (take (length (items_of q (admitted_items groups p))) (filter (due part) (backlog incoming (ki_consumer ki))))
        (map w_record (items_of q (admitted_items groups p))))))"
  using poll_loop_admits [OF assms] by blast

theorem poller_admits_in_order_witness:
  "\<forall>n. fst (demo_run n) \<noteq> Crashed \<and> (failed (snd (demo_run n)) \<or>
    (\<exists>groups. pl_sent (snd (demo_run n)) = map (package 0 (WriteDirect False)) groups))"
proof
  fix n
  have "\<forall>tn \<in> set (replicate n quiet_turn). steady tn" by (simp add: steady_def quiet_turn_def)
  moreover have "\<forall>m \<in> set (map the (fetch_dropped (ki_consumer (two_partitions (0::nat))))). fits_memory m"
    by (simp add: two_partitions_def fetch_dropped_def fetch_new_def)
  moreover have "cf_count_per_partition shard_config \<noteq> Some 0" by (simp add: shard_config_def)
  moreover have "destination_of shard_config = WriteDirect False" by (simp add: destination_of_def shard_config_def)
  ultimately show "fst (demo_run n) \<noteq> Crashed \<and> (failed (snd (demo_run n)) \<or>
      (\<exists>groups. pl_sent (snd (demo_run n)) = map (package 0 (WriteDirect False)) groups))"
    using poller_admits_in_order [OF log_kafka_law _ two_partitions_ok _ _ prod.collapse [symmetric], of "replicate n quiet_turn" 0 shard_config]
    unfolding demo_run_def by metis
qed

end
