(* ===== verification/Poller_Stops.thy ===== *)
theory Poller_Stops
  imports Poller_Facts
begin

text \<open>
  A stopping poller ends: it leaves its loop once everything it has admitted came back, and without a failure not
  before.
\<close>

section \<open>Releases\<close>

definition returned :: "turn \<Rightarrow> release list" where
  "returned tn = concat (tn_releases tn) @ (case tn_received tn of ReceivedReleases rs \<Rightarrow> rs | _ \<Rightarrow> [])"

definition for_partition :: "int \<Rightarrow> release list \<Rightarrow> nat" where
  "for_partition q rs = length (filter (\<lambda>r. rel_partition r = q) rs)"

definition charge_of :: "release list \<Rightarrow> nat" where
  "charge_of rs = sum_list (map rel_retained_bytes rs)"

lemma for_partition_append [simp]: "for_partition q (xs @ ys) = for_partition q xs + for_partition q ys"
  by (simp add: for_partition_def)

lemma for_partition_Nil [simp]: "for_partition q [] = 0"
  by (simp add: for_partition_def)

lemma charge_of_append [simp]: "charge_of (xs @ ys) = charge_of xs + charge_of ys"
  by (simp add: charge_of_def)

lemma total_charge_spec: "n + charge_of rs \<le> usize_max \<Longrightarrow> total_charge n rs = Some (n + charge_of rs)"
  by (induction rs arbitrary: n) (simp_all add: charge_of_def checked_add_def)

lemma admission_release_flight:
  assumes "admission_ok a" "0 < in_flight_of a q"
  obtains a' where "admission_release a q = (Inr (), a')" "admission_ok a'"
    "\<And>p. in_flight_of a' p = in_flight_of a p - (if p = q then 1 else 0)"
proof -
  obtain a' where a': "admission_release a q = (Inr (), a')"
    using release_succeeds_iff [OF assms(1)] assms(2) by (metis prod.collapse)
  from a' have "in_flight_of a' p = in_flight_of a p - (if p = q then 1 else 0)" for p
    by (auto simp: in_flight_of_def bt_get_insert elim!: admission_release_cases)
  with that a' admission_release_ok [OF assms(1) a'] show thesis by blast
qed

lemma release_each_flight:
  assumes "admission_ok a" "\<forall>q. for_partition q rs \<le> in_flight_of a q"
  shows "\<exists>a' pb'. release_each rs (a, pb) = (Inr (), a', pb') \<and> admission_ok a' \<and>
    (\<forall>q. in_flight_of a' q = in_flight_of a q - for_partition q rs)"
  using assms
proof (induction rs arbitrary: a pb)
  case (Cons r rs)
  have "for_partition (rel_partition r) (r # rs) \<le> in_flight_of a (rel_partition r)" using Cons.prems(2) by blast
  then have "0 < in_flight_of a (rel_partition r)" by (simp add: for_partition_def)
  from admission_release_flight [OF Cons.prems(1) this] obtain a1 where a1:
    "admission_release a (rel_partition r) = (Inr (), a1)" "admission_ok a1"
    "\<And>p. in_flight_of a1 p = in_flight_of a p - (if p = rel_partition r then 1 else 0)" by blast
  have "for_partition q rs \<le> in_flight_of a1 q" for q
  proof -
    have "for_partition q (r # rs) \<le> in_flight_of a q" using Cons.prems(2) by blast
    then show ?thesis by (auto simp: a1(3) for_partition_def)
  qed
  then obtain a' pb' where "release_each rs (a1, case rel_payload r of None \<Rightarrow> pb | Some v \<Rightarrow> recycle v pb) = (Inr (), a', pb')"
    "admission_ok a'" "\<forall>q. in_flight_of a' q = in_flight_of a1 q - for_partition q rs"
    using Cons.IH [OF a1(2)] by blast
  with a1 show ?case by (auto simp: for_partition_def)
qed simp

lemma take_back_flight:
  assumes "admission_ok (pl_admission p)" "\<forall>q. for_partition q rs \<le> in_flight_of (pl_admission p) q" "charge_of rs \<le> usize_max"
  shows "admission_ok (pl_admission (take_back rs p)) \<and> pl_stopping (take_back rs p) = pl_stopping p \<and>
    (\<forall>q. in_flight_of (pl_admission (take_back rs p)) q = in_flight_of (pl_admission p) q - for_partition q rs)"
proof -
  obtain a' pb' where "release_each rs (pl_admission p, ki_payload_buffers (pl_input p)) = (Inr (), a', pb')"
    "admission_ok a'" "\<forall>q. in_flight_of a' q = in_flight_of (pl_admission p) q - for_partition q rs"
    using release_each_flight [OF assms(1,2)] by blast
  with assms(3) total_charge_spec [of 0 rs] show ?thesis
    by (simp add: take_back_def release_batch_def Let_def fail_def split: prod.split sum.split)
qed

lemma take_back_all_flight:
  assumes "admission_ok (pl_admission p)" "\<forall>q. for_partition q (concat rss) \<le> in_flight_of (pl_admission p) q"
    and "charge_of (concat rss) \<le> usize_max"
  shows "admission_ok (pl_admission (fold take_back rss p)) \<and> pl_stopping (fold take_back rss p) = pl_stopping p \<and>
    (\<forall>q. in_flight_of (pl_admission (fold take_back rss p)) q = in_flight_of (pl_admission p) q - for_partition q (concat rss))"
  using assms
proof (induction rss arbitrary: p)
  case (Cons rs rss)
  have split: "for_partition q rs + for_partition q (concat rss) \<le> in_flight_of (pl_admission p) q" for q
    using Cons.prems(2) by simp
  have one: "admission_ok (pl_admission (take_back rs p)) \<and> pl_stopping (take_back rs p) = pl_stopping p \<and>
      (\<forall>q. in_flight_of (pl_admission (take_back rs p)) q = in_flight_of (pl_admission p) q - for_partition q rs)"
    using Cons.prems(1,3) split by (intro take_back_flight) (auto intro: add_leD1)
  have "for_partition q (concat rss) \<le> in_flight_of (pl_admission (take_back rs p)) q" for q
    using one split [of q] by simp
  with Cons.IH [of "take_back rs p"] one Cons.prems(3) show ?case by simp
qed simp

section \<open>Turns\<close>

text \<open>What a flush leaves alone.\<close>

lemma flush_or_stop_admission:
  "pl_admission (snd (flush_or_stop tn Waits b p)) = pl_admission p"
  "pl_stopping (snd (flush_or_stop tn Waits b p)) = pl_stopping p"
  "fst (flush_or_stop tn Waits b p) = Waits \<or> fst (flush_or_stop tn Waits b p) = Stopped \<and> failed (snd (flush_or_stop tn Waits b p))"
  by (simp_all add: flush_or_stop_def Let_def fail_def failed_def runtime_failure_def record_failure_first
      split: prod.split sum.split option.split)

lemma stopping_flow:
  assumes "stopping tn p = (fl, p')"
  shows "pl_admission p' = pl_admission p \<and> pl_stopping p' = pl_stopping p \<and>
    (fl = Stopped \<and> (failed p' \<or> total_records (pl_admission p) = 0) \<or> fl = Waits \<and> total_records (pl_admission p) \<noteq> 0)"
proof (cases "pl_buffer p")
  case None
  with assms show ?thesis by (auto simp: stopping_def Let_def split: if_splits)
next
  case (Some b)
  obtain fl2 p2 where flush: "flush_or_stop tn Waits b p = (fl2, p2)" by fastforce
  with flush_or_stop_admission [of tn b p] have "pl_admission p2 = pl_admission p" "pl_stopping p2 = pl_stopping p"
    "fl2 = Waits \<or> fl2 = Stopped \<and> failed p2" by simp_all
  with assms Some flush show ?thesis by (auto simp: stopping_def Let_def failed_def split: if_splits)
qed

lemma begin_turn_flight:
  assumes "admission_ok (pl_admission p)" "pl_stopping p"
    and "\<forall>q. for_partition q (concat (tn_releases tn)) \<le> in_flight_of (pl_admission p) q"
    and "charge_of (concat (tn_releases tn)) \<le> usize_max"
  shows "admission_ok (pl_admission (begin_turn tn p)) \<and> pl_stopping (begin_turn tn p) \<and>
    (\<forall>q. in_flight_of (pl_admission (begin_turn tn p)) q = in_flight_of (pl_admission p) q - for_partition q (concat (tn_releases tn)))"
proof -
  define p0 where "p0 = p\<lparr>pl_shared := tn_shared tn (pl_shared p), pl_control := tn_control tn (pl_control p)\<rparr>"
  have "pl_admission p0 = pl_admission p" "pl_stopping p0 = pl_stopping p" by (simp_all add: p0_def)
  with take_back_all_flight [of p0 "tn_releases tn"] assms show ?thesis
    by (simp add: begin_turn_def Let_def p0_def)
qed

lemma stopping_turn:
  assumes "admission_ok (pl_admission p)" "pl_stopping p"
    and "\<forall>q. for_partition q (returned tn) \<le> in_flight_of (pl_admission p) q" "charge_of (returned tn) \<le> usize_max"
    and "poll_turn ko cf tn p = (fl, p')"
  shows "fl = Stopped \<or> fl = Again \<and> admission_ok (pl_admission p') \<and> pl_stopping p' \<and>
    (\<forall>q. in_flight_of (pl_admission p') q = in_flight_of (pl_admission p) q - for_partition q (returned tn))"
proof -
  have early: "for_partition q (concat (tn_releases tn)) \<le> in_flight_of (pl_admission p) q" for q
    using assms(3) by (auto simp: returned_def intro: add_leD1)
  have "charge_of (concat (tn_releases tn)) \<le> usize_max" using assms(4) by (auto simp: returned_def intro: add_leD1)
  from begin_turn_flight [OF assms(1,2) _ this] early have b: "admission_ok (pl_admission (begin_turn tn p))"
    "pl_stopping (begin_turn tn p)"
    "\<And>q. in_flight_of (pl_admission (begin_turn tn p)) q = in_flight_of (pl_admission p) q - for_partition q (concat (tn_releases tn))"
    by simp_all
  obtain fl2 p2 where st: "stopping tn (begin_turn tn p) = (fl2, p2)" by fastforce
  note flow = stopping_flow [OF st]
  with b have p2: "admission_ok (pl_admission p2)" "pl_stopping p2"
    "\<And>q. in_flight_of (pl_admission p2) q = in_flight_of (pl_admission p) q - for_partition q (concat (tn_releases tn))" by simp_all
  from assms(5) b(2) st have turn: "wait tn (fl2, p2) = (fl, p')" by (simp add: poll_turn_def Let_def)
  show ?thesis
  proof (cases "fl2 = Stopped")
    case True
    with turn show ?thesis by (simp add: wait_def)
  next
    case False
    with flow have w: "fl2 = Waits" by auto
    show ?thesis
    proof (cases "tn_received tn")
      case (ReceivedReleases rs)
      have "for_partition q rs \<le> in_flight_of (pl_admission p2) q" for q
        using assms(3) [rule_format, of q] p2(3) [of q] ReceivedReleases by (simp add: returned_def)
      moreover have "charge_of rs \<le> usize_max" using assms(4) ReceivedReleases by (simp add: returned_def)
      ultimately show ?thesis
        using take_back_flight [OF p2(1), of rs] p2 turn w ReceivedReleases by (auto simp: wait_def returned_def)
    qed (use p2 turn w in \<open>auto simp: wait_def returned_def\<close>)
  qed
qed

lemma poll_loop_drains:
  assumes "admission_ok (pl_admission p)" "pl_stopping p"
    and "\<forall>q. for_partition q (concat (map returned tns)) = in_flight_of (pl_admission p) q"
    and "charge_of (concat (map returned tns)) \<le> usize_max" "tn_releases final = []"
  shows "fst (poll_loop ko cf (tns @ [final]) p) = Stopped"
  using assms
proof (induction tns arbitrary: p)
  case Nil
  then have "total_records (pl_admission p) = 0" using total_records_zero_iff by simp
  moreover have "pl_admission (begin_turn final p) = pl_admission p" "pl_stopping (begin_turn final p)"
    using Nil.prems by (simp_all add: begin_turn_def Let_def)
  moreover obtain fl p' where st: "stopping final (begin_turn final p) = (fl, p')" by fastforce
  ultimately have "fl = Stopped" using stopping_flow [OF st] by auto
  with st \<open>pl_stopping (begin_turn final p)\<close> show ?case by (simp add: poll_turn_def Let_def wait_def)
next
  case (Cons tn tns)
  obtain fl p1 where turn: "poll_turn ko cf tn p = (fl, p1)" by fastforce
  have split: "for_partition q (returned tn) + for_partition q (concat (map returned tns)) = in_flight_of (pl_admission p) q" for q
    using Cons.prems(3) by simp
  then have "\<forall>q. for_partition q (returned tn) \<le> in_flight_of (pl_admission p) q" by (metis le_add1)
  moreover have "charge_of (returned tn) \<le> usize_max" using Cons.prems(4) by simp
  ultimately consider "fl = Stopped" | "fl = Again" "admission_ok (pl_admission p1)" "pl_stopping p1"
      "\<forall>q. in_flight_of (pl_admission p1) q = in_flight_of (pl_admission p) q - for_partition q (returned tn)"
    using stopping_turn [OF Cons.prems(1,2) _ _ turn] by blast
  then show ?case
  proof cases
    case 2
    have "\<forall>q. for_partition q (concat (map returned tns)) = in_flight_of (pl_admission p1) q"
      using 2(4) split by (metis add_diff_cancel_left')
    with Cons.IH [OF 2(2,3)] Cons.prems(4,5) turn 2(1) show ?thesis by simp
  qed (use turn in simp)
qed

lemma begin_turn_stopping: "pl_stopping p \<Longrightarrow> pl_stopping (begin_turn tn p)"
proof -
  have "pl_stopping (fold take_back rss p) = pl_stopping p" for rss and p :: "'a poller"
    by (induction rss arbitrary: p) (simp_all add: take_back_def fail_def Let_def split: prod.split sum.split)
  then show "pl_stopping p \<Longrightarrow> pl_stopping (begin_turn tn p)" by (simp add: begin_turn_def Let_def)
qed

lemma poll_turn_stopped:
  assumes "pl_stopping p" "poll_turn ko cf tn p = (fl, p')"
  shows "fl = Stopped \<and> (failed p' \<or> total_records (pl_admission p') = 0) \<or> fl = Again \<and> pl_stopping p'"
proof -
  have b: "pl_stopping (begin_turn tn p)" using assms(1) by (rule begin_turn_stopping)
  obtain fl2 p2 where st: "stopping tn (begin_turn tn p) = (fl2, p2)" by fastforce
  note flow = stopping_flow [OF st]
  from assms(2) b st have turn: "wait tn (fl2, p2) = (fl, p')" by (simp add: poll_turn_def Let_def)
  have keep: "pl_stopping (take_back rs p2) = pl_stopping p2" for rs
    by (simp add: take_back_def fail_def Let_def split: prod.split sum.split)
  show ?thesis using flow turn b keep by (auto simp: wait_def split: received.splits)
qed

lemma poll_loop_stopped:
  "pl_stopping p \<Longrightarrow> poll_loop ko cf tns p = (fl, p') \<Longrightarrow>
     fl = Stopped \<and> (failed p' \<or> total_records (pl_admission p') = 0) \<or> fl = Again"
proof (induction tns arbitrary: p)
  case (Cons tn tns)
  obtain fl1 p1 where turn: "poll_turn ko cf tn p = (fl1, p1)" by fastforce
  from poll_turn_stopped [OF Cons.prems(1) turn] Cons.IH [of p1] Cons.prems(2) turn show ?case by auto
qed simp

text \<open>
  C16. A stopping poller terminates, and not too early: whatever else happens, once every record it has in flight has been
  released, in any order and any batches, it leaves its loop in the next iteration at the latest; it never panics; and
  when it leaves, either nothing of its records is outstanding or a failure is recorded.
\<close>

theorem poller_stops:
  assumes "admission_ok (pl_admission p)" "pl_stopping p"
    and "\<forall>q. for_partition q (concat (map returned tns)) = in_flight_of (pl_admission p) q"
    and "charge_of (concat (map returned tns)) \<le> usize_max" "tn_releases final = []"
  shows "fst (poll_loop ko cf (tns @ [final]) p) = Stopped \<and>
    (\<forall>ts. fst (poll_loop ko cf ts p) = Again \<or> fst (poll_loop ko cf ts p) = Stopped \<and>
       (failed (snd (poll_loop ko cf ts p)) \<or> total_records (pl_admission (snd (poll_loop ko cf ts p))) = 0))"
proof (intro conjI allI)
  show "fst (poll_loop ko cf (tns @ [final]) p) = Stopped" using assms by (rule poll_loop_drains)
  show "fst (poll_loop ko cf ts p) = Again \<or> fst (poll_loop ko cf ts p) = Stopped \<and>
       (failed (snd (poll_loop ko cf ts p)) \<or> total_records (pl_admission (snd (poll_loop ko cf ts p))) = 0)" for ts
    using poll_loop_stopped [OF assms(2), of ko cf ts "fst (poll_loop ko cf ts p)" "snd (poll_loop ko cf ts p)"] by auto
qed

text \<open>A poller with one record of partition 0 out, which comes back while it waits.\<close>

definition one_out :: admission where
  "one_out = snd (reserve (admission_new [0, 1] 2) 0)"

definition stopping_poller :: "nat poller" where
  "stopping_poller = (poller_new shard_config 0 (two_partitions 0)
     (shared_new \<lparr>max_inflight_records = 8, max_inflight_bytes = 100, max_inflight_per_partition = 4\<rparr> None)
     \<lparr>ct_first = None, ct_shutdown = True\<rparr> (stats_new False))\<lparr>pl_admission := one_out, pl_stopping := True\<rparr>"

definition return_turn :: turn where
  "return_turn = quiet_turn\<lparr>tn_received :=
     ReceivedReleases [\<lparr>rel_partition = 0, rel_retained_bytes = 1, rel_payload = None\<rparr>]\<rparr>"

lemma one_out_flight: "admission_ok one_out" "in_flight_of one_out q = (if q = 0 then 1 else 0)"
proof -
  have run: "fst (reserve (admission_new [0, 1] 2) 0) = Inr 0" by (simp add: admission_eval)
  show "admission_ok one_out" unfolding one_out_def
    by (rule reserve_ok [OF _ prod.collapse [symmetric]]) simp
  show "in_flight_of one_out q = (if q = 0 then 1 else 0)"
    by (simp add: one_out_def admission_eval in_flight_of_def)
qed

theorem poller_stops_witness:
  "fst (poll_loop log_kafka shard_config [return_turn, quiet_turn] stopping_poller) = Stopped \<and>
   (fst (poll_loop log_kafka shard_config [quiet_turn] stopping_poller) = Again \<or>
    failed (snd (poll_loop log_kafka shard_config [quiet_turn] stopping_poller)) \<or>
    total_records (pl_admission (snd (poll_loop log_kafka shard_config [quiet_turn] stopping_poller))) = 0)"
proof -
  have p: "admission_ok (pl_admission stopping_poller)" "pl_stopping stopping_poller"
    by (simp_all add: stopping_poller_def one_out_flight)
  have came: "returned return_turn = [\<lparr>rel_partition = 0, rel_retained_bytes = 1, rel_payload = None\<rparr>]"
    by (simp add: returned_def return_turn_def quiet_turn_def)
  have all: "\<forall>q. for_partition q (concat (map returned [return_turn])) = in_flight_of (pl_admission stopping_poller) q"
    by (simp add: came for_partition_def stopping_poller_def one_out_flight)
  have fits: "charge_of (concat (map returned [return_turn])) \<le> usize_max" by (simp add: came charge_of_def usize_max_def)
  have none: "tn_releases quiet_turn = []" by (simp add: quiet_turn_def)
  note run = poller_stops [OF p all fits none, of log_kafka shard_config]
  from conjunct1 [OF run] conjunct2 [OF run, rule_format, of "[quiet_turn]"] show ?thesis
    by (auto simp del: poll_loop.simps)
qed

end
