(* ===== verification/Fetch_Handles.thy ===== *)
theory Fetch_Handles
  imports Fetch
begin

text \<open>
  The native handles of \<open>src/kafka/fetch.rs\<close>: the queues \<open>FetchConsumer::new\<close> obtains and forwards, and what
  the destructors do with them, on success and on every early return. The answers of the client library are
  arbitrary; the calls made of it are logged and checked against the rules of their use.
\<close>

section \<open>The calls\<close>

datatype native_call =
    QueueMade nat
  | PartitionQueue int nat
  | Forward nat "nat option"
  | AssignAll
  | MessageDestroyed native_message
  | QueueDestroyed nat
  | ClientDropped

text \<open>The answers of the client, a null pointer being \<open>None\<close>.\<close>

record native_client =
  nc_assigned :: "string + nat"
  nc_queue :: "nat option"
  nc_partition_queue :: "int \<Rightarrow> nat option"
  nc_assign :: "string option"

datatype open_error =
    AssignmentUnknown string
  | AlreadyAssigned
  | TopicContainsNul
  | NoFetchQueue
  | NoPartitionQueue int
  | NotAssigned string

record fetch_handles =
  fh_partitions :: "nat list"
  fh_queue :: nat

section \<open>Construction and destruction\<close>

text \<open>
  \<open>Drop\<close> of the consumer and then of its fields in the order of their declaration: the messages not handed out, the
  forwardings, the partition queues, the fetch queue, and the client last.
\<close>

definition drop_calls :: "native_message list \<Rightarrow> fetch_handles \<Rightarrow> native_call list" where
  "drop_calls messages h =
     map MessageDestroyed messages @ map (\<lambda>q. Forward q None) (fh_partitions h) @
     map QueueDestroyed (fh_partitions h) @ [QueueDestroyed (fh_queue h), ClientDropped]"

fun forward_partitions ::
    "native_client \<Rightarrow> int list \<Rightarrow> fetch_handles \<Rightarrow> native_call list \<times> (open_error + fetch_handles)" where
  "forward_partitions nc [] h = ([], Inr h)"
| "forward_partitions nc (p # ps) h = (case nc_partition_queue nc p of
      None \<Rightarrow> (drop_calls [] h, Inl (NoPartitionQueue p))
    | Some q \<Rightarrow>
        (case forward_partitions nc ps (h\<lparr>fh_partitions := fh_partitions h @ [q]\<rparr>) of (calls, r) \<Rightarrow>
          (PartitionQueue p q # Forward q (Some (fh_queue h)) # calls, r)))"

definition fetch_open :: "native_client \<Rightarrow> string \<Rightarrow> int list \<Rightarrow> native_call list \<times> (open_error + fetch_handles)" where
  "fetch_open nc topic partitions = (case nc_assigned nc of
      Inl e \<Rightarrow> ([ClientDropped], Inl (AssignmentUnknown e))
    | Inr n \<Rightarrow>
        if n \<noteq> 0 then ([ClientDropped], Inl AlreadyAssigned)
        else if CHR 0x00 \<in> set topic then ([ClientDropped], Inl TopicContainsNul)
        else (case nc_queue nc of
            None \<Rightarrow> ([ClientDropped], Inl NoFetchQueue)
          | Some q \<Rightarrow>
              (case forward_partitions nc partitions \<lparr>fh_partitions = [], fh_queue = q\<rparr> of
                 (calls, Inl e) \<Rightarrow> (QueueMade q # calls, Inl e)
               | (calls, Inr h) \<Rightarrow>
                   (case nc_assign nc of
                      None \<Rightarrow> (QueueMade q # calls @ [AssignAll], Inr h)
                    | Some e \<Rightarrow> (QueueMade q # calls @ [AssignAll] @ drop_calls [] h, Inl (NotAssigned e))))))"

text \<open>
  Everything done to the client from the construction of a consumer to its end; \<open>messages\<close> are those of
  \<open>fetch_dropped\<close> at that time.
\<close>

definition lifetime :: "native_client \<Rightarrow> string \<Rightarrow> int list \<Rightarrow> native_message list \<Rightarrow> native_call list" where
  "lifetime nc topic partitions messages = (case fetch_open nc topic partitions of
      (calls, Inl _) \<Rightarrow> calls
    | (calls, Inr h) \<Rightarrow> calls @ drop_calls messages h)"

section \<open>The rules\<close>

text \<open>
  The live queues and the forwardings between them. A queue is destroyed once, and only when nothing is forwarded
  from or to it; the client goes when no queue is left, and nothing is called after that.
\<close>

record native_state =
  ns_live :: "nat set"
  ns_forwards :: "(nat \<times> nat) set"
  ns_client :: bool

fun permitted :: "native_call \<Rightarrow> native_state \<Rightarrow> bool" where
  "permitted (QueueMade q) s = (ns_client s \<and> q \<notin> ns_live s)"
| "permitted (PartitionQueue p q) s = (ns_client s \<and> q \<notin> ns_live s)"
| "permitted (Forward q (Some d)) s = (ns_client s \<and> q \<in> ns_live s \<and> d \<in> ns_live s \<and> q \<noteq> d)"
| "permitted (Forward q None) s = (ns_client s \<and> q \<in> ns_live s)"
| "permitted AssignAll s = ns_client s"
| "permitted (MessageDestroyed m) s = ns_client s"
| "permitted (QueueDestroyed q) s = (ns_client s \<and> q \<in> ns_live s \<and> q \<notin> Domain (ns_forwards s) \<union> Range (ns_forwards s))"
| "permitted ClientDropped s = (ns_client s \<and> ns_live s = {})"

fun called :: "native_call \<Rightarrow> native_state \<Rightarrow> native_state" where
  "called (QueueMade q) s = s\<lparr>ns_live := insert q (ns_live s)\<rparr>"
| "called (PartitionQueue p q) s = s\<lparr>ns_live := insert q (ns_live s)\<rparr>"
| "called (Forward q (Some d)) s = s\<lparr>ns_forwards := insert (q, d) {f \<in> ns_forwards s. fst f \<noteq> q}\<rparr>"
| "called (Forward q None) s = s\<lparr>ns_forwards := {f \<in> ns_forwards s. fst f \<noteq> q}\<rparr>"
| "called AssignAll s = s"
| "called (MessageDestroyed m) s = s"
| "called (QueueDestroyed q) s = s\<lparr>ns_live := ns_live s - {q}\<rparr>"
| "called ClientDropped s = s\<lparr>ns_client := False\<rparr>"

fun obeys :: "native_call list \<Rightarrow> native_state \<Rightarrow> bool" where
  "obeys [] s = True"
| "obeys (c # cs) s = (permitted c s \<and> obeys cs (called c s))"

definition native_start :: native_state where
  "native_start = \<lparr>ns_live = {}, ns_forwards = {}, ns_client = True\<rparr>"

text \<open>The client never hands out the same handle for two things.\<close>

definition distinct_handles :: "native_client \<Rightarrow> int list \<Rightarrow> bool" where
  "distinct_handles nc partitions \<longleftrightarrow> (let qs = map (nc_partition_queue nc) partitions in
     distinct (filter (\<lambda>q. q \<noteq> None) (nc_queue nc # qs)))"

lemma obeys_append: "obeys (cs @ ds) s \<longleftrightarrow> obeys cs s \<and> obeys ds (fold called cs s)"
  by (induction cs arbitrary: s) auto

definition holding :: "fetch_handles \<Rightarrow> native_state" where
  "holding h = \<lparr>ns_live = insert (fh_queue h) (set (fh_partitions h)),
     ns_forwards = (\<lambda>q. (q, fh_queue h)) ` set (fh_partitions h), ns_client = True\<rparr>"

lemma unforward:
  "set qs \<subseteq> ns_live s \<Longrightarrow> ns_client s \<Longrightarrow> obeys (map (\<lambda>q. Forward q None) qs) s \<and>
     fold called (map (\<lambda>q. Forward q None) qs) s = s\<lparr>ns_forwards := {f \<in> ns_forwards s. fst f \<notin> set qs}\<rparr>"
  by (induction qs arbitrary: s) (auto intro!: arg_cong [where f = "\<lambda>x. _\<lparr>ns_forwards := x\<rparr>"])

lemma destroy_queues:
  assumes "distinct qs" "set qs \<subseteq> ns_live s" "ns_client s" "ns_forwards s = {}"
  shows "obeys (map QueueDestroyed qs) s \<and> fold called (map QueueDestroyed qs) s = s\<lparr>ns_live := ns_live s - set qs\<rparr>"
  using assms
proof (induction qs arbitrary: s)
  case (Cons q qs)
  let ?s = "s\<lparr>ns_live := ns_live s - {q}\<rparr>"
  have "obeys (map QueueDestroyed qs) ?s \<and> fold called (map QueueDestroyed qs) ?s = ?s\<lparr>ns_live := ns_live ?s - set qs\<rparr>"
    by (rule Cons.IH) (use Cons.prems in auto)
  with Cons.prems show ?case by (simp add: Diff_insert2 [symmetric])
qed simp

lemma destroy_messages:
  "ns_client s \<Longrightarrow> obeys (map MessageDestroyed ms) s \<and> fold called (map MessageDestroyed ms) s = s"
  by (induction ms) auto

lemma drop_calls_obey:
  assumes "distinct (fh_queue h # fh_partitions h)"
  shows "obeys (drop_calls ms h) (holding h) \<and> fold called (drop_calls ms h) (holding h) =
    \<lparr>ns_live = {}, ns_forwards = {}, ns_client = False\<rparr>"
proof -
  let ?qs = "fh_partitions h"
  define s1 where "s1 = (holding h)\<lparr>ns_forwards := {}\<rparr>"
  have none: "{f \<in> ns_forwards (holding h). fst f \<notin> set ?qs} = {}" by (auto simp: holding_def)
  have held: "set ?qs \<subseteq> ns_live (holding h)" "ns_client (holding h)" by (auto simp: holding_def)
  have un: "obeys (map (\<lambda>q. Forward q None) ?qs) (holding h)" "fold called (map (\<lambda>q. Forward q None) ?qs) (holding h) = s1"
    using unforward [OF held] unfolding none by (simp_all add: s1_def)
  have des: "obeys (map QueueDestroyed ?qs) s1" "fold called (map QueueDestroyed ?qs) s1 = s1\<lparr>ns_live := ns_live s1 - set ?qs\<rparr>"
    using destroy_queues [of ?qs s1] assms by (auto simp: s1_def holding_def)
  have "ns_live s1 - set ?qs = {fh_queue h}" using assms by (auto simp: s1_def holding_def)
  with un des destroy_messages [of "holding h" ms] show ?thesis
    by (simp add: drop_calls_def obeys_append) (simp add: s1_def holding_def)
qed

lemma forward_partitions_obey:
  assumes "distinct (filter (\<lambda>q. q \<noteq> None) (map Some (fh_queue h # fh_partitions h) @ map (nc_partition_queue nc) ps))"
    and "forward_partitions nc ps h = (calls, r)"
  shows "obeys calls (holding h) \<and> (case r of
      Inl _ \<Rightarrow> fold called calls (holding h) = \<lparr>ns_live = {}, ns_forwards = {}, ns_client = False\<rparr>
    | Inr h' \<Rightarrow> fold called calls (holding h) = holding h' \<and> distinct (fh_queue h' # fh_partitions h') \<and>
        fh_queue h' = fh_queue h \<and> map Some (fh_partitions h') = map Some (fh_partitions h) @ map (nc_partition_queue nc) ps)"
  using assms
proof (induction ps arbitrary: h calls)
  case Nil
  then show ?case by (auto simp: distinct_map)
next
  case (Cons p ps)
  have dist: "distinct (fh_queue h # fh_partitions h)" using Cons.prems(1) by (auto simp: distinct_map)
  show ?case
  proof (cases "nc_partition_queue nc p")
    case None
    with Cons.prems drop_calls_obey [OF dist, of "[]"] show ?thesis by auto
  next
    case (Some q)
    let ?h = "h\<lparr>fh_partitions := fh_partitions h @ [q]\<rparr>"
    obtain calls' where rest: "forward_partitions nc ps ?h = (calls', r)"
      "calls = PartitionQueue p q # Forward q (Some (fh_queue h)) # calls'"
      using Cons.prems(2) Some by (auto split: prod.splits)
    have new: "q \<noteq> fh_queue h" "q \<notin> set (fh_partitions h)" using Cons.prems(1) Some by auto
    have "called (Forward q (Some (fh_queue h))) (called (PartitionQueue p q) (holding h)) = holding ?h"
      using new by (auto simp: holding_def)
    moreover have "distinct (filter (\<lambda>q. q \<noteq> None) (map Some (fh_queue ?h # fh_partitions ?h) @ map (nc_partition_queue nc) ps))"
      using Cons.prems(1) Some by simp
    note Cons.IH [OF this rest(1)]
    ultimately show ?thesis using new Some by (auto simp: rest(2) holding_def split: sum.splits)
  qed
qed

lemma only_dropped:
  "obeys [ClientDropped] native_start \<and> fold called [ClientDropped] native_start = \<lparr>ns_live = {}, ns_forwards = {}, ns_client = False\<rparr>"
  by (simp add: native_start_def)

text \<open>
  C24. Native handles are used safely on every path of the constructor and the destructors, whatever the client
  answers, as long as it does not hand out a handle twice: every queue is destroyed exactly once and only when it
  forwards to nothing and nothing is forwarded to it, the client is dropped last, when no queue is left, and an
  error leaves nothing behind.
\<close>

theorem handles_released:
  assumes "distinct_handles nc partitions"
  shows "obeys (lifetime nc topic partitions messages) native_start \<and>
    fold called (lifetime nc topic partitions messages) native_start = \<lparr>ns_live = {}, ns_forwards = {}, ns_client = False\<rparr>"
proof (cases "nc_assigned nc = Inr 0 \<and> CHR 0x00 \<notin> set topic \<and> nc_queue nc \<noteq> None")
  case False
  then have "lifetime nc topic partitions messages = [ClientDropped]"
    by (auto simp: lifetime_def fetch_open_def split: sum.split option.split)
  then show ?thesis using only_dropped by simp
next
  case True
  then obtain q where q: "nc_queue nc = Some q" by blast
  let ?h = "\<lparr>fh_partitions = [], fh_queue = q\<rparr>"
  obtain calls r where fwd: "forward_partitions nc partitions ?h = (calls, r)" by fastforce
  have "distinct (filter (\<lambda>q. q \<noteq> None) (map Some (fh_queue ?h # fh_partitions ?h) @ map (nc_partition_queue nc) partitions))"
    using assms q by (simp add: distinct_handles_def Let_def)
  note obey = forward_partitions_obey [OF this fwd]
  have start: "permitted (QueueMade q) native_start" "called (QueueMade q) native_start = holding ?h"
    by (simp_all add: native_start_def holding_def)
  show ?thesis
  proof (cases r)
    case (Inl e)
    then have "lifetime nc topic partitions messages = QueueMade q # calls"
      using True q fwd by (simp add: lifetime_def fetch_open_def)
    with obey start Inl show ?thesis by simp
  next
    case (Inr h)
    obtain ms where "lifetime nc topic partitions messages = QueueMade q # calls @ [AssignAll] @ drop_calls ms h"
      using True q fwd Inr by (cases "nc_assign nc") (auto simp: lifetime_def fetch_open_def)
    moreover have "ns_client (holding h)" by (simp add: holding_def)
    moreover have "distinct (fh_queue h # fh_partitions h)" using obey Inr by auto
    note drop_calls_obey [OF this, of ms]
    ultimately show ?thesis using obey start Inr by (simp add: obeys_append)
  qed
qed

definition two_queues :: native_client where
  "two_queues = \<lparr>nc_assigned = Inr 0, nc_queue = Some 7, nc_partition_queue = (\<lambda>p. if p = 0 then Some 8 else None), nc_assign = None\<rparr>"

theorem handles_released_witness:
  "lifetime two_queues ''t'' [0, 1] [] =
     [QueueMade 7, PartitionQueue 0 8, Forward 8 (Some 7), Forward 8 None, QueueDestroyed 8, QueueDestroyed 7, ClientDropped] \<and>
   obeys (lifetime two_queues ''t'' [0, 1] []) native_start"
proof -
  have "distinct_handles two_queues [0, 1]" by (simp add: distinct_handles_def two_queues_def)
  from handles_released [OF this, of "''t''" "[]"]
  have "obeys (lifetime two_queues ''t'' [0, 1] []) native_start" by simp
  moreover have "lifetime two_queues ''t'' [0, 1] [] =
     [QueueMade 7, PartitionQueue 0 8, Forward 8 (Some 7), Forward 8 None, QueueDestroyed 8, QueueDestroyed 7, ClientDropped]"
    by (simp add: lifetime_def fetch_open_def two_queues_def drop_calls_def)
  ultimately show ?thesis by blast
qed

end
