(* ===== verification/Transform_Facts.thy ===== *)
theory Transform_Facts
  imports Transform
begin

text \<open>
  What the transformation of \<open>Transform\<close> guarantees: a reference decision over byte strings that every
  call implements whatever buffer it recycles, the fate of the source storage, the bound on retained
  scratch storage, the error policies and the plan.
\<close>

section \<open>A reference for one record\<close>

datatype decision = Drops | Tombstones | Passes bytes | Embeds bytes nat | Projects bytes

fun decision_of :: "action \<Rightarrow> decision" where
  "decision_of Drop = Drops"
| "decision_of Tombstone = Tombstones"
| "decision_of (PassThrough (Exact v)) = Passes (vbytes v)"
| "decision_of (PassThrough (PassJson v n)) = Embeds (vbytes v) n"
| "decision_of (Project v) = Projects (vbytes v)"

definition report_of :: "transform_error + execution \<Rightarrow> transform_error + decision \<times> execution_issue option" where
  "report_of r = bind_r r (\<lambda>x. Inr (decision_of (ex_action x), ex_issue x))"

text \<open>All predicates of a plan in evaluation order, each with what it decides when it is true.\<close>

definition verdicts ::
    "('x, 'i, 'e, 'v) jsonata_engine \<Rightarrow> 'x transform_plan \<Rightarrow> 'i
      \<Rightarrow> ((transform_error + bool) \<times> action) list" where
  "verdicts jx plan input =
     map (\<lambda>i. (predicate jx input i ''drop predicate'' i, Drop)) [0..<length (tp_drops plan)]
     @ map (\<lambda>i. (predicate jx input (length (tp_drops plan) + i) ''tombstone predicate'' i, tombstone_action plan))
         [0..<length (tp_tombstones plan)]"

definition under_policy ::
    "evaluation_policy \<Rightarrow> transform_error + decision \<Rightarrow> transform_error + decision \<times> execution_issue option" where
  "under_policy policy r = (case r of
      Inr d \<Rightarrow> Inr (d, None)
    | Inl e \<Rightarrow> (case policy of EvalFail \<Rightarrow> Inl e
        | EvalDrop \<Rightarrow> Inr (Drops, Some IssueEvaluation)
        | EvalTombstone \<Rightarrow> Inr (Tombstones, Some IssueEvaluation)))"

definition rendered ::
    "('x, 'i, 'e, 'v) jsonata_engine \<Rightarrow> 'x transform_plan \<Rightarrow> bool \<Rightarrow> 'i \<Rightarrow> bytes \<Rightarrow> transform_error + decision" where
  "rendered jx plan embeds input payload =
     (if tp_projection plan \<noteq> None then
        (case jx_write_json jx input (length (tp_drops plan) + length (tp_tombstones plan)) vec_new of
           (Inl m, _) \<Rightarrow> Inl (TE_Evaluation ''projection'' m)
         | (Inr False, _) \<Rightarrow> Inl (TE_Evaluation ''projection'' ''projection emitted no results'')
         | (Inr True, out) \<Rightarrow> Inr (Projects (vbytes out)))
      else if embeds then
        (case jx_write_compact jx input vec_new of
           (Inl m, _) \<Rightarrow> Inl (TE_Evaluation ''envelope payload'' m)
         | (Inr _, out) \<Rightarrow> Inr (Embeds (vbytes out) (length payload)))
      else Inr (Passes payload))"

definition decide ::
    "('x, 'i, 'e, 'v) jsonata_engine \<Rightarrow> 'x transform_plan \<Rightarrow> bool \<Rightarrow> error_policies \<Rightarrow> bytes option
      \<Rightarrow> transform_error + decision \<times> execution_issue option" where
  "decide jx plan embeds policies payload = (case payload of
      None \<Rightarrow> Inr (decision_of (tombstone_action plan), None)
    | Some bs \<Rightarrow>
        if \<not> tp_parses_json plan then Inr (Passes bs, None)
        else case jx_prepare jx (input_plan plan) bs of
          Inl m \<Rightarrow> (case ep_invalid_json policies of
              JsonFail \<Rightarrow> Inl (TE_InvalidJson m)
            | JsonDrop \<Rightarrow> Inr (Drops, Some IssueInvalidJson)
            | JsonTombstone \<Rightarrow> Inr (Tombstones, Some IssueInvalidJson)
            | JsonPass \<Rightarrow> Inr (Passes bs, Some IssueInvalidJson))
        | Inr input \<Rightarrow> under_policy (ep_evaluation policies)
            (case find (\<lambda>(r, _). r \<noteq> Inr False) (verdicts jx plan input) of
               Some (Inl e, _) \<Rightarrow> Inl e
             | Some (Inr _, a) \<Rightarrow> Inr (decision_of a)
             | None \<Rightarrow> rendered jx plan embeds input bs))"

section \<open>The predicate loops\<close>

lemma predicate_loop_find:
  "predicate_loop jx input base category k n =
     (case find (\<lambda>r. r \<noteq> Inr False) (map (\<lambda>i. predicate jx input (base + i) category i) [k..<k + n]) of
        None \<Rightarrow> Inr False | Some r \<Rightarrow> r)"
proof (induction n arbitrary: k)
  case 0
  then show ?case by simp
next
  case (Suc n)
  have "[k..<k + Suc n] = k # [Suc k..<Suc k + n]" by (simp add: upt_conv_Cons)
  with Suc [of "Suc k"] show ?case
    by (cases "predicate jx input (base + k) category k") (auto split: option.split)
qed

lemma find_append: "find P (xs @ ys) = (case find P xs of None \<Rightarrow> find P ys | Some x \<Rightarrow> Some x)"
  by (induction xs) auto

lemma find_pair:
  "find (\<lambda>(r, _). r \<noteq> Inr False) (map (\<lambda>i. (f i, a)) xs) =
     (case find (\<lambda>r. r \<noteq> Inr False) (map f xs) of None \<Rightarrow> None | Some r \<Rightarrow> Some (r, a))"
  by (induction xs) auto

lemma evaluate_predicates_find:
  "evaluate_predicates jx plan input =
     (case find (\<lambda>(r, _). r \<noteq> Inr False) (verdicts jx plan input) of
        None \<Rightarrow> Inr None
      | Some (Inl e, _) \<Rightarrow> Inl e
      | Some (Inr _, a) \<Rightarrow> Inr (Some a))"
proof -
  define D where "D = find (\<lambda>r. r \<noteq> Inr False)
    (map (\<lambda>i. predicate jx input i ''drop predicate'' i) [0..<length (tp_drops plan)])"
  define T where "T = find (\<lambda>r. r \<noteq> Inr False)
    (map (\<lambda>i. predicate jx input (length (tp_drops plan) + i) ''tombstone predicate'' i)
      [0..<length (tp_tombstones plan)])"
  have decisive: "D \<noteq> Some (Inr False)" "T \<noteq> Some (Inr False)"
    unfolding D_def T_def by (auto simp: find_Some_iff)
  have "find (\<lambda>(r, _). r \<noteq> Inr False) (verdicts jx plan input) =
    (case D of None \<Rightarrow> map_option (\<lambda>r. (r, tombstone_action plan)) T | Some r \<Rightarrow> Some (r, Drop))"
    unfolding verdicts_def find_append find_pair D_def [symmetric] T_def [symmetric]
    by (cases D; cases T) simp_all
  moreover have "evaluate_predicates jx plan input =
     bind_r (case D of None \<Rightarrow> Inr False | Some r \<Rightarrow> r) (\<lambda>hit.
       if hit then Inr (Some Drop)
       else bind_r (case T of None \<Rightarrow> Inr False | Some r \<Rightarrow> r) (\<lambda>hit'.
         if hit' then Inr (Some (tombstone_action plan)) else Inr None))"
    unfolding evaluate_predicates_def predicate_loop_find [where k = 0] add_0_left D_def T_def by (rule refl)
  ultimately show ?thesis
    using decisive by (cases D; cases T) (auto split: sum.split)
qed

section \<open>Every call implements the reference\<close>

text \<open>
  The engine's writers append to the vector they are given (\<open>Vec<u8>\<close> as \<open>io::Write\<close>): what they
  return and write does not depend on the vector's spare capacity.
\<close>

definition ignores_capacity :: "('x, 'i, 'e, 'v) jsonata_engine \<Rightarrow> bool" where
  "ignores_capacity jx \<longleftrightarrow> (\<forall>i k v v'. vbytes v = vbytes v' \<longrightarrow>
     fst (jx_write_json jx i k v) = fst (jx_write_json jx i k v') \<and>
     vbytes (snd (jx_write_json jx i k v)) = vbytes (snd (jx_write_json jx i k v')) \<and>
     fst (jx_write_compact jx i v) = fst (jx_write_compact jx i v') \<and>
     vbytes (snd (jx_write_compact jx i v)) = vbytes (snd (jx_write_compact jx i v')))"

lemma ignores_capacity_cleared:
  assumes "ignores_capacity jx"
  shows "fst (jx_write_json jx i k (vec_clear v)) = fst (jx_write_json jx i k vec_new)"
    "vbytes (snd (jx_write_json jx i k (vec_clear v))) = vbytes (snd (jx_write_json jx i k vec_new))"
    "fst (jx_write_compact jx i (vec_clear v)) = fst (jx_write_compact jx i vec_new)"
    "vbytes (snd (jx_write_compact jx i (vec_clear v))) = vbytes (snd (jx_write_compact jx i vec_new))"
proof -
  have "vbytes (vec_clear v) = vbytes vec_new" by simp
  with assms show "fst (jx_write_json jx i k (vec_clear v)) = fst (jx_write_json jx i k vec_new)"
    "vbytes (snd (jx_write_json jx i k (vec_clear v))) = vbytes (snd (jx_write_json jx i k vec_new))"
    "fst (jx_write_compact jx i (vec_clear v)) = fst (jx_write_compact jx i vec_new)"
    "vbytes (snd (jx_write_compact jx i (vec_clear v))) = vbytes (snd (jx_write_compact jx i vec_new))"
    unfolding ignores_capacity_def by blast+
qed

lemma report_of_result: "report_of (evaluation_result r policy) = under_policy policy (bind_r r (\<lambda>a. Inr (decision_of a)))"
  by (cases r; cases policy) (simp_all add: report_of_def evaluation_result_def under_policy_def)

lemma report_of_invalid:
  "report_of (fst (invalid_json policy original m)) = (case policy of
      JsonFail \<Rightarrow> Inl (TE_InvalidJson m)
    | JsonDrop \<Rightarrow> Inr (Drops, Some IssueInvalidJson)
    | JsonTombstone \<Rightarrow> Inr (Tombstones, Some IssueInvalidJson)
    | JsonPass \<Rightarrow> Inr (Passes (vbytes original), Some IssueInvalidJson))"
  by (cases policy) (simp_all add: report_of_def invalid_json_def)

lemma evaluation_error_plain [simp]: "evaluation_error category None m = TE_Evaluation category m"
  by (simp add: evaluation_error_def)

lemma render_into_cleared:
  assumes "ignores_capacity jx"
  shows "fst (render_into jx plan i (vec_clear v)) = fst (render_into jx plan i vec_new) \<and>
    vbytes (snd (render_into jx plan i (vec_clear v))) = vbytes (snd (render_into jx plan i vec_new))"
  using ignores_capacity_cleared [OF assms] by (simp add: render_into_def split_beta)

lemma rendered_into:
  "rendered jx plan embeds input payload =
     (if tp_projection plan = None \<and> \<not> embeds then Inr (Passes payload)
      else case render_into jx plan input vec_new of
        (Inl m, _) \<Rightarrow> Inl (TE_Evaluation (render_category plan) m)
      | (Inr _, out) \<Rightarrow> Inr (if tp_projection plan \<noteq> None then Projects (vbytes out)
                             else Embeds (vbytes out) (length payload)))"
  by (auto simp: rendered_def render_into_def render_category_def bind_r_def split: prod.splits sum.splits bool.splits)

lemma render_report_decides:
  assumes "ignores_capacity jx"
  shows "report_of (fst (render_report jx policies payload input w)) =
    under_policy (ep_evaluation policies) (rendered jx (wk_plan w) (wk_embeds_json w) input (vbytes payload))"
proof -
  obtain r out where into: "render_into jx (wk_plan w) input (vec_clear (wk_output w)) = (r, out)"
    by (metis prod.exhaust)
  obtain r' out' where new: "render_into jx (wk_plan w) input vec_new = (r', out')"
    by (metis prod.exhaust)
  have "r' = r" "vbytes out' = vbytes out"
    using render_into_cleared [OF assms, of "wk_plan w" input "wk_output w"] into new by simp_all
  with into new show ?thesis
    by (cases r) (simp_all add: render_report_def rendered_into report_of_result)
qed

lemma execute_report_decides:
  assumes "ignores_capacity jx"
  shows "report_of (fst (execute_report jx policies src w)) =
    decide jx (wk_plan w) (wk_embeds_json w) policies (map_option vbytes src)"
proof (cases src)
  case None
  then show ?thesis
    by (simp add: execute_report_def decide_def report_of_result under_policy_def)
next
  case (Some payload)
  show ?thesis
  proof (cases "jx_prepare jx (input_plan (wk_plan w)) (vbytes payload)")
    case (Inl m)
    with Some report_of_invalid [of "ep_invalid_json policies" payload m] show ?thesis
      by (cases "invalid_json (ep_invalid_json policies) payload m")
        (simp add: execute_report_def decide_def report_of_result under_policy_def)
  next
    case (Inr input)
    show ?thesis
    proof (cases "find (\<lambda>(r, _). r \<noteq> Inr False) (verdicts jx (wk_plan w) input)")
      case None
      with Some Inr render_report_decides [OF assms, of policies payload input w] show ?thesis
        by (simp add: execute_report_def decide_def evaluate_predicates_find report_of_result under_policy_def)
    next
      case (Some hit)
      obtain r a where "hit = (r, a)" by (metis prod.exhaust)
      with \<open>src = Some payload\<close> Inr Some show ?thesis
        by (cases r) (simp_all add: execute_report_def decide_def report_of_result under_policy_def
            evaluate_predicates_find)
    qed
  qed
qed

lemma worker_static:
  "wk_plan (snd (snd (execute_report jx policies src w))) = wk_plan w"
  "wk_embeds_json (snd (snd (execute_report jx policies src w))) = wk_embeds_json w"
  "wk_max_recycled (snd (snd (execute_report jx policies src w))) = wk_max_recycled w"
  by (simp_all add: execute_report_def render_report_def split: option.split sum.split prod.split)

lemma scratch_bounded:
  assumes "vcap (wk_output w) \<le> wk_max_recycled w"
  shows "vcap (wk_output (snd (snd (execute_report jx policies src w)))) \<le> wk_max_recycled w"
  using assms
  by (simp add: execute_report_def render_report_def keep_scratch_def split: option.split sum.split prod.split)

text \<open>A small engine that meets the law, for concrete runs: an expression is its own constant value.\<close>

definition sample_engine :: "(string, string list \<times> bytes, string, string) jsonata_engine" where
  "sample_engine =
     \<lparr>jx_from_json = Inr, jx_is_object = (\<lambda>v. True), jx_compile = (\<lambda>vars src. Inr src),
      jx_prepare = (\<lambda>xs bs. if bs = [] then Inl ''empty'' else Inr (xs, bs)),
      jx_evaluate = (\<lambda>(xs, bs) i. Inr (xs ! i)), jx_single = (\<lambda>e. Inr (Some e)),
      jx_as_bool = (\<lambda>v. if v = ''true'' then Some True else if v = ''false'' then Some False else None),
      jx_write_json = (\<lambda>(xs, bs) i v. (Inr True, vec_extend (\<lambda>c n. n) v (xs ! i))),
      jx_write_compact = (\<lambda>(xs, bs) v. (Inr (), vec_extend (\<lambda>c n. n) v bs))\<rparr>"

lemma sample_engine_law: "ignores_capacity sample_engine"
  by (simp add: ignores_capacity_def sample_engine_def)

definition sample_plan :: "string list \<Rightarrow> string list \<Rightarrow> string option \<Rightarrow> string transform_plan" where
  "sample_plan ds ts pr = \<lparr>tp_drops = ds, tp_tombstones = ts, tp_drop_tombstones = False,
     tp_projection = pr, tp_parses_json = True\<rparr>"

definition lenient :: error_policies where
  "lenient = \<lparr>ep_invalid_json = JsonDrop, ep_evaluation = EvalTombstone\<rparr>"

text \<open>
  C11. For every engine that only appends to its buffer, a worker's outcome for a record is the
  reference decision: tombstones bypass every expression; an unparsed plan passes the exact bytes;
  otherwise the first decisive predicate, drops before tombstones, fixes the action or the error, and
  only then is the projection or the compacted payload rendered. What an earlier record left in the
  recycled buffer never shows.
\<close>

theorem transform_decides:
  assumes "ignores_capacity jx"
  shows "report_of (fst (execute_report jx policies src w)) =
    decide jx (wk_plan w) (wk_embeds_json w) policies (map_option vbytes src)"
  by (rule execute_report_decides [OF assms])

theorem transform_decides_witness:
  "report_of (fst (execute_report sample_engine lenient (Some (to_vec ''{}''))
     ((worker_new (sample_plan [''false''] [''false''] (Some ''7'')) False 100)\<lparr>wk_output := to_vec ''stale''\<rparr>)))
   = Inr (Projects ''7'', None)
   \<and> report_of (fst (execute_report sample_engine lenient (Some (to_vec ''{}''))
     (worker_new (sample_plan [''false'', ''x''] [''true''] (Some ''7'')) False 100)))
   = Inr (Tombstones, Some IssueEvaluation)"
  unfolding transform_decides [OF sample_engine_law]
  by (simp add: decide_def sample_engine_def sample_plan_def worker_new_def verdicts_def predicate_def
      input_plan_def rendered_def under_policy_def lenient_def upt_rec)

text \<open>
  A record's payload storage has exactly one owner afterwards: it is left with the worker's caller
  unless the action carries payload bytes, in which case it was moved into the action or into the
  scratch buffer, and it is never duplicated or changed.
\<close>

theorem source_storage_once:
  "fst (snd (execute_report jx policies src w)) =
     (case fst (execute_report jx policies src w) of
        Inr x \<Rightarrow> (case ex_action x of PassThrough _ \<Rightarrow> None | Project _ \<Rightarrow> None | _ \<Rightarrow> src)
      | Inl _ \<Rightarrow> src)"
proof (cases src)
  case None
  then show ?thesis
    by (simp add: execute_report_def evaluation_result_def tombstone_action_def)
next
  case (Some payload)
  have failed: "(case evaluation_result (Inl e) p of
      Inr x \<Rightarrow> (case ex_action x of PassThrough _ \<Rightarrow> None | Project _ \<Rightarrow> None | _ \<Rightarrow> src)
    | Inl _ \<Rightarrow> src) = src" for e p
    by (cases p) (simp_all add: evaluation_result_def)
  show ?thesis
  proof (cases "jx_prepare jx (input_plan (wk_plan w)) (vbytes payload)")
    case (Inl m)
    with Some show ?thesis
      by (cases "ep_invalid_json policies")
        (simp_all add: execute_report_def invalid_json_def evaluation_result_def)
  next
    case (Inr input)
    show ?thesis
    proof (cases "evaluate_predicates jx (wk_plan w) input")
      case (Inl e)
      with Some Inr failed [of e "ep_evaluation policies"] show ?thesis
        by (simp add: execute_report_def evaluation_result_def [of "Inr _"])
    next
      case verdict: (Inr v)
      show ?thesis
      proof (cases v)
        case None
        obtain r out where "render_into jx (wk_plan w) input (vec_clear (wk_output w)) = (r, out)"
          by (metis prod.exhaust)
        with Some Inr verdict None failed show ?thesis
          by (cases r) (simp_all add: execute_report_def render_report_def evaluation_result_def [of "Inr _"])
      next
        case (Some a)
        with verdict have "a = Drop \<or> a = Tombstone"
          by (auto simp: evaluate_predicates_def bind_r_Inr_iff tombstone_action_def split: if_splits)
        with \<open>src = Some payload\<close> Inr verdict Some show ?thesis
          by (auto simp: execute_report_def evaluation_result_def)
      qed
    qed
  qed
qed

text \<open>
  Errors stop the pipeline only on request: a transform error comes out only under the \<open>fail\<close>
  policy for its kind, and only for a record with a payload that the plan parses.
\<close>

theorem errors_only_under_fail:
  "case fst (execute_report jx policies src w) of
     Inr x \<Rightarrow> (case ex_issue x of
        None \<Rightarrow> True
      | Some IssueInvalidJson \<Rightarrow> ep_invalid_json policies \<noteq> JsonFail \<and> src \<noteq> None \<and> tp_parses_json (wk_plan w)
      | Some IssueEvaluation \<Rightarrow> ep_evaluation policies \<noteq> EvalFail \<and> src \<noteq> None \<and> tp_parses_json (wk_plan w))
   | Inl (TE_InvalidJson _) \<Rightarrow> ep_invalid_json policies = JsonFail \<and> src \<noteq> None \<and> tp_parses_json (wk_plan w)
   | Inl (TE_Evaluation _ _) \<Rightarrow> ep_evaluation policies = EvalFail \<and> src \<noteq> None \<and> tp_parses_json (wk_plan w)"
proof -
  have pred: "predicate jx input i category k = Inl e \<Longrightarrow> \<exists>c m. e = TE_Evaluation c m" for input i category k e
    by (cases "Option.bind (projr (bind_r (jx_evaluate jx input i) (jx_single jx))) (jx_as_bool jx)")
      (auto simp: predicate_def bind_r_Inl_iff evaluation_error_def map_err_def split: sum.splits)
  have loop: "predicate_loop jx input base category k n = Inl e \<Longrightarrow> \<exists>c m. e = TE_Evaluation c m"
      for input base category k n e
    by (induction n arbitrary: k) (auto simp: bind_r_Inl_iff dest: pred split: if_splits)
  have preds: "evaluate_predicates jx plan input = Inl e \<Longrightarrow> \<exists>c m. e = TE_Evaluation c m" for plan input e
    by (auto simp: evaluate_predicates_def bind_r_Inl_iff dest: loop split: if_splits)
  show ?thesis
    by (cases "ep_invalid_json policies"; cases "ep_evaluation policies")
      (auto simp: execute_report_def render_report_def invalid_json_def evaluation_result_def evaluation_error_def
        dest: preds split: sum.split option.split prod.split)
qed

section \<open>What reaches the writer\<close>

text \<open>
  The writer (\<open>write_action\<close> in \<open>src/runtime.rs\<close>) refuses exact bytes inside a JSON-value envelope and
  compacted JSON outside one.
\<close>

definition fits_output :: "bool \<Rightarrow> action \<Rightarrow> bool" where
  "fits_output embeds a = (case a of
      PassThrough (Exact _) \<Rightarrow> \<not> embeds
    | PassThrough (PassJson _ _) \<Rightarrow> embeds
    | _ \<Rightarrow> True)"

lemma execute_report_fits:
  assumes "wk_embeds_json w \<Longrightarrow> tp_parses_json (wk_plan w) \<and> ep_invalid_json policies \<noteq> JsonPass"
    and "fst (execute_report jx policies src w) = Inr x"
  shows "fits_output (wk_embeds_json w) (ex_action x)"
proof -
  have verdict: "evaluate_predicates jx plan input = Inr (Some a) \<Longrightarrow> a = Drop \<or> a = Tombstone" for plan input a
    by (auto simp: evaluate_predicates_def bind_r_Inr_iff tombstone_action_def split: if_splits)
  show ?thesis
    using assms
    by (cases "ep_invalid_json policies"; cases "ep_evaluation policies")
      (auto simp: execute_report_def render_report_def invalid_json_def evaluation_result_def fits_output_def
        tombstone_action_def
        dest!: verdict split: sum.splits option.splits prod.splits if_splits)
qed

section \<open>The plan\<close>

lemma compile_predicates_ok:
  "compile_predicates jx vars category i srcs = Inr xs \<longleftrightarrow> map (jx_compile jx vars) srcs = map Inr xs"
  by (induction srcs arbitrary: i xs)
    (auto simp: bind_r_Inr_iff compile_expression_def Cons_eq_map_conv)

lemma compile_predicates_error:
  assumes "compile_predicates jx vars category i srcs = Inl e"
  shows "\<exists>k m. k < length srcs \<and> e = CompileError (numbered category (i + k)) m \<and>
    jx_compile jx vars (srcs ! k) = Inl m \<and> (\<forall>j < k. \<exists>x. jx_compile jx vars (srcs ! j) = Inr x)"
  using assms
proof (induction srcs arbitrary: i)
  case Nil
  then show ?case by simp
next
  case (Cons src srcs)
  show ?case
  proof (cases "jx_compile jx vars src")
    case (Inl m)
    with Cons.prems show ?thesis
      by (intro exI [of _ 0]) (simp add: compile_expression_def)
  next
    case (Inr x)
    with Cons.prems have "compile_predicates jx vars category (i + 1) srcs = Inl e"
      by (simp add: compile_expression_def bind_r_Inl_iff)
    from Cons.IH [OF this] obtain k m where k: "k < length srcs" "e = CompileError (numbered category (i + 1 + k)) m"
      "jx_compile jx vars (srcs ! k) = Inl m" "\<forall>j < k. \<exists>x. jx_compile jx vars (srcs ! j) = Inr x" by blast
    with Inr show ?thesis
      by (intro exI [of _ "Suc k"] exI [of _ m]) (auto simp: less_Suc_eq_0_disj)
  qed
qed

lemma build_plan_iff:
  "build_plan jx drops tombs drop_tombs projection variables force = Inr plan \<longleftrightarrow>
     (\<exists>vars. parse_variables jx variables = Inr vars
       \<and> map (jx_compile jx vars) drops = map Inr (tp_drops plan)
       \<and> map (jx_compile jx vars) tombs = map Inr (tp_tombstones plan)
       \<and> map_option (jx_compile jx vars) projection = map_option Inr (tp_projection plan)
       \<and> tp_drop_tombstones plan = drop_tombs
       \<and> tp_parses_json plan = (force \<or> 0 < length (input_plan plan)))"
  by (cases plan; cases projection)
    (auto simp: build_plan_def bind_r_Inr_iff compile_predicates_ok compile_expression_def input_plan_def
      dest: map_eq_imp_length_eq split: option.splits)

text \<open>
  A plan is built exactly when the variables are a JSON object and every expression compiles against
  them; it then holds the compiled expressions in the order given, and it parses payloads exactly when
  an expression or the output needs them.
\<close>

theorem build_plan_correct:
  "build_plan jx drops tombs drop_tombs projection variables force = Inr plan \<longleftrightarrow>
     (\<exists>vars. parse_variables jx variables = Inr vars
       \<and> map (jx_compile jx vars) drops = map Inr (tp_drops plan)
       \<and> map (jx_compile jx vars) tombs = map Inr (tp_tombstones plan)
       \<and> map_option (jx_compile jx vars) projection = map_option Inr (tp_projection plan)
       \<and> tp_drop_tombstones plan = drop_tombs
       \<and> tp_parses_json plan = (force \<or> 0 < length (input_plan plan)))"
  by (rule build_plan_iff)

end
