(* ===== verification/Worker.thy ===== *)
theory Worker
  imports Config Stats Transform_Facts Payload_Buffers
begin

text \<open>
  \<open>worker_loop\<close> of \<open>src/runtime.rs\<close>: an evaluator takes batches from the work channel, runs each record through
  its \<open>Worker\<close> and sends one completion per record. A panic inside the engine is caught per record:
  \<open>panics\<close> says on which payloads that happens and \<open>unwound\<close> what is left of the source and the
  scratch buffer then (parameters, the engine is not source code).
\<close>

definition evaluator_worker :: "'x runtime_config \<Rightarrow> 'x worker" where
  "evaluator_worker cf =
     worker_new (cf_transform cf) (embeds_json (cf_output cf))
       (min (max_inflight_bytes (cf_limits cf)) max_reusable_payload_capacity)"

definition at_record :: "'x runtime_config \<Rightarrow> owned_record \<Rightarrow> string" where
  "at_record cf r = '' at '' @ cf_topic cf @ '' partition '' @ dec_int (r_partition r)
     @ '' offset '' @ dec_int (r_offset r)"

definition record_panics :: "(bytes \<Rightarrow> bool) \<Rightarrow> owned_record \<Rightarrow> bool" where
  "record_panics panics r = (case r_payload r of None \<Rightarrow> False | Some v \<Rightarrow> panics (vbytes v))"

text \<open>One work item: \<open>catch_unwind\<close> around \<open>execute_report\<close>, statistics, and the completion.\<close>

definition complete_item ::
    "('x, 'i, 'e, 'v) jsonata_engine \<Rightarrow> (bytes \<Rightarrow> bool) \<Rightarrow> (vec \<Rightarrow> vec \<Rightarrow> vec option \<times> vec)
      \<Rightarrow> 'x runtime_config \<Rightarrow> nat \<Rightarrow> work_item \<Rightarrow> 'x worker \<times> stats \<Rightarrow> completion \<times> 'x worker \<times> stats" where
  "complete_item jx panics unwound cf consumer work s =
     (case s of (w, st) \<Rightarrow>
      let r = w_record work;
          completion = (\<lambda>spare outcome.
            \<lparr>c_spare_payload = spare, c_consumer = consumer, c_partition = r_partition r,
             c_sequence = w_sequence work, c_retained_bytes = r_retained_bytes r,
             c_source = source_of r, c_outcome = outcome\<rparr>)
      in if record_panics panics r
         then (case unwound (the (r_payload r)) (wk_output w) of (left, scratch) \<Rightarrow>
                 (completion left (Fatal (''compute worker panicked'' @ at_record cf r)),
                  w\<lparr>wk_output := scratch\<rparr>, st))
         else (case execute_report jx (cf_errors cf) (r_payload r) w of
                (Inr x, left, w') \<Rightarrow>
                  (completion left (Done (ex_action x)), w',
                   stats_transformed (ex_action x) (ex_issue x) (r_payload r = None) st)
              | (Inl e, left, w') \<Rightarrow>
                  (completion left (Fatal (''transform failed'' @ at_record cf r @ '': '' @ transform_error_text e)), w',
                   stats_failed e st)))"

fun complete_items ::
    "('x, 'i, 'e, 'v) jsonata_engine \<Rightarrow> (bytes \<Rightarrow> bool) \<Rightarrow> (vec \<Rightarrow> vec \<Rightarrow> vec option \<times> vec)
      \<Rightarrow> 'x runtime_config \<Rightarrow> nat \<Rightarrow> work_item list
      \<Rightarrow> 'x worker \<times> stats \<Rightarrow> completion list \<times> 'x worker \<times> stats" where
  "complete_items jx panics unwound cf consumer [] s = ([], s)"
| "complete_items jx panics unwound cf consumer (work # works) s =
     (case complete_item jx panics unwound cf consumer work s of (c, s1) \<Rightarrow>
       (case complete_items jx panics unwound cf consumer works s1 of (cs, s') \<Rightarrow> (c # cs, s')))"

text \<open>
  The loop over the work channel. \<open>sends\<close> is what the completion channel answers to each send; the
  loop ends when it refuses one (every receiver gone) or the work channel is closed and drained.
\<close>

fun worker_loop ::
    "('x, 'i, 'e, 'v) jsonata_engine \<Rightarrow> (bytes \<Rightarrow> bool) \<Rightarrow> (vec \<Rightarrow> vec \<Rightarrow> vec option \<times> vec)
      \<Rightarrow> 'x runtime_config \<Rightarrow> (nat \<Rightarrow> bool)
      \<Rightarrow> record_batch list \<Rightarrow> 'x worker \<times> stats \<Rightarrow> completion_batch list \<times> 'x worker \<times> stats" where
  "worker_loop jx panics unwound cf sends [] s = ([], s)"
| "worker_loop jx panics unwound cf sends (b # bs) s =
     (case complete_items jx panics unwound cf (rb_consumer b) (rb_items b) s of (cs, s1) \<Rightarrow>
        if \<not> sends 0 then ([], s1)
        else (case worker_loop jx panics unwound cf (\<lambda>n. sends (n + 1)) bs s1 of (out, s') \<Rightarrow>
          (\<lparr>cb_consumer = rb_consumer b, cb_items = cs\<rparr> # out, s')))"

section \<open>What every completion reports\<close>

definition outcome_seen :: "completion_outcome \<Rightarrow> string + decision" where
  "outcome_seen out = (case out of Done a \<Rightarrow> Inr (decision_of a) | Fatal m \<Rightarrow> Inl m)"

text \<open>The outcome a record must get, from the configuration and its own bytes alone.\<close>

definition expected_outcome ::
    "('x, 'i, 'e, 'v) jsonata_engine \<Rightarrow> (bytes \<Rightarrow> bool) \<Rightarrow> 'x runtime_config \<Rightarrow> owned_record
      \<Rightarrow> string + decision" where
  "expected_outcome jx panics cf r =
     (if record_panics panics r
      then Inl (''compute worker panicked'' @ at_record cf r)
      else case decide jx (cf_transform cf) (embeds_json (cf_output cf)) (cf_errors cf)
             (map_option vbytes (r_payload r)) of
        Inl e \<Rightarrow> Inl (''transform failed'' @ at_record cf r @ '': '' @ transform_error_text e)
      | Inr (d, _) \<Rightarrow> Inr d)"

text \<open>A completion without its storage.\<close>

definition observe :: "completion \<Rightarrow> nat \<times> int \<times> nat \<times> nat \<times> source_record \<times> (string + decision)" where
  "observe c = (c_consumer c, c_partition c, c_sequence c, c_retained_bytes c, c_source c,
     outcome_seen (c_outcome c))"

definition expected ::
    "('x, 'i, 'e, 'v) jsonata_engine \<Rightarrow> (bytes \<Rightarrow> bool) \<Rightarrow> 'x runtime_config \<Rightarrow> nat \<Rightarrow> work_item
      \<Rightarrow> nat \<times> int \<times> nat \<times> nat \<times> source_record \<times> (string + decision)" where
  "expected jx panics cf consumer work =
     (consumer, r_partition (w_record work), w_sequence work, r_retained_bytes (w_record work),
      source_of (w_record work), expected_outcome jx panics cf (w_record work))"

definition serves :: "'x runtime_config \<Rightarrow> 'x worker \<Rightarrow> bool" where
  "serves cf w \<longleftrightarrow> wk_plan w = cf_transform cf \<and> wk_embeds_json w = embeds_json (cf_output cf)"

lemma serves_evaluator: "serves cf (evaluator_worker cf)"
  by (simp add: serves_def evaluator_worker_def worker_new_def)

lemma complete_item_expected:
  assumes "ignores_capacity jx" "serves cf w"
    and "complete_item jx panics unwound cf consumer work (w, st) = (c, w', st')"
  shows "observe c = expected jx panics cf consumer work \<and> serves cf w'"
proof -
  let ?r = "w_record work"
  obtain res left w1 where run: "execute_report jx (cf_errors cf) (r_payload ?r) w = (res, left, w1)"
    by (metis prod.exhaust)
  have "decide jx (cf_transform cf) (embeds_json (cf_output cf)) (cf_errors cf)
      (map_option vbytes (r_payload ?r)) = report_of res"
    using execute_report_decides [OF assms(1), of "cf_errors cf" "r_payload ?r" w] run assms(2)
    by (simp add: serves_def)
  moreover have "serves cf w1"
    using worker_static [of jx "cf_errors cf" "r_payload ?r" w] run assms(2) by (simp add: serves_def)
  ultimately show ?thesis
    using assms(2,3) run
    by (cases res; cases "record_panics panics ?r"; cases "unwound (the (r_payload ?r)) (wk_output w)")
      (auto simp: complete_item_def Let_def observe_def expected_def expected_outcome_def outcome_seen_def
        report_of_def serves_def)
qed

lemma complete_items_expected:
  assumes "ignores_capacity jx" "serves cf w"
    and "complete_items jx panics unwound cf consumer works (w, st) = (cs, w', st')"
  shows "map observe cs = map (expected jx panics cf consumer) works \<and> serves cf w'"
  using assms(2,3)
proof (induction works arbitrary: w st cs)
  case Nil
  then show ?case by simp
next
  case (Cons work works)
  obtain c w1 st1 where one: "complete_item jx panics unwound cf consumer work (w, st) = (c, w1, st1)"
    by (metis prod.exhaust)
  obtain cs' where rest: "complete_items jx panics unwound cf consumer works (w1, st1) = (cs', w', st')"
    and cs: "cs = c # cs'"
    using Cons.prems(2) one by (auto split: prod.splits)
  from complete_item_expected [OF assms(1) Cons.prems(1) one] Cons.IH [OF _ rest] cs show ?case by simp
qed

lemma worker_loop_expected:
  assumes "ignores_capacity jx" "serves cf w" "\<forall>n. sends n"
    and "worker_loop jx panics unwound cf sends batches (w, st) = (out, s')"
  shows "map (\<lambda>b. (cb_consumer b, map observe (cb_items b))) out =
    map (\<lambda>b. (rb_consumer b, map (expected jx panics cf (rb_consumer b)) (rb_items b))) batches"
  using assms(2-4)
proof (induction batches arbitrary: w st out sends)
  case Nil
  then show ?case by simp
next
  case (Cons b bs)
  obtain cs w1 st1 where items: "complete_items jx panics unwound cf (rb_consumer b) (rb_items b) (w, st) = (cs, w1, st1)"
    by (metis prod.exhaust)
  obtain out' where rest: "worker_loop jx panics unwound cf (\<lambda>n. sends (n + 1)) bs (w1, st1) = (out', s')"
    and out: "out = \<lparr>cb_consumer = rb_consumer b, cb_items = cs\<rparr> # out'"
    using Cons.prems items by (auto split: prod.splits)
  from complete_items_expected [OF assms(1) Cons.prems(1) items] Cons.IH [OF _ _ rest] Cons.prems(2) out
  show ?case by simp
qed

text \<open>
  C18. While the writer is there to receive, an evaluator turns every batch of its channel, in order, into
  a completion batch for the same consumer with one completion per work item, in order, that carries
  the item's partition, sequence, charge and metadata and the outcome the reference decision gives
  that record on its own; a panic of the engine becomes the fatal outcome of its own record only.
\<close>

theorem worker_completes:
  assumes "ignores_capacity jx" "serves cf w" "\<forall>n. sends n"
    and "worker_loop jx panics unwound cf sends batches (w, st) = (out, s')"
  shows "map (\<lambda>b. (cb_consumer b, map observe (cb_items b))) out =
    map (\<lambda>b. (rb_consumer b, map (expected jx panics cf (rb_consumer b)) (rb_items b))) batches"
  using assms by (rule worker_loop_expected)

definition sample_config :: "string transform_plan \<Rightarrow> output_plan \<Rightarrow> string runtime_config" where
  "sample_config plan out =
     \<lparr>cf_topic = ''t'', cf_partitions = None, cf_start = Beginning, cf_end = None, cf_count_limit = None,
      cf_count_per_partition = None, cf_exit_at_end = False, cf_consumers = 1, cf_range_sharding = False,
      cf_unordered = False, cf_limits = \<lparr>max_inflight_records = 8, max_inflight_bytes = 64,
      max_inflight_per_partition = 8\<rparr>, cf_transform = plan, cf_output = out, cf_errors = lenient,
      cf_kafka_error = KafkaFail, cf_kafka_properties = [], cf_unbuffered = False, cf_stats = False,
      cf_stats_interval = None, cf_quiet = True, cf_check = False\<rparr>"

definition sample_work :: "nat \<Rightarrow> bytes option \<Rightarrow> work_item" where
  "sample_work n payload =
     \<lparr>w_sequence = n, w_record = \<lparr>r_partition = 0, r_offset = int n, r_timestamp = None, r_key = None,
       r_headers = [], r_payload = map_option to_vec payload, r_retained_bytes = 1\<rparr>\<rparr>"

definition sample_batch :: record_batch where
  "sample_batch = \<lparr>rb_consumer = 0, rb_items = [sample_work 0 (Some ''{}''), sample_work 1 (Some ''boom''),
     sample_work 2 None]\<rparr>"

theorem worker_completes_witness:
  fixes cf :: "string runtime_config"
  defines "cf \<equiv> sample_config (sample_plan [''false''] [] None) (FormatPlan None [])"
  shows "map (\<lambda>b. (cb_consumer b, map observe (cb_items b)))
      (fst (worker_loop sample_engine (\<lambda>bs. bs = ''boom'') (\<lambda>v s. (None, s)) cf (\<lambda>n. True) [sample_batch]
        (evaluator_worker cf, stats_new False)))
      = [(0, map (expected sample_engine (\<lambda>bs. bs = ''boom'') cf 0) (rb_items sample_batch))]
    \<and> map (\<lambda>w. expected_outcome sample_engine (\<lambda>bs. bs = ''boom'') cf (w_record w)) (rb_items sample_batch)
      = [Inr (Passes ''{}''), Inl ''compute worker panicked at t partition 0 offset 1'', Inr Tombstones]"
proof
  let ?run = "worker_loop sample_engine (\<lambda>bs. bs = ''boom'') (\<lambda>v s. (None, s)) cf (\<lambda>n. True) [sample_batch]
        (evaluator_worker cf, stats_new False)"
  have "rb_consumer sample_batch = 0" by (simp add: sample_batch_def)
  with worker_completes [OF sample_engine_law serves_evaluator _ prod.collapse [symmetric, of ?run]]
  show "map (\<lambda>b. (cb_consumer b, map observe (cb_items b))) (fst ?run)
      = [(0, map (expected sample_engine (\<lambda>bs. bs = ''boom'') cf 0) (rb_items sample_batch))]"
    by simp
  show "map (\<lambda>w. expected_outcome sample_engine (\<lambda>bs. bs = ''boom'') cf (w_record w)) (rb_items sample_batch)
      = [Inr (Passes ''{}''), Inl ''compute worker panicked at t partition 0 offset 1'', Inr Tombstones]"
    by (simp add: expected_outcome_def cf_def sample_config_def sample_plan_def sample_work_def sample_batch_def
        record_panics_def decide_def sample_engine_def verdicts_def predicate_def input_plan_def under_policy_def
        rendered_def tombstone_action_def embeds_json_def at_record_def dec_int_def dec_nat.simps digit_char_def)
qed

end
