(* ===== verification/Orderer.thy ===== *)
theory Orderer
  imports Runtime_Types "HOL-Library.Multiset"
begin

text \<open>
  The completion frontier of \<open>src/runtime/state.rs\<close>: \<open>Orderer::insert\<close> holds completions that are
  ahead of their partition's next sequence in a \<open>BTreeMap\<close> and, when the gap closes, drains the
  contiguous run; \<open>take_pending\<close> empties it at shutdown.
\<close>

section \<open>State and operations\<close>

record partition_order =
  po_next :: nat
  po_pending :: "(nat, completion) btree"

type_synonym orderer = "(int, partition_order) btree"

lemma order_update [simp]:
  fixes s :: partition_order
  shows "s\<lparr>po_next := n, po_pending := m\<rparr> = \<lparr>po_next = n, po_pending = m\<rparr>"
  by simp

text \<open>A duplicate is reported with the completion that was rejected.\<close>

datatype insert_error = DuplicateCompletion int nat

definition new_order :: partition_order where
  "new_order = \<lparr>po_next = 0, po_pending = bt_empty\<rparr>"

text \<open>\<open>while let Some(completion) = pending.remove(&next_sequence)\<close>.\<close>

function drain ::
    "nat \<Rightarrow> (nat, completion) btree \<Rightarrow> completion list \<Rightarrow> nat \<times> (nat, completion) btree \<times> completion list"
where
  "drain next pending ready =
     (case bt_get pending next of
        None \<Rightarrow> (next, pending, ready)
      | Some c \<Rightarrow> drain (u64_inc next) (bt_remove next pending) (ready @ [c]))"
  by pat_completeness auto
termination
proof (relation "measure (\<lambda>(_, pending, _). length pending)")
  fix "next" :: nat and pending :: "(nat, completion) btree" and ready c
  assume "bt_get pending next = Some c"
  then have "(next, c) \<in> set pending" by (simp add: bt_get_def map_of_SomeD)
  then have "length (bt_remove next pending) < length pending"
    unfolding bt_remove_def by (auto intro: length_filter_less)
  then show "((u64_inc next, bt_remove next pending, ready @ [c]), next, pending, ready)
      \<in> measure (\<lambda>(_, pending, _). length pending)"
    by simp
qed simp

declare drain.simps [simp del]

definition orderer_insert ::
    "completion \<Rightarrow> orderer \<Rightarrow> completion list \<Rightarrow>
       (insert_error \<times> completion + completion list) \<times> orderer" where
  "orderer_insert c ord ready =
     (let p = c_partition c; n = c_sequence c;
          state = (case bt_get ord p of None \<Rightarrow> new_order | Some s \<Rightarrow> s);
          ord1 = bt_insert p state ord
      in if n < po_next state \<or> bt_get (po_pending state) n \<noteq> None
         then (Inl (DuplicateCompletion p n, c), ord1)
         else if n = po_next state
         then (case drain (u64_inc (po_next state)) (po_pending state) (ready @ [c]) of
                 (next', pending', ready') \<Rightarrow>
                   (Inr ready', bt_insert p (state\<lparr>po_next := next', po_pending := pending'\<rparr>) ord1))
         else (Inr ready, bt_insert p (state\<lparr>po_pending := bt_insert n c (po_pending state)\<rparr>) ord1))"

text \<open>\<open>take_pending\<close> returns the pending completions in partition and sequence order.\<close>

definition take_pending :: "orderer \<Rightarrow> completion list \<times> orderer" where
  "take_pending ord =
     (concat (map (\<lambda>s. bt_values (po_pending s)) (bt_values ord)),
      map (\<lambda>(p, s). (p, s\<lparr>po_pending := bt_empty\<rparr>)) ord)"

text \<open>Inserting a sequence of completions one after the other, as the writer does.\<close>

fun insert_all :: "completion list \<Rightarrow> orderer \<Rightarrow> completion list \<Rightarrow>
    (insert_error \<times> completion + completion list) \<times> orderer" where
  "insert_all [] ord ready = (Inr ready, ord)"
| "insert_all (c # cs) ord ready =
     (case orderer_insert c ord ready of
        (Inl e, ord') \<Rightarrow> (Inl e, ord')
      | (Inr ready', ord') \<Rightarrow> insert_all cs ord' ready')"

section \<open>Draining one partition\<close>

text \<open>
  \<open>order_ok p s\<close>: the pending map is ordered, keyed by sequence, holds this partition's completions,
  all strictly ahead of the frontier and below \<open>u64::MAX\<close>.
\<close>

definition order_ok :: "int \<Rightarrow> partition_order \<Rightarrow> bool" where
  "order_ok p s \<longleftrightarrow> bt_ok (po_pending s) \<and> po_next s \<le> u64_max \<and>
     (\<forall>n c. bt_get (po_pending s) n = Some c \<longrightarrow>
        c_sequence c = n \<and> c_partition c = p \<and> po_next s < n \<and> n < u64_max)"

definition orderer_ok :: "orderer \<Rightarrow> bool" where
  "orderer_ok ord \<longleftrightarrow> bt_ok ord \<and> (\<forall>p s. bt_get ord p = Some s \<longrightarrow> order_ok p s)"

declare order_ok_def [inv_defs] orderer_ok_def [inv_defs]

lemma drain_spec:
  assumes "bt_ok pending" and "next \<le> u64_max"
    and "\<forall>n c. bt_get pending n = Some c \<longrightarrow> c_sequence c = n \<and> n < u64_max \<and> next \<le> n"
    and "drain next pending ready = (next', pending', ready')"
  shows "bt_ok pending' \<and> next \<le> next' \<and> next' \<le> u64_max \<and>
    (\<forall>n. next \<le> n \<and> n < next' \<longrightarrow> bt_get pending n \<noteq> None) \<and>
    bt_get pending next' = None \<and>
    (\<forall>n. bt_get pending' n = (if n < next' then None else bt_get pending n)) \<and>
    ready' = ready @ map (\<lambda>n. the (bt_get pending n)) [next..<next']"
  using assms
proof (induction "next" pending ready rule: drain.induct)
  case (1 "next" pending ready)
  show ?case
  proof (cases "bt_get pending next")
    case None
    moreover have "bt_get pending n = None" if "n < next" for n
      using "1.prems"(3) that by (cases "bt_get pending n") fastforce+
    ultimately show ?thesis
      using "1.prems" by (auto simp: drain.simps [of "next"])
  next
    case (Some c)
    with "1.prems" have lt: "next < u64_max" by blast
    then have inc [simp]: "u64_inc next = Suc next" by (rule u64_inc_small)
    from Some "1.prems"(4) have
      run: "drain (Suc next) (bt_remove next pending) (ready @ [c]) = (next', pending', ready')"
      by (simp add: drain.simps [of "next"])
    have IH: "bt_ok pending' \<and> Suc next \<le> next' \<and> next' \<le> u64_max \<and>
      (\<forall>n. Suc next \<le> n \<and> n < next' \<longrightarrow> bt_get (bt_remove next pending) n \<noteq> None) \<and>
      bt_get (bt_remove next pending) next' = None \<and>
      (\<forall>n. bt_get pending' n = (if n < next' then None else bt_get (bt_remove next pending) n)) \<and>
      ready' = (ready @ [c]) @ map (\<lambda>n. the (bt_get (bt_remove next pending) n)) [Suc next..<next']"
    proof (rule "1.IH" [OF Some, unfolded inc])
      show "\<forall>n c. bt_get (bt_remove next pending) n = Some c \<longrightarrow>
          c_sequence c = n \<and> n < u64_max \<and> Suc next \<le> n"
      proof (intro allI impI)
        fix n c'
        assume get: "bt_get (bt_remove next pending) n = Some c'"
        then have "n \<noteq> next" "bt_get pending n = Some c'"
          by (auto simp: bt_get_remove split: if_splits)
        moreover from this have "c_sequence c' = n \<and> n < u64_max \<and> next \<le> n"
          using "1.prems"(3) by blast
        ultimately show "c_sequence c' = n \<and> n < u64_max \<and> Suc next \<le> n" by simp
      qed
    qed (use "1.prems" lt run in \<open>auto simp: bt_ok_remove\<close>)
    then have less: "next < next'" by simp
    have other: "bt_get (bt_remove next pending) n = bt_get pending n" if "next < n" for n
      using that by (simp add: bt_get_remove)
    have "[next..<next'] = next # [Suc next..<next']"
      using less by (rule upt_conv_Cons)
    moreover have "map (\<lambda>n. the (bt_get (bt_remove next pending) n)) [Suc next..<next']
        = map (\<lambda>n. the (bt_get pending n)) [Suc next..<next']"
      by (rule map_cong) (simp_all add: other)
    ultimately have "ready' = ready @ map (\<lambda>n. the (bt_get pending n)) [next..<next']"
      using IH Some by simp
    moreover have "bt_get pending n \<noteq> None" if "next \<le> n" "n < next'" for n
    proof (cases "n = next")
      case True
      with Some show ?thesis by simp
    next
      case False
      with that have "Suc next \<le> n" by simp
      with that(2) IH have "bt_get (bt_remove next pending) n \<noteq> None" by blast
      with False show ?thesis by (simp add: bt_get_remove)
    qed
    moreover have "bt_get pending next' = None"
      using IH other [OF less] by simp
    moreover have "bt_get pending' n = (if n < next' then None else bt_get pending n)" for n
      using IH less other [of n] by simp
    ultimately show ?thesis using IH less by simp
  qed
qed

section \<open>One insertion\<close>

text \<open>What the orderer holds for a partition; an absent entry is a fresh one.\<close>

definition order_at :: "orderer \<Rightarrow> int \<Rightarrow> partition_order" where
  "order_at ord p = (case bt_get ord p of None \<Rightarrow> new_order | Some s \<Rightarrow> s)"

lemma order_ok_new [simp]: "order_ok p new_order"
  by (simp add: order_ok_def new_order_def bt.ok_empty)

lemma order_ok_at [simp]: "orderer_ok ord \<Longrightarrow> order_ok p (order_at ord p)"
  by (auto simp: order_at_def orderer_ok_def split: option.splits)

lemma orderer_ok_empty [simp]: "orderer_ok bt_empty"
  by (simp add: orderer_ok_def bt.ok_empty)

lemma order_at_insert: "order_at (bt_insert p s ord) q = (if q = p then s else order_at ord q)"
  by (simp add: order_at_def bt_get_insert)

lemma orderer_ok_insert: "orderer_ok ord \<Longrightarrow> order_ok p s \<Longrightarrow> orderer_ok (bt_insert p s ord)"
  by (auto simp: orderer_ok_def bt_ok_insert bt_get_insert split: if_splits)

text \<open>The three ways an insertion can go, by the sequence and what is pending.\<close>

lemma orderer_insert_duplicate:
  assumes "c_sequence c < po_next (order_at ord (c_partition c)) \<or>
    bt_get (po_pending (order_at ord (c_partition c))) (c_sequence c) \<noteq> None"
  shows "orderer_insert c ord ready
    = (Inl (DuplicateCompletion (c_partition c) (c_sequence c), c),
       bt_insert (c_partition c) (order_at ord (c_partition c)) ord)"
  using assms by (simp add: orderer_insert_def order_at_def Let_def)

lemma orderer_insert_ahead:
  assumes "po_next (order_at ord (c_partition c)) < c_sequence c"
    and "bt_get (po_pending (order_at ord (c_partition c))) (c_sequence c) = None"
    and "orderer_insert c ord ready = (res, ord')"
  shows "res = Inr ready" and
    "order_at ord' q = (if q = c_partition c
       then (order_at ord q)\<lparr>po_pending := bt_insert (c_sequence c) c (po_pending (order_at ord q))\<rparr>
       else order_at ord q)"
    and "orderer_ok ord \<Longrightarrow> c_sequence c < u64_max \<Longrightarrow> orderer_ok ord'"
proof -
  let ?p = "c_partition c" and ?s = "order_at ord (c_partition c)"
  from assms have o': "res = Inr ready"
    "ord' = bt_insert ?p (?s\<lparr>po_pending := bt_insert (c_sequence c) c (po_pending ?s)\<rparr>)
       (bt_insert ?p ?s ord)"
    by (auto simp: orderer_insert_def order_at_def Let_def)
  then show "res = Inr ready" by simp
  from o' show "order_at ord' q = (if q = ?p
       then (order_at ord q)\<lparr>po_pending := bt_insert (c_sequence c) c (po_pending (order_at ord q))\<rparr>
       else order_at ord q)"
    by (simp add: order_at_insert)
  assume "orderer_ok ord" "c_sequence c < u64_max"
  then have "order_ok ?p (?s\<lparr>po_pending := bt_insert (c_sequence c) c (po_pending ?s)\<rparr>)"
    using order_ok_at [of ord ?p] assms(1)
    by (auto simp: order_ok_def bt_ok_insert bt_get_insert simp del: order_ok_at split: if_splits)
  with \<open>orderer_ok ord\<close> o' show "orderer_ok ord'"
    by (simp add: orderer_ok_insert)
qed

lemma orderer_insert_frontier:
  assumes ok: "orderer_ok ord" and lt: "c_sequence c < u64_max"
    and eq: "c_sequence c = po_next (order_at ord (c_partition c))"
    and run: "orderer_insert c ord ready = (res, ord')"
  obtains next' pending' where
    "order_at ord' (c_partition c) = \<lparr>po_next = next', po_pending = pending'\<rparr>"
    "\<forall>q. q \<noteq> c_partition c \<longrightarrow> order_at ord' q = order_at ord q"
    "c_sequence c < next'"
    "\<forall>n. c_sequence c < n \<longrightarrow> n < next' \<longrightarrow>
       bt_get (po_pending (order_at ord (c_partition c))) n \<noteq> None"
    "bt_get (po_pending (order_at ord (c_partition c))) next' = None"
    "\<forall>n. bt_get pending' n
       = (if n < next' then None else bt_get (po_pending (order_at ord (c_partition c))) n)"
    "res = Inr (ready @ c # map (\<lambda>n. the (bt_get (po_pending (order_at ord (c_partition c))) n))
       [Suc (c_sequence c)..<next'])"
    "orderer_ok ord'"
proof -
  let ?p = "c_partition c" and ?s = "order_at ord (c_partition c)"
  have sok: "order_ok ?p ?s" using ok by simp
  then have none: "bt_get (po_pending ?s) (c_sequence c) = None"
    using eq by (cases "bt_get (po_pending ?s) (c_sequence c)") (auto simp: order_ok_def)
  have inc: "u64_inc (po_next ?s) = Suc (c_sequence c)"
    using lt eq by (simp add: u64_inc_small)
  obtain next' pending' ready' where d:
    "drain (Suc (c_sequence c)) (po_pending ?s) (ready @ [c]) = (next', pending', ready')"
    by (metis prod.exhaust)
  from run eq none d have res: "res = Inr ready'"
    and ord': "ord' = bt_insert ?p (?s\<lparr>po_next := next', po_pending := pending'\<rparr>) (bt_insert ?p ?s ord)"
    by (auto simp: orderer_insert_def order_at_def Let_def inc [unfolded order_at_def, simplified])
  have spec: "bt_ok pending' \<and> Suc (c_sequence c) \<le> next' \<and> next' \<le> u64_max \<and>
    (\<forall>n. Suc (c_sequence c) \<le> n \<and> n < next' \<longrightarrow> bt_get (po_pending ?s) n \<noteq> None) \<and>
    bt_get (po_pending ?s) next' = None \<and>
    (\<forall>n. bt_get pending' n = (if n < next' then None else bt_get (po_pending ?s) n)) \<and>
    ready' = (ready @ [c]) @ map (\<lambda>n. the (bt_get (po_pending ?s) n)) [Suc (c_sequence c)..<next']"
    using sok lt eq by (intro drain_spec [OF _ _ _ d]) (auto simp: order_ok_def Suc_le_eq)
  have "order_ok ?p \<lparr>po_next = next', po_pending = pending'\<rparr>"
    using spec sok by (auto simp: order_ok_def le_less split: if_splits)
  then have "orderer_ok ord'"
    unfolding ord' using ok sok by (simp add: orderer_ok_insert)
  then show thesis
    by (rule that [rotated -1]) (use spec res in \<open>auto simp: ord' order_at_insert\<close>)
qed

section \<open>Nothing is lost or duplicated\<close>

definition pending_of :: "orderer \<Rightarrow> completion multiset" where
  "pending_of ord = mset (fst (take_pending ord))"

lemma pending_of_alt:
  "pending_of ord = mset (concat (map (\<lambda>s. bt_values (po_pending s)) (bt_values ord)))"
  by (simp add: pending_of_def take_pending_def)

lemma pending_of_empty [simp]: "pending_of bt_empty = {#}"
  by (simp add: pending_of_alt bt_empty_def bt_values_def)

lemma pending_of_insert:
  assumes "bt_ok ord"
  shows "pending_of (bt_insert p s ord) + mset (bt_values (po_pending (order_at ord p)))
    = pending_of ord + mset (bt_values (po_pending s))"
proof (cases "bt_get ord p")
  case None
  then show ?thesis
    by (simp add: pending_of_alt bt_mset_insert_absent order_at_def new_order_def bt_empty_def
        bt_values_def [of "[]"])
next
  case (Some s0)
  then show ?thesis
    using bt_mset_update [OF assms Some, of "\<lambda>s. bt_values (po_pending s)" s]
    by (simp add: pending_of_alt order_at_def)
qed

lemma drain_mset:
  "bt_ok pending \<Longrightarrow> drain next pending ready = (next', pending', ready') \<Longrightarrow>
     mset ready' + mset (bt_values pending') = mset ready + mset (bt_values pending)"
proof (induction "next" pending ready rule: drain.induct)
  case (1 "next" pending ready)
  show ?case
  proof (cases "bt_get pending next")
    case None
    with "1.prems" show ?thesis by (simp add: drain.simps [of "next"])
  next
    case (Some c)
    with "1.prems" have "drain (u64_inc next) (bt_remove next pending) (ready @ [c]) = (next', pending', ready')"
      by (simp add: drain.simps [of "next"])
    with "1.IH" [OF Some] "1.prems"(1) show ?thesis
      by (simp add: bt_ok_remove bt_mset_remove [OF _ Some])
  qed
qed

lemma orderer_ok_bt: "orderer_ok ord \<Longrightarrow> bt_ok ord"
  by (simp add: orderer_ok_def)

lemma orderer_insert_conserves:
  assumes "orderer_ok ord" "orderer_insert c ord ready = (Inr ready', ord')"
  shows "mset ready' + pending_of ord' = mset ready + pending_of ord + {#c#}"
proof -
  let ?p = "c_partition c" and ?s = "order_at ord (c_partition c)"
  have ord1: "bt_ok (bt_insert ?p ?s ord)" "order_at (bt_insert ?p ?s ord) ?p = ?s"
    "pending_of (bt_insert ?p ?s ord) = pending_of ord"
    using assms(1) pending_of_insert [of ord ?p ?s]
    by (simp_all add: orderer_ok_bt bt_ok_insert order_at_insert)
  note upd = pending_of_insert [OF ord1(1), of ?p, unfolded ord1(2,3)]
  have pok: "bt_ok (po_pending ?s)"
    using order_ok_at [OF assms(1), of ?p] by (simp add: order_ok_def)
  from assms(2) consider
    (frontier) next' pending' where "c_sequence c = po_next ?s"
      "drain (u64_inc (po_next ?s)) (po_pending ?s) (ready @ [c]) = (next', pending', ready')"
      "ord' = bt_insert ?p \<lparr>po_next = next', po_pending = pending'\<rparr> (bt_insert ?p ?s ord)"
  | (ahead) "bt_get (po_pending ?s) (c_sequence c) = None" "ready' = ready"
      "ord' = bt_insert ?p (?s\<lparr>po_pending := bt_insert (c_sequence c) c (po_pending ?s)\<rparr>)
         (bt_insert ?p ?s ord)"
    by (auto simp: orderer_insert_def order_at_def [symmetric] Let_def split: if_splits prod.splits)
  then show ?thesis
  proof cases
    case frontier
    have "pending_of ord' + mset (bt_values (po_pending ?s)) = pending_of ord + mset (bt_values pending')"
      unfolding frontier(3) using upd [of "\<lparr>po_next = next', po_pending = pending'\<rparr>"] by simp
    from mset_balance [OF drain_mset [OF pok frontier(2)] this] show ?thesis
      by simp
  next
    case ahead
    from upd [of "?s\<lparr>po_pending := bt_insert (c_sequence c) c (po_pending ?s)\<rparr>"]
    show ?thesis unfolding ahead(3)
      by (simp add: ahead bt_mset_insert_new)
  qed
qed

section \<open>Source order within each partition\<close>

definition of_partition :: "int \<Rightarrow> completion list \<Rightarrow> completion list" where
  "of_partition p = filter (\<lambda>c. c_partition c = p)"

lemma of_partition_simps [simp]:
  "of_partition p [] = []"
  "of_partition p (xs @ ys) = of_partition p xs @ of_partition p ys"
  "of_partition p (c # cs) = (if c_partition c = p then c # of_partition p cs else of_partition p cs)"
  by (simp_all add: of_partition_def)

definition completion_key :: "completion \<Rightarrow> int \<times> nat" where
  "completion_key c = (c_partition c, c_sequence c)"

text \<open>
  \<open>tracks cs out ord\<close>: after the completions \<open>cs\<close> arrived, exactly the contiguous prefix of each
  partition is out, and every completion that arrived is out or pending under its key.
\<close>

definition tracks :: "completion set \<Rightarrow> completion list \<Rightarrow> orderer \<Rightarrow> bool" where
  "tracks cs out ord \<longleftrightarrow> orderer_ok ord \<and>
     (\<forall>p. map c_sequence (of_partition p out) = [0..<po_next (order_at ord p)]) \<and>
     (\<forall>c. c \<in> cs \<longleftrightarrow> c \<in> set out \<or>
        bt_get (po_pending (order_at ord (c_partition c))) (c_sequence c) = Some c)"

lemma tracks_empty [simp]: "tracks {} [] bt_empty"
  by (simp add: tracks_def order_at_def new_order_def)

text \<open>A key that never arrived is neither behind the frontier nor pending.\<close>

lemma tracks_fresh:
  assumes "tracks cs out ord" "completion_key c \<notin> completion_key ` cs"
  shows "po_next (order_at ord (c_partition c)) \<le> c_sequence c \<and>
    bt_get (po_pending (order_at ord (c_partition c))) (c_sequence c) = None"
proof
  let ?s = "order_at ord (c_partition c)"
  show "po_next ?s \<le> c_sequence c"
  proof (rule ccontr)
    assume "\<not> po_next ?s \<le> c_sequence c"
    then have "c_sequence c \<in> set (map c_sequence (of_partition (c_partition c) out))"
      using assms(1) by (simp add: tracks_def del: set_map)
    then obtain c' where "c' \<in> set out" "completion_key c' = completion_key c"
      by (auto simp: of_partition_def completion_key_def)
    with assms show False by (metis imageI tracks_def)
  qed
  show "bt_get (po_pending ?s) (c_sequence c) = None"
  proof (cases "bt_get (po_pending ?s) (c_sequence c)")
    case (Some c')
    have "order_ok (c_partition c) ?s" using assms(1) by (simp add: tracks_def)
    with Some have "c_sequence c' = c_sequence c" "c_partition c' = c_partition c"
      by (auto simp: order_ok_def)
    with Some assms(1) have "c' \<in> cs" "completion_key c' = completion_key c"
      by (auto simp: tracks_def completion_key_def)
    with assms(2) show ?thesis by (metis imageI)
  qed simp
qed

lemma of_partition_all: "(\<And>c. c \<in> set cs \<Longrightarrow> c_partition c = p) \<Longrightarrow>
    of_partition q cs = (if q = p then cs else [])"
  by (auto simp: of_partition_def filter_empty_conv intro: filter_True)

lemma tracks_insert:
  assumes tr: "tracks cs out ord" and fresh: "completion_key c \<notin> completion_key ` cs"
    and lt: "c_sequence c < u64_max"
  obtains out' ord' where "orderer_insert c ord out = (Inr out', ord')"
    "tracks (insert c cs) out' ord'" "\<exists>block. out' = out @ block"
proof -
  let ?p = "c_partition c" and ?n = "c_sequence c" and ?s = "order_at ord (c_partition c)"
  have ok: "orderer_ok ord" using tr by (simp add: tracks_def)
  have le: "po_next ?s \<le> ?n" and none: "bt_get (po_pending ?s) ?n = None"
    using tracks_fresh [OF tr fresh] by simp_all
  obtain res ord' where run: "orderer_insert c ord out = (res, ord')"
    by (metis prod.exhaust)
  have member: "d \<in> cs \<longleftrightarrow> d \<in> set out \<or>
      bt_get (po_pending (order_at ord (c_partition d))) (c_sequence d) = Some d" for d
    using tr by (simp add: tracks_def)
  have seqs: "map c_sequence (of_partition q out) = [0..<po_next (order_at ord q)]" for q
    using tr by (simp add: tracks_def)
  consider (ahead) "po_next ?s < ?n" | (frontier) "?n = po_next ?s" using le by linarith
  then show thesis
  proof cases
    case ahead
    note upd = orderer_insert_ahead [OF ahead none run]
    have "d \<in> insert c cs \<longleftrightarrow> d \<in> set out \<or>
        bt_get (po_pending (order_at ord' (c_partition d))) (c_sequence d) = Some d" for d
      using member [of d] fresh none by (auto simp: upd(2) bt_get_insert completion_key_def)
    moreover have "map c_sequence (of_partition q out) = [0..<po_next (order_at ord' q)]" for q
      using seqs [of q] by (simp add: upd(2))
    ultimately have "tracks (insert c cs) out ord'"
      using upd(3) [OF ok lt] by (simp add: tracks_def)
    with run upd(1) show thesis by (intro that [of out ord']) simp_all
  next
    case frontier
    obtain next' pending' where f:
      "order_at ord' ?p = \<lparr>po_next = next', po_pending = pending'\<rparr>"
      "\<forall>q. q \<noteq> ?p \<longrightarrow> order_at ord' q = order_at ord q"
      "?n < next'"
      "\<forall>n. ?n < n \<longrightarrow> n < next' \<longrightarrow> bt_get (po_pending ?s) n \<noteq> None"
      "bt_get (po_pending ?s) next' = None"
      "\<forall>n. bt_get pending' n = (if n < next' then None else bt_get (po_pending ?s) n)"
      "res = Inr (out @ c # map (\<lambda>n. the (bt_get (po_pending ?s) n)) [Suc ?n..<next'])"
      "orderer_ok ord'"
      by (rule orderer_insert_frontier [OF ok lt frontier run]) (rule that)
    define block where "block = c # map (\<lambda>n. the (bt_get (po_pending ?s) n)) [Suc ?n..<next']"
    have held: "c_sequence (the (bt_get (po_pending ?s) n)) = n \<and>
        c_partition (the (bt_get (po_pending ?s) n)) = ?p" if "?n < n" "n < next'" for n
      using f(4) that order_ok_at [OF ok, of ?p] by (auto simp: order_ok_def)
    have part: "of_partition q block = (if q = ?p then block else [])" for q
      by (rule of_partition_all) (auto simp: block_def held)
    have "map (\<lambda>n. c_sequence (the (bt_get (po_pending ?s) n))) [Suc ?n..<next'] = [Suc ?n..<next']"
      by (rule map_idI) (simp add: held)
    then have "map c_sequence block = [?n..<next']"
      using f(3) by (simp add: block_def upt_conv_Cons o_def)
    then have "map c_sequence (of_partition ?p (out @ block)) = [0..<next']"
      using seqs [of ?p] f(3) upt_add_eq_append [of 0 ?n "next' - ?n"] by (simp add: part frontier)
    then have seqs': "map c_sequence (of_partition q (out @ block)) = [0..<po_next (order_at ord' q)]" for q
      using seqs [of q] f(1,2) part by (cases "q = ?p") simp_all
    have block_iff: "d \<in> set block \<longleftrightarrow>
        d = c \<or> (c_partition d = ?p \<and> c_sequence d < next' \<and>
          bt_get (po_pending ?s) (c_sequence d) = Some d)" for d
    proof -
      have "d \<in> set block \<longleftrightarrow> d = c \<or> (\<exists>n. ?n < n \<and> n < next' \<and> bt_get (po_pending ?s) n = Some d)"
      proof -
        have "the (bt_get (po_pending ?s) n) = d \<longleftrightarrow> bt_get (po_pending ?s) n = Some d"
          if "?n < n" "n < next'" for n
          using f(4) that by (cases "bt_get (po_pending ?s) n") auto
        then have "(\<exists>n \<in> {Suc ?n..<next'}. d = the (bt_get (po_pending ?s) n))
            \<longleftrightarrow> (\<exists>n. ?n < n \<and> n < next' \<and> bt_get (po_pending ?s) n = Some d)"
          by (metis Suc_le_eq atLeastLessThan_iff)
        then show ?thesis by (simp add: block_def image_iff)
      qed
      moreover have "bt_get (po_pending ?s) n = Some d \<Longrightarrow>
          n = c_sequence d \<and> c_partition d = ?p \<and> ?n < n" for n
        using order_ok_at [OF ok, of ?p] frontier by (auto simp: order_ok_def)
      ultimately show ?thesis by blast
    qed
    have "d \<in> insert c cs \<longleftrightarrow> d \<in> set (out @ block) \<or>
        bt_get (po_pending (order_at ord' (c_partition d))) (c_sequence d) = Some d" for d
      using member [of d] block_iff [of d] f(1,2,6)
      by (cases "c_partition d = ?p") auto
    with seqs' f(8) have "tracks (insert c cs) (out @ block) ord'"
      by (simp add: tracks_def)
    with run f(7) show thesis
      by (intro that [of "out @ block" ord']) (simp_all add: block_def)
  qed
qed

lemma tracks_insert_all:
  assumes "tracks (set ds) out ord" "distinct (map completion_key (ds @ cs))"
    and "\<forall>c \<in> set cs. c_sequence c < u64_max"
  shows "\<exists>out' ord'. insert_all cs ord out = (Inr out', ord') \<and> tracks (set (ds @ cs)) out' ord'"
  using assms
proof (induction cs arbitrary: ds out ord)
  case Nil
  then show ?case by simp
next
  case (Cons c cs)
  then obtain out1 ord1 where "orderer_insert c ord out = (Inr out1, ord1)"
      "tracks (insert c (set ds)) out1 ord1"
    by (auto elim: tracks_insert [of "set ds" out ord c])
  with Cons.IH [of "ds @ [c]" out1 ord1] Cons.prems show ?case by simp
qed

text \<open>
  C12. Whatever the order in which the workers complete, as long as each (partition, sequence) pair
  completes once, the orderer rejects nothing and puts out, per partition, exactly the completions
  of sequence \<open>0, 1, \<dots>, k - 1\<close> in that order, where \<open>k\<close> is the first sequence not yet
  completed; everything else that arrived is still held.
\<close>

theorem orderer_restores_source_order:
  assumes "distinct (map completion_key cs)" and "\<forall>c \<in> set cs. c_sequence c < u64_max"
  shows "\<exists>out ord. insert_all cs bt_empty [] = (Inr out, ord) \<and>
    (\<forall>p. \<exists>k. map c_sequence (of_partition p out) = [0..<k] \<and>
       k \<notin> c_sequence ` {c \<in> set cs. c_partition c = p}) \<and>
    set out \<subseteq> set cs \<and>
    (\<forall>c \<in> set cs - set out. bt_get (po_pending (order_at ord (c_partition c))) (c_sequence c) = Some c)"
proof -
  from tracks_insert_all [of "[]" "[]" bt_empty cs] assms obtain out ord where
    run: "insert_all cs bt_empty [] = (Inr out, ord)" and tr: "tracks (set cs) out ord"
    by auto
  have "po_next (order_at ord p) \<notin> c_sequence ` {c \<in> set cs. c_partition c = p}" for p
  proof
    assume "po_next (order_at ord p) \<in> c_sequence ` {c \<in> set cs. c_partition c = p}"
    then obtain c where c: "c \<in> set cs" "c_partition c = p" "c_sequence c = po_next (order_at ord p)"
      by auto
    have "order_ok p (order_at ord p)" using tr by (simp add: tracks_def)
    then have "bt_get (po_pending (order_at ord p)) (po_next (order_at ord p)) = None"
      by (cases "bt_get (po_pending (order_at ord p)) (po_next (order_at ord p))")
        (auto simp: order_ok_def)
    with c tr have "c \<in> set out" by (auto simp: tracks_def)
    then have "c_sequence c \<in> set (map c_sequence (of_partition p out))"
      using c(2) by (auto simp: of_partition_def)
    with c(3) tr show False by (simp add: tracks_def del: set_map)
  qed
  with run tr show ?thesis
    by (intro exI [of _ out] exI [of _ ord]) (auto simp: tracks_def)
qed

definition sample_arrivals :: "completion list" where
  "sample_arrivals =
     [sample_completion 0 2 1 Tombstone, sample_completion 0 1 1 Drop,
      sample_completion 1 0 1 Drop, sample_completion 0 0 1 Tombstone,
      sample_completion 1 2 1 Drop]"

theorem orderer_restores_source_order_witness:
  "\<exists>out ord. insert_all sample_arrivals bt_empty [] = (Inr out, ord) \<and>
    (\<forall>p. \<exists>k. map c_sequence (of_partition p out) = [0..<k] \<and>
       k \<notin> c_sequence ` {c \<in> set sample_arrivals. c_partition c = p}) \<and>
    set out \<subseteq> set sample_arrivals \<and>
    (\<forall>c \<in> set sample_arrivals - set out.
       bt_get (po_pending (order_at ord (c_partition c))) (c_sequence c) = Some c)"
  by (rule orderer_restores_source_order)
    (simp_all add: sample_arrivals_def sample_completion_def completion_key_def u64_max_def)

section \<open>The buffer interface of the writer\<close>

lemma orderer_insert_cases:
  assumes ok: "orderer_ok ord" and lt: "c_sequence c < u64_max"
    and run: "orderer_insert c ord ready = (res, ord')"
  shows "orderer_ok ord' \<and>
    (case res of
       Inl (e, c') \<Rightarrow> c' = c \<and> pending_of ord' = pending_of ord \<and> (\<forall>q. order_at ord' q = order_at ord q)
     | Inr ready' \<Rightarrow> \<exists>block. ready' = ready @ block)"
proof -
  let ?s = "order_at ord (c_partition c)"
  consider (dup) "c_sequence c < po_next ?s \<or> bt_get (po_pending ?s) (c_sequence c) \<noteq> None"
    | (ahead) "po_next ?s < c_sequence c" "bt_get (po_pending ?s) (c_sequence c) = None"
    | (frontier) "c_sequence c = po_next ?s"
    by (meson linorder_neqE_nat)
  then show ?thesis
  proof cases
    case dup
    with run have "res = Inl (DuplicateCompletion (c_partition c) (c_sequence c), c)"
        "ord' = bt_insert (c_partition c) ?s ord"
      by (simp_all add: orderer_insert_duplicate)
    with ok show ?thesis
      using pending_of_insert [OF orderer_ok_bt [OF ok], of "c_partition c" ?s]
      by (simp add: orderer_ok_insert order_at_insert)
  next
    case ahead
    with orderer_insert_ahead [OF ahead run] ok lt show ?thesis by simp
  next
    case frontier
    then show ?thesis
      by (rule orderer_insert_frontier [OF ok lt _ run]) auto
  qed
qed

text \<open>
  What the writer relies on: an accepted completion is put out or held, never lost or doubled;
  a rejected one comes back and changes nothing.
\<close>

locale completion_buffer =
  fixes insert :: "completion \<Rightarrow> 's \<Rightarrow> completion list \<Rightarrow>
      (insert_error \<times> completion + completion list) \<times> 's"
    and held :: "'s \<Rightarrow> completion multiset"
    and ok :: "'s \<Rightarrow> bool"
    and valid :: "completion \<Rightarrow> bool"
  assumes accepted: "ok s \<Longrightarrow> valid c \<Longrightarrow> insert c s ready = (Inr ready', s') \<Longrightarrow>
      ok s' \<and> mset ready' + held s' = mset ready + held s + {#c#} \<and> (\<exists>block. ready' = ready @ block)"
    and rejected: "ok s \<Longrightarrow> valid c \<Longrightarrow> insert c s ready = (Inl (e, c'), s') \<Longrightarrow>
      ok s' \<and> c' = c \<and> held s' = held s"
begin

text \<open>From an empty list of ready completions, the ones an insertion makes ready or rejects.\<close>

definition delivered :: "(insert_error \<times> completion + completion list) \<Rightarrow> completion list" where
  "delivered res = (case res of Inl (e, c') \<Rightarrow> [c'] | Inr ready' \<Rightarrow> ready')"

lemma insert_balance:
  assumes "ok s" "valid c" "insert c s [] = (res, s')"
  shows "ok s' \<and> mset (delivered res) + held s' = held s + {#c#}"
proof (cases res)
  case (Inl p)
  with assms rejected [of s c "[]" "fst p" "snd p" s'] show ?thesis
    by (cases p) (simp add: delivered_def)
next
  case (Inr ready')
  with assms accepted [of s c "[]" ready' s'] show ?thesis by (simp add: delivered_def)
qed

end

interpretation ob: completion_buffer orderer_insert pending_of orderer_ok "\<lambda>c. c_sequence c < u64_max"
proof unfold_locales
  fix s c ready ready' s'
  assume "orderer_ok s" "c_sequence c < u64_max" "orderer_insert c s ready = (Inr ready', s')"
  then show "orderer_ok s' \<and> mset ready' + pending_of s' = mset ready + pending_of s + {#c#} \<and>
      (\<exists>block. ready' = ready @ block)"
    using orderer_insert_cases [of s c ready "Inr ready'" s'] orderer_insert_conserves [of s c ready ready' s']
    by simp
next
  fix s c ready e c' s'
  assume "orderer_ok s" "c_sequence c < u64_max" "orderer_insert c s ready = (Inl (e, c'), s')"
  then show "orderer_ok s' \<and> c' = c \<and> pending_of s' = pending_of s"
    using orderer_insert_cases [of s c ready "Inl (e, c')" s'] by simp
qed

lemma insert_all_conserves:
  "orderer_ok ord \<Longrightarrow> \<forall>c \<in> set cs. c_sequence c < u64_max \<Longrightarrow>
     insert_all cs ord ready = (Inr out, ord') \<Longrightarrow>
     orderer_ok ord' \<and> mset out + pending_of ord' = mset ready + pending_of ord + mset cs"
proof (induction cs arbitrary: ord ready)
  case (Cons c cs)
  then obtain ready1 ord1 where step: "orderer_insert c ord ready = (Inr ready1, ord1)"
      and rest: "insert_all cs ord1 ready1 = (Inr out, ord')"
    by (auto split: prod.splits sum.splits)
  from Cons.prems ob.accepted [OF _ _ step] have
    "orderer_ok ord1" "mset ready1 + pending_of ord1 = mset ready + pending_of ord + {#c#}" by auto
  with Cons.IH [OF _ _ rest] Cons.prems(2) show ?case by simp
qed simp

lemma take_pending_clears: "pending_of (snd (take_pending ord)) = {#}"
proof -
  have "bt_values (map (\<lambda>(p, s). (p, s\<lparr>po_pending := bt_empty\<rparr>)) ord)
      = map (\<lambda>s. s\<lparr>po_pending := bt_empty\<rparr>) (bt_values ord)"
    by (simp add: bt_values_def split_def)
  then show ?thesis
    by (simp add: pending_of_alt take_pending_def o_def bt_empty_def bt_values_def [of "[]"])
qed

text \<open>
  Every completion the orderer accepted leaves it exactly once: what was put out and what
  \<open>take_pending\<close> returns at shutdown are together exactly what came in, and nothing is left behind.
\<close>

theorem orderer_exactly_once:
  assumes "\<forall>c \<in> set cs. c_sequence c < u64_max"
    and "insert_all cs bt_empty [] = (Inr out, ord)"
  shows "mset out + mset (fst (take_pending ord)) = mset cs \<and>
    fst (take_pending (snd (take_pending ord))) = []"
proof -
  have "mset out + pending_of ord = mset cs"
    using insert_all_conserves [OF orderer_ok_empty assms] by simp
  with take_pending_clears [of ord] show ?thesis by (simp add: pending_of_def)
qed

theorem orderer_exactly_once_witness:
  "\<exists>out ord. insert_all [sample_completion 0 1 7 Drop] bt_empty [] = (Inr out, ord) \<and>
     mset out + mset (fst (take_pending ord)) = {#sample_completion 0 1 7 Drop#}"
proof -
  obtain ord where run: "insert_all [sample_completion 0 1 7 Drop] bt_empty [] = (Inr [], ord)"
    by (simp add: orderer_insert_def new_order_def sample_completion_def Let_def)
  with orderer_exactly_once [OF _ run] show ?thesis
    by (auto simp: sample_completion_def u64_max_def)
qed

text \<open>
  A completion whose (partition, sequence) was already put out or is already held is returned
  to the caller with the duplicate error, and the orderer is left as it was.
\<close>

theorem orderer_rejects_duplicates:
  assumes "orderer_ok ord" and "c_sequence c < u64_max"
    and "c_sequence c < po_next (order_at ord (c_partition c)) \<or>
      bt_get (po_pending (order_at ord (c_partition c))) (c_sequence c) \<noteq> None"
  shows "\<exists>ord'. orderer_insert c ord ready
      = (Inl (DuplicateCompletion (c_partition c) (c_sequence c), c), ord') \<and>
    orderer_ok ord' \<and> pending_of ord' = pending_of ord \<and> (\<forall>q. order_at ord' q = order_at ord q)"
  using orderer_insert_duplicate [OF assms(3), of ready]
    orderer_insert_cases [OF assms(1,2), of ready] by fastforce

theorem orderer_rejects_duplicates_witness:
  "\<exists>ord'. orderer_insert (sample_completion 0 3 1 Drop)
        [(0, \<lparr>po_next = 5, po_pending = bt_empty\<rparr>)] []
      = (Inl (DuplicateCompletion 0 3, sample_completion 0 3 1 Drop), ord')"
proof -
  let ?ord = "[(0, \<lparr>po_next = 5, po_pending = bt_empty\<rparr>)] :: orderer"
  have "orderer_ok ?ord"
    by (auto simp: orderer_ok_def order_ok_def bt_ok_def bt_keys_def bt_get_def bt_empty_def
        u64_max_def split: if_splits)
  moreover have "c_sequence (sample_completion 0 3 1 Drop) = 3" "c_partition (sample_completion 0 3 1 Drop) = 0"
    by (simp_all add: sample_completion_def)
  moreover have "order_at ?ord 0 = \<lparr>po_next = 5, po_pending = bt_empty\<rparr>"
    by (simp add: order_at_def bt_get_def)
  ultimately show ?thesis
    using orderer_rejects_duplicates [of ?ord "sample_completion 0 3 1 Drop" "[]"]
    by (auto simp: u64_max_def)
qed

end
