(* ===== verification/Envelope.thy ===== *)
theory Envelope
  imports Output_Format "HOL-Library.Word"
begin

unbundle bit_operations_syntax

text \<open>
  \<open>src/output.rs\<close>, the JSON-lines half: \<open>write_envelope\<close> with its field writers and the buffered base64
  encoder. The JSON string serializer is the third-party crate \<open>simd_json\<close>: the text it produces
  for a string is the parameter \<open>js\<close>, and it reaches the writer through \<open>CountingWriter\<close>, whose
  I/O errors the source hands on with kind and text.
\<close>

section \<open>UTF-8 validity\<close>

text \<open>\<open>std::str::from_utf8\<close>: the well-formed byte sequences of the Unicode standard.\<close>

definition in_range :: "nat \<Rightarrow> nat \<Rightarrow> char \<Rightarrow> bool" where
  "in_range lo hi c \<longleftrightarrow> lo \<le> of_char c \<and> of_char c \<le> hi"

definition continuation :: "char \<Rightarrow> bool" where
  "continuation c = in_range 0x80 0xBF c"

fun utf8_valid :: "bytes \<Rightarrow> bool" where
  "utf8_valid [] = True"
| "utf8_valid (a # bs) =
     (if in_range 0 0x7F a then utf8_valid bs
      else case bs of
        [] \<Rightarrow> False
      | b # cs \<Rightarrow>
          if in_range 0xC2 0xDF a then continuation b \<and> utf8_valid cs
          else case cs of
            [] \<Rightarrow> False
          | c # ds \<Rightarrow>
              if in_range 0xE0 0xEF a then
                (if in_range 0xE0 0xE0 a then in_range 0xA0 0xBF b
                 else if in_range 0xED 0xED a then in_range 0x80 0x9F b
                 else continuation b) \<and> continuation c \<and> utf8_valid ds
              else case ds of
                [] \<Rightarrow> False
              | d # es \<Rightarrow>
                  in_range 0xF0 0xF4 a \<and>
                  (if in_range 0xF0 0xF0 a then in_range 0x90 0xBF b
                   else if in_range 0xF4 0xF4 a then in_range 0x80 0x8F b
                   else continuation b) \<and> continuation c \<and> continuation d \<and> utf8_valid es)"

section \<open>Base64\<close>

definition base64_table :: string where
  "base64_table = ''ABCDEFGHIJKLMNOPQRSTUVWXYZabcdefghijklmnopqrstuvwxyz0123456789+/''"

definition u32_of :: "char \<Rightarrow> 32 word" where
  "u32_of c = word_of_nat (of_char c)"

text \<open>\<open>chunk.get(i).unwrap_or(&0)\<close> for the 24 bits of a chunk of one to three bytes.\<close>

definition chunk_byte :: "bytes \<Rightarrow> nat \<Rightarrow> 32 word" where
  "chunk_byte chunk i = (if i < length chunk then u32_of (chunk ! i) else 0)"

definition chunk_bits :: "bytes \<Rightarrow> 32 word" where
  "chunk_bits chunk =
     push_bit 16 (chunk_byte chunk 0) OR push_bit 8 (chunk_byte chunk 1) OR chunk_byte chunk 2"

definition sextet :: "32 word \<Rightarrow> nat \<Rightarrow> char" where
  "sextet bits n = base64_table ! unat (drop_bit n bits AND 63)"

definition encode_chunk :: "bytes \<Rightarrow> bytes" where
  "encode_chunk chunk = (let bits = chunk_bits chunk in
     [sextet bits 18, sextet bits 12,
      if length chunk > 1 then sextet bits 6 else CHR ''='',
      if length chunk > 2 then sextet bits 0 else CHR ''=''])"

definition base64_buffer :: nat where
  "base64_buffer = 4096"

text \<open>\<open>pending\<close> is \<open>encoded[..length]\<close>.\<close>

function base64_loop :: "'w sink_ops \<Rightarrow> bytes \<Rightarrow> bytes \<Rightarrow> 'w wr" where
  "base64_loop ops input pending =
     (if input = [] then write_bytes ops pending
      else if length pending + 4 > base64_buffer
      then seq_w (write_bytes ops pending) (base64_loop ops (drop 3 input) (encode_chunk (take 3 input)))
      else base64_loop ops (drop 3 input) (pending @ encode_chunk (take 3 input)))"
  by pat_completeness auto
termination
  by (relation "measure (\<lambda>(_, input, _). length input)") auto

declare base64_loop.simps [simp del]

definition write_base64 :: "'w sink_ops \<Rightarrow> bytes \<Rightarrow> 'w wr" where
  "write_base64 ops input = base64_loop ops input []"

section \<open>Fields\<close>

definition write_json_string :: "(string \<Rightarrow> bytes) \<Rightarrow> 'w sink_ops \<Rightarrow> string \<Rightarrow> 'w wr" where
  "write_json_string js ops value = counting_write ops (js value)"

definition write_json_fields :: "'w sink_ops \<Rightarrow> string \<Rightarrow> bytes \<Rightarrow> nat \<Rightarrow> 'w wr" where
  "write_json_fields ops name value source_length = seq_list
     [write_bytes ops '',\"'', write_bytes ops name, write_bytes ops ''\":'',
      write_bytes ops value,
      write_bytes ops '',\"'', write_bytes ops name, write_bytes ops ''Encoding\":\"json\",\"'',
      write_bytes ops name, write_bytes ops ''Length\":'',
      write_decimal ops (dec_nat source_length)]"

definition write_bytes_fields ::
    "(string \<Rightarrow> bytes) \<Rightarrow> 'w sink_ops \<Rightarrow> string \<Rightarrow> bytes option \<Rightarrow> 'w wr" where
  "write_bytes_fields js ops name value = seq_list
     [write_bytes ops '',\"'', write_bytes ops name, write_bytes ops ''\":'',
      (case value of
         None \<Rightarrow> write_bytes ops ''null''
       | Some bs \<Rightarrow>
           if utf8_valid bs then write_json_string js ops bs
           else seq_list [write_bytes ops ''\"'', write_base64 ops bs, write_bytes ops ''\"'']),
      write_bytes ops '',\"'', write_bytes ops name, write_bytes ops ''Encoding\":'',
      (case value of
         None \<Rightarrow> write_bytes ops ''null''
       | Some bs \<Rightarrow> write_json_string js ops (if utf8_valid bs then ''utf8'' else ''base64'')),
      write_bytes ops '',\"'', write_bytes ops name, write_bytes ops ''Length\":'',
      write_decimal ops (case value of None \<Rightarrow> dec_int (- 1) | Some bs \<Rightarrow> dec_nat (length bs))]"

section \<open>The envelope\<close>

definition envelope_header :: "(string \<Rightarrow> bytes) \<Rightarrow> 'w sink_ops \<Rightarrow> nat \<Rightarrow> header \<Rightarrow> 'w wr" where
  "envelope_header js ops index h = seq_list
     [if index \<noteq> 0 then write_bytes ops '','' else skip_w,
      write_bytes ops ''{\"name\":'',
      write_json_string js ops (h_name h),
      write_bytes_fields js ops ''value'' (h_value h),
      write_bytes ops ''}'']"

definition newline :: char where
  "newline = CHR 0x0A"

definition envelope_steps :: "(string \<Rightarrow> bytes) \<Rightarrow> 'w sink_ops \<Rightarrow> output_record \<Rightarrow> 'w wr list" where
  "envelope_steps js ops r =
     [write_bytes ops ''{\"topic\":'',
      write_json_string js ops (o_topic r),
      write_bytes ops '',\"partition\":'',
      write_decimal ops (dec_int (o_partition r)),
      write_bytes ops '',\"offset\":'',
      write_decimal ops (dec_int (o_offset r)),
      write_bytes ops '',\"timestamp\":'',
      (case o_timestamp r of
         Some t \<Rightarrow> write_decimal ops (dec_int (milliseconds t))
       | None \<Rightarrow> write_bytes ops ''null''),
      write_bytes ops '',\"timestampType\":'',
      (case map_option ts_kind (o_timestamp r) of
         Some CreateTime \<Rightarrow> write_json_string js ops ''createTime''
       | Some LogAppendTime \<Rightarrow> write_json_string js ops ''logAppendTime''
       | None \<Rightarrow> write_bytes ops ''null''),
      write_bytes_fields js ops ''key'' (o_key r),
      write_bytes ops '',\"headers\":['',
      seq_list (map (\<lambda>(index, h). envelope_header js ops index h) (enumerate 0 (o_headers r))),
      write_bytes ops ''],\"action\":'',
      write_json_string js ops (action_str (o_action r)),
      (case o_payload r of
         PTombstone \<Rightarrow> write_bytes_fields js ops ''payload'' None
       | PBytes bs \<Rightarrow> write_bytes_fields js ops ''payload'' (Some bs)
       | PJson bs source_length \<Rightarrow> write_json_fields ops ''payload'' bs source_length),
      write_bytes ops (CHR ''}'' # [newline])]"

definition write_envelope ::
    "(string \<Rightarrow> bytes) \<Rightarrow> 'w sink_ops \<Rightarrow> output_record \<Rightarrow> 'w \<Rightarrow> (io_error + nat) \<times> 'w" where
  "write_envelope js ops r w =
     (case seq_list (envelope_steps js ops r) (w, 0) of
        (Inl e, (w', _)) \<Rightarrow> (Inl e, w')
      | (Inr _, (w', written)) \<Rightarrow> (Inr written, w'))"

section \<open>Reference semantics\<close>

text \<open>The encoding of the whole input at once, and the text of each field.\<close>

fun base64 :: "bytes \<Rightarrow> bytes" where
  "base64 [] = []"
| "base64 (a # b # c # rest) = encode_chunk [a, b, c] @ base64 rest"
| "base64 short = encode_chunk short"

definition quoted :: "bytes \<Rightarrow> bytes" where
  "quoted bs = ''\"'' @ bs @ ''\"''"

definition field_value :: "(string \<Rightarrow> bytes) \<Rightarrow> bytes option \<Rightarrow> bytes" where
  "field_value js value = (case value of
      None \<Rightarrow> ''null''
    | Some bs \<Rightarrow> if utf8_valid bs then js bs else quoted (base64 bs))"

definition field_encoding :: "(string \<Rightarrow> bytes) \<Rightarrow> bytes option \<Rightarrow> bytes" where
  "field_encoding js value = (case value of
      None \<Rightarrow> ''null''
    | Some bs \<Rightarrow> js (if utf8_valid bs then ''utf8'' else ''base64''))"

definition field_length :: "bytes option \<Rightarrow> bytes" where
  "field_length value = (case value of None \<Rightarrow> dec_int (- 1) | Some bs \<Rightarrow> dec_nat (length bs))"

definition render_fields :: "string \<Rightarrow> bytes \<Rightarrow> bytes \<Rightarrow> bytes \<Rightarrow> bytes" where
  "render_fields name value encoding len =
     '','' @ quoted name @ '':'' @ value @ '','' @ quoted (name @ ''Encoding'') @ '':'' @ encoding
     @ '','' @ quoted (name @ ''Length'') @ '':'' @ len"

definition render_bytes_fields :: "(string \<Rightarrow> bytes) \<Rightarrow> string \<Rightarrow> bytes option \<Rightarrow> bytes" where
  "render_bytes_fields js name value =
     render_fields name (field_value js value) (field_encoding js value) (field_length value)"

definition render_payload :: "(string \<Rightarrow> bytes) \<Rightarrow> payload \<Rightarrow> bytes" where
  "render_payload js p = (case p of
      PTombstone \<Rightarrow> render_bytes_fields js ''payload'' None
    | PBytes bs \<Rightarrow> render_bytes_fields js ''payload'' (Some bs)
    | PJson bs n \<Rightarrow> render_fields ''payload'' bs (quoted ''json'') (dec_nat n))"

definition envelope_header_text :: "(string \<Rightarrow> bytes) \<Rightarrow> nat \<Rightarrow> header \<Rightarrow> bytes" where
  "envelope_header_text js index h =
     (if index \<noteq> 0 then '','' else []) @ ''{\"name\":'' @ js (h_name h)
     @ render_bytes_fields js ''value'' (h_value h) @ ''}''"

definition render_envelope :: "(string \<Rightarrow> bytes) \<Rightarrow> output_record \<Rightarrow> bytes" where
  "render_envelope js r =
     ''{\"topic\":'' @ js (o_topic r)
     @ '',\"partition\":'' @ dec_int (o_partition r)
     @ '',\"offset\":'' @ dec_int (o_offset r)
     @ '',\"timestamp\":'' @ (case o_timestamp r of None \<Rightarrow> ''null'' | Some t \<Rightarrow> dec_int (milliseconds t))
     @ '',\"timestampType\":'' @ (case o_timestamp r of None \<Rightarrow> ''null'' | Some t \<Rightarrow>
         js (case ts_kind t of CreateTime \<Rightarrow> ''createTime'' | LogAppendTime \<Rightarrow> ''logAppendTime''))
     @ render_bytes_fields js ''key'' (o_key r)
     @ '',\"headers\":[''
     @ concat (map (\<lambda>(index, h). envelope_header_text js index h) (enumerate 0 (o_headers r)))
     @ ''],\"action\":'' @ js (action_str (o_action r))
     @ render_payload js (o_payload r)
     @ CHR ''}'' # [newline]"

end
