(* ===== verification/Base64.thy ===== *)
theory Base64
  imports Envelope
begin

text \<open>
  The base64 text of an envelope field (\<open>write_base64\<close> in \<open>src/output.rs\<close>): what the 32-bit shifts and
  masks of the encoder select, a decoder of the standard alphabet with padding, and the round trip.
\<close>

section \<open>The encoder's bits\<close>

lemma bit_u32_of: "bit (u32_of c) n \<Longrightarrow> n < 8"
proof -
  assume "bit (u32_of c) n"
  then have "bit (of_char c :: nat) n" by (simp add: u32_of_def bit_of_nat_iff)
  then have "of_char c div 2 ^ n \<noteq> (0::nat)" by (metis bit_iff_odd even_zero)
  moreover have "of_char c div 2 ^ n = (0::nat)" if "8 \<le> n"
  proof -
    have "(2::nat) ^ 8 \<le> 2 ^ n" using that by (intro power_increasing) auto
    then have "of_char c < (2::nat) ^ n" by (simp add: less_le_trans [OF of_char_lt])
    then show ?thesis by simp
  qed
  ultimately show "n < 8" by (meson not_le)
qed

lemma sext: "unat (drop_bit n (w :: 32 word) AND 63) = unat w div 2 ^ n mod 64"
proof -
  have "(63 :: 32 word) = mask 6" by (simp add: mask_eq_exp_minus_1)
  then have "drop_bit n w AND 63 = take_bit 6 (drop_bit n w)" by (simp add: take_bit_eq_mask)
  then show ?thesis
    by (simp only: unsigned_take_bit_eq unat_drop_bit_eq) (simp add: take_bit_eq_mod drop_bit_eq_div)
qed

lemma or_plus: "push_bit 16 (u32_of a) OR push_bit 8 (u32_of b) OR u32_of c
   = word_of_nat (of_char a * 65536 + of_char b * 256 + of_char c)"
proof -
  have "push_bit 8 (u32_of b) OR u32_of c = push_bit 8 (u32_of b) + u32_of c"
    by (rule disjunctive_add [symmetric]) (auto simp: bit_push_bit_iff dest: bit_u32_of)
  moreover have "push_bit 16 (u32_of a) OR (push_bit 8 (u32_of b) OR u32_of c)
     = push_bit 16 (u32_of a) + (push_bit 8 (u32_of b) OR u32_of c)"
    by (rule disjunctive_add [symmetric]) (fastforce simp: bit_push_bit_iff bit_or_iff dest: bit_u32_of)
  ultimately have "push_bit 16 (u32_of a) OR push_bit 8 (u32_of b) OR u32_of c
     = push_bit 16 (u32_of a) + (push_bit 8 (u32_of b) + u32_of c)" by simp
  then show ?thesis by (simp add: push_bit_eq_mult u32_of_def)
qed

lemma sextet_digits:
  assumes "x = ((v0 * 64 + v1) * 64 + v2) * 64 + v3" "v0 < 64" "v1 < 64" "v2 < 64" "v3 < (64::nat)"
  shows "x div 2 ^ 18 mod 64 = v0" "x div 2 ^ 12 mod 64 = v1" "x div 2 ^ 6 mod 64 = v2" "x mod 64 = v3" "x < 2 ^ 32"
proof -
  have 1: "x div 64 = (v0 * 64 + v1) * 64 + v2" using assms by simp
  have 3: "x mod 64 = v3" unfolding assms(1) mod_mult_self3 using assms(5) by simp
  have 2: "((v0 * 64 + v1) * 64 + v2) div 64 = v0 * 64 + v1" "(v0 * 64 + v1) div 64 = v0" using assms by simp_all
  show "x mod 64 = v3" by (rule 3)
  have 4: "((v0 * 64 + v1) * 64 + v2) mod 64 = v2" "(v0 * 64 + v1) mod 64 = v1"
    unfolding mod_mult_self3 using assms by simp_all
  show "x div 2 ^ 6 mod 64 = v2" using 1 4 by simp
  have "x div 2 ^ 12 = x div 64 div 64" by (simp add: div_mult2_eq [symmetric])
  with 1 2 4 assms show "x div 2 ^ 12 mod 64 = v1" by simp
  have "x div 2 ^ 18 = x div 64 div 64 div 64" by (simp add: div_mult2_eq [symmetric])
  with 1 2 4 assms show "x div 2 ^ 18 mod 64 = v0" by simp
  show "x < 2 ^ 32" using assms by simp
qed
lemma bytes_as_sextets:
  assumes "a < 256" "b < 256" "c < (256::nat)"
  shows "a * 65536 + b * 256 + c = ((a div 4 * 64 + (a mod 4 * 16 + b div 16)) * 64 + (b mod 16 * 4 + c div 64)) * 64 + c mod 64"
proof -
  have "a = 4 * (a div 4) + a mod 4" "b = 16 * (b div 16) + b mod 16" "c = 64 * (c div 64) + c mod 64"
    by simp_all
  moreover have "(4 * p + q) * 65536 + (16 * r + s) * 256 + (64 * t + u)
      = ((p * 64 + (q * 16 + r)) * 64 + (s * 4 + t)) * 64 + u" for p q r s t u :: nat
    by simp
  ultimately show ?thesis by metis
qed

lemma sextet_eq: "sextet bits n = base64_table ! (unat bits div 2 ^ n mod 64)"
  by (simp add: sextet_def sext)


lemma unat_bits: "unat (word_of_nat (of_char a * 65536 + of_char b * 256 + of_char c) :: 32 word)
    = of_char a * 65536 + of_char b * 256 + of_char c"
proof -
  have "of_char a * 65536 + of_char b * 256 + of_char c < (4294967296 :: nat)"
    using of_char_lt [of a] of_char_lt [of b] of_char_lt [of c] by linarith
  then show ?thesis by (simp only: unsigned_of_nat take_bit_eq_mod) (simp add: mod_less)
qed

lemma sextet_indices:
  fixes a b c :: char
  defines "bits \<equiv> push_bit 16 (u32_of a) OR push_bit 8 (u32_of b) OR u32_of c"
  shows "sextet bits 18 = base64_table ! (of_char a div 4)"
    "sextet bits 12 = base64_table ! (of_char a mod 4 * 16 + of_char b div 16)"
    "sextet bits 6 = base64_table ! (of_char b mod 16 * 4 + of_char c div 64)"
    "sextet bits 0 = base64_table ! (of_char c mod 64)"
proof -
  note lt = of_char_lt [of a] of_char_lt [of b] of_char_lt [of c]
  have bits: "unat bits = of_char a * 65536 + of_char b * 256 + of_char c"
    unfolding bits_def or_plus by (rule unat_bits)
  have "of_char b div 16 < (16::nat)" "of_char c div 64 < (4::nat)" "of_char a div 4 < (64::nat)"
    using lt by (auto intro: less_mult_imp_div_less)
  moreover have "of_char a mod 4 < (4::nat)" "of_char b mod 16 < (16::nat)" "of_char c mod 64 < (64::nat)" by simp_all
  ultimately have "of_char a div 4 < (64::nat)" "of_char a mod 4 * 16 + of_char b div 16 < (64::nat)"
    "of_char b mod 16 * 4 + of_char c div 64 < (64::nat)" "of_char c mod 64 < (64::nat)" by linarith+
  note digits = sextet_digits [OF bytes_as_sextets [OF lt] this]
  show "sextet bits 18 = base64_table ! (of_char a div 4)"
    "sextet bits 12 = base64_table ! (of_char a mod 4 * 16 + of_char b div 16)"
    "sextet bits 6 = base64_table ! (of_char b mod 16 * 4 + of_char c div 64)"
    "sextet bits 0 = base64_table ! (of_char c mod 64)"
    unfolding sextet_eq bits using digits(1,2,3,4) by simp_all
qed

lemma u32_of_zero [simp]: "u32_of (CHR 0x00) = 0"
  by (simp add: u32_of_def)

lemma encode_chunks:
  "encode_chunk [a, b, c] = [base64_table ! (of_char a div 4), base64_table ! (of_char a mod 4 * 16 + of_char b div 16),
     base64_table ! (of_char b mod 16 * 4 + of_char c div 64), base64_table ! (of_char c mod 64)]"
  "encode_chunk [a, b] = [base64_table ! (of_char a div 4), base64_table ! (of_char a mod 4 * 16 + of_char b div 16),
     base64_table ! (of_char b mod 16 * 4), CHR ''='']"
  "encode_chunk [a] = [base64_table ! (of_char a div 4), base64_table ! (of_char a mod 4 * 16), CHR ''='', CHR ''='']"
  using sextet_indices [of a b c] sextet_indices [of a b "CHR 0x00"] sextet_indices [of a "CHR 0x00" "CHR 0x00"]
  by (simp_all add: encode_chunk_def chunk_bits_def chunk_byte_def)

section \<open>Decoding\<close>

definition sextet_value :: "char \<Rightarrow> nat option" where
  "sextet_value c = (let i = length (takeWhile (\<lambda>d. d \<noteq> c) base64_table) in if i < 64 then Some i else None)"

lemma sextet_value_table: "i < 64 \<Longrightarrow> sextet_value (base64_table ! i) = Some i \<and> base64_table ! i \<noteq> CHR ''=''"
proof -
  have "list_all (\<lambda>i. sextet_value (base64_table ! i) = Some i \<and> base64_table ! i \<noteq> CHR ''='') [0..<64]"
    by code_simp
  then show "i < 64 \<Longrightarrow> sextet_value (base64_table ! i) = Some i \<and> base64_table ! i \<noteq> CHR ''=''"
    by (simp add: list_all_iff)
qed

fun base64_decode :: "bytes \<Rightarrow> bytes option" where
  "base64_decode [] = Some []"
| "base64_decode (w # x # y # z # rest) =
     (case (sextet_value w, sextet_value x) of
        (Some i, Some j) \<Rightarrow>
          (if y = CHR ''='' then (if z = CHR ''='' \<and> rest = [] then Some [char_of (i * 4 + j div 16)] else None)
           else case sextet_value y of
             None \<Rightarrow> None
           | Some k \<Rightarrow>
               if z = CHR ''=''
               then (if rest = [] then Some [char_of (i * 4 + j div 16), char_of (j mod 16 * 16 + k div 4)] else None)
               else case (sextet_value z, base64_decode rest) of
                 (Some l, Some bs) \<Rightarrow>
                   Some (char_of (i * 4 + j div 16) # char_of (j mod 16 * 16 + k div 4) # char_of (k mod 4 * 64 + l) # bs)
               | _ \<Rightarrow> None)
      | _ \<Rightarrow> None)"
| "base64_decode _ = None"

lemma sextet_bounds:
  assumes "a < 256" "b < 256" "c < (256::nat)"
  shows "a div 4 < 64" "a mod 4 * 16 + b div 16 < 64" "b mod 16 * 4 + c div 64 < 64" "c mod 64 < 64"
    "(a mod 4 * 16 + b div 16) div 16 = a mod 4" "(a mod 4 * 16 + b div 16) mod 16 = b div 16"
    "(b mod 16 * 4 + c div 64) div 4 = b mod 16" "(b mod 16 * 4 + c div 64) mod 4 = c div 64"
    "b div 16 mod 16 = b div 16" "c div 64 mod 4 = c div 64"
proof -
  have lt: "b div 16 < 16" "c div 64 < 4" "a div 4 < 64"
    using assms by (auto intro: less_mult_imp_div_less)
  show "a div 4 < 64" by (rule lt)
  show "c mod 64 < 64" by simp
  have "a mod 4 < 4" "b mod 16 < 16" by simp_all
  with lt show "a mod 4 * 16 + b div 16 < 64" "b mod 16 * 4 + c div 64 < 64" by linarith+
  show "(a mod 4 * 16 + b div 16) div 16 = a mod 4" "(a mod 4 * 16 + b div 16) mod 16 = b div 16"
    "(b mod 16 * 4 + c div 64) div 4 = b mod 16" "(b mod 16 * 4 + c div 64) mod 4 = c div 64"
    "b div 16 mod 16 = b div 16" "c div 64 mod 4 = c div 64"
    using lt by simp_all
qed

abbreviation (input) null_byte :: char where "null_byte \<equiv> CHR 0x00"

lemma base64_decode_encode: "base64_decode (base64 bs) = Some bs"
proof (induction bs rule: base64.induct [case_names none three one two])
  case none
  then show ?case by simp
next
  case (three a b c rest)
  note bounds = sextet_bounds [OF of_char_lt [of a] of_char_lt [of b] of_char_lt [of c]]
  note tab = sextet_value_table [OF bounds(1)] sextet_value_table [OF bounds(2)]
    sextet_value_table [OF bounds(3)] sextet_value_table [OF bounds(4)]
  from three show ?case by (simp add: encode_chunks tab bounds(5-10))
next
  case (one a)
  note bounds = sextet_bounds [OF of_char_lt [of a] of_char_lt [of null_byte] of_char_lt [of null_byte]]
  from sextet_value_table [OF bounds(1)] sextet_value_table [OF bounds(2)] bounds(5)
  show ?case by (simp add: encode_chunks)
next
  case (two a b)
  note bounds = sextet_bounds [OF of_char_lt [of a] of_char_lt [of b] of_char_lt [of null_byte]]
  from sextet_value_table [OF bounds(1)] sextet_value_table [OF bounds(2)] sextet_value_table [OF bounds(3)] bounds(5-10)
  show ?case by (simp add: encode_chunks)
qed

text \<open>
  The text of a byte string decodes, by the standard alphabet and padding, to exactly that byte string, and its
  length is four for every started group of three bytes.
\<close>

lemma base64_text:
  "base64_decode (base64 bs) = Some bs \<and> length (base64 bs) = 4 * div_ceil (length bs) 3"
proof -
  have step: "(n + 3 + 2) div 3 = Suc ((n + 2) div 3)" for n :: nat by simp
  have "length (base64 bs) = 4 * ((length bs + 2) div 3)"
  proof (induction bs rule: base64.induct)
    case (2 a b c rest)
    with step [of "length rest"] show ?case by (simp add: encode_chunk_def Let_def)
  qed (simp_all add: encode_chunk_def Let_def)
  moreover have "(n + 2) div 3 = div_ceil n 3" for n :: nat
    by (simp add: div_ceil_def Let_def) presburger
  ultimately show ?thesis by (simp add: base64_decode_encode)
qed

end
