(* ===== verification/Envelope_Facts.thy ===== *)
theory Envelope_Facts
  imports Base64
begin

text \<open>
  The envelope writer delivers its reference text to every writer, the buffered base64 encoder is
  the plain one and can be decoded, and a reader of the envelope's fields recovers every byte.
\<close>

section \<open>Delivery\<close>

text \<open>
  What \<open>emits\<close> and \<open>delivers\<close> share: a relation between writing steps and texts that the primitive
  writes satisfy and that composition preserves. The envelope is followed once, for both.
\<close>

locale delivery =
  fixes ops :: "'w sink_ops"
    and D :: "'w wr \<Rightarrow> bytes \<Rightarrow> bool"
  assumes D_write_bytes: "D (write_bytes ops bs) bs"
    and D_counting: "D (counting_write ops bs) bs"
    and D_skip: "D skip_w []"
    and D_seq: "D m a \<Longrightarrow> D k b \<Longrightarrow> D (seq_w m k) (a @ b)"
begin

lemma D_cong: "D m a \<Longrightarrow> a = b \<Longrightarrow> D m b"
  by simp

lemma D_nil: "D (seq_list []) []"
  by (simp add: D_skip)

lemma D_cons: "D m a \<Longrightarrow> D (seq_list ms) b \<Longrightarrow> D (seq_list (m # ms)) (a @ b)"
  by (simp add: D_seq)

lemma D_map: "(\<And>x. x \<in> set xs \<Longrightarrow> D (f x) (g x)) \<Longrightarrow> D (seq_list (map f xs)) (concat (map g xs))"
  by (induction xs) (auto intro: D_seq D_skip)

lemma D_decimal: "D (write_decimal ops text) text"
  by (simp add: write_decimal_def D_counting)

lemma D_json_string: "D (write_json_string js ops s) (js s)"
  by (simp add: write_json_string_def D_counting)

lemmas D_prims = D_cons D_nil D_write_bytes D_decimal D_json_string D_skip

end

sublocale sink \<subseteq> em: delivery ops emits
  by unfold_locales (auto intro: emits_intros emits_seq)

sublocale reliable_sink \<subseteq> de: delivery ops delivers
  using delivers_write_decimal
  by unfold_locales (auto simp: write_decimal_def intro: delivers_write_bytes delivers_skip delivers_seq)

section \<open>The envelope is its reference text\<close>

lemma base64_step: "input \<noteq> [] \<Longrightarrow> base64 input = encode_chunk (take 3 input) @ base64 (drop 3 input)"
  by (cases input rule: base64.cases) simp_all

context delivery
begin

lemma D_base64_loop: "D (base64_loop ops input pending) (pending @ base64 input)"
proof (induction input arbitrary: pending rule: measure_induct_rule [of length])
  case (less input)
  show ?case
  proof (cases "input = []")
    case True
    then show ?thesis by (simp add: base64_loop.simps D_write_bytes)
  next
    case False
    then have "length (drop 3 input) < length input" by simp
    note IH = less [OF this]
    from False show ?thesis
      using D_seq [OF D_write_bytes IH] IH [of "pending @ encode_chunk (take 3 input)"]
      by (simp add: base64_loop.simps [of ops input] base64_step)
  qed
qed

lemma D_base64: "D (write_base64 ops input) (base64 input)"
  using D_base64_loop [of input "[]"] by (simp add: write_base64_def)

lemma D_bytes_fields: "D (write_bytes_fields js ops name v) (render_bytes_fields js name v)"
proof -
  have val: "D (case v of None \<Rightarrow> write_bytes ops ''null''
     | Some bs \<Rightarrow> if utf8_valid bs then write_json_string js ops bs
         else seq_list [write_bytes ops ''\"'', write_base64 ops bs, write_bytes ops ''\"'']) (field_value js v)"
    using D_cons [OF D_write_bytes [of "''\"''"] D_cons [OF D_base64 D_cons [OF D_write_bytes [of "''\"''"] D_nil]]]
    by (auto simp: field_value_def quoted_def D_write_bytes D_json_string split: option.split)
  have encoding: "D (case v of None \<Rightarrow> write_bytes ops ''null''
     | Some bs \<Rightarrow> write_json_string js ops (if utf8_valid bs then ''utf8'' else ''base64'')) (field_encoding js v)"
    by (auto simp: field_encoding_def D_write_bytes D_json_string split: option.split)
  show ?thesis
    unfolding write_bytes_fields_def
    by (rule D_cong, (rule D_prims val encoding)+)
      (simp add: render_bytes_fields_def render_fields_def quoted_def field_length_def)
qed

lemma D_json_fields:
  "D (write_json_fields ops name bs n) (render_fields name bs (quoted ''json'') (dec_nat n))"
  unfolding write_json_fields_def
  by (rule D_cong, (rule D_prims)+) (simp add: render_fields_def quoted_def)

lemma D_envelope_header: "D (envelope_header js ops i h) (envelope_header_text js i h)"
proof -
  have comma: "D (if i \<noteq> 0 then write_bytes ops '','' else skip_w) (if i \<noteq> 0 then '','' else [])"
    by (simp add: D_write_bytes D_skip)
  show ?thesis
    unfolding envelope_header_def
    by (rule D_cong, (rule comma D_prims D_bytes_fields)+) (simp add: envelope_header_text_def)
qed

lemma D_envelope: "D (seq_list (envelope_steps js ops r)) (render_envelope js r)"
proof -
  have ts: "D (case o_timestamp r of Some t \<Rightarrow> write_decimal ops (dec_int (milliseconds t))
       | None \<Rightarrow> write_bytes ops ''null'')
      (case o_timestamp r of None \<Rightarrow> ''null'' | Some t \<Rightarrow> dec_int (milliseconds t))"
    by (simp add: D_write_bytes D_decimal split: option.split)
  have kind: "D (case map_option ts_kind (o_timestamp r) of
         Some CreateTime \<Rightarrow> write_json_string js ops ''createTime''
       | Some LogAppendTime \<Rightarrow> write_json_string js ops ''logAppendTime''
       | None \<Rightarrow> write_bytes ops ''null'')
      (case o_timestamp r of None \<Rightarrow> ''null'' | Some t \<Rightarrow>
         js (case ts_kind t of CreateTime \<Rightarrow> ''createTime'' | LogAppendTime \<Rightarrow> ''logAppendTime''))"
    by (simp add: D_write_bytes D_json_string split: option.split timestamp_type.split)
  have headers: "D (seq_list (map (\<lambda>(i, h). envelope_header js ops i h) (enumerate 0 (o_headers r))))
      (concat (map (\<lambda>(i, h). envelope_header_text js i h) (enumerate 0 (o_headers r))))"
    by (rule D_map) (auto simp: D_envelope_header split: prod.split)
  have payload: "D (case o_payload r of
         PTombstone \<Rightarrow> write_bytes_fields js ops ''payload'' None
       | PBytes bs \<Rightarrow> write_bytes_fields js ops ''payload'' (Some bs)
       | PJson bs n \<Rightarrow> write_json_fields ops ''payload'' bs n) (render_payload js (o_payload r))"
    by (simp add: render_payload_def D_bytes_fields D_json_fields split: payload.split)
  show ?thesis
    unfolding envelope_steps_def
    by (rule D_cong, (rule D_cons D_nil ts kind headers payload D_write_bytes D_decimal D_json_string
          D_bytes_fields)+) (simp add: render_envelope_def)
qed

end

context sink
begin

lemma write_envelope_cases:
  assumes "write_envelope js ops r w = (res, w')"
  shows "case res of
      Inr n \<Rightarrow> contents w' = contents w @ render_envelope js r \<and> n = length (render_envelope js r)
    | Inl e \<Rightarrow> \<exists>p q. render_envelope js r = p @ q \<and> contents w' = contents w @ p"
proof -
  obtain res' w'' n' where run: "seq_list (envelope_steps js ops r) (w, 0) = (res', (w'', n'))"
    by (metis prod.exhaust)
  with assms show ?thesis
    using emits_okD [OF em.D_envelope] emits_errD [OF em.D_envelope]
    by (cases res') (fastforce simp: write_envelope_def)+
qed

end

context reliable_sink
begin

lemma write_envelope_total:
  assumes "length (render_envelope js r) \<le> usize_max"
  shows "\<exists>w'. write_envelope js ops r w = (Inr (length (render_envelope js r)), w')
    \<and> contents w' = contents w @ render_envelope js r"
proof -
  from delivers_ok [OF de.D_envelope, of 0 js r w] assms obtain w' where
    "seq_list (envelope_steps js ops r) (w, 0) = (Inr (), (w', length (render_envelope js r)))"
    "contents w' = contents w @ render_envelope js r"
    by auto
  then show ?thesis by (simp add: write_envelope_def)
qed

end

text \<open>
  C28. On any writer that keeps the \<open>std::io::Write\<close> contract, \<open>write_envelope\<close> either returns the
  length of the envelope's reference text after delivering exactly that text, or fails after
  delivering a prefix of it: the buffered base64 encoding in it is the plain one.
\<close>

theorem envelope_correct:
  assumes "sink ops contents" and "write_envelope js ops r w = (res, w')"
  shows "case res of
      Inr n \<Rightarrow> contents w' = contents w @ render_envelope js r \<and> n = length (render_envelope js r)
    | Inl e \<Rightarrow> \<exists>p q. render_envelope js r = p @ q \<and> contents w' = contents w @ p"
  using assms by (rule sink.write_envelope_cases)

text \<open>A record whose key is not UTF-8, written into a vector.\<close>

definition binary_key_record :: output_record where
  "binary_key_record =
     \<lparr>o_topic = ''t'', o_partition = 3, o_offset = 42, o_timestamp = Some \<lparr>milliseconds = 5, ts_kind = CreateTime\<rparr>,
      o_key = Some [CHR 0xFF], o_headers = [], o_source_payload_length = None, o_payload = PTombstone,
      o_action = ETombstone\<rparr>"

lemma binary_key_text:
  "render_envelope quoted binary_key_record =
     ''{\"topic\":\"t\",\"partition\":3,\"offset\":42,\"timestamp\":5,\"timestampType\":\"createTime\",''
     @ ''\"key\":\"/w==\",\"keyEncoding\":\"base64\",\"keyLength\":1,\"headers\":[],\"action\":\"tombstone\",''
     @ ''\"payload\":null,\"payloadEncoding\":null,\"payloadLength\":-1}'' @ [newline]"
  by (simp add: render_envelope_def binary_key_record_def render_bytes_fields_def render_fields_def
      field_value_def field_encoding_def field_length_def render_payload_def quoted_def in_range_def
      encode_chunk_def chunk_bits_def chunk_byte_def u32_of_def sextet_def base64_table_def
      dec_int_def dec_nat.simps digit_char_def)

theorem envelope_correct_witness:
  "snd (write_envelope quoted vec_sink binary_key_record []) = render_envelope quoted binary_key_record
   \<and> take 12 (render_envelope quoted binary_key_record) = ''{\"topic\":\"t\"''"
proof -
  have "length (render_envelope quoted binary_key_record) \<le> usize_max"
    by (simp add: binary_key_text usize_max_def)
  then obtain n w' where run: "write_envelope quoted vec_sink binary_key_record [] = (Inr n, w')"
    using vs.write_envelope_total [of quoted binary_key_record "[]"] by blast
  from envelope_correct [OF vs.sink_axioms run] run show ?thesis
    by (simp add: binary_key_text)
qed

section \<open>The base64 text that is written\<close>

context sink
begin

lemma emits_base64: "emits (write_base64 ops bs) (base64 bs)"
  by (rule em.D_base64)

end

text \<open>
  C33. What the buffered encoder puts on a writer decodes, by the standard alphabet and padding, to exactly the
  bytes it was given, four characters for every started group of three bytes, however many buffers that took;
  the count grows by its length. A writer's failure leaves a prefix of that text.
\<close>

theorem base64_roundtrip:
  assumes "sink ops contents" and "write_base64 ops bs (w, n) = (res, w', n')"
  shows "\<exists>encoded. base64_decode encoded = Some bs \<and> length encoded = 4 * div_ceil (length bs) 3 \<and>
    (case res of
       Inr _ \<Rightarrow> contents w' = contents w @ encoded \<and> n' = n + length encoded
     | Inl e \<Rightarrow> \<exists>p q. encoded = p @ q \<and> contents w' = contents w @ p)"
proof (intro exI [of _ "base64 bs"] conjI)
  show "base64_decode (base64 bs) = Some bs" "length (base64 bs) = 4 * div_ceil (length bs) 3"
    by (simp_all add: base64_text)
  note emits = sink.emits_base64 [OF assms(1), of bs]
  from sink.emits_okD [OF assms(1) emits] sink.emits_errD [OF assms(1) emits] assms(2)
  show "case res of
       Inr _ \<Rightarrow> contents w' = contents w @ base64 bs \<and> n' = n + length (base64 bs)
     | Inl e \<Rightarrow> \<exists>p q. base64 bs = p @ q \<and> contents w' = contents w @ p"
    by (cases res) auto
qed

text \<open>Two bytes into a vector that holds one already.\<close>

theorem base64_roundtrip_witness:
  "write_base64 vec_sink [CHR 0xFF, CHR ''a''] (''>'', 3) = (Inr (), ''>/2E='', 7) \<and>
    base64_decode ''/2E='' = Some [CHR 0xFF, CHR ''a'']"
proof -
  have run: "write_base64 vec_sink [CHR 0xFF, CHR ''a''] (''>'', 3) = (Inr (), ''>/2E='', 7)"
    by (simp add: write_base64_def base64_loop.simps base64_buffer_def write_bytes_def vec_sink_def checked_add_def
        usize_max_def encode_chunk_def chunk_bits_def chunk_byte_def u32_of_def sextet_def base64_table_def)
  from base64_roundtrip [OF vs.sink_axioms this] run show ?thesis by auto
qed

section \<open>Reading the fields back\<close>

text \<open>
  A consumer of the envelope: \<open>jr\<close> reads a JSON string, the inverse of the serializer on strings, and
  does not read \<open>null\<close> as one.
\<close>

definition reads_json :: "(string \<Rightarrow> bytes) \<Rightarrow> (bytes \<Rightarrow> string option) \<Rightarrow> bool" where
  "reads_json js jr \<longleftrightarrow> (\<forall>s. jr (js s) = Some s) \<and> jr ''null'' = None"

definition read_field :: "(bytes \<Rightarrow> string option) \<Rightarrow> bytes \<Rightarrow> bytes \<Rightarrow> bytes option option" where
  "read_field jr encoding text =
     (case jr encoding of
        None \<Rightarrow> Some None
      | Some label \<Rightarrow>
          if label = ''utf8'' then map_option Some (jr text)
          else map_option Some (base64_decode (butlast (tl text))))"

definition unquote :: "bytes \<Rightarrow> string option" where
  "unquote t = (if length t \<ge> 2 \<and> hd t = CHR 0x22 then Some (butlast (tl t)) else None)"

lemma reads_quoted: "reads_json quoted unquote"
  by (simp add: reads_json_def quoted_def unquote_def butlast_append)

text \<open>
  An envelope's key, header and payload fields lose nothing: from the encoding label and the
  text of the field a consumer recovers the original bytes, binary or not, and tells an absent value
  from an empty one.
\<close>

theorem envelope_fields_lossless:
  assumes "reads_json js jr"
  shows "read_field jr (field_encoding js v) (field_value js v) = Some v"
  using assms
  by (cases v) (simp_all add: read_field_def field_encoding_def field_value_def reads_json_def quoted_def
      butlast_append base64_decode_encode)

theorem envelope_fields_lossless_witness:
  "field_value quoted (Some [CHR 0xFF]) = ''\"/w==\"'' \<and>
   read_field unquote (field_encoding quoted (Some [CHR 0xFF])) (field_value quoted (Some [CHR 0xFF]))
     = Some (Some [CHR 0xFF])"
  by (rule conjI [OF _ envelope_fields_lossless [OF reads_quoted]])
    (simp add: field_value_def quoted_def in_range_def encode_chunk_def chunk_bits_def chunk_byte_def
      u32_of_def sextet_def base64_table_def)

end
