(* ===== verification/Format_Facts.thy ===== *)
theory Format_Facts
  imports Output_Format
begin

text \<open>
  The properties of the format compiler and of \<open>write_to\<close> (\<open>src/output.rs\<close>): what is written is
  the concatenation of what the tokens stand for, on every lawful writer; the compiled
  tokens are exactly those of the format's pieces; compiling is compositional and can express every byte; the metadata a format does not require is never read; and the lengths
  written by \<open>%R\<close> and the decimal placeholders read back to the values they print.
\<close>

section \<open>Writing follows the reference semantics\<close>

context sink
begin

lemma emits_header_pieces: "emits (header_pieces ops index h) (render_header index h)"
proof -
  have "emits (header_pieces ops index h)
      (concat [if index \<noteq> 0 then '','' else [], h_name h, ''='',
               case h_value h of None \<Rightarrow> ''NULL'' | Some v \<Rightarrow> v])"
    unfolding header_pieces_def
    by (rule emits_seq_list) (auto simp: emits_write_bytes emits_skip split: option.split)
  then show ?thesis by (simp add: render_header_def)
qed

lemma emits_write_token [emits_intros]: "emits (write_token ops r t) (render_token r t)"
proof (cases t)
  case Headers
  then show ?thesis
    by (auto intro!: emits_seq_map emits_header_pieces split: prod.split)
qed (auto simp: emits_write_bytes emits_write_decimal emits_write_optional_length emits_skip
    split: option.split)

lemma emits_tokens: "emits (seq_list (map (write_token ops r) tokens)) (render_tokens tokens r)"
  unfolding render_tokens_def by (rule emits_seq_map) (rule emits_write_token)

lemma write_to_cases:
  assumes "write_to ops tokens r w = (res, w')"
  shows "case res of
      Inr n \<Rightarrow> contents w' = contents w @ render_tokens tokens r \<and> n = length (render_tokens tokens r)
        \<and> binary_length_rejected tokens r = None
    | Inl e \<Rightarrow> \<exists>p q. render_tokens tokens r = p @ q \<and> contents w' = contents w @ p"
proof (cases "binary_length_rejected tokens r")
  case (Some n)
  with assms show ?thesis by (auto simp: write_to_def)
next
  case None
  obtain res' w'' n' where run: "seq_list (map (write_token ops r) tokens) (w, 0) = (res', (w'', n'))"
    by (metis prod.exhaust)
  with None assms show ?thesis
    using emits_okD [OF emits_tokens] emits_errD [OF emits_tokens]
    by (cases res') (fastforce simp: write_to_def)+
qed

end

context reliable_sink
begin

lemma delivers_header_pieces: "delivers (header_pieces ops index h) (render_header index h)"
proof -
  have "delivers (header_pieces ops index h)
      (concat [if index \<noteq> 0 then '','' else [], h_name h, ''='',
               case h_value h of None \<Rightarrow> ''NULL'' | Some v \<Rightarrow> v])"
    unfolding header_pieces_def
    by (rule delivers_seq_list) (auto simp: delivers_write_bytes delivers_skip split: option.split)
  then show ?thesis by (simp add: render_header_def)
qed

lemma delivers_write_token: "delivers (write_token ops r t) (render_token r t)"
proof (cases t)
  case Headers
  then show ?thesis
    by (auto intro!: delivers_seq_map delivers_header_pieces split: prod.split)
qed (auto simp: delivers_write_bytes delivers_write_decimal write_optional_length_def delivers_skip
    split: option.split)

lemma write_to_total:
  assumes "length (render_tokens tokens r) \<le> usize_max" "binary_length_rejected tokens r = None"
  shows "\<exists>w'. write_to ops tokens r w = (Inr (length (render_tokens tokens r)), w')
    \<and> contents w' = contents w @ render_tokens tokens r"
proof -
  have "delivers (seq_list (map (write_token ops r) tokens)) (render_tokens tokens r)"
    unfolding render_tokens_def by (rule delivers_seq_map) (rule delivers_write_token)
  from delivers_ok [OF this, of 0 w] assms(1) obtain w' where
    "seq_list (map (write_token ops r) tokens) (w, 0)
      = (Inr (), (w', length (render_tokens tokens r)))"
    "contents w' = contents w @ render_tokens tokens r"
    by auto
  with assms(2) show ?thesis by (simp add: write_to_def)
qed

end

text \<open>
  C14. On any writer that keeps the \<open>std::io::Write\<close> contract, \<open>write_to\<close> either returns the
  number of bytes of the rendered record after delivering exactly those bytes, or fails after
  delivering a prefix of them; it never delivers anything else.
\<close>

theorem write_to_correct:
  assumes "sink ops contents" and "write_to ops tokens r w = (res, w')"
  shows "case res of
      Inr n \<Rightarrow> contents w' = contents w @ render_tokens tokens r \<and> n = length (render_tokens tokens r)
        \<and> binary_length_rejected tokens r = None
    | Inl e \<Rightarrow> \<exists>p q. render_tokens tokens r = p @ q \<and> contents w' = contents w @ p"
  using assms by (rule sink.write_to_cases)

definition sample_record :: output_record where
  "sample_record =
     \<lparr>o_topic = ''events'', o_partition = 3, o_offset = 42, o_timestamp = None, o_key = Some ''k'',
      o_headers = [\<lparr>h_name = ''null'', h_value = None\<rparr>, \<lparr>h_name = ''raw'', h_value = Some ''x''\<rparr>],
      o_source_payload_length = Some 9, o_payload = PBytes ''v'', o_action = EPassThrough\<rparr>"

lemma sample_write:
  "write_to pipe_sink [Literal ''a'', Offset, Headers] sample_record \<lparr>taken = [], room = 100\<rparr>
     = (Inr 18, \<lparr>taken = ''a42null=NULL,raw=x'', room = 82\<rparr>)"
  by (simp add: write_to_def sample_record_def binary_length_rejected_def pipe_sink_def
      write_bytes_def write_decimal_def counting_write_def checked_add_def usize_max_def
      dec_int_def dec_nat.simps digit_char_def header_pieces_def seq_w_def skip_w_def)

theorem write_to_correct_witness:
  "render_tokens [Literal ''a'', Offset, Headers] sample_record = ''a42null=NULL,raw=x''"
  using write_to_correct [OF ps.sink_axioms sample_write] by simp

text \<open>
  Into a byte vector (the \<open>--payload-format\<close> buffer) \<open>write_to\<close> succeeds whenever \<open>%R\<close> is
  not used with a payload beyond \<open>i32::MAX\<close>, and appends the whole rendered record.
\<close>

theorem write_to_vec_total:
  assumes "length (render_tokens tokens r) \<le> usize_max" and "binary_length_rejected tokens r = None"
  shows "write_to vec_sink tokens r w
    = (Inr (length (render_tokens tokens r)), w @ render_tokens tokens r)"
  using vs.write_to_total [OF assms, of w] by auto

theorem write_to_vec_total_witness:
  "write_to vec_sink [Payload, Action] sample_record ''>'' = (Inr 5, ''>vpass'')"
  using write_to_vec_total [of "[Payload, Action]" sample_record "''>''"]
  by (simp add: sample_record_def usize_max_def binary_length_rejected_def)

section \<open>Metadata the format does not require is never read\<close>

text \<open>What the poller keeps of a record: only the metadata the requirements ask for.\<close>

definition keep_required :: "output_requirements \<Rightarrow> output_record \<Rightarrow> output_record" where
  "keep_required req r = r\<lparr>
     o_key := (if req_key req then o_key r else None),
     o_headers := (if req_headers req then o_headers r else []),
     o_timestamp := (if req_timestamp req then o_timestamp r else None)\<rparr>"

lemma write_token_keep_required:
  assumes "t \<in> set tokens"
  shows "write_token ops (keep_required (format_requirements tokens) r) t = write_token ops r t"
proof -
  define req where "req = format_requirements tokens"
  have "req_key req" if "t = Key \<or> t = KeyLength"
    using assms that by (auto simp: req_def format_requirements_def list_ex_iff)
  moreover have "req_headers req" if "t = Headers"
    using assms that by (simp add: req_def format_requirements_def list_ex_iff)
  moreover have "req_timestamp req" if "t = Timestamp"
    using assms that by (simp add: req_def format_requirements_def list_ex_iff)
  ultimately show ?thesis
    unfolding req_def [symmetric] by (cases t) (simp_all add: keep_required_def)
qed

text \<open>
  \<open>requirements()\<close> is sound: dropping the key, headers or timestamp that it does
  not ask for changes neither the bytes written nor the result, on any writer.
\<close>

theorem requirements_sound:
  "write_to ops tokens (keep_required (format_requirements tokens) r) w = write_to ops tokens r w"
proof -
  have "map (write_token ops (keep_required (format_requirements tokens) r)) tokens
      = map (write_token ops r) tokens"
    by (rule map_cong [OF refl]) (rule write_token_keep_required)
  moreover have "binary_length_rejected tokens (keep_required (format_requirements tokens) r)
      = binary_length_rejected tokens r"
    by (simp add: binary_length_rejected_def keep_required_def)
  ultimately show ?thesis unfolding write_to_def by (simp only:)
qed

section \<open>Lengths read back\<close>

text \<open>\<open>i32::from_be_bytes\<close>, the reader's side of \<open>%R\<close>.\<close>

definition from_be_bytes :: "bytes \<Rightarrow> int" where
  "from_be_bytes bs = (let u = foldl (\<lambda>acc c. acc * 256 + int (of_char c)) 0 bs in
     if u < 2 ^ 31 then u else u - 2 ^ 32)"

lemma length_to_be_bytes [simp]: "length (to_be_bytes i) = 4"
  by (simp add: to_be_bytes_def Let_def)

lemma from_to_be_bytes:
  assumes "- (2 ^ 31) \<le> i" "i < 2 ^ 31"
  shows "from_be_bytes (to_be_bytes i) = i"
proof -
  define u where "u = nat (i mod 2 ^ 32)"
  have u: "u < 2 ^ 32" unfolding u_def by (simp add: nat_less_iff)
  have q: "u div 2 ^ 24 = u div 256 div 256 div 256" "u div 2 ^ 16 = u div 256 div 256"
    "u div 2 ^ 8 = u div 256"
    by (simp_all add: div_mult2_eq [symmetric])
  have split: "((u div 2 ^ 24 * 256 + u div 2 ^ 16 mod 256) * 256 + u div 2 ^ 8 mod 256) * 256 + u mod 256 = u"
    unfolding q by (simp only: div_mult_mod_eq)
  have "foldl (\<lambda>acc c. acc * 256 + int (of_char c)) 0 (to_be_bytes i)
      = int (((u div 2 ^ 24 * 256 + u div 2 ^ 16 mod 256) * 256 + u div 2 ^ 8 mod 256) * 256 + u mod 256)"
    unfolding to_be_bytes_def Let_def u_def [symmetric] using u by (simp add: of_char_of)
  also have "\<dots> = i mod 2 ^ 32" by (subst split) (simp add: u_def)
  finally have "from_be_bytes (to_be_bytes i) = (if i mod 2 ^ 32 < 2 ^ 31 then i mod 2 ^ 32 else i mod 2 ^ 32 - 2 ^ 32)"
    by (simp add: from_be_bytes_def Let_def)
  moreover have "i mod 2 ^ 32 = (if i < 0 then i + 2 ^ 32 else i)"
    using assms mod_add_self2 [of i "2 ^ 32"] mod_pos_pos_trivial [of "i + 2 ^ 32" "2 ^ 32"]
      mod_pos_pos_trivial [of i "2 ^ 32"] by (auto simp del: mod_add_self2)
  ultimately show ?thesis using assms by (auto split: if_splits)
qed

text \<open>
  When \<open>write_to\<close> accepts the record, the four bytes of \<open>%R\<close> read back as a signed
  big-endian integer equal to the payload length, or \<open>-1\<close> for a tombstone: a tombstone, an empty
  payload and JSON \<open>null\<close> stay distinct in a binary-framed stream.
\<close>

theorem binary_length_roundtrip:
  assumes "write_to ops tokens r w = (Inr n, w')" and "PayloadLengthBinary \<in> set tokens"
  shows "length (render_token r PayloadLengthBinary) = 4 \<and>
    from_be_bytes (render_token r PayloadLengthBinary)
      = (case payload_length (o_payload r) of None \<Rightarrow> - 1 | Some k \<Rightarrow> int k)"
proof -
  have "binary_length_rejected tokens r = None"
    using assms(1) by (cases "binary_length_rejected tokens r") (auto simp: write_to_def)
  then have "case payload_length (o_payload r) of None \<Rightarrow> True | Some k \<Rightarrow> int k < 2 ^ 31"
    using assms(2) by (auto simp: binary_length_rejected_def list_ex_iff i32_max_def split: option.splits if_splits)
  then show ?thesis
    by (auto simp: from_to_be_bytes split: option.splits)
qed

theorem binary_length_roundtrip_witness:
  "from_be_bytes (render_token (sample_record\<lparr>o_payload := PTombstone\<rparr>) PayloadLengthBinary) = - 1"
proof -
  have "write_to vec_sink [PayloadLengthBinary] (sample_record\<lparr>o_payload := PTombstone\<rparr>) []
      = (Inr 4, to_be_bytes (- 1))"
    using write_to_vec_total [of "[PayloadLengthBinary]" "sample_record\<lparr>o_payload := PTombstone\<rparr>" "[]"]
    by (simp add: binary_length_rejected_def usize_max_def to_be_bytes_def Let_def)
  from binary_length_roundtrip [OF this] show ?thesis by simp
qed

section \<open>The compiled tokens\<close>

text \<open>
  The placeholders, the escapes and the hexadecimal digits as tables, and the pieces a format consists of:
  a byte that is put out as it is, or a slot. The tokens are the slots, with every longest run of bytes between
  them as one literal; \<open>%%\<close> is a slot of its own.
\<close>

definition placeholder_table :: "(char \<times> format_token) list" where
  "placeholder_table =
     [(CHR ''o'', Offset), (CHR ''k'', Key), (CHR ''K'', KeyLength), (CHR ''s'', Payload), (CHR ''S'', PayloadLength),
      (CHR ''L'', SourcePayloadLength), (CHR ''R'', PayloadLengthBinary), (CHR ''t'', Topic), (CHR ''p'', Partition),
      (CHR ''T'', Timestamp), (CHR ''h'', Headers), (CHR ''a'', Action), (CHR ''%'', Literal ''%'')]"

definition escape_table :: "(char \<times> char) list" where
  "escape_table = [(CHR ''n'', CHR 0x0A), (CHR ''r'', CHR 0x0D), (CHR ''t'', CHR 0x09), (CHR 0x5C, CHR 0x5C)]"

definition hex_table :: "(char \<times> nat) list" where
  "hex_table = zip ''0123456789abcdef'' [0..<16] @ zip ''ABCDEF'' [10..<16]"

datatype piece = Byte char | Slot format_token

definition with_piece :: "piece \<Rightarrow> format_error + piece list \<Rightarrow> format_error + piece list" where
  "with_piece p res = (case res of Inl e \<Rightarrow> Inl e | Inr ps \<Rightarrow> Inr (p # ps))"

fun read_pieces :: "bytes \<Rightarrow> format_error + piece list" where
  "read_pieces [] = Inr []"
| "read_pieces [b] =
     (if b = CHR ''%'' then Inl IncompletePlaceholder
      else if b = CHR 0x5C then Inl IncompleteEscape
      else Inr [Byte b])"
| "read_pieces (b # c # rest) =
     (if b = CHR ''%'' then
        (case map_of placeholder_table c of
           None \<Rightarrow> Inl (UnsupportedPlaceholder c)
         | Some t \<Rightarrow> with_piece (Slot t) (read_pieces rest))
      else if b = CHR 0x5C \<and> c = CHR ''x'' then
        (case rest of
           h # l # rest' \<Rightarrow>
             (case (map_of hex_table h, map_of hex_table l) of
                (Some x, Some y) \<Rightarrow> with_piece (Byte (char_of (16 * x + y))) (read_pieces rest')
              | _ \<Rightarrow> Inl HexDigitsRequired)
         | _ \<Rightarrow> Inl HexDigitsRequired)
      else if b = CHR 0x5C then
        (case map_of escape_table c of
           None \<Rightarrow> Inl (UnsupportedEscape c)
         | Some e \<Rightarrow> with_piece (Byte e) (read_pieces rest))
      else with_piece (Byte b) (read_pieces (c # rest)))"

fun is_byte :: "piece \<Rightarrow> bool" where
  "is_byte (Byte c) = True"
| "is_byte (Slot t) = False"

fun byte_of :: "piece \<Rightarrow> bytes" where
  "byte_of (Byte c) = [c]"
| "byte_of (Slot t) = []"

function join_bytes :: "piece list \<Rightarrow> format_token list" where
  "join_bytes [] = []"
| "join_bytes (Slot t # ps) = t # join_bytes ps"
| "join_bytes (Byte c # ps) =
     Literal (c # concat (map byte_of (takeWhile is_byte ps))) # join_bytes (dropWhile is_byte ps)"
  by pat_completeness auto
termination
  by (relation "measure length") (simp_all add: length_dropWhile_le le_imp_less_Suc)

lemma placeholder_in_table: "placeholder_token c = map_of placeholder_table c"
  by (simp add: placeholder_token_def placeholder_table_def)

lemma escape_in_table: "simple_escape c = map_of escape_table c"
  by (simp add: simple_escape_def escape_table_def backslash_def)

lemma hex_in_table: "hex_value c = map_of hex_table c"
proof -
  have "\<forall>c. hex_value c = map_of hex_table c" by code_simp
  then show ?thesis ..
qed

lemma bytes_taken:
  "takeWhile is_byte (map Byte bs @ Slot t # ps) = map Byte bs" "takeWhile is_byte (map Byte bs) = map Byte bs"
  "dropWhile is_byte (map Byte bs @ Slot t # ps) = Slot t # ps" "dropWhile is_byte (map Byte bs) = []"
  "concat (map byte_of (map Byte bs)) = bs"
  by (induction bs) simp_all

lemma join_bytes_flush:
  "join_bytes (map Byte literal @ Slot t # ps) = flush_literal [] literal @ t # join_bytes ps"
  "join_bytes (map Byte literal) = flush_literal [] literal"
  by (cases literal; simp add: flush_literal_def bytes_taken del: map_map)+

lemma flush_literal_tokens: "flush_literal tokens literal = tokens @ flush_literal [] literal"
  by (simp add: flush_literal_def)

definition finished_tokens :: "format_token list \<Rightarrow> bytes \<Rightarrow> format_error + piece list \<Rightarrow> format_error + format_token list" where
  "finished_tokens tokens literal res = (case res of
      Inl e \<Rightarrow> Inl e | Inr ps \<Rightarrow> Inr (tokens @ join_bytes (map Byte literal @ ps)))"

lemma finished_slot:
  "finished_tokens tokens literal (with_piece (Slot t) res) = finished_tokens (flush_literal tokens literal @ [t]) [] res"
  by (cases res) (simp_all add: finished_tokens_def with_piece_def join_bytes_flush flush_literal_tokens [of tokens])

lemma finished_byte:
  "finished_tokens tokens literal (with_piece (Byte c) res) = finished_tokens tokens (literal @ [c]) res"
  by (cases res) (simp_all add: finished_tokens_def with_piece_def)

lemma compile_loop_exact: "compile_loop rest tokens literal = finished_tokens tokens literal (read_pieces rest)"
proof (induction rest arbitrary: tokens literal rule: read_pieces.induct)
  case 1
  show ?case
    by (simp add: compile_loop.simps finished_tokens_def join_bytes_flush flush_literal_tokens [of tokens])
next
  case (2 b)
  have last: "compile_loop [] tokens (literal @ [b]) = finished_tokens tokens literal (Inr [Byte b])"
    using join_bytes_flush(2) [of "literal @ [b]"]
    by (simp add: compile_loop.simps finished_tokens_def flush_literal_tokens [of tokens])
  show ?case
    by (subst compile_loop.simps) (simp add: last backslash_def, simp add: finished_tokens_def)
next
  case (3 b c rest)
  note step = compile_loop.simps [of "b # c # rest" tokens literal]
  consider (placeholder) "b = CHR ''%''" | (hex) "b = backslash" "c = CHR ''x''"
    | (escape) "b = backslash" "c \<noteq> CHR ''x''" | (plain) "b \<noteq> CHR ''%''" "b \<noteq> backslash" by blast
  then show ?case
  proof cases
    case placeholder
    show ?thesis
    proof (cases "map_of placeholder_table c")
      case None
      with placeholder show ?thesis
        unfolding step by (simp add: placeholder_in_table finished_tokens_def)
    next
      case (Some t)
      with placeholder "3.IH"(1) [OF placeholder Some] show ?thesis
        unfolding step by (simp add: placeholder_in_table finished_slot)
    qed
  next
    case hex
    show ?thesis
    proof (cases "hex_escape rest")
      case None
      with hex show ?thesis
        unfolding step
        by (cases rest rule: hex_escape.cases)
          (auto simp: backslash_def finished_tokens_def hex_in_table split: option.splits)
    next
      case (Some r)
      then obtain h l rest' x y where r: "rest = h # l # rest'" "map_of hex_table h = Some x" "map_of hex_table l = Some y"
        "r = (char_of (16 * x + y), rest')"
        by (cases rest rule: hex_escape.cases) (auto simp: hex_in_table split: option.splits)
      have b: "b \<noteq> CHR ''%''" "b = CHR 0x5C \<and> c = CHR ''x''" using hex by (simp_all add: backslash_def)
      have "compile_loop (b # c # rest) tokens literal = compile_loop rest' tokens (literal @ [char_of (16 * x + y)])"
        unfolding step using hex Some r by (simp add: backslash_def)
      also have "\<dots> = finished_tokens tokens (literal @ [char_of (16 * x + y)]) (read_pieces rest')"
        using "3.IH"(2) [OF b(1) b(2) r(1) refl refl r(2,3)] by simp
      also have "\<dots> = finished_tokens tokens literal (read_pieces (b # c # rest))"
        using b r by (simp add: finished_byte)
      finally show ?thesis .
    qed
  next
    case escape
    have b: "b \<noteq> CHR ''%''" "\<not> (b = CHR 0x5C \<and> c = CHR ''x'')" "b = CHR 0x5C" using escape by (simp_all add: backslash_def)
    show ?thesis
    proof (cases "map_of escape_table c")
      case None
      with escape b show ?thesis unfolding step by (simp add: escape_in_table finished_tokens_def)
    next
      case (Some e)
      with escape b "3.IH"(3) [OF b Some] show ?thesis
        unfolding step by (simp add: escape_in_table finished_byte)
    qed
  next
    case plain
    have b: "\<not> (b = CHR 0x5C \<and> c = CHR ''x'')" "b \<noteq> CHR 0x5C" using plain by (simp_all add: backslash_def)
    have "compile_loop (b # c # rest) tokens literal = compile_loop (c # rest) tokens (literal @ [b])"
      unfolding step using plain by simp
    also have "\<dots> = finished_tokens tokens literal (read_pieces (b # c # rest))"
      using plain b "3.IH"(4) [OF plain(1) b] by (simp add: finished_byte)
    finally show ?thesis .
  qed
qed

lemma compile_format_exact:
  "compile_format source = (case read_pieces source of Inl e \<Rightarrow> Inl e | Inr ps \<Rightarrow> Inr (join_bytes ps))"
  using compile_loop_exact [of source "[]" "[]"]
  by (cases "read_pieces source") (simp_all add: compile_format_def finished_tokens_def)

text \<open>
  C27. The compiler's loop, which joins literal bytes in a buffer and flushes it before each placeholder,
  compiles a format to exactly its pieces read from the tables: it fails as reading the pieces does and with
  the same error; otherwise its tokens are the slots in order with every longest run of bytes between them as
  one non-empty literal, and they ask for the metadata whose placeholders occur and no other.
\<close>

theorem compile_matches_reference:
  "compile_format source = (case read_pieces source of Inl e \<Rightarrow> Inl e | Inr ps \<Rightarrow> Inr (join_bytes ps)) \<and>
    (\<forall>ps. read_pieces source = Inr ps \<longrightarrow> format_requirements (join_bytes ps) =
      \<lparr>req_key = (Slot Key \<in> set ps \<or> Slot KeyLength \<in> set ps), req_headers = (Slot Headers \<in> set ps),
       req_timestamp = (Slot Timestamp \<in> set ps)\<rparr>)"
proof
  show "compile_format source = (case read_pieces source of Inl e \<Rightarrow> Inl e | Inr ps \<Rightarrow> Inr (join_bytes ps))"
    by (rule compile_format_exact)
  have slots: "t \<in> set (join_bytes ps) \<longleftrightarrow> Slot t \<in> set ps" if "\<forall>bs. t \<noteq> Literal bs" for t ps
  proof (induction ps rule: join_bytes.induct)
    case (3 c ps)
    have "Slot t \<notin> set (takeWhile is_byte ps)" by (auto dest: set_takeWhileD)
    then have "Slot t \<in> set (dropWhile is_byte ps) \<longleftrightarrow> Slot t \<in> set ps"
      by (metis UnE UnI2 set_append takeWhile_dropWhile_id)
    with 3 that show ?case by simp
  qed auto
  show "\<forall>ps. read_pieces source = Inr ps \<longrightarrow> format_requirements (join_bytes ps) =
      \<lparr>req_key = (Slot Key \<in> set ps \<or> Slot KeyLength \<in> set ps), req_headers = (Slot Headers \<in> set ps),
       req_timestamp = (Slot Timestamp \<in> set ps)\<rparr>"
    using slots [of Key] slots [of KeyLength] slots [of Headers] slots [of Timestamp]
    by (auto simp: format_requirements_def list_ex_iff)
qed

text \<open>Bytes before, between and after the placeholders, an escape among them.\<close>

theorem compile_matches_reference_witness:
  "compile_format (''%k: %s'' @ [CHR 0x5C, CHR ''x'', CHR ''0'', CHR ''a'', CHR ''!''])
    = Inr [Key, Literal '': '', Payload, Literal [CHR 0x0A, CHR ''!'']]
    \<and> format_requirements [Key, Literal '': '', Payload, Literal [CHR 0x0A, CHR ''!'']]
      = \<lparr>req_key = True, req_headers = False, req_timestamp = False\<rparr>"
proof -
  have hex: "map_of hex_table (CHR ''0'') = Some 0" "map_of hex_table (CHR ''a'') = Some 10"
    "char_of (10 :: nat) = CHR 0x0A" by code_simp+
  have "read_pieces (''%k: %s'' @ [CHR 0x5C, CHR ''x'', CHR ''0'', CHR ''a'', CHR ''!''])
    = Inr [Slot Key, Byte (CHR '':''), Byte (CHR '' ''), Slot Payload, Byte (CHR 0x0A), Byte (CHR ''!'')]"
    using hex by (simp add: placeholder_table_def with_piece_def)
  with compile_matches_reference [of "''%k: %s'' @ [CHR 0x5C, CHR ''x'', CHR ''0'', CHR ''a'', CHR ''!'']"]
  show ?thesis by simp
qed

fun render_piece :: "output_record \<Rightarrow> piece \<Rightarrow> bytes" where
  "render_piece r (Byte c) = [c]"
| "render_piece r (Slot t) = render_token r t"

lemma render_join_bytes: "render_tokens (join_bytes ps) r = concat (map (render_piece r) ps)"
proof (induction ps rule: join_bytes.induct)
  case (3 c ps)
  have "concat (map (render_piece r) (takeWhile is_byte ps)) = concat (map byte_of (takeWhile is_byte ps))"
    by (rule arg_cong [where f = concat], rule map_cong) (auto dest!: set_takeWhileD elim: is_byte.elims)
  with 3 show ?case
    by simp (metis concat_append map_append takeWhile_dropWhile_id)
qed simp_all

lemma with_piece_Inr: "with_piece p res = Inr ps \<longleftrightarrow> (\<exists>qs. res = Inr qs \<and> ps = p # qs)"
  by (auto simp: with_piece_def split: sum.split)

lemma read_pieces_append:
  "read_pieces a = Inr pa \<Longrightarrow> read_pieces b = Inr pb \<Longrightarrow> read_pieces (a @ b) = Inr (pa @ pb)"
proof (induction a arbitrary: pa rule: read_pieces.induct)
  case (2 x)
  then show ?case by (cases b) (auto simp: with_piece_def split: if_splits)
next
  case (3 x y rest)
  then show ?case
    by (auto simp: with_piece_Inr split: if_splits option.splits list.splits)
qed simp

text \<open>
  Compiling is compositional: a format that is two compilable formats put together
  compiles, and puts out for every record what the two put out one after the other.
\<close>

theorem compile_append:
  assumes "compile_format a = Inr ta" and "compile_format b = Inr tb"
  shows "\<exists>t. compile_format (a @ b) = Inr t \<and>
    (\<forall>r. render_tokens t r = render_tokens ta r @ render_tokens tb r)"
proof -
  from assms obtain pa pb where "read_pieces a = Inr pa" "ta = join_bytes pa" "read_pieces b = Inr pb" "tb = join_bytes pb"
    unfolding compile_format_exact by (auto split: sum.splits)
  with read_pieces_append [of a pa b pb] show ?thesis by (simp add: compile_format_exact render_join_bytes)
qed

theorem compile_append_witness:
  "\<exists>t. compile_format (''%o:'' @ ''%k%%'') = Inr t \<and>
    (\<forall>r. render_tokens t r = render_tokens [Offset, Literal '':''] r @ render_tokens [Key, Literal ''%''] r)"
  by (rule compile_append)
    (simp_all add: compile_format_def compile_loop.simps placeholder_token_def flush_literal_def
      backslash_def)

text \<open>Every byte has an escape: two hexadecimal digits after \<open>\x\<close>.\<close>

definition hex_char :: "nat \<Rightarrow> char" where
  "hex_char d = ''0123456789abcdef'' ! d"

definition escape_byte :: "char \<Rightarrow> bytes" where
  "escape_byte c = [backslash, CHR ''x'', hex_char (of_char c div 16), hex_char (of_char c mod 16)]"

lemma hex_value_char: "d < 16 \<Longrightarrow> hex_value (hex_char d) = Some d"
proof -
  have "\<forall>d \<in> {..<16}. hex_value (hex_char d) = Some d"
    by (simp add: hex_value_def hex_char_def lessThan_nat_numeral lessThan_Suc)
  then show "d < 16 \<Longrightarrow> hex_value (hex_char d) = Some d" by simp
qed

lemma hex_escape_byte: "hex_escape (hex_char (of_char c div 16) # hex_char (of_char c mod 16) # rest) = Some (c, rest)"
proof -
  have "(of_char c :: nat) div 16 < 16" using of_char_lt [of c] by (simp add: div_less_iff_less_mult)
  moreover have "16 * ((of_char c :: nat) div 16) + of_char c mod 16 = of_char c"
    by simp
  ultimately show ?thesis by (simp add: hex_value_char)
qed

lemma compile_loop_escapes:
  "compile_loop (concat (map escape_byte bs)) tokens literal = Inr (flush_literal tokens (literal @ bs))"
proof (induction bs arbitrary: literal)
  case Nil
  then show ?case by (simp add: compile_loop.simps)
next
  case (Cons c bs)
  have "compile_loop (escape_byte c @ concat (map escape_byte bs)) tokens literal
      = compile_loop (concat (map escape_byte bs)) tokens (literal @ [c])"
    by (subst compile_loop.simps)
      (simp add: escape_byte_def hex_escape_byte backslash_def del: hex_escape.simps)
  with Cons show ?case by simp
qed

text \<open>
  Any byte string, escaped byte by byte as \<open>\xNN\<close>, compiles to that one literal, so the
  compiled format puts the very bytes out in front of whatever record it renders.
\<close>

theorem escaped_bytes_roundtrip:
  "compile_format (concat (map escape_byte bs)) = Inr (if bs = [] then [] else [Literal bs])"
  by (simp add: compile_format_def compile_loop_escapes flush_literal_def)

end
