(* ===== verification/Writer.thy ===== *)
theory Writer
  imports Worker Orderer Envelope_Facts Format_Facts Failure
begin

text \<open>
  The output side of \<open>src/runtime.rs\<close>: \<open>write_action\<close> turns a completion's action into output bytes, and
  \<open>write_completions\<close> drains the completion channel through the orderer (or directly), stops writing at the
  first failure, and gives every completion's charge and payload storage back to its poller.
  What the writer sends on the release channels is kept as the log \<open>ws_sent\<close>.
\<close>

section \<open>Writing one action\<close>

text \<open>
  The payload and action kind an action is written with; \<open>None\<close> for a drop. The two errors are the
  internal ones between evaluator and output plan.
\<close>

definition emitted_payload :: "bool \<Rightarrow> action \<Rightarrow> io_error + (payload \<times> emitted_action) option" where
  "emitted_payload embeds a = (case a of
      Drop \<Rightarrow> Inr None
    | Tombstone \<Rightarrow> Inr (Some (PTombstone, ETombstone))
    | PassThrough (Exact v) \<Rightarrow>
        if embeds then Inl (io_other ''JSON-value envelope received a non-JSON pass-through payload'')
        else Inr (Some (PBytes (vbytes v), EPassThrough))
    | PassThrough (PassJson v source_length) \<Rightarrow>
        if embeds then Inr (Some (PJson (vbytes v) source_length, EPassThrough))
        else Inl (io_other ''JSON pass-through payload requires a JSON-value envelope'')
    | Project v \<Rightarrow>
        if embeds then Inr (Some (PJson (vbytes v) (length (vbytes v)), EProject))
        else Inr (Some (PBytes (vbytes v), EProject)))"

definition output_record_of :: "'x runtime_config \<Rightarrow> source_record \<Rightarrow> payload \<Rightarrow> emitted_action \<Rightarrow> output_record" where
  "output_record_of cf src p k =
     \<lparr>o_topic = cf_topic cf, o_partition = s_partition src, o_offset = s_offset src,
      o_timestamp = s_timestamp src, o_key = s_key src, o_headers = s_headers src,
      o_source_payload_length = s_payload_length src, o_payload = p, o_action = k\<rparr>"

text \<open>The output plan applied to a record; the payload buffer is cleared first, so it starts empty.\<close>

definition write_record ::
    "(string \<Rightarrow> bytes) \<Rightarrow> 'w sink_ops \<Rightarrow> output_plan \<Rightarrow> output_record \<Rightarrow> 'w \<Rightarrow> (io_error + nat) \<times> 'w" where
  "write_record js ops plan r w = (case plan of
      FormatPlan payload_format format \<Rightarrow>
        (case payload_format of
           None \<Rightarrow> write_to ops format r w
         | Some pf \<Rightarrow>
             if o_payload r \<noteq> PTombstone
             then (case write_to vec_sink pf r [] of
                (Inl e, _) \<Rightarrow> (Inl e, w)
              | (Inr _, buffer) \<Rightarrow> write_to ops format (r\<lparr>o_payload := PBytes buffer\<rparr>) w)
             else write_to ops format r w)
    | EnvelopePlan _ \<Rightarrow> write_envelope js ops r w)"

definition write_action ::
    "(string \<Rightarrow> bytes) \<Rightarrow> 'w sink_ops \<Rightarrow> 'x runtime_config \<Rightarrow> source_record \<Rightarrow> action \<Rightarrow> 'w \<times> stats
      \<Rightarrow> (io_error + unit) \<times> 'w \<times> stats" where
  "write_action js ops cf src a s = (case s of (w, st) \<Rightarrow>
     (case emitted_payload (embeds_json (cf_output cf)) a of
        Inl e \<Rightarrow> (Inl e, w, st)
      | Inr None \<Rightarrow> (Inr (), w, st)
      | Inr (Some (p, k)) \<Rightarrow>
          (case write_record js ops (cf_output cf) (output_record_of cf src p k) w of
             (Inl e, w1) \<Rightarrow> (Inl e, w1, st)
           | (Inr n, w1) \<Rightarrow>
               if cf_unbuffered cf
               then (case sink_flush ops w1 of
                   (Inl e, w2) \<Rightarrow> (Inl e, w2, st)
                 | (Inr _, w2) \<Rightarrow> (Inr (), w2, stats_emitted n st))
               else (Inr (), w1, stats_emitted n st))))"

section \<open>The loop\<close>

record 'w writer_state =
  ws_sink :: 'w
  ws_orderer :: orderer
  ws_failure :: "pipeline_error option"
  ws_control :: control
  ws_stats :: stats
  ws_sent :: "(nat \<times> release list) list"

definition writer_failure :: "pipeline_error \<Rightarrow> 'w writer_state \<Rightarrow> 'w writer_state" where
  "writer_failure e s =
     s\<lparr>ws_control := (record_failure e (ws_control s))\<lparr>ct_shutdown := True\<rparr>,
       ws_failure := (case ws_failure s of None \<Rightarrow> Some e | Some f \<Rightarrow> Some f)\<rparr>"

definition release_of :: "completion \<Rightarrow> release" where
  "release_of c =
     \<lparr>rel_partition = c_partition c, rel_retained_bytes = c_retained_bytes c,
      rel_payload = (case c_outcome c of
          Done (PassThrough (Exact v)) \<Rightarrow> Some v
        | Done (PassThrough (PassJson v _)) \<Rightarrow> Some v
        | Done (Project v) \<Rightarrow> Some v
        | _ \<Rightarrow> c_spare_payload c)\<rparr>"

text \<open>A completion that is due: written unless the writer has already failed, and released in any case.\<close>

definition emit_one ::
    "(string \<Rightarrow> bytes) \<Rightarrow> 'w sink_ops \<Rightarrow> 'x runtime_config \<Rightarrow> completion \<Rightarrow> 'w writer_state \<Rightarrow> 'w writer_state" where
  "emit_one js ops cf c s =
     (if ws_failure s \<noteq> None then s
      else case c_outcome c of
        Fatal m \<Rightarrow> writer_failure (RuntimeError m) s
      | Done a \<Rightarrow>
          (case write_action js ops cf (c_source c) a (ws_sink s, ws_stats s) of
             (Inl e, w, st) \<Rightarrow> writer_failure (OutputError e) (s\<lparr>ws_sink := w, ws_stats := st\<rparr>)
           | (Inr _, w, st) \<Rightarrow> s\<lparr>ws_sink := w, ws_stats := st\<rparr>))"

definition is_ordered :: "'x runtime_config \<Rightarrow> bool" where
  "is_ordered cf \<longleftrightarrow> \<not> cf_unordered cf \<and> tp_parses_json (cf_transform cf)"

text \<open>Ordered output goes through the orderer with \<open>ready\<close> cleared; otherwise the completion is due at once.\<close>

definition buffer_insert ::
    "bool \<Rightarrow> completion \<Rightarrow> orderer \<Rightarrow> completion list
      \<Rightarrow> (insert_error \<times> completion + completion list) \<times> orderer" where
  "buffer_insert ordered c ord ready =
     (if ordered then orderer_insert c ord ready else (Inr (ready @ [c]), ord))"

definition duplicate_text :: "insert_error \<Rightarrow> string" where
  "duplicate_text e = (case e of DuplicateCompletion p n \<Rightarrow>
     ''duplicate completion for partition '' @ dec_int p @ '' sequence '' @ dec_nat n)"

text \<open>One completion of a batch; the second component is the batch's releases so far.\<close>

definition take_completion ::
    "(string \<Rightarrow> bytes) \<Rightarrow> 'w sink_ops \<Rightarrow> 'x runtime_config \<Rightarrow> completion
      \<Rightarrow> 'w writer_state \<times> release list \<Rightarrow> 'w writer_state \<times> release list" where
  "take_completion js ops cf c sr = (case sr of (s, releases) \<Rightarrow>
     (case buffer_insert (is_ordered cf) c (ws_orderer s) [] of
        (Inl (e, c'), ord) \<Rightarrow>
          (writer_failure (RuntimeError (duplicate_text e)) (s\<lparr>ws_orderer := ord\<rparr>), releases @ [release_of c'])
      | (Inr ready, ord) \<Rightarrow>
          (fold (emit_one js ops cf) ready (s\<lparr>ws_orderer := ord\<rparr>), releases @ map release_of ready)))"

definition take_batch ::
    "(string \<Rightarrow> bytes) \<Rightarrow> 'w sink_ops \<Rightarrow> 'x runtime_config \<Rightarrow> completion_batch
      \<Rightarrow> 'w writer_state \<Rightarrow> 'w writer_state" where
  "take_batch js ops cf b s =
     (case fold (take_completion js ops cf) (cb_items b) (s, []) of (s', releases) \<Rightarrow>
        if releases \<noteq> [] then s'\<lparr>ws_sent := ws_sent s' @ [(cb_consumer b, releases)]\<rparr> else s')"

definition gap_text :: string where
  "gap_text = ''completion channel closed with a partition sequence gap''"

text \<open>
  After the channel closed: what is still pending is released to its own consumers and is a failure. The source
  indexes its vector of releases by the completion's consumer, so an index out of range would be a panic;
  here it would be no release. \<open>Run_Ledger.completion_ok\<close> is the invariant that no completion has one.
\<close>

definition drain_pending :: "nat \<Rightarrow> 'w writer_state \<Rightarrow> 'w writer_state" where
  "drain_pending consumers s =
     (case take_pending (ws_orderer s) of (pending, ord) \<Rightarrow>
        if pending = [] then s\<lparr>ws_orderer := ord\<rparr>
        else writer_failure (RuntimeError gap_text)
          (s\<lparr>ws_orderer := ord,
            ws_sent := ws_sent s @ filter (\<lambda>(k, rs). rs \<noteq> [])
              (map (\<lambda>k. (k, map release_of (filter (\<lambda>c. c_consumer c = k) pending))) [0..<consumers])\<rparr>))"

definition final_flush :: "'w sink_ops \<Rightarrow> 'w writer_state \<Rightarrow> 'w writer_state" where
  "final_flush ops s =
     (case ws_failure s of
        Some (OutputError _) \<Rightarrow> s
      | _ \<Rightarrow> (case sink_flush ops (ws_sink s) of
          (Inl e, w) \<Rightarrow> writer_failure (OutputError e) (s\<lparr>ws_sink := w\<rparr>)
        | (Inr _, w) \<Rightarrow> s\<lparr>ws_sink := w\<rparr>))"

definition writer_init :: "'w \<Rightarrow> control \<Rightarrow> stats \<Rightarrow> 'w writer_state" where
  "writer_init w ct st =
     \<lparr>ws_sink = w, ws_orderer = bt_empty,
      ws_failure = (case ct_first ct of Some (StartupFailure m) \<Rightarrow> Some (RuntimeError m) | _ \<Rightarrow> None),
      ws_control = ct, ws_stats = st, ws_sent = []\<rparr>"

definition write_completions ::
    "(string \<Rightarrow> bytes) \<Rightarrow> 'w sink_ops \<Rightarrow> 'x runtime_config \<Rightarrow> nat \<Rightarrow> completion_batch list
      \<Rightarrow> 'w writer_state \<Rightarrow> (pipeline_error + unit) \<times> 'w writer_state" where
  "write_completions js ops cf consumers batches s =
     (let s' = final_flush ops (drain_pending consumers (fold (take_batch js ops cf) batches s))
      in (case ws_failure s' of None \<Rightarrow> Inr () | Some e \<Rightarrow> Inl e, s'))"

end
