(* ===== verification/Writer_Facts.thy ===== *)
theory Writer_Facts
  imports Writer
begin

text \<open>
  What the output side guarantees: the bytes written are the rendered actions of the completions in due
  order, cut at the first failure; every completion is released exactly once, to its own consumer;
  and the shared cell keeps the first failure. \<open>Writer_Reference\<close> adds which failure that is.
\<close>

section \<open>The text of an action\<close>

definition plan_text :: "(string \<Rightarrow> bytes) \<Rightarrow> output_plan \<Rightarrow> output_record \<Rightarrow> bytes" where
  "plan_text js plan r = (case plan of
      FormatPlan payload_format format \<Rightarrow>
        (case payload_format of
           None \<Rightarrow> render_tokens format r
         | Some pf \<Rightarrow> render_tokens format
             (if o_payload r = PTombstone then r else r\<lparr>o_payload := PBytes (render_tokens pf r)\<rparr>))
    | EnvelopePlan _ \<Rightarrow> render_envelope js r)"

definition action_text :: "(string \<Rightarrow> bytes) \<Rightarrow> 'x runtime_config \<Rightarrow> source_record \<Rightarrow> action \<Rightarrow> bytes" where
  "action_text js cf src a = (case emitted_payload (embeds_json (cf_output cf)) a of
      Inr (Some (p, k)) \<Rightarrow> plan_text js (cf_output cf) (output_record_of cf src p k)
    | _ \<Rightarrow> [])"

definition completion_text :: "(string \<Rightarrow> bytes) \<Rightarrow> 'x runtime_config \<Rightarrow> completion \<Rightarrow> bytes" where
  "completion_text js cf c = (case c_outcome c of
      Fatal _ \<Rightarrow> [] | Done a \<Rightarrow> action_text js cf (c_source c) a)"

definition texts :: "(string \<Rightarrow> bytes) \<Rightarrow> 'x runtime_config \<Rightarrow> completion list \<Rightarrow> bytes" where
  "texts js cf cs = concat (map (completion_text js cf) cs)"

lemma texts_simps [simp]:
  "texts js cf [] = []"
  "texts js cf (c # cs) = completion_text js cf c @ texts js cf cs"
  "texts js cf (cs @ ds) = texts js cf cs @ texts js cf ds"
  by (simp_all add: texts_def)

definition is_fatal :: "completion \<Rightarrow> bool" where
  "is_fatal c = (case c_outcome c of Fatal _ \<Rightarrow> True | Done _ \<Rightarrow> False)"

lemma payload_format_text:
  "write_to vec_sink pf r [] = (Inr n, buffer) \<Longrightarrow> buffer = render_tokens pf r"
  using vs.write_to_cases [of pf r "[]" "Inr n" buffer] by simp

context sink
begin

lemma write_record_cases:
  assumes "write_record js ops plan r w = (res, w')"
  shows "case res of
      Inr n \<Rightarrow> contents w' = contents w @ plan_text js plan r \<and> n = length (plan_text js plan r)
    | Inl e \<Rightarrow> \<exists>p q. plan_text js plan r = p @ q \<and> contents w' = contents w @ p"
proof (cases plan)
  case (EnvelopePlan k)
  with assms write_envelope_cases [of js r w res w'] show ?thesis
    by (cases res) (simp_all add: write_record_def plan_text_def)
next
  case (FormatPlan payload_format format)
  have plain: "case res of
      Inr n \<Rightarrow> contents w' = contents w @ render_tokens format r' \<and> n = length (render_tokens format r')
    | Inl e \<Rightarrow> \<exists>p q. render_tokens format r' = p @ q \<and> contents w' = contents w @ p"
    if "write_to ops format r' w = (res, w')" for r'
    using write_to_cases [OF that] by (cases res) simp_all
  show ?thesis
  proof (cases payload_format)
    case None
    with FormatPlan assms plain [of r] show ?thesis by (cases res) (simp_all add: write_record_def plan_text_def)
  next
    case (Some pf)
    show ?thesis
    proof (cases "o_payload r = PTombstone")
      case True
      with FormatPlan Some assms plain [of r] show ?thesis by (cases res) (simp_all add: write_record_def plan_text_def)
    next
      case False
      obtain n buffer where vec: "write_to vec_sink pf r [] = (n, buffer)" by (metis prod.exhaust)
      show ?thesis
      proof (cases n)
        case (Inl e)
        with FormatPlan Some False vec assms show ?thesis by (auto simp: write_record_def)
      next
        case (Inr m)
        with vec have "buffer = render_tokens pf r" by (auto dest: payload_format_text)
        with FormatPlan Some False vec assms Inr plain [of "r\<lparr>o_payload := PBytes buffer\<rparr>"] show ?thesis
          by (cases res) (simp_all add: write_record_def plan_text_def)
      qed
    qed
  qed
qed

lemma write_action_cases:
  assumes "write_action js ops cf src a (w, st) = (res, w', st')"
  shows "case res of
      Inr _ \<Rightarrow> contents w' = contents w @ action_text js cf src a
    | Inl e \<Rightarrow> \<exists>p q. action_text js cf src a = p @ q \<and> contents w' = contents w @ p"
proof (cases "emitted_payload (embeds_json (cf_output cf)) a")
  case (Inl e)
  with assms show ?thesis by (auto simp: write_action_def action_text_def)
next
  case (Inr o')
  show ?thesis
  proof (cases o')
    case None
    with Inr assms show ?thesis by (auto simp: write_action_def action_text_def)
  next
    case (Some pk)
    obtain p k where pk: "pk = (p, k)" by (metis prod.exhaust)
    let ?r = "output_record_of cf src p k"
    obtain n w1 where rec: "write_record js ops (cf_output cf) ?r w = (n, w1)" by (metis prod.exhaust)
    have shown: "action_text js cf src a = plan_text js (cf_output cf) ?r"
      using Inr Some pk by (simp add: action_text_def)
    note one = write_record_cases [OF rec]
    obtain f w2 where flush: "sink_flush ops w1 = (f, w2)" by (metis prod.exhaust)
    then have same: "contents w2 = contents w1" by (rule flush_contents)
    show ?thesis
    proof (cases n)
      case (Inl e)
      with one shown rec \<open>emitted_payload _ _ = _\<close> Some pk assms show ?thesis
        by (auto simp: write_action_def)
    next
      case (Inr m)
      with one shown have full: "contents w1 = contents w @ action_text js cf src a" by simp
      with same have "\<exists>p q. action_text js cf src a = p @ q \<and> contents w2 = contents w @ p"
        by (intro exI [of _ "action_text js cf src a"] exI [of _ "[]"]) simp
      with Inr full same rec flush \<open>emitted_payload _ _ = _\<close> Some pk assms show ?thesis
        by (cases f) (auto simp: write_action_def split: if_splits)
    qed
  qed
qed

end

section \<open>What becomes due\<close>

text \<open>
  The completions a sequence of arrivals makes due, in order, those rejected as duplicates, and the
  orderer left behind.
\<close>

fun buffer_run ::
    "bool \<Rightarrow> completion list \<Rightarrow> orderer \<Rightarrow> completion list \<times> completion list \<times> orderer" where
  "buffer_run ordered [] ord = ([], [], ord)"
| "buffer_run ordered (c # cs) ord =
     (case buffer_insert ordered c ord [] of
        (Inl (e, c'), ord1) \<Rightarrow>
          (case buffer_run ordered cs ord1 of (due, rejected, ord') \<Rightarrow> (due, c' # rejected, ord'))
      | (Inr ready, ord1) \<Rightarrow>
          (case buffer_run ordered cs ord1 of (due, rejected, ord') \<Rightarrow> (ready @ due, rejected, ord')))"

interpretation wb: completion_buffer "buffer_insert ordered" pending_of orderer_ok
  "\<lambda>c. c_sequence c < u64_max" for ordered
proof unfold_locales
  fix s c ready ready' s'
  assume "orderer_ok s" "c_sequence c < u64_max" "buffer_insert ordered c s ready = (Inr ready', s')"
  then show "orderer_ok s' \<and> mset ready' + pending_of s' = mset ready + pending_of s + {#c#} \<and>
      (\<exists>block. ready' = ready @ block)"
    using ob.accepted [of s c ready ready' s'] by (cases ordered) (auto simp: buffer_insert_def)
next
  fix s c ready e c' s'
  assume "orderer_ok s" "c_sequence c < u64_max" "buffer_insert ordered c s ready = (Inl (e, c'), s')"
  then show "orderer_ok s' \<and> c' = c \<and> pending_of s' = pending_of s"
    using ob.rejected [of s c ready e c' s'] by (cases ordered) (auto simp: buffer_insert_def)
qed

lemma buffer_run_append:
  "buffer_run ordered (cs @ ds) ord =
     (case buffer_run ordered cs ord of (due, rejected, ord1) \<Rightarrow>
       (case buffer_run ordered ds ord1 of (due', rejected', ord') \<Rightarrow>
         (due @ due', rejected @ rejected', ord')))"
  by (induction cs arbitrary: ord) (auto split: prod.splits sum.splits)

lemma buffer_run_balance:
  assumes "orderer_ok ord" "\<forall>c \<in> set cs. c_sequence c < u64_max"
    and "buffer_run ordered cs ord = (due, rejected, ord')"
  shows "orderer_ok ord' \<and> mset due + mset rejected + pending_of ord' = pending_of ord + mset cs"
  using assms
proof (induction cs arbitrary: ord due rejected)
  case Nil
  then show ?case by simp
next
  case (Cons c cs)
  obtain res ord1 where ins: "buffer_insert ordered c ord [] = (res, ord1)" by (metis prod.exhaust)
  obtain due1 rejected1 where rest: "buffer_run ordered cs ord1 = (due1, rejected1, ord')"
    and split: "mset due + mset rejected = mset (wb.delivered res) + mset due1 + mset rejected1"
    using Cons.prems(3) ins by (auto simp: wb.delivered_def split: prod.splits sum.splits)
  have one: "orderer_ok ord1" "mset (wb.delivered res) + pending_of ord1 = pending_of ord + {#c#}"
    using wb.insert_balance [OF Cons.prems(1) _ ins] Cons.prems(2) by simp_all
  have two: "orderer_ok ord'" "mset due1 + mset rejected1 + pending_of ord' = pending_of ord1 + mset cs"
    using Cons.IH [OF one(1) _ rest] Cons.prems(2) by simp_all
  have "mset due + mset rejected + pending_of ord' = mset (wb.delivered res) + (pending_of ord1 + mset cs)"
    unfolding split using two(2) by (simp add: add.assoc)
  also have "\<dots> = pending_of ord + mset (c # cs)" using one(2) by (simp flip: add.assoc)
  finally show ?case using two(1) by simp
qed

text \<open>In ordered mode what becomes due continues each partition's sequence.\<close>

lemma insert_continues:
  assumes ok: "orderer_ok ord" and lt: "c_sequence c < u64_max"
    and run: "orderer_insert c ord [] = (Inr ready, ord')"
  shows "(\<forall>c' \<in> set ready. c_partition c' = c_partition c) \<and>
    (\<forall>q. po_next (order_at ord q) \<le> po_next (order_at ord' q) \<and>
      map c_sequence (of_partition q ready) = [po_next (order_at ord q)..<po_next (order_at ord' q)])"
proof -
  let ?p = "c_partition c" and ?n = "c_sequence c" and ?s = "order_at ord (c_partition c)"
  have not_dup: "\<not> (?n < po_next ?s \<or> bt_get (po_pending ?s) ?n \<noteq> None)"
  proof
    assume "?n < po_next ?s \<or> bt_get (po_pending ?s) ?n \<noteq> None"
    from orderer_insert_duplicate [OF this, of "[]"] run show False by simp
  qed
  then consider (ahead) "po_next ?s < ?n" "bt_get (po_pending ?s) ?n = None" | (frontier) "?n = po_next ?s"
    by fastforce
  then show ?thesis
  proof cases
    case ahead
    note upd = orderer_insert_ahead [OF ahead run]
    from upd(1) have "ready = []" by simp
    moreover have "po_next (order_at ord' q) = po_next (order_at ord q)" for q by (simp add: upd(2))
    ultimately show ?thesis by simp
  next
    case frontier
    obtain next' pending' where f:
      "order_at ord' ?p = \<lparr>po_next = next', po_pending = pending'\<rparr>"
      "\<forall>q. q \<noteq> ?p \<longrightarrow> order_at ord' q = order_at ord q"
      "?n < next'"
      "\<forall>n. ?n < n \<longrightarrow> n < next' \<longrightarrow> bt_get (po_pending ?s) n \<noteq> None"
      "ready = c # map (\<lambda>n. the (bt_get (po_pending ?s) n)) [Suc ?n..<next']"
      by (rule orderer_insert_frontier [OF ok lt frontier run]) (rule that, simp_all)
    have held: "c_sequence (the (bt_get (po_pending ?s) n)) = n \<and>
        c_partition (the (bt_get (po_pending ?s) n)) = ?p" if "?n < n" "n < next'" for n
      using f(4) that order_ok_at [OF ok, of ?p] by (auto simp: order_ok_def)
    then have part: "\<forall>c' \<in> set ready. c_partition c' = ?p" by (auto simp: f(5))
    have "map (\<lambda>n. c_sequence (the (bt_get (po_pending ?s) n))) [Suc ?n..<next'] = [Suc ?n..<next']"
      by (rule map_idI) (simp add: held)
    then have seqs: "map c_sequence ready = [?n..<next']"
      using f(3) by (simp add: f(5) upt_conv_Cons o_def)
    show ?thesis
    proof (intro conjI allI part)
      fix q
      show "po_next (order_at ord q) \<le> po_next (order_at ord' q)"
        using f(1,2,3) frontier by (cases "q = ?p") simp_all
      show "map c_sequence (of_partition q ready) = [po_next (order_at ord q)..<po_next (order_at ord' q)]"
        using of_partition_all [of ready ?p q] part seqs f(1,2) frontier by (cases "q = ?p") simp_all
    qed
  qed
qed

lemma buffer_run_continues:
  assumes "orderer_ok ord" "\<forall>c \<in> set cs. c_sequence c < u64_max"
    and "buffer_run True cs ord = (due, rejected, ord')"
  shows "po_next (order_at ord q) \<le> po_next (order_at ord' q) \<and>
    map c_sequence (of_partition q due) = [po_next (order_at ord q)..<po_next (order_at ord' q)]"
  using assms
proof (induction cs arbitrary: ord due rejected)
  case Nil
  then show ?case by simp
next
  case (Cons c cs)
  obtain res ord1 where ins: "orderer_insert c ord [] = (res, ord1)" by (metis prod.exhaust)
  have lt: "c_sequence c < u64_max" using Cons.prems(2) by simp
  note step = orderer_insert_cases [OF Cons.prems(1) lt ins]
  show ?case
  proof (cases res)
    case (Inl r)
    obtain e c' where r: "r = (e, c')" by (metis prod.exhaust)
    obtain due1 rejected1 where rest: "buffer_run True cs ord1 = (due1, rejected1, ord')" and due: "due = due1"
      using Cons.prems(3) ins Inl r by (auto simp: buffer_insert_def split: prod.splits)
    have "order_at ord1 q = order_at ord q" using step Inl r by simp
    with Cons.IH [OF _ _ rest] step Cons.prems(2) due show ?thesis by simp
  next
    case (Inr ready)
    obtain due1 rejected1 where rest: "buffer_run True cs ord1 = (due1, rejected1, ord')"
      and due: "due = ready @ due1"
      using Cons.prems(3) ins Inr by (auto simp: buffer_insert_def split: prod.splits)
    have cont: "po_next (order_at ord q) \<le> po_next (order_at ord1 q)"
      "map c_sequence (of_partition q ready) = [po_next (order_at ord q)..<po_next (order_at ord1 q)]"
      using insert_continues [OF Cons.prems(1) lt ins [unfolded Inr]] by simp_all
    have IH: "po_next (order_at ord1 q) \<le> po_next (order_at ord' q)"
      "map c_sequence (of_partition q due1) = [po_next (order_at ord1 q)..<po_next (order_at ord' q)]"
      using Cons.IH [OF _ _ rest] step Cons.prems(2) by simp_all
    have "[po_next (order_at ord q)..<po_next (order_at ord' q)] =
      [po_next (order_at ord q)..<po_next (order_at ord1 q)] @ [po_next (order_at ord1 q)..<po_next (order_at ord' q)]"
      using cont(1) IH(1) upt_add_eq_append [of "po_next (order_at ord q)" "po_next (order_at ord1 q)"
        "po_next (order_at ord' q) - po_next (order_at ord1 q)"] by simp
    with cont IH due show ?thesis by simp
  qed
qed

lemma buffer_run_direct: "buffer_run False cs ord = (cs, [], ord)"
  by (induction cs arbitrary: ord) (simp_all add: buffer_insert_def)

section \<open>Following the loop\<close>

context sink
begin

text \<open>
  \<open>wrote js cf s due rejected s'\<close>: from \<open>s\<close> to \<open>s'\<close> the writer went through the due completions and the
  rejected ones. Without a failure all of them were written; with one, some of them and part of the
  next; after one, nothing more.
\<close>

definition wrote ::
    "(string \<Rightarrow> bytes) \<Rightarrow> 'x runtime_config \<Rightarrow> 'w writer_state \<Rightarrow> completion list \<Rightarrow> completion list
      \<Rightarrow> 'w writer_state \<Rightarrow> bool" where
  "wrote js cf s due rejected s' \<longleftrightarrow>
     (case ws_failure s of
        Some e \<Rightarrow> ws_failure s' = Some e \<and> ws_sink s' = ws_sink s
      | None \<Rightarrow>
          (case ws_failure s' of
             None \<Rightarrow> rejected = [] \<and> (\<forall>c \<in> set due. \<not> is_fatal c) \<and>
               contents (ws_sink s') = contents (ws_sink s) @ texts js cf due
           | Some _ \<Rightarrow> \<exists>written rest p q. due = written @ rest \<and>
               contents (ws_sink s') = contents (ws_sink s) @ texts js cf written @ p \<and>
               texts js cf (take 1 rest) = p @ q))"

lemma wrote_refl: "ws_sink s' = ws_sink s \<Longrightarrow> ws_failure s' = ws_failure s \<Longrightarrow> wrote js cf s [] [] s'"
  by (auto simp: wrote_def split: option.split)

lemma wrote_failedI:
  "ws_failure s = None \<Longrightarrow> ws_failure s' = Some e \<Longrightarrow> due = written @ rest \<Longrightarrow>
   contents (ws_sink s') = contents (ws_sink s) @ texts js cf written @ p \<Longrightarrow>
   texts js cf (take 1 rest) = p @ q \<Longrightarrow> wrote js cf s due rejected s'"
  unfolding wrote_def by (simp only: option.case) blast

lemma wrote_cong:
  assumes "ws_sink s = ws_sink t" "ws_failure s = ws_failure t"
    "ws_sink s' = ws_sink t'" "ws_failure s' = ws_failure t'"
  shows "wrote js cf s due rejected s' = wrote js cf t due rejected t'"
  unfolding wrote_def assms ..

lemma wrote_trans:
  assumes "wrote js cf s d1 r1 s1" "wrote js cf s1 d2 r2 s2"
  shows "wrote js cf s (d1 @ d2) (r1 @ r2) s2"
proof (cases "ws_failure s")
  case (Some e)
  with assms show ?thesis by (simp add: wrote_def)
next
  case None
  show ?thesis
  proof (cases "ws_failure s1")
    case (Some e)
    with None assms(1) obtain written rest p q where w: "d1 = written @ rest"
      "contents (ws_sink s1) = contents (ws_sink s) @ texts js cf written @ p" "texts js cf (take 1 rest) = p @ q"
      by (auto simp: wrote_def)
    have same: "ws_failure s2 = Some e" "ws_sink s2 = ws_sink s1" using assms(2) Some by (simp_all add: wrote_def)
    show ?thesis
    proof (cases rest)
      case Nil
      with w None same show ?thesis
        by (intro wrote_failedI [where written = written and rest = d2 and p = "[]" and e = e]) simp_all
    next
      case (Cons c rest')
      with w None same show ?thesis
        by (intro wrote_failedI [where written = written and rest = "c # rest' @ d2" and p = p and q = q and e = e])
          simp_all
    qed
  next
    case none1: None
    with None assms(1) have s1: "r1 = []" "\<forall>c \<in> set d1. \<not> is_fatal c"
      "contents (ws_sink s1) = contents (ws_sink s) @ texts js cf d1" by (simp_all add: wrote_def)
    show ?thesis
    proof (cases "ws_failure s2")
      case None
      with assms(2) none1 s1 \<open>ws_failure s = None\<close> show ?thesis by (auto simp: wrote_def)
    next
      case (Some e)
      with assms(2) none1 obtain written rest p q where w: "d2 = written @ rest"
        "contents (ws_sink s2) = contents (ws_sink s1) @ texts js cf written @ p" "texts js cf (take 1 rest) = p @ q"
        by (auto simp: wrote_def)
      with Some s1 \<open>ws_failure s = None\<close> show ?thesis
        by (intro wrote_failedI [where written = "d1 @ written" and rest = rest and p = p and q = q and e = e])
          simp_all
    qed
  qed
qed

lemma wrote_failure:
  "wrote js cf s [] rejected (writer_failure e (s\<lparr>ws_orderer := ord\<rparr>))"
proof (cases "ws_failure s")
  case None
  then show ?thesis
    by (intro wrote_failedI [where written = "[]" and rest = "[]" and p = "[]" and e = e])
      (simp_all add: writer_failure_def)
qed (simp add: wrote_def writer_failure_def)

lemma wrote_emit_one: "wrote js cf s [c] [] (emit_one js ops cf c s)"
proof (cases "ws_failure s")
  case (Some e)
  then show ?thesis by (simp add: wrote_def emit_one_def)
next
  case None
  show ?thesis
  proof (cases "c_outcome c")
    case (Fatal m)
    with None show ?thesis
      by (intro wrote_failedI [where written = "[]" and rest = "[c]" and p = "[]" and e = "RuntimeError m"])
        (simp_all add: emit_one_def writer_failure_def)
  next
    case (Done a)
    obtain res w st where run: "write_action js ops cf (c_source c) a (ws_sink s, ws_stats s) = (res, w, st)"
      by (metis prod.exhaust)
    have shown: "completion_text js cf c = action_text js cf (c_source c) a" "\<not> is_fatal c"
      using Done by (simp_all add: completion_text_def is_fatal_def)
    show ?thesis
    proof (cases res)
      case (Inl e)
      with write_action_cases [OF run] obtain p q where
        "action_text js cf (c_source c) a = p @ q" "contents w = contents (ws_sink s) @ p" by auto
      with None Done run Inl shown show ?thesis
        by (intro wrote_failedI [where written = "[]" and rest = "[c]" and p = p and q = q and e = "OutputError e"])
          (simp_all add: emit_one_def writer_failure_def)
    next
      case (Inr u)
      with write_action_cases [OF run] None Done run shown show ?thesis
        by (simp add: wrote_def emit_one_def)
    qed
  qed
qed

lemma wrote_fold_emit: "wrote js cf s due [] (fold (emit_one js ops cf) due s)"
proof (induction due arbitrary: s)
  case Nil
  then show ?case by (simp add: wrote_refl)
next
  case (Cons c due)
  have "wrote js cf s ([c] @ due) ([] @ []) (fold (emit_one js ops cf) due (emit_one js ops cf c s))"
    by (rule wrote_trans [OF wrote_emit_one Cons])
  then show ?case by simp
qed

end

lemma emit_one_keeps:
  "ws_orderer (emit_one js ops cf c s) = ws_orderer s \<and> ws_sent (emit_one js ops cf c s) = ws_sent s"
  by (auto simp: emit_one_def writer_failure_def split: completion_outcome.split sum.split prod.split)

lemma fold_emit_keeps:
  "ws_orderer (fold (emit_one js ops cf) due s) = ws_orderer s \<and> ws_sent (fold (emit_one js ops cf) due s) = ws_sent s"
  by (induction due arbitrary: s) (simp_all add: emit_one_keeps)

context sink
begin

lemma take_completion_step:
  assumes "orderer_ok (ws_orderer s)" "c_sequence c < u64_max"
    and "buffer_run (is_ordered cf) [c] (ws_orderer s) = (due, rejected, ord)"
    and "take_completion js ops cf c (s, rels) = (s', rels')"
  shows "wrote js cf s due rejected s' \<and> ws_orderer s' = ord \<and> ws_sent s' = ws_sent s \<and>
    rels' = rels @ map release_of (due @ rejected)"
proof -
  obtain res ord1 where ins: "buffer_insert (is_ordered cf) c (ws_orderer s) [] = (res, ord1)"
    by (metis prod.exhaust)
  show ?thesis
  proof (cases res)
    case (Inl r)
    obtain e c' where r: "r = (e, c')" by (metis prod.exhaust)
    with assms ins Inl show ?thesis
      by (auto simp: take_completion_def wrote_failure) (simp_all add: writer_failure_def)
  next
    case (Inr ready)
    have "wrote js cf s ready [] (fold (emit_one js ops cf) ready (s\<lparr>ws_orderer := ord1\<rparr>))"
      by (rule iffD2 [OF wrote_cong wrote_fold_emit]) simp_all
    with assms ins Inr fold_emit_keeps [of js ops cf ready "s\<lparr>ws_orderer := ord1\<rparr>"] show ?thesis
      by (auto simp: take_completion_def)
  qed
qed

lemma take_items:
  assumes "orderer_ok (ws_orderer s)" "\<forall>c \<in> set cs. c_sequence c < u64_max"
    and "buffer_run (is_ordered cf) cs (ws_orderer s) = (due, rejected, ord)"
    and "fold (take_completion js ops cf) cs (s, rels) = (s', rels')"
  shows "wrote js cf s due rejected s' \<and> ws_orderer s' = ord \<and> ws_sent s' = ws_sent s \<and>
    mset rels' = mset rels + image_mset release_of (mset due + mset rejected)"
  using assms
proof (induction cs arbitrary: s rels due rejected)
  case Nil
  then show ?case by (simp add: wrote_refl)
next
  case (Cons c cs)
  obtain d1 r1 ord1 where one: "buffer_run (is_ordered cf) [c] (ws_orderer s) = (d1, r1, ord1)"
    by (metis prod.exhaust)
  obtain s1 rels1 where step: "take_completion js ops cf c (s, rels) = (s1, rels1)" by (metis prod.exhaust)
  have c: "c_sequence c < u64_max" using Cons.prems(2) by simp
  note first = take_completion_step [OF Cons.prems(1) c one step]
  obtain d2 r2 ord2 where rest: "buffer_run (is_ordered cf) cs ord1 = (d2, r2, ord2)" by (metis prod.exhaust)
  have whole: "due = d1 @ d2" "rejected = r1 @ r2" "ord = ord2"
    using Cons.prems(3) buffer_run_append [of "is_ordered cf" "[c]" cs "ws_orderer s"] one rest by simp_all
  have "orderer_ok ord1" using buffer_run_balance [OF Cons.prems(1) _ one] c by simp
  with first Cons.IH [of s1 d2 r2 rels1] Cons.prems(2,4) step rest whole
  have "wrote js cf s1 d2 r2 s' \<and> ws_orderer s' = ord2 \<and> ws_sent s' = ws_sent s1 \<and>
      mset rels' = mset rels1 + image_mset release_of (mset d2 + mset r2)" by simp
  with first wrote_trans [of js cf s d1 r1 s1 d2 r2 s'] whole show ?case by simp
qed

lemma take_batches:
  assumes "orderer_ok (ws_orderer s)" "\<forall>b \<in> set bs. \<forall>c \<in> set (cb_items b). c_sequence c < u64_max"
    and "buffer_run (is_ordered cf) (concat (map cb_items bs)) (ws_orderer s) = (due, rejected, ord)"
  shows "wrote js cf s due rejected (fold (take_batch js ops cf) bs s) \<and>
    ws_orderer (fold (take_batch js ops cf) bs s) = ord"
  using assms
proof (induction bs arbitrary: s due rejected)
  case Nil
  then show ?case by (simp add: wrote_refl)
next
  case (Cons b bs)
  obtain d1 r1 ord1 where one: "buffer_run (is_ordered cf) (cb_items b) (ws_orderer s) = (d1, r1, ord1)"
    by (metis prod.exhaust)
  obtain s1 rels1 where step: "fold (take_completion js ops cf) (cb_items b) (s, []) = (s1, rels1)"
    by (metis prod.exhaust)
  have lt: "\<forall>c \<in> set (cb_items b). c_sequence c < u64_max" using Cons.prems(2) by simp
  note first = take_items [OF Cons.prems(1) lt one step]
  obtain d2 r2 ord2 where rest: "buffer_run (is_ordered cf) (concat (map cb_items bs)) ord1 = (d2, r2, ord2)"
    by (metis prod.exhaust)
  have whole: "due = d1 @ d2" "rejected = r1 @ r2" "ord = ord2"
    using Cons.prems(3) buffer_run_append [of "is_ordered cf" "cb_items b" "concat (map cb_items bs)" "ws_orderer s"]
      one rest by simp_all
  let ?s1 = "take_batch js ops cf b s"
  have batch: "ws_orderer ?s1 = ord1" "ws_sink ?s1 = ws_sink s1" "ws_failure ?s1 = ws_failure s1"
    using step first by (simp_all add: take_batch_def)
  then have "wrote js cf s d1 r1 ?s1" using first iffD2 [OF wrote_cong [OF refl refl batch(2,3)]] by blast
  moreover have "orderer_ok ord1" using buffer_run_balance [OF Cons.prems(1) lt one] by simp
  with batch Cons.IH [of ?s1 d2 r2] Cons.prems(2) rest whole
  have "wrote js cf ?s1 d2 r2 (fold (take_batch js ops cf) bs ?s1) \<and>
    ws_orderer (fold (take_batch js ops cf) bs ?s1) = ord2" by simp
  ultimately show ?case using wrote_trans whole by auto
qed

end

section \<open>Who is released\<close>

definition sent_to :: "nat \<Rightarrow> (nat \<times> release list) list \<Rightarrow> release multiset" where
  "sent_to k log = mset (concat (map snd (filter (\<lambda>(j, _). j = k) log)))"

definition owed_to :: "nat \<Rightarrow> completion multiset \<Rightarrow> release multiset" where
  "owed_to k M = image_mset release_of (filter_mset (\<lambda>c. c_consumer c = k) M)"

lemma sent_to_simps [simp]:
  "sent_to k [] = {#}"
  "sent_to k (log @ log') = sent_to k log + sent_to k log'"
  "sent_to k [(j, rs)] = (if j = k then mset rs else {#})"
  by (simp_all add: sent_to_def)

lemma owed_to_simps [simp]:
  "owed_to k {#} = {#}"
  "owed_to k (M + N) = owed_to k M + owed_to k N"
  by (simp_all add: owed_to_def)

lemma owed_to_one:
  "\<forall>c \<in># M. c_consumer c = j \<Longrightarrow> owed_to k M = (if j = k then image_mset release_of M else {#})"
  unfolding owed_to_def by (induction M) auto

text \<open>In ordered mode a partition belongs to one consumer, so what it makes due goes to that one.\<close>

definition owned :: "bool \<Rightarrow> (int \<Rightarrow> nat) \<Rightarrow> completion multiset \<Rightarrow> bool" where
  "owned ordered owner M \<longleftrightarrow> (ordered \<longrightarrow> (\<forall>c \<in># M. c_consumer c = owner (c_partition c)))"

lemma buffer_run_partitions:
  assumes "orderer_ok ord" "\<forall>c \<in> set cs. c_sequence c < u64_max"
    and "buffer_run True cs ord = (due, rejected, ord')"
  shows "\<forall>c \<in> set due \<union> set rejected. c_partition c \<in> c_partition ` set cs"
  using assms
proof (induction cs arbitrary: ord due rejected)
  case Nil
  then show ?case by simp
next
  case (Cons c cs)
  obtain res ord1 where ins: "orderer_insert c ord [] = (res, ord1)" by (metis prod.exhaust)
  have lt: "c_sequence c < u64_max" using Cons.prems(2) by simp
  note step = orderer_insert_cases [OF Cons.prems(1) lt ins]
  show ?case
  proof (cases res)
    case (Inl r)
    obtain e c' where r: "r = (e, c')" by (metis prod.exhaust)
    obtain due1 rejected1 where rest: "buffer_run True cs ord1 = (due1, rejected1, ord')"
      and all: "due = due1" "rejected = c' # rejected1"
      using Cons.prems(3) ins Inl r by (auto simp: buffer_insert_def split: prod.splits)
    with Cons.IH [OF _ _ rest] step Cons.prems(2) r Inl show ?thesis by auto
  next
    case (Inr ready)
    obtain due1 where rest: "buffer_run True cs ord1 = (due1, rejected, ord')" and due: "due = ready @ due1"
      using Cons.prems(3) ins Inr by (auto simp: buffer_insert_def split: prod.splits)
    have "\<forall>c' \<in> set ready. c_partition c' = c_partition c"
      using insert_continues [OF Cons.prems(1) lt ins [unfolded Inr]] by simp
    with Cons.IH [OF _ _ rest] step Cons.prems(2) due show ?thesis by auto
  qed
qed

lemma buffer_run_owned:
  assumes ok: "orderer_ok ord" and lt: "\<forall>c \<in> set cs. c_sequence c < u64_max"
    and run: "buffer_run ordered cs ord = (due, rejected, ord')"
    and own: "owned ordered owner (pending_of ord)" "owned ordered owner (mset cs)"
    and here: "\<forall>c \<in> set cs. c_consumer c = j"
  shows "owned ordered owner (pending_of ord') \<and> (\<forall>c \<in># mset due + mset rejected. c_consumer c = j)"
proof (cases ordered)
  case False
  with run here show ?thesis by (auto simp: buffer_run_direct owned_def)
next
  case True
  note run' = run [unfolded eqTrueI [OF True]]
  have bal: "mset due + mset rejected + pending_of ord' = pending_of ord + mset cs"
    using buffer_run_balance [OF ok lt run] by simp
  then have sub: "c \<in># pending_of ord \<or> c \<in> set cs" if "c \<in># mset due + mset rejected + pending_of ord'" for c
    using that unfolding bal by simp
  have owner: "c_consumer c = owner (c_partition c)" if "c \<in># mset due + mset rejected + pending_of ord'" for c
    using sub [OF that] own True by (auto simp: owned_def)
  have "c_consumer c = j" if c: "c \<in># mset due + mset rejected" for c
  proof -
    obtain c0 where "c0 \<in> set cs" "c_partition c = c_partition c0"
      using buffer_run_partitions [OF ok lt run'] c by auto
    with owner [of c] c own(2) True here show ?thesis by (auto simp: owned_def)
  qed
  with owner show ?thesis by (simp add: owned_def)
qed

definition routed :: "bool \<Rightarrow> (int \<Rightarrow> nat) \<Rightarrow> completion_batch list \<Rightarrow> bool" where
  "routed ordered owner bs \<longleftrightarrow> (\<forall>b \<in> set bs. \<forall>c \<in> set (cb_items b).
     c_consumer c = cb_consumer b \<and> c_sequence c < u64_max \<and>
     (ordered \<longrightarrow> c_consumer c = owner (c_partition c)))"

context sink
begin

lemma take_batches_sent:
  assumes "orderer_ok (ws_orderer s)" "routed (is_ordered cf) owner bs"
    and "owned (is_ordered cf) owner (pending_of (ws_orderer s))"
    and "s' = fold (take_batch js ops cf) bs s"
  shows "sent_to k (ws_sent s') + owed_to k (pending_of (ws_orderer s'))
      = sent_to k (ws_sent s) + owed_to k (pending_of (ws_orderer s)) + owed_to k (mset (concat (map cb_items bs)))
    \<and> orderer_ok (ws_orderer s')"
  using assms(1-3) unfolding assms(4)
proof (induction bs arbitrary: s)
  case Nil
  then show ?case by simp
next
  case (Cons b bs)
  obtain due rejected ord1 where run: "buffer_run (is_ordered cf) (cb_items b) (ws_orderer s) = (due, rejected, ord1)"
    by (metis prod.exhaust)
  obtain s1 rels where step: "fold (take_completion js ops cf) (cb_items b) (s, []) = (s1, rels)"
    by (metis prod.exhaust)
  have items: "\<forall>c \<in> set (cb_items b). c_sequence c < u64_max" "\<forall>c \<in> set (cb_items b). c_consumer c = cb_consumer b"
    "owned (is_ordered cf) owner (mset (cb_items b))" "routed (is_ordered cf) owner bs"
    using Cons.prems(2) unfolding routed_def owned_def set_mset_mset list.set by blast+
  note went = take_items [OF Cons.prems(1) items(1) run step]
  note bal = buffer_run_balance [OF Cons.prems(1) items(1) run]
  note own = buffer_run_owned [OF Cons.prems(1) items(1) run Cons.prems(3) items(3,2)]
  let ?s1 = "take_batch js ops cf b s"
  have s1: "ws_orderer ?s1 = ord1"
    "sent_to k (ws_sent ?s1) = sent_to k (ws_sent s) + owed_to k (mset due + mset rejected)"
    using step went own owed_to_one [of "mset due + mset rejected" "cb_consumer b" k]
    by (auto simp: take_batch_def)
  have "owed_to k (mset due + mset rejected) + owed_to k (pending_of ord1)
      = owed_to k (pending_of (ws_orderer s)) + owed_to k (mset (cb_items b))"
    using bal by (metis owed_to_simps(2))
  moreover note Cons.IH [of ?s1]
  ultimately show ?case
    using s1 bal own items(4) by (simp add: add.assoc)
qed

end

lemma drain_pending_sent:
  assumes "\<forall>c \<in># pending_of (ws_orderer s). c_consumer c < consumers"
  shows "sent_to k (ws_sent (drain_pending consumers s))
    = sent_to k (ws_sent s) + owed_to k (pending_of (ws_orderer s))"
proof -
  obtain pending ord where tp: "take_pending (ws_orderer s) = (pending, ord)" by (metis prod.exhaust)
  then have pend: "pending_of (ws_orderer s) = mset pending" by (simp add: pending_of_def)
  define entry where "entry j = (j, map release_of (filter (\<lambda>c. c_consumer c = j) pending))" for j
  have nonempty: "sent_to k (filter (\<lambda>(j, rs). rs \<noteq> []) log) = sent_to k log" for log
    unfolding sent_to_def by (induction log) auto
  have "sent_to k (map entry js) = (if k \<in> set js then mset (snd (entry k)) else {#})" if "distinct js" for js
    using that unfolding sent_to_def by (induction js) (auto simp: entry_def)
  then have "sent_to k (map entry [0..<consumers]) = (if k < consumers then mset (snd (entry k)) else {#})"
    by simp
  also have "\<dots> = owed_to k (mset pending)"
  proof (cases "k < consumers")
    case False
    have "filter_mset (\<lambda>c. c_consumer c = k) (mset pending) = {#}"
      using False assms pend by (auto simp: filter_empty_conv simp flip: mset_filter)
    with False show ?thesis by (simp add: owed_to_def)
  qed (simp add: entry_def owed_to_def)
  finally have "sent_to k (filter (\<lambda>(j, rs). rs \<noteq> []) (map entry [0..<consumers])) = owed_to k (mset pending)"
    by (simp add: nonempty)
  from this [unfolded entry_def] show ?thesis
    using tp pend by (auto simp: drain_pending_def writer_failure_def)
qed

lemma final_flush_sent [simp]: "ws_sent (final_flush ops s) = ws_sent s"
  by (auto simp: final_flush_def writer_failure_def split: option.split pipeline_error.split sum.split prod.split)

section \<open>The whole run of the writer\<close>

lemma drain_pending_sink [simp]:
  "ws_sink (drain_pending n s) = ws_sink s"
  by (simp add: drain_pending_def writer_failure_def split: prod.split)

lemma drain_pending_failure:
  "ws_failure (drain_pending n s) =
     (if pending_of (ws_orderer s) = {#} then ws_failure s
      else (case ws_failure s of None \<Rightarrow> Some (RuntimeError gap_text) | Some e \<Rightarrow> Some e))"
  by (simp add: drain_pending_def writer_failure_def pending_of_def split: prod.split)

context sink
begin

lemma final_flush_contents [simp]: "contents (ws_sink (final_flush ops s)) = contents (ws_sink s)"
proof -
  obtain r w where "sink_flush ops (ws_sink s) = (r, w)" by (metis prod.exhaust)
  with flush_contents [OF this] show ?thesis
    by (cases r) (simp_all add: final_flush_def writer_failure_def split: option.split pipeline_error.split)
qed

end

lemma final_flush_failure: "ws_failure (final_flush ops s) = None \<Longrightarrow> ws_failure s = None"
  by (auto simp: final_flush_def writer_failure_def split: option.splits pipeline_error.splits prod.splits sum.splits)

context sink
begin

lemma write_completions_cases:
  assumes lt: "\<forall>b \<in> set bs. \<forall>c \<in> set (cb_items b). c_sequence c < u64_max"
    and run: "write_completions js ops cf n bs (writer_init w ct st) = (res, s')"
  obtains due rejected ord where
    "buffer_run (is_ordered cf) (concat (map cb_items bs)) bt_empty = (due, rejected, ord)"
    "res = Inr () \<Longrightarrow> rejected = [] \<and> pending_of ord = {#} \<and> (\<forall>c \<in> set due. \<not> is_fatal c)
      \<and> contents (ws_sink s') = contents w @ texts js cf due"
    "\<exists>written rest p q. due = written @ rest \<and> contents (ws_sink s') = contents w @ texts js cf written @ p
      \<and> texts js cf (take 1 rest) = p @ q"
proof -
  obtain due rejected ord where b: "buffer_run (is_ordered cf) (concat (map cb_items bs)) bt_empty = (due, rejected, ord)"
    by (metis prod.exhaust)
  let ?s0 = "writer_init w ct st" and ?s1 = "fold (take_batch js ops cf) bs (writer_init w ct st)"
  have o0: "ws_orderer ?s0 = bt_empty" by (simp add: writer_init_def)
  have wr: "wrote js cf ?s0 due rejected ?s1" and o1: "ws_orderer ?s1 = ord"
    using take_batches [of ?s0 bs cf due rejected ord js] lt b o0 by simp_all
  let ?s2 = "drain_pending n ?s1"
  have s': "s' = final_flush ops ?s2" and res: "res = (case ws_failure s' of None \<Rightarrow> Inr () | Some e \<Rightarrow> Inl e)"
    using run by (auto simp: write_completions_def Let_def)
  have sink: "contents (ws_sink s') = contents (ws_sink ?s1)" by (simp add: s')
  have base: "contents (ws_sink ?s0) = contents w" by (simp add: writer_init_def)
  show thesis
  proof (rule that [OF b])
    assume "res = Inr ()"
    then have "ws_failure s' = None" using res by (simp split: option.splits)
    then have "ws_failure ?s2 = None" unfolding s' by (rule final_flush_failure)
    then have none: "ws_failure ?s1 = None" "pending_of ord = {#}"
      by (auto simp: drain_pending_failure o1 split: if_splits option.splits)
    with wr have "ws_failure ?s0 = None" by (cases "ws_failure ?s0") (simp_all add: wrote_def)
    with none wr sink base show "rejected = [] \<and> pending_of ord = {#} \<and> (\<forall>c \<in> set due. \<not> is_fatal c)
      \<and> contents (ws_sink s') = contents w @ texts js cf due"
      by (simp add: wrote_def)
  next
    show "\<exists>written rest p q. due = written @ rest \<and> contents (ws_sink s') = contents w @ texts js cf written @ p
      \<and> texts js cf (take 1 rest) = p @ q"
    proof (cases "ws_failure ?s0")
      case (Some e)
      with wr sink base have "contents (ws_sink s') = contents w" by (simp add: wrote_def)
      then show ?thesis
        by - (rule exI [of _ "[]"], rule exI [of _ due], rule exI [of _ "[]"], rule exI, simp)
    next
      case None
      show ?thesis
      proof (cases "ws_failure ?s1")
        case none1: None
        with None wr sink base have "contents (ws_sink s') = contents w @ texts js cf due" by (simp add: wrote_def)
        then show ?thesis
          by - (rule exI [of _ due], rule exI [of _ "[]"], rule exI [of _ "[]"], rule exI, simp)
      next
        case (Some e)
        with None wr sink base show ?thesis by (simp add: wrote_def)
      qed
    qed
  qed
qed

lemma write_completions_sent:
  assumes "routed (is_ordered cf) owner bs" "\<forall>b \<in> set bs. cb_consumer b < n"
    and "write_completions js ops cf n bs (writer_init w ct st) = (res, s')"
  shows "sent_to k (ws_sent s') = owed_to k (mset (concat (map cb_items bs)))"
proof -
  let ?s0 = "writer_init w ct st" and ?s1 = "fold (take_batch js ops cf) bs (writer_init w ct st)"
  have o0: "ws_orderer ?s0 = bt_empty" "ws_sent ?s0 = []" by (simp_all add: writer_init_def)
  have sent: "sent_to k (ws_sent ?s1) + owed_to k (pending_of (ws_orderer ?s1))
      = owed_to k (mset (concat (map cb_items bs)))"
    using take_batches_sent [OF _ assms(1) _ refl, where s = ?s0 and js = js and k = k] o0 by (simp add: owned_def)
  have lt: "\<forall>b \<in> set bs. \<forall>c \<in> set (cb_items b). c_sequence c < u64_max"
    using assms(1) by (simp add: routed_def)
  obtain due rejected ord where b: "buffer_run (is_ordered cf) (concat (map cb_items bs)) bt_empty = (due, rejected, ord)"
    by (metis prod.exhaust)
  have "ws_orderer ?s1 = ord" using take_batches [of ?s0 bs cf due rejected ord js] lt b o0 by simp
  moreover have "mset due + mset rejected + pending_of ord = mset (concat (map cb_items bs))"
    using buffer_run_balance [OF _ _ b] lt by simp
  ultimately have "c \<in> set (concat (map cb_items bs))" if "c \<in># pending_of (ws_orderer ?s1)" for c
    using that by (metis set_mset_mset union_iff)
  then have "\<forall>c \<in># pending_of (ws_orderer ?s1). c_consumer c < n"
    using assms(1,2) by (fastforce simp: routed_def)
  from drain_pending_sent [OF this, of k] sent assms(3) show ?thesis
    by (auto simp: write_completions_def Let_def)
qed

end

lemma write_completions_success:
  assumes "sink ops contents" "\<forall>b \<in> set bs. \<forall>c \<in> set (cb_items b). c_sequence c < u64_max"
    and "write_completions js ops cf n bs (writer_init w ct st) = (Inr (), s')"
  shows "\<exists>due. mset due = mset (concat (map cb_items bs)) \<and> (\<forall>c \<in> set due. \<not> is_fatal c)
    \<and> contents (ws_sink s') = contents w @ texts js cf due
    \<and> (if is_ordered cf then \<forall>p. map c_sequence (of_partition p due) = [0..<length (of_partition p due)]
       else due = concat (map cb_items bs))"
proof -
  obtain due rejected ord where b: "buffer_run (is_ordered cf) (concat (map cb_items bs)) bt_empty = (due, rejected, ord)"
    and good: "rejected = [] \<and> pending_of ord = {#} \<and> (\<forall>c \<in> set due. \<not> is_fatal c)
      \<and> contents (ws_sink s') = contents w @ texts js cf due"
    by (rule sink.write_completions_cases [OF assms]) simp
  have lt: "\<forall>c \<in> set (concat (map cb_items bs)). c_sequence c < u64_max" using assms(2) by simp
  have "mset due = mset (concat (map cb_items bs))"
    using buffer_run_balance [OF orderer_ok_empty lt b] good by simp
  moreover have "map c_sequence (of_partition p due) = [0..<length (of_partition p due)]" if "is_ordered cf" for p
  proof -
    have "map c_sequence (of_partition p due) = [po_next (order_at bt_empty p)..<po_next (order_at ord p)]"
      using buffer_run_continues [OF orderer_ok_empty lt, of due rejected ord p] b that by simp
    moreover have "po_next (order_at bt_empty p) = 0" by (simp add: order_at_def new_order_def)
    moreover from calculation have "length (of_partition p due) = po_next (order_at ord p)"
      by (metis diff_zero length_map length_upt)
    ultimately show ?thesis by simp
  qed
  moreover have "due = concat (map cb_items bs)" if "\<not> is_ordered cf"
    using b that by (simp add: buffer_run_direct)
  ultimately show ?thesis using good by auto
qed

text \<open>
  C9. When the writer reports success, everything that arrived was written, once, and nothing else: the
  output is the old contents followed by the texts of all completions, none of them fatal, in an
  order that is the arrival order for unordered or untransformed output, and for ordered output the
  sequence order \<open>0, 1, 2, \<dots>\<close> of every partition.
\<close>

theorem writer_success:
  assumes "sink ops contents" "\<forall>b \<in> set bs. \<forall>c \<in> set (cb_items b). c_sequence c < u64_max"
    and "write_completions js ops cf n bs (writer_init w ct st) = (Inr (), s')"
  shows "\<exists>due. mset due = mset (concat (map cb_items bs)) \<and> (\<forall>c \<in> set due. \<not> is_fatal c)
    \<and> contents (ws_sink s') = contents w @ texts js cf due
    \<and> (if is_ordered cf then \<forall>p. map c_sequence (of_partition p due) = [0..<length (of_partition p due)]
       else due = concat (map cb_items bs))"
  using assms by (rule write_completions_success)

text \<open>Two records that complete in reverse order, written to a vector.\<close>

definition swapped :: "completion_batch list" where
  "swapped = [\<lparr>cb_consumer = 0, cb_items = [sample_completion 0 1 7 (Project (to_vec ''b'')),
     sample_completion 0 0 7 (Project (to_vec ''a''))]\<rparr>]"

definition line_config :: "string runtime_config" where
  "line_config = sample_config (sample_plan [] [] (Some ''x'')) (FormatPlan None [Payload, Literal '';''])"

definition calm :: control where
  "calm = \<lparr>ct_first = None, ct_shutdown = False\<rparr>"

lemmas writer_eval = write_completions_def final_flush_def drain_pending_def take_batch_def take_completion_def
  buffer_insert_def emit_one_def write_action_def write_record_def emitted_payload_def output_record_of_def
  writer_init_def writer_failure_def release_of_def is_ordered_def embeds_json_def
  orderer_insert_def new_order_def drain.simps bt_empty_def bt_get_def bt_remove_def u64_inc_def u64_add_def u64_max_def
  take_pending_def bt_values_def write_to_def binary_length_rejected_def vec_sink_def write_bytes_def
  checked_add_def usize_max_def seq_w_def skip_w_def stats_emitted_def

lemma swapped_run:
  "write_completions id vec_sink line_config 1 swapped (writer_init ''>'' calm (stats_new False))
    = (Inr (), \<lparr>ws_sink = ''>a;b;'', ws_orderer = [(0, \<lparr>po_next = 2, po_pending = []\<rparr>)], ws_failure = None,
        ws_control = calm, ws_stats = stats_new False,
        ws_sent = [(0, [\<lparr>rel_partition = 0, rel_retained_bytes = 7, rel_payload = Some (to_vec ''a'')\<rparr>,
          \<lparr>rel_partition = 0, rel_retained_bytes = 7, rel_payload = Some (to_vec ''b'')\<rparr>])]\<rparr>)"
  by (simp add: writer_eval swapped_def line_config_def sample_config_def sample_plan_def calm_def stats_new_def
      sample_completion_def sample_source_def)

theorem writer_success_witness:
  "\<exists>due. mset due = mset (concat (map cb_items swapped)) \<and> ''>a;b;'' = ''>'' @ texts id line_config due
    \<and> map c_sequence (of_partition 0 due) = [0..<length (of_partition 0 due)]"
proof -
  have "\<forall>b \<in> set swapped. \<forall>c \<in> set (cb_items b). c_sequence c < u64_max"
    by (simp add: swapped_def sample_completion_def u64_max_def)
  from writer_success [OF vs.sink_axioms this swapped_run] show ?thesis
    by (auto simp: is_ordered_def line_config_def sample_config_def sample_plan_def)
qed

lemma pipe_breaks:
  "\<exists>e s'. write_completions id pipe_sink line_config 1 swapped
      (writer_init \<lparr>taken = [], room = 3\<rparr> calm (stats_new False)) = (Inl (OutputError e), s')
    \<and> taken (ws_sink s') = ''a;b''"
  by (simp add: writer_eval swapped_def line_config_def sample_config_def sample_plan_def calm_def stats_new_def
      sample_completion_def sample_source_def pipe_sink_def)

text \<open>
  C19. Nothing is lost on the way back: whatever the writer's result, the releases it sends to a poller are
  exactly those of the completions that poller's batches brought, each once, with its charge and its
  payload storage, so every admitted budget returns to its owner.
\<close>

theorem writer_releases_exactly:
  assumes "sink ops contents" "routed (is_ordered cf) owner bs" "\<forall>b \<in> set bs. cb_consumer b < n"
    and "write_completions js ops cf n bs (writer_init w ct st) = (res, s')"
  shows "sent_to k (ws_sent s') = owed_to k (mset (concat (map cb_items bs)))"
  by (rule sink.write_completions_sent [OF assms])

theorem writer_releases_exactly_witness:
  "sent_to 0 [(0, [\<lparr>rel_partition = 0, rel_retained_bytes = 7, rel_payload = Some (to_vec ''a'')\<rparr>,
      \<lparr>rel_partition = 0, rel_retained_bytes = 7, rel_payload = Some (to_vec ''b'')\<rparr>])]
    = owed_to 0 (mset (concat (map cb_items swapped)))"
proof -
  have "routed (is_ordered line_config) (\<lambda>_. 0) swapped" "\<forall>b \<in> set swapped. cb_consumer b < 1"
    by (simp_all add: routed_def swapped_def sample_completion_def u64_max_def)
  from writer_releases_exactly [OF vs.sink_axioms this swapped_run, of 0] show ?thesis by simp
qed

section \<open>Failures\<close>

text \<open>
  What the writer's failure and the shared cell say, given what the cell held before: an earlier failure
  stays; otherwise the cell holds the writer's own.
\<close>

definition agree :: "recorded_failure option \<Rightarrow> pipeline_error option \<Rightarrow> control \<Rightarrow> bool" where
  "agree before failure c \<longleftrightarrow> (case before of
      Some f \<Rightarrow> ct_first c = Some f
    | None \<Rightarrow> (case failure of
        None \<Rightarrow> ct_first c = None
      | Some e \<Rightarrow> ct_first c = Some (from_error e) \<and> ct_shutdown c))"

definition reported :: "recorded_failure option \<Rightarrow> 'w writer_state \<Rightarrow> bool" where
  "reported before s = agree before (ws_failure s) (ws_control s)"

lemma reported_update [simp]:
  "reported f (s\<lparr>ws_orderer := ord\<rparr>) = reported f s"
  "reported f (s\<lparr>ws_sent := log\<rparr>) = reported f s"
  "reported f (s\<lparr>ws_sink := w\<rparr>) = reported f s"
  "reported f (s\<lparr>ws_stats := st\<rparr>) = reported f s"
  by (simp_all add: reported_def)

lemma reported_failure: "reported f s \<Longrightarrow> reported f (writer_failure e s)"
  by (auto simp: reported_def agree_def writer_failure_def record_failure_first split: option.splits)

lemma reported_emit_one: "reported f s \<Longrightarrow> reported f (emit_one js ops cf c s)"
  by (auto simp: emit_one_def intro!: reported_failure split: completion_outcome.split sum.split prod.split)

lemma reported_fold_emit: "reported f s \<Longrightarrow> reported f (fold (emit_one js ops cf) due s)"
  by (induction due arbitrary: s) (auto intro: reported_emit_one)

lemma reported_take_completion: "reported f (fst sr) \<Longrightarrow> reported f (fst (take_completion js ops cf c sr))"
  by (auto simp: take_completion_def intro!: reported_failure reported_fold_emit split: sum.split prod.split)

lemma reported_take_items: "reported f (fst sr) \<Longrightarrow> reported f (fst (fold (take_completion js ops cf) cs sr))"
  by (induction cs arbitrary: sr) (simp_all add: reported_take_completion)

lemma reported_take_batches: "reported f s \<Longrightarrow> reported f (fold (take_batch js ops cf) bs s)"
proof (induction bs arbitrary: s)
  case Nil
  then show ?case by simp
next
  case (Cons b bs)
  have "reported f (take_batch js ops cf b s)"
    using reported_take_items [of f "(s, [])" js ops cf "cb_items b"] Cons.prems
    by (auto simp: take_batch_def split: prod.split)
  with Cons.IH show ?case by simp
qed

lemma reported_drain: "reported f s \<Longrightarrow> reported f (drain_pending n s)"
  by (auto simp: drain_pending_def intro!: reported_failure split: prod.split)

lemma reported_flush: "reported f s \<Longrightarrow> reported f (final_flush ops s)"
  by (auto simp: final_flush_def intro!: reported_failure split: option.split pipeline_error.split sum.split prod.split)

section \<open>The evaluators feed the writer what it can write\<close>

text \<open>
  C38. Under a coherent configuration, no evaluator ever produces an action the writer has to refuse: the two
  internal errors of \<open>write_action\<close> are unreachable.
\<close>

theorem no_internal_output_error:
  assumes "config_coherent cf" "serves cf w"
    and "execute_report jx (cf_errors cf) src w = (Inr x, left, w')"
  shows "\<exists>emitted. emitted_payload (embeds_json (cf_output cf)) (ex_action x) = Inr emitted"
proof -
  have "fits_output (wk_embeds_json w) (ex_action x)"
    by (rule execute_report_fits [of w "cf_errors cf" jx src]) (use assms in \<open>simp_all add: config_coherent_def serves_def\<close>)
  then show ?thesis
    using assms(2)
    by (auto simp: fits_output_def emitted_payload_def serves_def split: action.splits pass_payload.splits)
qed

theorem no_internal_output_error_witness:
  "\<exists>emitted. emitted_payload True (PassThrough (PassJson \<lparr>vbytes = ''{}'', vcap = 2\<rparr> 2)) = Inr emitted"
proof -
  let ?cf = "sample_config (sample_plan [] [] None) (EnvelopePlan EnvelopeValue)"
  have "config_coherent ?cf"
    by (simp add: config_coherent_def sample_config_def sample_plan_def lenient_def)
  moreover have "\<exists>left w'. execute_report sample_engine (cf_errors ?cf) (Some (to_vec ''{}'')) (evaluator_worker ?cf)
      = (Inr \<lparr>ex_action = PassThrough (PassJson \<lparr>vbytes = ''{}'', vcap = 2\<rparr> 2), ex_issue = None\<rparr>, left, w')"
    by (simp add: execute_report_def evaluator_worker_def worker_new_def sample_config_def sample_plan_def
        sample_engine_def evaluate_predicates_def render_report_def render_into_def evaluation_result_def
        embeds_json_def vec_extend_def vec_new_def vec_clear_def to_vec_def Let_def)
  ultimately obtain left w' where "config_coherent ?cf"
    "execute_report sample_engine (cf_errors ?cf) (Some (to_vec ''{}'')) (evaluator_worker ?cf)
      = (Inr \<lparr>ex_action = PassThrough (PassJson \<lparr>vbytes = ''{}'', vcap = 2\<rparr> 2), ex_issue = None\<rparr>, left, w')"
    by blast
  from no_internal_output_error [OF this(1) serves_evaluator this(2)] show ?thesis
    by (simp add: sample_config_def embeds_json_def)
qed

end
