(* ===== verification/Writer_Reference.thy ===== *)
theory Writer_Reference
  imports Writer_Facts
begin

text \<open>
  The writer told from its arrivals alone. Which completions fall due, in which order, and which arrivals
  are repeats is read off the list of arrivals by the keys they carry, with no orderer; the writer then
  follows these events up to the first failing one. \<open>write_completions\<close> of \<open>src/runtime.rs\<close> is compared
  with this account: its output, its result, its statistics and the failure it records.
\<close>

section \<open>What the arrivals make due\<close>

definition arrived :: "completion list \<Rightarrow> (int \<times> nat) set" where
  "arrived cs = completion_key ` set cs"

text \<open>The first sequence of a partition that has not arrived.\<close>

definition frontier :: "completion list \<Rightarrow> int \<Rightarrow> nat" where
  "frontier cs p = length (takeWhile (\<lambda>n. (p, n) \<in> arrived cs) [0..<Suc (length cs)])"

text \<open>The first arrival under a key.\<close>

definition arrival :: "completion list \<Rightarrow> int \<Rightarrow> nat \<Rightarrow> completion" where
  "arrival cs p n = hd (filter (\<lambda>c. completion_key c = (p, n)) cs)"

datatype writer_event = Due completion | Repeated completion

text \<open>
  Unordered, an arrival is due at once. Ordered, an arrival under an earlier key is a repeat; any other makes
  due what its partition's frontier passes when it arrives.
\<close>

fun events :: "bool \<Rightarrow> completion list \<Rightarrow> completion list \<Rightarrow> writer_event list" where
  "events ordered earlier [] = []"
| "events ordered earlier (c # cs) =
     (if \<not> ordered then [Due c]
      else if completion_key c \<in> arrived earlier then [Repeated c]
      else map (\<lambda>n. Due (arrival (earlier @ [c]) (c_partition c) n))
        [frontier earlier (c_partition c)..<frontier (earlier @ [c]) (c_partition c)])
     @ events ordered (earlier @ [c]) cs"

text \<open>Whether an arrival is still ahead of its partition's frontier.\<close>

definition has_gap :: "completion list \<Rightarrow> bool" where
  "has_gap cs \<longleftrightarrow> (\<exists>c \<in> set cs. frontier cs (c_partition c) \<le> c_sequence c)"

lemma arrived_simps [simp]:
  "arrived [] = {}" "arrived (cs @ ds) = arrived cs \<union> arrived ds" "arrived (c # cs) = insert (completion_key c) (arrived cs)"
  by (auto simp: arrived_def)

lemma frontier_spec: "(p, frontier cs p) \<notin> arrived cs" "n < frontier cs p \<Longrightarrow> (p, n) \<in> arrived cs"
proof -
  let ?P = "\<lambda>n. (p, n) \<in> arrived cs" and ?ns = "[0..<Suc (length cs)]"
  have "frontier cs p \<noteq> Suc (length cs)"
  proof
    assume "frontier cs p = Suc (length cs)"
    then have "takeWhile ?P ?ns = ?ns"
      by (metis frontier_def length_upt diff_zero takeWhile_eq_take take_all_iff order_refl)
    then have "\<forall>n \<in> set ?ns. ?P n" by (metis set_takeWhileD)
    then have "(\<lambda>n. (p, n)) ` {..length cs} \<subseteq> completion_key ` set cs" by (auto simp: arrived_def)
    then have "card ((\<lambda>n. (p, n)) ` {..length cs}) \<le> card (completion_key ` set cs)" by (rule card_mono [rotated]) simp
    also have "\<dots> \<le> length cs" by (meson card_image_le card_length finite_set le_trans)
    finally show False by (simp add: card_image inj_on_def)
  qed
  moreover have "frontier cs p \<le> length ?ns" unfolding frontier_def by (rule length_takeWhile_le)
  ultimately have lt: "frontier cs p < length ?ns" by simp
  from nth_length_takeWhile [OF lt [unfolded frontier_def]] lt show "(p, frontier cs p) \<notin> arrived cs"
    by (simp add: frontier_def [symmetric] del: upt_Suc)
  assume n: "n < frontier cs p"
  with lt have "takeWhile ?P ?ns ! n = n"
    unfolding frontier_def by (subst takeWhile_nth) (simp_all del: upt_Suc)
  moreover from n have "takeWhile ?P ?ns ! n \<in> set (takeWhile ?P ?ns)" by (intro nth_mem) (simp add: frontier_def)
  ultimately show "(p, n) \<in> arrived cs" by (metis (mono_tags, lifting) set_takeWhileD)
qed

lemma frontier_eqI:
  assumes "\<And>n. n < k \<Longrightarrow> (p, n) \<in> arrived cs" "(p, k) \<notin> arrived cs"
  shows "frontier cs p = k"
  using assms frontier_spec [where p = p and cs = cs] by (metis linorder_neqE_nat)

lemma frontier_Nil [simp]: "frontier [] p = 0"
  by (rule frontier_eqI) simp_all

lemma arrival_old: "(p, n) \<in> arrived cs \<Longrightarrow> arrival (cs @ ds) p n = arrival cs p n"
  by (auto simp: arrival_def arrived_def filter_empty_conv hd_append)

lemma arrival_new: "completion_key c \<notin> arrived cs \<Longrightarrow> completion_key c = (p, n) \<Longrightarrow> arrival (cs @ [c]) p n = c"
  by (force simp: arrival_def arrived_def filter_empty_conv hd_append)

section \<open>The orderer holds what is ahead\<close>

definition mirrors :: "orderer \<Rightarrow> completion list \<Rightarrow> bool" where
  "mirrors ord cs \<longleftrightarrow> orderer_ok ord \<and> (\<forall>p. po_next (order_at ord p) = frontier cs p) \<and>
     (\<forall>p n. bt_get (po_pending (order_at ord p)) n
        = (if frontier cs p \<le> n \<and> (p, n) \<in> arrived cs then Some (arrival cs p n) else None))"

lemma mirrors_empty [simp]: "mirrors bt_empty []"
  using orderer_ok_empty by (simp add: mirrors_def order_at_def new_order_def bt_get_def bt_empty_def)

lemma mirrors_repeat:
  assumes m: "mirrors ord cs" and old: "completion_key c \<in> arrived cs"
  shows "\<exists>ord'. orderer_insert c ord [] = (Inl (DuplicateCompletion (c_partition c) (c_sequence c), c), ord')
    \<and> mirrors ord' (cs @ [c])"
proof -
  let ?p = "c_partition c" and ?n = "c_sequence c"
  have key: "(?p, ?n) \<in> arrived cs" using old by (simp add: completion_key_def)
  have "?n < po_next (order_at ord ?p) \<or> bt_get (po_pending (order_at ord ?p)) ?n \<noteq> None"
    using m key unfolding mirrors_def by (cases "?n < frontier cs ?p") auto
  note ins = orderer_insert_duplicate [OF this]
  have same: "arrived (cs @ [c]) = arrived cs" using old by (simp add: insert_absorb)
  have front: "frontier (cs @ [c]) p = frontier cs p" for p
    by (rule frontier_eqI) (simp_all only: same frontier_spec not_False_eq_True)
  have "arrival (cs @ [c]) p n = arrival cs p n" if "(p, n) \<in> arrived cs" for p n
    using that by (rule arrival_old)
  then have "mirrors (bt_insert ?p (order_at ord ?p) ord) (cs @ [c])"
    using m unfolding mirrors_def front same by (simp add: order_at_insert orderer_ok_insert)
  with ins [of "[]"] show ?thesis by blast
qed

lemma mirrors_insert:
  assumes m: "mirrors ord cs" and new: "completion_key c \<notin> arrived cs" and lt: "c_sequence c < u64_max"
  shows "\<exists>ord'. orderer_insert c ord [] =
      (Inr (map (arrival (cs @ [c]) (c_partition c)) [frontier cs (c_partition c)..<frontier (cs @ [c]) (c_partition c)]), ord')
    \<and> mirrors ord' (cs @ [c])"
proof -
  let ?p = "c_partition c" and ?n = "c_sequence c" and ?k = "frontier cs (c_partition c)" and ?cs = "cs @ [c]"
  have ok: "orderer_ok ord" and at: "po_next (order_at ord p) = frontier cs p"
    and held: "bt_get (po_pending (order_at ord p)) n
      = (if frontier cs p \<le> n \<and> (p, n) \<in> arrived cs then Some (arrival cs p n) else None)" for p n
    using m by (simp_all add: mirrors_def)
  have absent: "(?p, ?n) \<notin> arrived cs" and key: "completion_key c = (?p, ?n)"
    using new by (simp_all add: completion_key_def)
  have le: "?k \<le> ?n" using absent frontier_spec(2) [where n = ?n and cs = cs and p = ?p] by (meson not_less)
  have in_new: "(p, n) \<in> arrived ?cs \<longleftrightarrow> (p, n) \<in> arrived cs \<or> p = ?p \<and> n = ?n" for p n
    by (auto simp: completion_key_def)
  have here: "arrival ?cs ?p ?n = c" by (rule arrival_new [OF new key])
  have other: "frontier ?cs p = frontier cs p" if "p \<noteq> ?p" for p
    using that frontier_spec [where p = p and cs = cs] by (intro frontier_eqI) (simp_all only: in_new, simp_all)
  obtain res ord' where run: "orderer_insert c ord [] = (res, ord')" by (metis prod.exhaust)
  have none: "bt_get (po_pending (order_at ord ?p)) ?n = None" by (simp add: held absent)
  show ?thesis
  proof (cases "?k < ?n")
    case True
    then have "po_next (order_at ord ?p) < ?n" by (simp add: at)
    note upd = orderer_insert_ahead [OF this none run]
    have front: "frontier ?cs p = frontier cs p" for p
      using True frontier_spec [where p = p and cs = cs] by (intro frontier_eqI) (simp_all only: in_new, auto)
    have "bt_get (po_pending (order_at ord' p)) n
        = (if frontier ?cs p \<le> n \<and> (p, n) \<in> arrived ?cs then Some (arrival ?cs p n) else None)" for p n
      using True here arrival_old [of p n cs "[c]"]
      by (auto simp: upd(2) bt_get_insert held front in_new simp del: arrived_simps)
    moreover have "po_next (order_at ord' p) = frontier ?cs p" for p by (simp add: upd(2) at front)
    ultimately have "mirrors ord' ?cs" using upd(3) [OF ok lt] unfolding mirrors_def by blast
    with upd(1) run show ?thesis by (simp add: front)
  next
    case False
    with le have eq: "?n = ?k" by simp
    then have "?n = po_next (order_at ord ?p)" by (simp add: at)
    from orderer_insert_frontier [OF ok lt this run] obtain next' pending' where
      f: "order_at ord' ?p = \<lparr>po_next = next', po_pending = pending'\<rparr>"
      "\<forall>q. q \<noteq> ?p \<longrightarrow> order_at ord' q = order_at ord q" "?n < next'"
      "\<forall>n. ?n < n \<longrightarrow> n < next' \<longrightarrow> bt_get (po_pending (order_at ord ?p)) n \<noteq> None"
      "bt_get (po_pending (order_at ord ?p)) next' = None"
      "\<forall>n. bt_get pending' n = (if n < next' then None else bt_get (po_pending (order_at ord ?p)) n)"
      "res = Inr ([] @ c # map (\<lambda>n. the (bt_get (po_pending (order_at ord ?p)) n)) [Suc ?n..<next'])"
      "orderer_ok ord'" by blast
    have mid: "(?p, n) \<in> arrived cs" if "?n < n" "n < next'" for n
      using f(4) [rule_format, OF that] by (simp add: held split: if_splits)
    have front: "frontier ?cs ?p = next'"
    proof (rule frontier_eqI)
      show "(?p, next') \<notin> arrived ?cs"
        using f(3,5) eq unfolding in_new by (auto simp: held split: if_splits)
      show "(?p, n) \<in> arrived ?cs" if "n < next'" for n
        unfolding in_new using mid [OF _ that] frontier_spec(2) [where n = n and cs = cs and p = ?p] eq by (metis linorder_neqE_nat)
    qed
    have "the (bt_get (po_pending (order_at ord ?p)) n) = arrival ?cs ?p n" if "?n < n" "n < next'" for n
      using mid [OF that] that eq by (simp add: held arrival_old)
    then have "map (\<lambda>n. the (bt_get (po_pending (order_at ord ?p)) n)) [Suc ?n..<next'] = map (arrival ?cs ?p) [Suc ?n..<next']"
      by simp
    then have "res = Inr (map (arrival ?cs ?p) [?k..<frontier ?cs ?p])"
      using f(3,7) here by (simp add: front eq [symmetric] upt_conv_Cons)
    moreover have "mirrors ord' ?cs"
      unfolding mirrors_def
    proof (intro conjI allI f(8))
      fix p
      show "po_next (order_at ord' p) = frontier ?cs p"
        using f(1,2) other [of p] by (cases "p = ?p") (simp_all add: front at)
      fix n
      show "bt_get (po_pending (order_at ord' p)) n
          = (if frontier ?cs p \<le> n \<and> (p, n) \<in> arrived ?cs then Some (arrival ?cs p n) else None)"
      proof (cases "p = ?p")
        case True
        with f(1,3,6) eq show ?thesis
          by (auto simp: front held in_new arrival_old simp del: arrived_simps)
      next
        case False
        with f(2) show ?thesis by (simp add: other held in_new arrival_old del: arrived_simps)
      qed
    qed
    ultimately show ?thesis using run by simp
  qed
qed


lemma pending_none: 
  assumes "orderer_ok ord"
  shows "pending_of ord = {#} \<longleftrightarrow> (\<forall>p n. bt_get (po_pending (order_at ord p)) n = None)"
proof -
  have "pending_of ord = {#} \<longleftrightarrow> (\<forall>(p, s) \<in> set ord. po_pending s = [])"
    by (auto simp: pending_of_alt bt_values_def)
  also have "\<dots> \<longleftrightarrow> (\<forall>p s. bt_get ord p = Some s \<longrightarrow> po_pending s = [])"
    using orderer_ok_bt [OF assms, THEN bt_ok_distinct]
    unfolding bt_get_def bt_keys_def by (auto dest: map_of_SomeD) 
  also have "\<dots> \<longleftrightarrow> (\<forall>p. po_pending (order_at ord p) = [])"
    unfolding order_at_def new_order_def bt_empty_def
    by (auto split: option.splits)
  also have "\<dots> \<longleftrightarrow> (\<forall>p n. bt_get (po_pending (order_at ord p)) n = None)"
    by (simp add: bt_get_def map_of_eq_empty_iff flip: fun_eq_iff)
  finally show ?thesis .
qed

lemma gap_iff:
  assumes "mirrors ord cs"
  shows "pending_of ord \<noteq> {#} \<longleftrightarrow> has_gap cs"
proof -
  have "pending_of ord \<noteq> {#} \<longleftrightarrow> (\<exists>p n. frontier cs p \<le> n \<and> (p, n) \<in> arrived cs)"
    using assms pending_none [of ord] by (auto simp: mirrors_def)
  also have "\<dots> \<longleftrightarrow> has_gap cs" by (auto simp: has_gap_def arrived_def completion_key_def)
  finally show ?thesis .
qed

section \<open>Following the events\<close>

text \<open>
  The failure the first failing event is, if one is, with the output and the statistics at that point:
  a repeat and a fatal outcome fail at once, a due completion fails when writing it does.
\<close>

fun follow ::
    "(string \<Rightarrow> bytes) \<Rightarrow> 'w sink_ops \<Rightarrow> 'x runtime_config \<Rightarrow> writer_event list \<Rightarrow> 'w \<times> stats
      \<Rightarrow> pipeline_error option \<times> 'w \<times> stats" where
  "follow js ops cf [] out = (None, out)"
| "follow js ops cf (Repeated c # es) out =
     (Some (RuntimeError (''duplicate completion for partition '' @ dec_int (c_partition c)
       @ '' sequence '' @ dec_nat (c_sequence c))), out)"
| "follow js ops cf (Due c # es) out =
     (case c_outcome c of
        Fatal m \<Rightarrow> (Some (RuntimeError m), out)
      | Done a \<Rightarrow> (case write_action js ops cf (c_source c) a out of
          (Inl e, out') \<Rightarrow> (Some (OutputError e), out')
        | (Inr _, out') \<Rightarrow> follow js ops cf es out'))"

lemma follow_append:
  "follow js ops cf (es @ fs) out = (case follow js ops cf es out of
     (None, out') \<Rightarrow> follow js ops cf fs out' | (Some e, out') \<Rightarrow> (Some e, out'))"
  by (induction js ops cf es out rule: follow.induct)
    (auto split: completion_outcome.split prod.split sum.split)

definition account :: "'w writer_state \<Rightarrow> pipeline_error option \<times> 'w \<times> stats" where
  "account s = (ws_failure s, ws_sink s, ws_stats s)"

lemma account_failure: "ws_failure s = None \<Longrightarrow> account (writer_failure e s) = (Some e, ws_sink s, ws_stats s)"
  by (simp add: account_def writer_failure_def)

lemma account_orderer [simp]: "account (s\<lparr>ws_orderer := ord\<rparr>) = account s" "account (s\<lparr>ws_sent := log\<rparr>) = account s"
  by (simp_all add: account_def)

definition carries_on ::
    "(string \<Rightarrow> bytes) \<Rightarrow> 'w sink_ops \<Rightarrow> 'x runtime_config \<Rightarrow> writer_event list \<Rightarrow> 'w writer_state
      \<Rightarrow> pipeline_error option \<times> 'w \<times> stats" where
  "carries_on js ops cf es s = (case ws_failure s of
      None \<Rightarrow> follow js ops cf es (ws_sink s, ws_stats s) | Some e \<Rightarrow> account s)"

lemma carries_on_append:
  "account s1 = carries_on js ops cf es s \<Longrightarrow> carries_on js ops cf (es @ fs) s = carries_on js ops cf fs s1"
  by (auto simp: carries_on_def account_def follow_append split: option.splits prod.splits)

lemma account_emit: "account (emit_one js ops cf c s) = carries_on js ops cf [Due c] s"
  by (auto simp: carries_on_def emit_one_def account_def writer_failure_def
      split: option.splits completion_outcome.split prod.split sum.split)

lemma account_fold_emit: "account (fold (emit_one js ops cf) cs s) = carries_on js ops cf (map Due cs) s"
proof (induction cs arbitrary: s)
  case Nil
  show ?case by (auto simp: carries_on_def account_def split: option.splits)
next
  case (Cons c cs)
  then show ?case
    using carries_on_append [OF account_emit [of js ops cf c s], where fs = "map Due cs"] by simp
qed

lemma carries_on_orderer [simp]: "carries_on js ops cf es (s\<lparr>ws_orderer := ord\<rparr>) = carries_on js ops cf es s"
  by (cases "ws_failure s") (simp_all add: carries_on_def)

text \<open>With and without the orderer: the buffer after the arrivals \<open>cs\<close>.\<close>

definition buffered :: "bool \<Rightarrow> orderer \<Rightarrow> completion list \<Rightarrow> bool" where
  "buffered ordered ord cs \<longleftrightarrow> (if ordered then mirrors ord cs else pending_of ord = {#})"

lemma take_completion_follows:
  assumes b: "buffered (is_ordered cf) (ws_orderer s) cs" and lt: "c_sequence c < u64_max"
    and run: "take_completion js ops cf c (s, rels) = (s', rels')"
  shows "account s' = carries_on js ops cf (events (is_ordered cf) cs [c]) s \<and> buffered (is_ordered cf) (ws_orderer s') (cs @ [c])"
proof (cases "is_ordered cf")
  case False
  with run have "s' = emit_one js ops cf c s" by (simp add: take_completion_def buffer_insert_def)
  with False b show ?thesis by (simp add: account_emit buffered_def emit_one_keeps)
next
  case True
  with b have m: "mirrors (ws_orderer s) cs" by (simp add: buffered_def)
  show ?thesis
  proof (cases "completion_key c \<in> arrived cs")
    case old: True
    from mirrors_repeat [OF m old] obtain ord where
      ins: "orderer_insert c (ws_orderer s) [] = (Inl (DuplicateCompletion (c_partition c) (c_sequence c), c), ord)"
      and m': "mirrors ord (cs @ [c])" by blast
    with run True have s': "s' = writer_failure (RuntimeError
        (duplicate_text (DuplicateCompletion (c_partition c) (c_sequence c)))) (s\<lparr>ws_orderer := ord\<rparr>)"
      by (simp add: take_completion_def buffer_insert_def)
    have "account s' = carries_on js ops cf [Repeated c] s"
      unfolding s' by (cases "ws_failure s") (simp_all add: carries_on_def account_def writer_failure_def duplicate_text_def)
    moreover have "ws_orderer s' = ord" by (simp add: s' writer_failure_def)
    ultimately show ?thesis using True old m' by (simp add: buffered_def)
  next
    case new: False
    let ?ready = "map (arrival (cs @ [c]) (c_partition c)) [frontier cs (c_partition c)..<frontier (cs @ [c]) (c_partition c)]"
    from mirrors_insert [OF m new lt] obtain ord where
      ins: "orderer_insert c (ws_orderer s) [] = (Inr ?ready, ord)" and m': "mirrors ord (cs @ [c])" by blast
    with run True have s': "s' = fold (emit_one js ops cf) ?ready (s\<lparr>ws_orderer := ord\<rparr>)"
      by (simp add: take_completion_def buffer_insert_def)
    have "account s' = carries_on js ops cf (map Due ?ready) s" unfolding s' by (simp add: account_fold_emit del: map_map)
    moreover have "ws_orderer s' = ord" by (simp add: s' fold_emit_keeps)
    ultimately show ?thesis using True new m' by (simp add: buffered_def o_def)
  qed
qed

lemma events_append: "events ordered earlier (cs @ ds) = events ordered earlier cs @ events ordered (earlier @ cs) ds"
  by (induction cs arbitrary: earlier) simp_all

lemma take_items_follow:
  assumes "buffered (is_ordered cf) (ws_orderer s) cs" "\<forall>c \<in> set ds. c_sequence c < u64_max"
    and "fold (take_completion js ops cf) ds (s, rels) = (s', rels')"
  shows "account s' = carries_on js ops cf (events (is_ordered cf) cs ds) s \<and> buffered (is_ordered cf) (ws_orderer s') (cs @ ds)"
  using assms
proof (induction ds arbitrary: s rels cs)
  case Nil
  then show ?case by (auto simp: carries_on_def account_def split: option.splits)
next
  case (Cons c ds)
  obtain s1 rels1 where step: "take_completion js ops cf c (s, rels) = (s1, rels1)" by (metis prod.exhaust)
  have "c_sequence c < u64_max" using Cons.prems(2) by simp
  note first = take_completion_follows [OF Cons.prems(1) this step]
  have IH: "account s' = carries_on js ops cf (events (is_ordered cf) (cs @ [c]) ds) s1"
    "buffered (is_ordered cf) (ws_orderer s') ((cs @ [c]) @ ds)"
    using Cons.IH [of s1 "cs @ [c]" rels1] Cons.prems(2,3) first step by simp_all
  have "carries_on js ops cf (events (is_ordered cf) cs ([c] @ ds)) s = carries_on js ops cf (events (is_ordered cf) (cs @ [c]) ds) s1"
    unfolding events_append using first by (intro carries_on_append) simp
  with IH show ?case by simp
qed

lemma take_batches_follow:
  assumes "buffered (is_ordered cf) (ws_orderer s) cs" "\<forall>b \<in> set bs. \<forall>c \<in> set (cb_items b). c_sequence c < u64_max"
    and "s' = fold (take_batch js ops cf) bs s"
  shows "account s' = carries_on js ops cf (events (is_ordered cf) cs (concat (map cb_items bs))) s \<and>
    buffered (is_ordered cf) (ws_orderer s') (cs @ concat (map cb_items bs))"
  using assms(1,2) unfolding assms(3)
proof (induction bs arbitrary: s cs)
  case Nil
  then show ?case by (auto simp: carries_on_def account_def split: option.splits)
next
  case (Cons b bs)
  obtain s1 rels1 where step: "fold (take_completion js ops cf) (cb_items b) (s, []) = (s1, rels1)" by (metis prod.exhaust)
  have "\<forall>c \<in> set (cb_items b). c_sequence c < u64_max" using Cons.prems(2) by simp
  note items = take_items_follow [OF Cons.prems(1) this step]
  let ?s1 = "take_batch js ops cf b s"
  have s1: "account ?s1 = account s1" "ws_orderer ?s1 = ws_orderer s1" using step by (simp_all add: take_batch_def)
  note IH = Cons.IH [of ?s1 "cs @ cb_items b"]
  have "carries_on js ops cf (events (is_ordered cf) cs (cb_items b @ concat (map cb_items bs))) s
      = carries_on js ops cf (events (is_ordered cf) (cs @ cb_items b) (concat (map cb_items bs))) ?s1"
    unfolding events_append using items s1 by (intro carries_on_append) simp
  with IH items s1 Cons.prems(2) show ?case by simp
qed

text \<open>The whole run: after an earlier start-up failure nothing is written; otherwise the events are followed.\<close>

definition writer_account ::
    "(string \<Rightarrow> bytes) \<Rightarrow> 'w sink_ops \<Rightarrow> 'x runtime_config \<Rightarrow> completion list \<Rightarrow> recorded_failure option
      \<Rightarrow> 'w \<times> stats \<Rightarrow> pipeline_error option \<times> 'w \<times> stats" where
  "writer_account js ops cf cs before out =
     (case (case before of
          Some (StartupFailure m) \<Rightarrow> (Some (RuntimeError m), out)
        | _ \<Rightarrow> follow js ops cf (events (is_ordered cf) [] cs) out) of
        (Some (OutputError e), out') \<Rightarrow> (Some (OutputError e), out')
      | (Some (RuntimeError m), w, st) \<Rightarrow> (Some (RuntimeError m), snd (sink_flush ops w), st)
      | (None, w, st) \<Rightarrow>
          (if is_ordered cf \<and> has_gap cs
             then Some (RuntimeError ''completion channel closed with a partition sequence gap'')
           else case fst (sink_flush ops w) of Inl e \<Rightarrow> Some (OutputError e) | Inr _ \<Rightarrow> None,
           snd (sink_flush ops w), st))"

lemma final_flush_account:
  "account (final_flush ops s) = (case ws_failure s of
      Some (OutputError e) \<Rightarrow> account s
    | Some (RuntimeError m) \<Rightarrow> (Some (RuntimeError m), snd (sink_flush ops (ws_sink s)), ws_stats s)
    | None \<Rightarrow> (case fst (sink_flush ops (ws_sink s)) of Inl e \<Rightarrow> Some (OutputError e) | Inr _ \<Rightarrow> None,
        snd (sink_flush ops (ws_sink s)), ws_stats s))"
  by (auto simp: final_flush_def account_def writer_failure_def split: option.split pipeline_error.split prod.split sum.split)

lemma write_completions_account:
  assumes lt: "\<forall>b \<in> set bs. \<forall>c \<in> set (cb_items b). c_sequence c < u64_max"
    and run: "write_completions js ops cf n bs (writer_init w ct st) = (res, s')"
  shows "(case res of Inr _ \<Rightarrow> None | Inl e \<Rightarrow> Some e, ws_sink s', ws_stats s')
    = writer_account js ops cf (concat (map cb_items bs)) (ct_first ct) (w, st)"
proof -
  let ?cs = "concat (map cb_items bs)" and ?s0 = "writer_init w ct st"
  define s1 where "s1 = fold (take_batch js ops cf) bs ?s0"
  define s2 where "s2 = drain_pending n s1"
  have "buffered (is_ordered cf) (ws_orderer ?s0) []" by (simp add: buffered_def writer_init_def)
  from take_batches_follow [OF this lt s1_def] have
    a1: "account s1 = carries_on js ops cf (events (is_ordered cf) [] ?cs) ?s0"
    and b1: "buffered (is_ordered cf) (ws_orderer s1) ?cs" by simp_all
  have gap: "pending_of (ws_orderer s1) \<noteq> {#} \<longleftrightarrow> is_ordered cf \<and> has_gap ?cs"
    using b1 gap_iff by (auto simp: buffered_def split: if_splits)
  have fold: "(ws_failure s1, ws_sink s1, ws_stats s1) = (case ct_first ct of
      Some (StartupFailure m) \<Rightarrow> (Some (RuntimeError m), w, st)
    | _ \<Rightarrow> follow js ops cf (events (is_ordered cf) [] ?cs) (w, st))"
    using a1 by (auto simp: account_def carries_on_def writer_init_def split: option.splits recorded_failure.splits)
  have s2: "ws_sink s2 = ws_sink s1" "ws_stats s2 = ws_stats s1" "ws_failure s2 = (case ws_failure s1 of
      None \<Rightarrow> if is_ordered cf \<and> has_gap ?cs then Some (RuntimeError gap_text) else None | Some e \<Rightarrow> Some e)"
    using gap by (simp_all add: s2_def drain_pending_failure split: option.split, simp add: drain_pending_def writer_failure_def split: prod.split)
  have "s' = final_flush ops s2" "(case res of Inr _ \<Rightarrow> None | Inl e \<Rightarrow> Some e) = ws_failure s'"
    using run by (auto simp: write_completions_def Let_def s1_def s2_def split: option.split)
  then have "(case res of Inr _ \<Rightarrow> None | Inl e \<Rightarrow> Some e, ws_sink s', ws_stats s') = account (final_flush ops s2)"
    by (simp add: account_def)
  also have "\<dots> = writer_account js ops cf ?cs (ct_first ct) (w, st)"
    unfolding final_flush_account writer_account_def fold [symmetric]
    by (auto simp: s2 account_def gap_text_def split: option.split pipeline_error.split)
  finally show ?thesis .
qed


text \<open>
  C37. The first failure is what a run reports, and any failure is reported. The writer's result, its output and
  its statistics are those of the account above: the first fatal outcome, repeated arrival or write error,
  in due order, is the result and nothing is written after it; when no event fails, a sequence gap is; and
  when there is no gap, the error of the final flush, if any; otherwise the writer succeeds. A failure
  recorded before stays in the shared cell; else the cell holds the writer's own, with shutdown requested.
\<close>

theorem writer_reports_first_failure:
  assumes "\<forall>b \<in> set bs. \<forall>c \<in> set (cb_items b). c_sequence c < u64_max"
    and "write_completions js ops cf n bs (writer_init w ct st) = (res, s')"
  shows "(case res of Inr _ \<Rightarrow> None | Inl e \<Rightarrow> Some e, ws_sink s', ws_stats s')
      = writer_account js ops cf (concat (map cb_items bs)) (ct_first ct) (w, st)
    \<and> (case ct_first ct of
        Some f \<Rightarrow> ct_first (ws_control s') = Some f
      | None \<Rightarrow> (case res of
          Inr _ \<Rightarrow> ct_first (ws_control s') = None
        | Inl e \<Rightarrow> ct_first (ws_control s') = Some (from_error e) \<and> ct_shutdown (ws_control s')))"
proof
  show "(case res of Inr _ \<Rightarrow> None | Inl e \<Rightarrow> Some e, ws_sink s', ws_stats s')
      = writer_account js ops cf (concat (map cb_items bs)) (ct_first ct) (w, st)"
    using assms by (rule write_completions_account)
  have "reported (ct_first ct) (writer_init w ct st)"
    by (simp add: reported_def agree_def writer_init_def split: option.split)
  then have "reported (ct_first ct) (fold (take_batch js ops cf) bs (writer_init w ct st))"
    by (rule reported_take_batches)
  from reported_flush [OF reported_drain [OF this], of ops n] assms(2)
  show "case ct_first ct of
        Some f \<Rightarrow> ct_first (ws_control s') = Some f
      | None \<Rightarrow> (case res of
          Inr _ \<Rightarrow> ct_first (ws_control s') = None
        | Inl e \<Rightarrow> ct_first (ws_control s') = Some (from_error e) \<and> ct_shutdown (ws_control s'))"
    by (auto simp: write_completions_def Let_def reported_def agree_def split: option.splits)
qed

text \<open>The record of sequence 0 completes twice, before that of sequence 1: the repeat is the failure.\<close>

definition doubled :: "completion_batch list" where
  "doubled = [\<lparr>cb_consumer = 0, cb_items = [sample_completion 0 0 7 (Project (to_vec ''a'')),
     sample_completion 0 0 7 (Project (to_vec ''a'')), sample_completion 0 1 7 (Project (to_vec ''b''))]\<rparr>]"

lemma doubled_account:
  "writer_account id vec_sink line_config (concat (map cb_items doubled)) None (''>'', stats_new False)
    = (Some (RuntimeError ''duplicate completion for partition 0 sequence 0''), ''>a;'', stats_new False)"
  by (simp add: writer_account_def doubled_def frontier_def arrival_def completion_key_def sample_completion_def
      writer_eval line_config_def sample_config_def sample_plan_def sample_source_def stats_new_def upt_rec
      dec_int_def dec_nat.simps digit_char_def)

theorem writer_reports_first_failure_witness:
  "\<exists>s'. write_completions id vec_sink line_config 1 doubled (writer_init ''>'' calm (stats_new False))
      = (Inl (RuntimeError ''duplicate completion for partition 0 sequence 0''), s')
    \<and> ws_sink s' = ''>a;'' \<and> ct_shutdown (ws_control s')
    \<and> ct_first (ws_control s') = Some (RuntimeFailure ''duplicate completion for partition 0 sequence 0'')"
proof -
  obtain res s' where run: "write_completions id vec_sink line_config 1 doubled
      (writer_init ''>'' calm (stats_new False)) = (res, s')" by (metis prod.exhaust)
  have "\<forall>b \<in> set doubled. \<forall>c \<in> set (cb_items b). c_sequence c < u64_max"
    by (simp add: doubled_def sample_completion_def u64_max_def)
  from writer_reports_first_failure [OF this run] have
    "(case res of Inr _ \<Rightarrow> None | Inl e \<Rightarrow> Some e, ws_sink s', ws_stats s')
      = (Some (RuntimeError ''duplicate completion for partition 0 sequence 0''), ''>a;'', stats_new False)"
    and cell: "case res of Inr _ \<Rightarrow> ct_first (ws_control s') = None
      | Inl e \<Rightarrow> ct_first (ws_control s') = Some (from_error e) \<and> ct_shutdown (ws_control s')"
    using doubled_account by (simp_all add: calm_def)
  then have "res = Inl (RuntimeError ''duplicate completion for partition 0 sequence 0'')" "ws_sink s' = ''>a;''"
    by (simp_all split: sum.splits)
  with run cell show ?thesis by (simp add: from_error_def)
qed

section \<open>What reaches the output\<close>

text \<open>The due completions that can be written: those before the first repeat and the first fatal outcome.\<close>

fun writable :: "writer_event list \<Rightarrow> completion list" where
  "writable [] = []"
| "writable (Repeated c # es) = []"
| "writable (Due c # es) = (case c_outcome c of Fatal _ \<Rightarrow> [] | Done _ \<Rightarrow> c # writable es)"

fun due_of :: "writer_event list \<Rightarrow> completion list" where
  "due_of [] = []"
| "due_of (Repeated c # es) = due_of es"
| "due_of (Due c # es) = c # due_of es"

lemma due_of_append [simp]: "due_of (es @ fs) = due_of es @ due_of fs"
  by (induction es rule: due_of.induct) simp_all

lemma due_of_map [simp]: "due_of (map (\<lambda>n. Due (f n)) ns) = map f ns"
  by (induction ns) simp_all

lemma writable_prefix: "\<exists>more. due_of es = writable es @ more"
  by (induction es rule: due_of.induct) (auto split: completion_outcome.split)

lemma writable_unordered: "writable (events False earlier cs) = takeWhile (\<lambda>c. \<not> is_fatal c) cs"
  by (induction cs arbitrary: earlier) (simp_all add: is_fatal_def split: completion_outcome.split)

lemma buffer_run_events:
  assumes "buffered ordered ord earlier" "\<forall>c \<in> set cs. c_sequence c < u64_max"
    and "buffer_run ordered cs ord = (due, rejected, ord')"
  shows "due = due_of (events ordered earlier cs)"
proof (cases ordered)
  case False
  have "due_of (events False earlier cs) = cs" by (induction cs arbitrary: earlier) simp_all
  with False assms(3) show ?thesis by (simp add: buffer_run_direct)
next
  case True
  with assms have "mirrors ord earlier" "buffer_run True cs ord = (due, rejected, ord')" by (simp_all add: buffered_def)
  then have "due = due_of (events True earlier cs)"
    using assms(2)
  proof (induction cs arbitrary: ord earlier due rejected)
    case Nil
    then show ?case by simp
  next
    case (Cons c cs)
    show ?case
    proof (cases "completion_key c \<in> arrived earlier")
      case True
      from mirrors_repeat [OF Cons.prems(1) True] obtain ord1 where
        "orderer_insert c ord [] = (Inl (DuplicateCompletion (c_partition c) (c_sequence c), c), ord1)"
        "mirrors ord1 (earlier @ [c])" by blast
      with Cons.IH [of ord1 "earlier @ [c]"] Cons.prems True show ?thesis
        by (auto simp: buffer_insert_def split: prod.splits)
    next
      case False
      have "c_sequence c < u64_max" using Cons.prems by simp
      from mirrors_insert [OF Cons.prems(1) False this] obtain ord1 where
        "orderer_insert c ord [] = (Inr (map (arrival (earlier @ [c]) (c_partition c))
          [frontier earlier (c_partition c)..<frontier (earlier @ [c]) (c_partition c)]), ord1)"
        "mirrors ord1 (earlier @ [c])" by blast
      with Cons.IH [of ord1 "earlier @ [c]"] Cons.prems False show ?thesis
        by (auto simp: buffer_insert_def split: prod.splits)
    qed
  qed
  with True show ?thesis by simp
qed

lemma upt_prefix: "map f (xs @ ys) = [0..<k] \<Longrightarrow> map f xs = [0..<length xs]"
  by (metis append_eq_conv_conj length_append length_map length_upt map_append diff_zero le_add1 take_upt add_0)

lemma writable_order:
  assumes lt: "\<forall>c \<in> set cs. c_sequence c < u64_max" and eq: "ws = writable (events ordered [] cs)"
  shows "mset ws \<subseteq># mset cs"
    and "ordered \<Longrightarrow> map c_sequence (of_partition k ws) = [0..<length (of_partition k ws)]"
proof -
  obtain due rejected ord where b: "buffer_run ordered cs bt_empty = (due, rejected, ord)" by (metis prod.exhaust)
  have "buffered ordered bt_empty []" by (simp add: buffered_def)
  then have due: "due = due_of (events ordered [] cs)" using lt b by (rule buffer_run_events)
  obtain more where more: "due = ws @ more" unfolding due eq using writable_prefix by blast
  have "mset due + (mset rejected + pending_of ord) = mset cs"
    using buffer_run_balance [OF orderer_ok_empty lt b] by (simp add: add.assoc)
  then have "mset due \<subseteq># mset cs" by (metis mset_subset_eq_add_left)
  then show "mset ws \<subseteq># mset cs" unfolding more by (metis mset_append mset_subset_eq_add_left subset_mset.order_trans)
  assume ordered
  with b have "map c_sequence (of_partition k due) = [po_next (order_at bt_empty k)..<po_next (order_at ord k)]"
    using buffer_run_continues [OF orderer_ok_empty lt, of due rejected ord k] by simp
  then have "map c_sequence (of_partition k ws @ of_partition k more) = [0..<po_next (order_at ord k)]"
    by (simp add: more order_at_def new_order_def)
  then show "map c_sequence (of_partition k ws) = [0..<length (of_partition k ws)]" by (rule upt_prefix)
qed

context sink
begin

lemma follow_contents:
  assumes "follow js ops cf es (w, st) = (f, w', st')"
  shows "\<exists>written rest p q. writable es = written @ rest \<and> contents w' = contents w @ texts js cf written @ p
    \<and> texts js cf (take 1 rest) = p @ q \<and> ((\<exists>e. f = Some (OutputError e)) \<or> rest = [] \<and> p = [])"
  using assms
proof (induction es arbitrary: w st)
  case Nil
  then show ?case by simp
next
  case (Cons e es)
  show ?case
  proof (cases e)
    case (Repeated c)
    with Cons.prems show ?thesis by simp
  next
    case (Due c)
    show ?thesis
    proof (cases "c_outcome c")
      case (Fatal m)
      with Due Cons.prems show ?thesis by simp
    next
      case (Done a)
      have shown: "completion_text js cf c = action_text js cf (c_source c) a" by (simp add: completion_text_def Done)
      obtain r w1 st1 where act: "write_action js ops cf (c_source c) a (w, st) = (r, w1, st1)" by (metis prod.exhaust)
      note one = write_action_cases [OF act]
      show ?thesis
      proof (cases r)
        case (Inl er)
        with Cons.prems Due Done act have "f = Some (OutputError er)" "w' = w1" by simp_all
        moreover obtain p q where "action_text js cf (c_source c) a = p @ q" "contents w1 = contents w @ p"
          using one Inl by auto
        ultimately show ?thesis using Due Done
          by - (rule exI [of _ "[]"], rule exI [of _ "c # writable es"], rule exI [of _ p], rule exI [of _ q], simp add: shown)
      next
        case (Inr u)
        with Cons.prems Due Done act have "follow js ops cf es (w1, st1) = (f, w', st')" by simp
        from Cons.IH [OF this] obtain written rest p q where
          "writable es = written @ rest" "contents w' = contents w1 @ texts js cf written @ p"
          "texts js cf (take 1 rest) = p @ q" "(\<exists>e. f = Some (OutputError e)) \<or> rest = [] \<and> p = []" by blast
        with one Inr Due Done show ?thesis
          by - (rule exI [of _ "c # written"], rule exI [of _ rest], rule exI [of _ p], rule exI [of _ q], simp add: shown)
      qed
    qed
  qed
qed

lemma flushed_contents [simp]: "contents (snd (sink_flush ops w)) = contents w"
  by (metis flush_contents prod.collapse)

lemma write_completions_contents:
  assumes lt: "\<forall>b \<in> set bs. \<forall>c \<in> set (cb_items b). c_sequence c < u64_max"
    and run: "write_completions js ops cf n bs (writer_init w ct st) = (res, s')"
    and early: "\<nexists>m. ct_first ct = Some (StartupFailure m)"
  shows "\<exists>written rest p q. writable (events (is_ordered cf) [] (concat (map cb_items bs))) = written @ rest
    \<and> contents (ws_sink s') = contents w @ texts js cf written @ p \<and> texts js cf (take 1 rest) = p @ q
    \<and> ((\<exists>e. res = Inl (OutputError e)) \<or> rest = [] \<and> p = [])"
proof -
  let ?es = "events (is_ordered cf) [] (concat (map cb_items bs))"
  obtain f w1 st1 where fol: "follow js ops cf ?es (w, st) = (f, w1, st1)" by (metis prod.exhaust)
  from early have "(case ct_first ct of Some (StartupFailure m) \<Rightarrow> (Some (RuntimeError m), w, st)
      | _ \<Rightarrow> follow js ops cf ?es (w, st)) = (f, w1, st1)"
    by (auto simp: fol split: option.split recorded_failure.split)
  with write_completions_account [OF lt run] have
    "contents (ws_sink s') = contents w1" "\<And>e. f = Some (OutputError e) \<Longrightarrow> res = Inl (OutputError e)"
    by (auto simp: writer_account_def split: option.splits pipeline_error.splits sum.splits)
  with follow_contents [OF fol] show ?thesis by metis
qed

end

text \<open>
  C20. What reaches the output, whatever happens - write errors, fatal outcomes, duplicates, a sequence gap,
  a start-up failure. The completions to write are the due ones before the first fatal outcome and the first
  repeat: arrivals, each at most once; when ordered, each partition's in sequence order without gaps; when
  not, the arrivals before the first fatal one, in arrival order. The output is the texts of all of them; only
  an output error may cut it, after some of them and at most part of the next one's text; and after a
  start-up failure nothing is written.
\<close>

theorem writer_prefix:
  assumes "sink ops contents" "\<forall>b \<in> set bs. \<forall>c \<in> set (cb_items b). c_sequence c < u64_max"
    and "write_completions js ops cf n bs (writer_init w ct st) = (res, s')"
  shows "\<exists>written rest p q. writable (events (is_ordered cf) [] (concat (map cb_items bs))) = written @ rest
    \<and> contents (ws_sink s') = contents w @ texts js cf written @ p
    \<and> texts js cf (take 1 rest) = p @ q
    \<and> (case ct_first ct of
        Some (StartupFailure m) \<Rightarrow> written = [] \<and> p = []
      | _ \<Rightarrow> (\<exists>e. res = Inl (OutputError e)) \<or> rest = [] \<and> p = [])
    \<and> mset (written @ rest) \<subseteq># mset (concat (map cb_items bs))
    \<and> (if is_ordered cf
       then \<forall>k. map c_sequence (of_partition k (written @ rest)) = [0..<length (of_partition k (written @ rest))]
       else written @ rest = takeWhile (\<lambda>c. \<not> is_fatal c) (concat (map cb_items bs)))"
proof -
  let ?cs = "concat (map cb_items bs)"
  define ws where "ws = writable (events (is_ordered cf) [] ?cs)"
  have lt: "\<forall>c \<in> set ?cs. c_sequence c < u64_max" using assms(2) by simp
  have order: "mset ws \<subseteq># mset ?cs"
    "if is_ordered cf then \<forall>k. map c_sequence (of_partition k ws) = [0..<length (of_partition k ws)]
     else ws = takeWhile (\<lambda>c. \<not> is_fatal c) ?cs"
    using writable_order [OF lt ws_def] writable_unordered [of "[]" ?cs] by (auto simp: ws_def)
  show ?thesis
  proof (cases "\<exists>m. ct_first ct = Some (StartupFailure m)")
    case True
    with write_completions_account [OF assms(2,3)] have "contents (ws_sink s') = contents w"
      by (auto simp: writer_account_def sink.flushed_contents [OF assms(1)])
    with True order show ?thesis
      unfolding ws_def [symmetric]
      by - (rule exI [of _ "[]"], rule exI [of _ ws], rule exI [of _ "[]"],
        rule exI [of _ "texts js cf (take 1 ws)"], auto)
  next
    case False
    from sink.write_completions_contents [OF assms this, folded ws_def] obtain written rest p q where
      out: "ws = written @ rest" "contents (ws_sink s') = contents w @ texts js cf written @ p"
      "texts js cf (take 1 rest) = p @ q" "(\<exists>e. res = Inl (OutputError e)) \<or> rest = [] \<and> p = []" by blast
    from False out(4) have "case ct_first ct of Some (StartupFailure m) \<Rightarrow> written = [] \<and> p = []
        | _ \<Rightarrow> (\<exists>e. res = Inl (OutputError e)) \<or> rest = [] \<and> p = []"
      by (simp split: option.split recorded_failure.split)
    with out order [unfolded out(1)] show ?thesis unfolding ws_def [symmetric] by blast
  qed
qed

theorem writer_prefix_witness:
  "\<exists>written rest p q. writable (events True [] (concat (map cb_items swapped))) = written @ rest
    \<and> ''a;b'' = texts id line_config written @ p \<and> texts id line_config (take 1 rest) = p @ q
    \<and> mset (written @ rest) \<subseteq># mset (concat (map cb_items swapped))"
proof -
  obtain e s' where run: "write_completions id pipe_sink line_config 1 swapped
      (writer_init \<lparr>taken = [], room = 3\<rparr> calm (stats_new False)) = (Inl (OutputError e), s')"
    and out: "taken (ws_sink s') = ''a;b''" using pipe_breaks by blast
  have "\<forall>b \<in> set swapped. \<forall>c \<in> set (cb_items b). c_sequence c < u64_max"
    by (simp add: swapped_def sample_completion_def u64_max_def)
  moreover have "is_ordered line_config"
    by (simp add: is_ordered_def line_config_def sample_config_def sample_plan_def)
  ultimately have "\<exists>written rest p q. writable (events True [] (concat (map cb_items swapped))) = written @ rest
      \<and> ''a;b'' = [] @ texts id line_config written @ p \<and> texts id line_config (take 1 rest) = p @ q
      \<and> mset (written @ rest) \<subseteq># mset (concat (map cb_items swapped))"
    using writer_prefix [OF ps.sink_axioms _ run] unfolding out by auto
  then show ?thesis by simp
qed

end
