(* ===== verification/Pipeline.thy ===== *)
theory Pipeline
  imports Poller_Facts Writer_Facts
begin

text \<open>
  The whole pipeline (\<open>run_pipeline\<close> in \<open>src/runtime.rs\<close>): how many evaluators run, where pollers send, what
  the run returns, and what the composition of pollers, evaluators and writer writes.
\<close>

section \<open>Wiring\<close>

definition work_capacity :: "'x runtime_config \<Rightarrow> nat" where
  "work_capacity cf = div_ceil (max_inflight_records (cf_limits cf)) batch_records"

definition evaluators :: "'x runtime_config \<Rightarrow> nat \<Rightarrow> nat \<Rightarrow> nat" where
  "evaluators cf parallelism inputs =
     (if tp_parses_json (cf_transform cf)
      then evaluator_count parallelism inputs (max_inflight_records (cf_limits cf)) else 0)"

text \<open>
  After every thread was joined: the first failure, or the signal that ended the run. Registered signal
  numbers fit an \<open>i32\<close>.
\<close>

definition pipeline_result :: "control \<Rightarrow> nat \<Rightarrow> pipeline_error + int option" where
  "pipeline_result ct signal = (case ct_first ct of
      Some f \<Rightarrow> Inl (into_error f)
    | None \<Rightarrow> Inr (if signal \<noteq> 0 then Some (int signal) else None))"

text \<open>A joined thread that panicked.\<close>

definition join_panicked :: "string \<Rightarrow> control \<Rightarrow> control" where
  "join_panicked role ct = (record_failure (RuntimeError (role @ '' panicked'')) ct)\<lparr>ct_shutdown := True\<rparr>"

section \<open>Channels\<close>

fun work_of :: "dispatch \<Rightarrow> record_batch list" where
  "work_of (SentWork b) = [b]"
| "work_of (SentCompletions _) = []"

fun done_of :: "dispatch \<Rightarrow> completion_batch list" where
  "done_of (SentWork _) = []"
| "done_of (SentCompletions b) = [b]"

definition sent_work :: "'k poller list \<Rightarrow> record_batch list" where
  "sent_work ps = concat (map (\<lambda>p. concat (map work_of (pl_sent p))) ps)"

text \<open>
  Each poller ran its loop on its own input, whatever the others did meanwhile, and has handed out all it
  had admitted without a failure.
\<close>

definition pollers_ran ::
    "'k kafka_ops \<Rightarrow> 'x runtime_config \<Rightarrow> 'k kafka_input list \<Rightarrow> 'k poller list \<Rightarrow> bool" where
  "pollers_ran ko cf kis ps \<longleftrightarrow> length ps = length kis \<and> (\<forall>k < length kis. \<exists>tns sh ct st fl.
     (\<forall>tn \<in> set tns. steady tn) \<and> poll_loop ko cf tns (poller_new cf k (kis ! k) sh ct st) = (fl, ps ! k) \<and>
     \<not> failed (ps ! k) \<and> buffered (ps ! k) = [])"

text \<open>
  The work channel gives each batch to one of the evaluators, and their completion batches reach the
  writer in any order.
\<close>

definition evaluated ::
    "('x, 'i, 'e, 'v) jsonata_engine \<Rightarrow> (bytes \<Rightarrow> bool) \<Rightarrow> (vec \<Rightarrow> vec \<Rightarrow> vec option \<times> vec)
      \<Rightarrow> 'x runtime_config \<Rightarrow> record_batch list \<Rightarrow> completion_batch list \<Rightarrow> bool" where
  "evaluated jx panics unwound cf work done_batches \<longleftrightarrow> (\<exists>shares :: (record_batch list \<times> stats) list.
     mset (concat (map fst shares)) = mset work \<and>
     mset done_batches = mset (concat (map (\<lambda>(share, st).
       fst (worker_loop jx panics unwound cf (\<lambda>_. True) share (evaluator_worker cf, st))) shares)))"

text \<open>
  What reaches the writer. Without evaluators the pollers send to the writer themselves, and the channel
  keeps the batches of each poller in order.
\<close>

definition arrived ::
    "('x, 'i, 'e, 'v) jsonata_engine \<Rightarrow> (bytes \<Rightarrow> bool) \<Rightarrow> (vec \<Rightarrow> vec \<Rightarrow> vec option \<times> vec)
      \<Rightarrow> 'x runtime_config \<Rightarrow> 'k poller list \<Rightarrow> completion_batch list \<Rightarrow> bool" where
  "arrived jx panics unwound cf ps bs \<longleftrightarrow>
     (if tp_parses_json (cf_transform cf) then evaluated jx panics unwound cf (sent_work ps) bs
      else \<forall>k. filter (\<lambda>b. cb_consumer b = k) bs = (if k < length ps then concat (map done_of (pl_sent (ps ! k))) else []))"

text \<open>Payloads on which the thread that looks at them panics: without evaluators nobody calls the engine.\<close>

definition evaluator_panics :: "'x runtime_config \<Rightarrow> (bytes \<Rightarrow> bool) \<Rightarrow> bytes \<Rightarrow> bool" where
  "evaluator_panics cf panics bs \<longleftrightarrow> tp_parses_json (cf_transform cf) \<and> panics bs"

section \<open>Lists with equal contents\<close>

lemma same_order:
  assumes "mset xs = mset ys" "map g xs = map g ys" "distinct (map g xs)"
  shows "xs = ys"
proof (rule nth_equalityI)
  show len: "length xs = length ys" using assms(2) by (metis length_map)
  fix i assume i: "i < length xs"
  then have "xs ! i \<in> set ys" using assms(1) by (metis nth_mem set_mset_mset)
  then obtain j where j: "j < length ys" "xs ! i = ys ! j" by (metis in_set_conv_nth)
  then have "map g xs ! i = map g xs ! j" using assms(2) i len by (metis nth_map)
  then have "i = j" using assms(3) i j len by (metis length_map nth_eq_iff_index_eq)
  with j show "xs ! i = ys ! i" by simp
qed

lemma mset_concat_map: "mset (concat (map f xs)) = \<Sum>\<^sub># (image_mset (\<lambda>x. mset (f x)) (mset xs))"
  by (induction xs) simp_all

lemma mset_concat_cong: "mset xs = mset ys \<Longrightarrow> mset (concat (map f xs)) = mset (concat (map f ys))"
  by (simp only: mset_concat_map)

lemma concat_nested: "concat (map f (concat (map g xs))) = concat (map (\<lambda>x. concat (map f (g x))) xs)"
  by (induction xs) simp_all

lemma filter_concat_one:
  assumes "k < length xss" "\<And>j. j < length xss \<Longrightarrow> j \<noteq> k \<Longrightarrow> filter P (xss ! j) = []"
  shows "filter P (concat xss) = filter P (xss ! k)"
  using assms
proof (induction xss arbitrary: k)
  case (Cons xs xss)
  show ?case
  proof (cases k)
    case 0
    have "filter P (concat xss) = []"
      using Cons.prems(2) [of "Suc _"] 0 by (auto simp: filter_empty_conv in_set_conv_nth [of _ xss])
    with 0 show ?thesis by simp
  next
    case (Suc k')
    have "filter P xs = []" using Cons.prems(2) [of 0] Suc by simp
    moreover have "filter P (concat xss) = filter P (xss ! k')"
    proof (rule Cons.IH)
      show "k' < length xss" using Cons.prems(1) Suc by simp
      show "j < length xss \<Longrightarrow> j \<noteq> k' \<Longrightarrow> filter P (xss ! j) = []" for j
        using Cons.prems(2) [of "Suc j"] Suc by simp
    qed
    ultimately show ?thesis using Suc by simp
  qed
qed simp

section \<open>What reaches the writer\<close>

lemma evaluated_items:
  assumes law: "ignores_capacity jx" and run: "evaluated jx panics unwound cf work bs"
  shows "mset (map observe (concat (map cb_items bs))) =
    mset (concat (map (\<lambda>b. map (expected jx panics cf (rb_consumer b)) (rb_items b)) work))"
proof -
  from run obtain shares :: "(record_batch list \<times> stats) list" where shares: "mset (concat (map fst shares)) = mset work"
    and bs: "mset bs = mset (concat (map (\<lambda>(share, st).
       fst (worker_loop jx panics unwound cf (\<lambda>_. True) share (evaluator_worker cf, st))) shares))"
    unfolding evaluated_def by blast
  define out where "out = (\<lambda>(share, st). fst (worker_loop jx panics unwound cf (\<lambda>_. True) share (evaluator_worker cf, st)))"
  have one: "map (\<lambda>b. map observe (cb_items b)) (out x) =
      map (\<lambda>b. map (expected jx panics cf (rb_consumer b)) (rb_items b)) (fst x)" for x
  proof -
    have "map snd (map (\<lambda>b. (cb_consumer b, map observe (cb_items b))) (out x)) =
        map snd (map (\<lambda>b. (rb_consumer b, map (expected jx panics cf (rb_consumer b)) (rb_items b))) (fst x))"
      using worker_loop_expected [OF law serves_evaluator _ prod.collapse [symmetric],
          of "\<lambda>_. True" panics unwound cf "fst x" "snd x"]
      by (simp add: out_def case_prod_beta)
    then show ?thesis by (simp add: comp_def)
  qed
  have "mset (map observe (concat (map cb_items bs))) =
      mset (concat (map (\<lambda>b. map observe (cb_items b)) bs))" by (simp add: map_concat comp_def)
  also have "\<dots> = mset (concat (map (\<lambda>b. map observe (cb_items b)) (concat (map out shares))))"
    by (rule mset_concat_cong) (simp add: bs out_def)
  also have "\<dots> = mset (concat (concat (map (\<lambda>x. map (\<lambda>b. map observe (cb_items b)) (out x)) shares)))"
    by (simp add: map_concat comp_def)
  also have "\<dots> = mset (concat (map (\<lambda>b. map (expected jx panics cf (rb_consumer b)) (rb_items b)) (concat (map fst shares))))"
    by (simp add: map_concat comp_def one)
  also have "\<dots> = mset (concat (map (\<lambda>b. map (expected jx panics cf (rb_consumer b)) (rb_items b)) work))"
    by (rule mset_concat_cong) (rule shares)
  finally show ?thesis .
qed

lemma observe_keys:
  "fst (observe c) = c_consumer c" "fst (snd (observe c)) = c_partition c" "fst (snd (snd (observe c))) = c_sequence c"
  "fst (expected jx panics cf k w) = k" "fst (snd (expected jx panics cf k w)) = r_partition (w_record w)"
  "fst (snd (snd (expected jx panics cf k w))) = w_sequence w"
  by (simp_all add: observe_def expected_def)

lemma direct_expected:
  assumes "\<not> tp_parses_json (cf_transform cf)"
  shows "observe (direct_completion k (tp_drop_tombstones (cf_transform cf)) work) = expected jx (evaluator_panics cf panics) cf k work"
proof -
  have "\<not> record_panics (evaluator_panics cf panics) r" for r
    using assms by (simp add: record_panics_def evaluator_panics_def split: option.split)
  with assms show ?thesis
    by (simp add: observe_def direct_completion_def Let_def expected_def expected_outcome_def outcome_seen_def decide_def
        direct_action_def tombstone_action_def split: option.split)
qed

lemma evaluators_calm [simp]: "evaluator_panics cf (\<lambda>bs. False) = (\<lambda>bs. False)"
  by (simp add: evaluator_panics_def fun_eq_iff)

lemma evaluators_panic: "tp_parses_json (cf_transform cf) \<Longrightarrow> evaluator_panics cf panics = panics"
  by (simp add: evaluator_panics_def fun_eq_iff)

lemma sorted_same_order:
  assumes same: "mset (map f xs) = mset ys" and key: "\<And>x. g (f x) = h x" and num: "map g ys = [0..<length ys]"
  shows "map f (sort_key h xs) = ys"
proof (rule same_order [where g = g])
  show m: "mset (map f (sort_key h xs)) = mset ys" using same by (metis mset_map mset_sort)
  have "map g (map f (sort_key h xs)) = map h (sort_key h xs)" by (simp add: key comp_def)
  moreover have "sort [0..<length ys] = map h (sort_key h xs)"
  proof (rule properties_for_sort)
    have "mset (map g (map f (sort_key h xs))) = mset (map g ys)" using m by (metis mset_map)
    then show "mset (map h (sort_key h xs)) = mset [0..<length ys]" using num by (simp add: key comp_def)
  qed (rule sorted_sort_key)
  ultimately show "map g (map f (sort_key h xs)) = map g ys" using num by simp
  then show "distinct (map g (map f (sort_key h xs)))" using num by simp
qed

text \<open>Message \<open>m\<close> of consumer \<open>k\<close> has become the completion \<open>c\<close>, with the outcome its record must get.\<close>

definition became ::
    "('x, 'i, 'e, 'v) jsonata_engine \<Rightarrow> (bytes \<Rightarrow> bool) \<Rightarrow> 'x runtime_config \<Rightarrow> output_requirements \<Rightarrow> nat
      \<Rightarrow> native_message \<Rightarrow> completion \<Rightarrow> bool" where
  "became jx panics cf req k m c \<longleftrightarrow> (\<exists>r n. carries req m r \<and>
     observe c = expected jx panics cf k \<lparr>w_sequence = n, w_record = r\<rparr>)"

text \<open>The records of consumer \<open>k\<close> and partition \<open>q\<close> among the written ones.\<close>

definition records_of :: "nat \<Rightarrow> int \<Rightarrow> completion list \<Rightarrow> completion list" where
  "records_of k q = filter (\<lambda>c. c_consumer c = k \<and> c_partition c = q)"

section \<open>The inputs\<close>

text \<open>Inputs of which nothing is read yet; without sharding no two of them have a partition in common.\<close>

definition unread_inputs :: "'k kafka_input list \<Rightarrow> bool" where
  "unread_inputs kis \<longleftrightarrow> (\<forall>ki \<in> set kis. input_ok ki \<and> fetch_dropped (ki_consumer ki) = [])"

definition disjoint_inputs :: "'k kafka_input list \<Rightarrow> bool" where
  "disjoint_inputs kis \<longleftrightarrow> (\<forall>j < length kis. \<forall>k < length kis. \<forall>q \<in> set (assigned_partitions (kis ! j)).
     q \<in> set (assigned_partitions (kis ! k)) \<longrightarrow> j = k)"

definition fresh_inputs :: "'k kafka_input list \<Rightarrow> bool" where
  "fresh_inputs kis \<longleftrightarrow> unread_inputs kis \<and> disjoint_inputs kis"

lemma records_own:
  assumes "disjoint_inputs kis" "k < length kis" "q \<in> set (assigned_partitions (kis ! k))"
    and "\<forall>c \<in> set cs. c_consumer c < length kis \<and> c_partition c \<in> set (assigned_partitions (kis ! c_consumer c))"
  shows "of_partition q cs = records_of k q cs"
proof -
  have "c_consumer c = k" if "c \<in> set cs" "c_partition c = q" for c
    using assms that unfolding disjoint_inputs_def by blast
  then show ?thesis unfolding records_of_def of_partition_def by (intro filter_cong) auto
qed

section \<open>What a poller handed out\<close>

definition admitted_by ::
    "'k kafka_input \<Rightarrow> ('k \<Rightarrow> native_message list) \<Rightarrow> 'k poller \<Rightarrow> work_item list \<Rightarrow> bool" where
  "admitted_by ki incoming p its \<longleftrightarrow>
     (\<forall>q. map w_sequence (items_of q its) = [0..<length (items_of q its)]) \<and>
     (\<forall>q. next_sequence_of (pl_admission p) q = length (items_of q its)) \<and>
     (\<forall>w \<in> set its. w_sequence w < u64_max \<and> r_partition (w_record w) \<in> set (assigned_partitions ki)) \<and>
     (\<forall>q part. bt_get (ki_partitions ki) q = Some part \<longrightarrow>
       list_all2 (carries (ki_requirements ki)) (take (length (items_of q its)) (filter (due part) (backlog incoming (ki_consumer ki))))
         (map w_record (items_of q its)))"

lemma poller_items:
  assumes client: "client_law ko incoming" and unread: "unread_inputs kis" and limit: "cf_count_per_partition cf \<noteq> Some 0"
    and ran: "pollers_ran ko cf kis ps" and k: "k < length kis"
  obtains groups where "pl_sent (ps ! k) = map (package k (destination_of cf)) groups"
    "admitted_by (kis ! k) incoming (ps ! k) (concat groups)"
proof -
  let ?ki = "kis ! k" and ?p = "ps ! k"
  from ran k obtain tns sh ct st fl where run: "\<forall>tn \<in> set tns. steady tn"
    "poll_loop ko cf tns (poller_new cf k ?ki sh ct st) = (fl, ?p)" "\<not> failed ?p" "buffered ?p = []"
    by (auto simp: pollers_ran_def)
  have ki: "input_ok ?ki" "\<forall>m \<in> set (map the (fetch_dropped (ki_consumer ?ki))). fits_memory m"
    using unread k by (simp_all add: unread_inputs_def)
  from poll_loop_admits [OF client run(1) ki limit run(2)] run(3) obtain groups where
    sent: "pl_sent ?p = map (package k (destination_of cf)) groups"
    and seqs: "\<forall>q. map w_sequence (items_of q (admitted_items groups ?p)) = [0..<length (items_of q (admitted_items groups ?p))]"
    and counts: "\<forall>q. next_sequence_of (pl_admission ?p) q = length (items_of q (admitted_items groups ?p))"
    and placed: "\<forall>w \<in> set (admitted_items groups ?p). w_sequence w < u64_max \<and>
       bt_get (ki_partitions ?ki) (r_partition (w_record w)) \<noteq> None"
    and carried: "\<forall>q part. bt_get (ki_partitions ?ki) q = Some part \<longrightarrow>
      list_all2 (carries (ki_requirements ?ki))
        (take (length (items_of q (admitted_items groups ?p))) (filter (due part) (backlog incoming (ki_consumer ?ki))))
        (map w_record (items_of q (admitted_items groups ?p)))" by blast
  have items: "admitted_items groups ?p = concat groups" using run(4) by (simp add: admitted_items_def)
  have "\<forall>w \<in> set (concat groups). w_sequence w < u64_max \<and> r_partition (w_record w) \<in> set (assigned_partitions ?ki)"
    using placed unfolding items assigned_partitions_def bt_keys_iff by blast
  then have "admitted_by ?ki incoming ?p (concat groups)"
    using seqs counts carried unfolding items admitted_by_def by blast
  with sent that show ?thesis by blast
qed

section \<open>What arrives\<close>

text \<open>Of each consumer exactly the expected completions arrive, and without evaluators in its order.\<close>

lemma evaluated_of:
  assumes law: "ignores_capacity jx" and eval: "evaluated jx panics unwound cf (sent_work ps) bs"
    and sent: "\<And>k. k < length ps \<Longrightarrow> pl_sent (ps ! k) = map (package k Evaluate) (groups k)"
  shows "mset (map observe (concat (map cb_items bs))) =
    mset (concat (map (\<lambda>k. map (expected jx panics cf k) (concat (groups k))) [0..<length ps]))"
proof -
  have one: "concat (map (\<lambda>b. map (expected jx panics cf (rb_consumer b)) (rb_items b)) (concat (map work_of (pl_sent (ps ! k)))))
      = map (expected jx panics cf k) (concat (groups k))" if "k < length ps" for k
  proof -
    have "concat (map work_of (pl_sent (ps ! k))) = map (\<lambda>g. \<lparr>rb_consumer = k, rb_items = g\<rparr>) (groups k)"
      by (simp add: sent [OF that] package_def comp_def)
    then show ?thesis by (simp add: comp_def map_concat)
  qed
  have "concat (map (\<lambda>b. map (expected jx panics cf (rb_consumer b)) (rb_items b)) (sent_work ps)) =
      concat (map (\<lambda>p. concat (map (\<lambda>b. map (expected jx panics cf (rb_consumer b)) (rb_items b)) (concat (map work_of (pl_sent p))))) ps)"
    unfolding sent_work_def by (rule concat_nested)
  also have "\<dots> = concat (map (\<lambda>k. map (expected jx panics cf k) (concat (groups k))) [0..<length ps])"
    by (rule arg_cong [of _ _ concat], rule nth_equalityI) (simp_all add: one)
  finally show ?thesis using evaluated_items [OF law eval] by simp
qed

lemma filter_own:
  assumes "k < n" "\<And>j. j < n \<Longrightarrow> \<forall>x \<in> set (f j). g x = j"
  shows "filter (\<lambda>x. g x = k) (concat (map f [0..<n])) = f k"
proof -
  have "filter (\<lambda>x. g x = k) (concat (map f [0..<n])) = filter (\<lambda>x. g x = k) (map f [0..<n] ! k)"
    by (rule filter_concat_one) (use assms in \<open>auto simp: filter_empty_conv\<close>)
  also have "\<dots> = f k" using assms by (simp add: filter_id_conv)
  finally show ?thesis .
qed

lemma filter_batches:
  assumes "\<forall>b \<in> set bs. \<forall>c \<in> set (cb_items b). c_consumer c = cb_consumer b"
  shows "filter (\<lambda>c. c_consumer c = k) (concat (map cb_items bs)) = concat (map cb_items (filter (\<lambda>b. cb_consumer b = k) bs))"
  using assms
proof (induction bs)
  case (Cons b bs)
  then have "filter (\<lambda>c. c_consumer c = k) (cb_items b) = (if cb_consumer b = k then cb_items b else [])"
    by (auto simp: filter_empty_conv filter_id_conv)
  with Cons show ?case by simp
qed simp

lemma arrived_items:
  assumes law: "ignores_capacity jx" and arr: "arrived jx panics unwound cf ps bs"
    and sent: "\<And>k. k < length ps \<Longrightarrow> pl_sent (ps ! k) = map (package k (destination_of cf)) (groups k)"
  defines "out \<equiv> concat (map cb_items bs)" and "wish k \<equiv> map (expected jx (evaluator_panics cf panics) cf k) (concat (groups k))"
  shows "\<forall>c \<in> set out. c_consumer c < length ps \<and> observe c \<in> set (wish (c_consumer c))"
    and "\<forall>k < length ps. mset (map observe (filter (\<lambda>c. c_consumer c = k) out)) = mset (wish k)"
    and "\<not> tp_parses_json (cf_transform cf) \<Longrightarrow> \<forall>k < length ps. map observe (filter (\<lambda>c. c_consumer c = k) out) = wish k"
proof -
  have own: "\<forall>x \<in> set (wish k). fst x = k" for k by (auto simp: wish_def observe_keys)
  have pull: "filter (\<lambda>x. fst x = k) (map observe cs) = map observe (filter (\<lambda>c. c_consumer c = k) cs)" for k cs
    by (simp add: filter_map comp_def observe_keys)
  have all: "(\<forall>k < length ps. mset (map observe (filter (\<lambda>c. c_consumer c = k) out)) = mset (wish k)) \<and>
      (\<forall>c \<in> set out. c_consumer c < length ps) \<and>
      (\<not> tp_parses_json (cf_transform cf) \<longrightarrow> (\<forall>k < length ps. map observe (filter (\<lambda>c. c_consumer c = k) out) = wish k))"
  proof (cases "tp_parses_json (cf_transform cf)")
    case True
    then have eval: "evaluated jx panics unwound cf (sent_work ps) bs" and dest: "destination_of cf = Evaluate"
      using arr by (simp_all add: arrived_def destination_of_def)
    from evaluated_of [OF law eval sent [unfolded dest]] have
      m: "mset (map observe out) = mset (concat (map wish [0..<length ps]))"
      by (simp add: out_def wish_def [abs_def] evaluators_panic [OF True])
    have "mset (map observe (filter (\<lambda>c. c_consumer c = k) out)) = mset (wish k)" if "k < length ps" for k
    proof -
      have "mset (filter (\<lambda>x. fst x = k) (map observe out)) = mset (filter (\<lambda>x. fst x = k) (concat (map wish [0..<length ps])))"
        using m by (simp only: mset_filter)
      then show ?thesis unfolding pull filter_own [OF that own] .
    qed
    moreover have "c_consumer c < length ps" if "c \<in> set out" for c
    proof -
      have "observe c \<in># mset (map observe out)" using that by simp
      then have "observe c \<in> set (concat (map wish [0..<length ps]))" unfolding m by simp
      then obtain k where "k < length ps" "observe c \<in> set (wish k)" by auto
      with own [of k] show ?thesis by (metis observe_keys(1))
    qed
    ultimately show ?thesis using True by blast
  next
    case False
    then have dest: "destination_of cf = WriteDirect (tp_drop_tombstones (cf_transform cf))"
      and bs: "filter (\<lambda>b. cb_consumer b = k) bs = (if k < length ps then concat (map done_of (pl_sent (ps ! k))) else [])" for k
      using arr by (simp_all add: arrived_def destination_of_def)
    let ?direct = "\<lambda>k. map (\<lambda>g. \<lparr>cb_consumer = k, cb_items = map (direct_completion k (tp_drop_tombstones (cf_transform cf))) g\<rparr>) (groups k)"
    have from_k: "filter (\<lambda>b. cb_consumer b = k) bs = ?direct k" if "k < length ps" for k
      using bs [of k] that by (simp add: sent [OF that] dest package_def comp_def)
    have consumers: "\<forall>b \<in> set (?direct k). \<forall>c \<in> set (cb_items b). c_consumer c = k" for k
      by (auto simp: direct_completion_def Let_def)
    have inside: "cb_consumer b < length ps \<and> (\<forall>c \<in> set (cb_items b). c_consumer c = cb_consumer b)" if b: "b \<in> set bs" for b
    proof -
      have "b \<in> set (filter (\<lambda>b'. cb_consumer b' = cb_consumer b) bs)" using b by simp
      moreover from this have lt: "cb_consumer b < length ps" unfolding bs by (auto split: if_splits)
      ultimately have "b \<in> set (?direct (cb_consumer b))" using from_k [OF lt] by simp
      with lt consumers show ?thesis by blast
    qed
    then have "filter (\<lambda>c. c_consumer c = k) out = concat (map cb_items (filter (\<lambda>b. cb_consumer b = k) bs))" for k
      unfolding out_def by (intro filter_batches) blast
    then have "map observe (filter (\<lambda>c. c_consumer c = k) out) = wish k" if "k < length ps" for k
      by (simp add: from_k [OF that] comp_def map_concat direct_expected [OF False, where jx = jx and panics = panics] wish_def)
    moreover have "c_consumer c < length ps" if "c \<in> set out" for c
      using that inside by (auto simp: out_def)
    ultimately show ?thesis by simp
  qed
  then show "\<forall>k < length ps. mset (map observe (filter (\<lambda>c. c_consumer c = k) out)) = mset (wish k)"
    "\<not> tp_parses_json (cf_transform cf) \<Longrightarrow> \<forall>k < length ps. map observe (filter (\<lambda>c. c_consumer c = k) out) = wish k" by blast+
  show "\<forall>c \<in> set out. c_consumer c < length ps \<and> observe c \<in> set (wish (c_consumer c))"
  proof
    fix c assume c: "c \<in> set out"
    with all have lt: "c_consumer c < length ps"
      and m: "mset (map observe (filter (\<lambda>c'. c_consumer c' = c_consumer c) out)) = mset (wish (c_consumer c))" by blast+
    have "observe c \<in> set (map observe (filter (\<lambda>c'. c_consumer c' = c_consumer c) out))" using c by simp
    with lt mset_eq_setD [OF m] show "c_consumer c < length ps \<and> observe c \<in> set (wish (c_consumer c))" by blast
  qed
qed

section \<open>What is written\<close>

lemma became_items:
  assumes carried: "list_all2 (carries req) (take (length its) ms) (map w_record its)"
    and out: "map observe cs = map (expected jx panics cf k) its"
  shows "list_all2 (became jx panics cf req k) (take (length cs) ms) cs"
proof -
  have n: "length cs = length its" using arg_cong [OF out, of length] by simp
  have len: "length (take (length its) ms) = length its" using list_all2_lengthD [OF carried] by simp
  show ?thesis unfolding n
  proof (rule list_all2_all_nthI)
    show "length (take (length its) ms) = length cs" using len n by simp
    fix i assume "i < length (take (length its) ms)"
    then have i: "i < length its" using len by simp
    have "carries req (take (length its) ms ! i) (w_record (its ! i))"
      using list_all2_nthD [OF carried, of i] i len by simp
    moreover have "observe (cs ! i) = expected jx panics cf k \<lparr>w_sequence = w_sequence (its ! i), w_record = w_record (its ! i)\<rparr>"
      using out i n by (cases "its ! i") (metis nth_map work_item.select_convs)
    ultimately show "became jx panics cf req k (take (length its) ms ! i) (cs ! i)"
      unfolding became_def by blast
  qed
qed

text \<open>
  In every mode: the records of each consumer and partition, in the order of their sequence numbers, are the messages
  its poller admitted; and where order is kept this is the order they are written in.
\<close>

lemma pipeline_delivers:
  assumes client: "client_law ko incoming" and unread: "unread_inputs kis" and limit: "cf_count_per_partition cf \<noteq> Some 0"
    and apart: "is_ordered cf \<Longrightarrow> disjoint_inputs kis" and ran: "pollers_ran ko cf kis ps"
    and law: "ignores_capacity jx" and arr: "arrived jx panics unwound cf ps bs"
    and sink: "sink ops contents" and run: "write_completions js ops cf n bs (writer_init w ct st) = (Inr (), s')"
  obtains written where "contents (ws_sink s') = contents w @ texts js cf written"
    "\<forall>c \<in> set written. \<not> is_fatal c \<and> c_consumer c < length kis \<and> c_partition c \<in> set (assigned_partitions (kis ! c_consumer c))"
    "\<forall>k < length kis. \<forall>q part. bt_get (ki_partitions (kis ! k)) q = Some part \<longrightarrow>
      length (records_of k q written) = next_sequence_of (pl_admission (ps ! k)) q \<and>
      list_all2 (became jx (evaluator_panics cf panics) cf (ki_requirements (kis ! k)) k)
        (take (length (records_of k q written)) (filter (due part) (backlog incoming (ki_consumer (kis ! k)))))
        (sort_key c_sequence (records_of k q written)) \<and>
      (\<not> cf_unordered cf \<or> \<not> tp_parses_json (cf_transform cf) \<longrightarrow>
        sort_key c_sequence (records_of k q written) = records_of k q written)"
proof -
  have len: "length ps = length kis" using ran by (simp add: pollers_ran_def)
  let ?P = "evaluator_panics cf panics"
  have "\<exists>groups. k < length kis \<longrightarrow> pl_sent (ps ! k) = map (package k (destination_of cf)) groups \<and>
      admitted_by (kis ! k) incoming (ps ! k) (concat groups)" for k
    using poller_items [OF client unread limit ran, of k] by blast
  then obtain groups where groups: "\<And>k. k < length kis \<Longrightarrow> pl_sent (ps ! k) = map (package k (destination_of cf)) (groups k) \<and>
      admitted_by (kis ! k) incoming (ps ! k) (concat (groups k))" by metis
  define its where "its k = concat (groups k)" for k
  define out where "out = concat (map cb_items bs)"
  have sent: "pl_sent (ps ! k) = map (package k (destination_of cf)) (groups k)" if "k < length ps" for k
    using groups len that by simp
  note items = arrived_items [OF law arr sent, folded out_def its_def, unfolded len]
  have adm: "admitted_by (kis ! k) incoming (ps ! k) (its k)" if "k < length kis" for k using groups that by (simp add: its_def)
  have known: "c_consumer c < length kis \<and> c_sequence c < u64_max \<and> c_partition c \<in> set (assigned_partitions (kis ! c_consumer c))"
    if c: "c \<in> set out" for c
  proof -
    have lt: "c_consumer c < length kis" "observe c \<in> set (map (expected jx ?P cf (c_consumer c)) (its (c_consumer c)))"
      using items(1) c by auto
    then obtain work where w: "work \<in> set (its (c_consumer c))" "observe c = expected jx ?P cf (c_consumer c) work" by auto
    from w(2) have "c_partition c = r_partition (w_record work)" "c_sequence c = w_sequence work"
      by (simp_all add: observe_def expected_def)
    with adm [OF lt(1)] w(1) lt(1) show ?thesis by (simp add: admitted_by_def)
  qed
  then have "\<forall>b \<in> set bs. \<forall>c \<in> set (cb_items b). c_sequence c < u64_max" by (auto simp: out_def)
  from write_completions_success [OF sink this run] obtain written where
    written: "mset written = mset out" "\<forall>c \<in> set written. \<not> is_fatal c" "contents (ws_sink s') = contents w @ texts js cf written"
      "if is_ordered cf then \<forall>q. map c_sequence (of_partition q written) = [0..<length (of_partition q written)] else written = out"
    unfolding out_def by blast
  have whose: "c_consumer c < length kis \<and> c_partition c \<in> set (assigned_partitions (kis ! c_consumer c))" if "c \<in> set written" for c
    using known that mset_eq_setD [OF written(1)] by blast
  have nums: "map (fst \<circ> snd \<circ> snd) (map (expected jx ?P cf k) (items_of q (its k))) =
      [0..<length (map (expected jx ?P cf k) (items_of q (its k)))]" if "k < length kis" for k q
    using adm [OF that] by (simp add: comp_def observe_keys admitted_by_def)
  have pick: "map observe (filter (\<lambda>c. c_partition c = q) cs) = filter (\<lambda>x. fst (snd x) = q) (map observe cs)" for q cs
    by (simp add: filter_map comp_def observe_keys)
  have pick': "filter (\<lambda>x. fst (snd x) = q) (map (expected jx ?P cf k) (its k)) = map (expected jx ?P cf k) (items_of q (its k))" for q k
    by (simp add: filter_map comp_def observe_keys items_of_def)
  have recs: "records_of k q cs = filter (\<lambda>c. c_partition c = q) (filter (\<lambda>c. c_consumer c = k) cs)" for k q cs
    by (simp add: records_of_def conj_commute)
  have same: "mset (map observe (records_of k q written)) = mset (map (expected jx ?P cf k) (items_of q (its k)))"
    if k: "k < length kis" for k q
  proof -
    have "mset (map observe (filter (\<lambda>c. c_consumer c = k) written)) = mset (map observe (filter (\<lambda>c. c_consumer c = k) out))"
      using written(1) by (metis mset_filter mset_map)
    then have "mset (map observe (filter (\<lambda>c. c_consumer c = k) written)) = mset (map (expected jx ?P cf k) (its k))"
      using items(2) k by simp
    then show ?thesis unfolding recs pick pick' [symmetric] by (simp only: mset_filter)
  qed
  have sorted: "map observe (sort_key c_sequence (records_of k q written)) = map (expected jx ?P cf k) (items_of q (its k))"
    if k: "k < length kis" for k q
    by (rule sorted_same_order [OF same [OF k] _ nums [OF k]]) (simp add: observe_keys)
  have size: "length (records_of k q written) = length (items_of q (its k))" if "k < length kis" for k q
    using arg_cong [OF sorted [OF that, of q], of length] by simp
  have kept: "sort_key c_sequence (records_of k q written) = records_of k q written"
    if k: "k < length kis" and mode: "\<not> cf_unordered cf \<or> \<not> tp_parses_json (cf_transform cf)"
      and q: "q \<in> set (assigned_partitions (kis ! k))" for k q
  proof -
    have "map c_sequence (records_of k q written) = [0..<length (records_of k q written)]"
    proof (cases "is_ordered cf")
      case True
      have own: "of_partition q written = records_of k q written" using apart [OF True] k q whose by (intro records_own) blast+
      have "map c_sequence (of_partition q written) = [0..<length (of_partition q written)]" using written(4) True by simp
      then show ?thesis unfolding own .
    next
      case False
      with mode have direct: "\<not> tp_parses_json (cf_transform cf)" by (auto simp: is_ordered_def)
      have "map observe (filter (\<lambda>c. c_consumer c = k) written) = map (expected jx ?P cf k) (its k)"
        using items(3) [OF _ direct] written(4) False k by simp
      then have "map observe (records_of k q written) = map (expected jx ?P cf k) (items_of q (its k))"
        unfolding recs pick pick' [symmetric] by simp
      from arg_cong [OF this, of "map (fst \<circ> snd \<circ> snd)"] nums [OF k, of q] size [OF k, of q]
      show ?thesis by (simp add: comp_def observe_keys)
    qed
    then have "sorted (map c_sequence (records_of k q written))" by simp
    then show ?thesis by (rule sort_key_id_if_sorted)
  qed
  show ?thesis
  proof (rule that [OF written(3)])
    show "\<forall>c \<in> set written. \<not> is_fatal c \<and> c_consumer c < length kis \<and> c_partition c \<in> set (assigned_partitions (kis ! c_consumer c))"
      using written(2) whose by blast
    show "\<forall>k < length kis. \<forall>q part. bt_get (ki_partitions (kis ! k)) q = Some part \<longrightarrow>
      length (records_of k q written) = next_sequence_of (pl_admission (ps ! k)) q \<and>
      list_all2 (became jx ?P cf (ki_requirements (kis ! k)) k)
        (take (length (records_of k q written)) (filter (due part) (backlog incoming (ki_consumer (kis ! k)))))
        (sort_key c_sequence (records_of k q written)) \<and>
      (\<not> cf_unordered cf \<or> \<not> tp_parses_json (cf_transform cf) \<longrightarrow>
        sort_key c_sequence (records_of k q written) = records_of k q written)"
    proof (intro allI impI conjI)
      fix k q part assume k: "k < length kis" and part: "bt_get (ki_partitions (kis ! k)) q = Some part"
      show "length (records_of k q written) = next_sequence_of (pl_admission (ps ! k)) q"
        using size [OF k] adm [OF k] by (simp add: admitted_by_def)
      have "list_all2 (carries (ki_requirements (kis ! k)))
          (take (length (items_of q (its k))) (filter (due part) (backlog incoming (ki_consumer (kis ! k)))))
          (map w_record (items_of q (its k)))" using adm [OF k] part unfolding admitted_by_def by blast
      from became_items [OF this sorted [OF k]]
      show "list_all2 (became jx ?P cf (ki_requirements (kis ! k)) k)
          (take (length (records_of k q written)) (filter (due part) (backlog incoming (ki_consumer (kis ! k)))))
          (sort_key c_sequence (records_of k q written))" by simp
      assume "\<not> cf_unordered cf \<or> \<not> tp_parses_json (cf_transform cf)"
      with kept [OF k] part show "sort_key c_sequence (records_of k q written) = records_of k q written"
        by (simp add: assigned_partitions_def bt_keys_iff)
    qed
  qed
qed

end
