(* ===== verification/Run_Pipeline.thy ===== *)
theory Run_Pipeline
  imports Pipeline
begin

text \<open>
  \<open>run_pipeline\<close> of \<open>src/runtime.rs\<close> as a transition system: the main thread, which starts the others and
  then writes, the pollers and the evaluators, the bounded channels between them and the state they share.
  Every action is one step of one thread, and the threads' steps interleave freely.

  What a thread computes between two channel operations is the function of its own theory. A poller's
  iteration is one step; a batch it sends leaves through \<open>pt_outbox\<close>, where it stays until the channel has
  room, and the poller does nothing else in the meantime. The evaluator's and the writer's sends wait in the
  same way. The statistics counters only ever grow by commuting additions, so each thread keeps its own
  share of them. \<open>wt_taken\<close> and \<open>wr_taken\<close> log what was received; no step reads them.
\<close>

section \<open>Threads and channels\<close>

record 'k poller_thread =
  pt_poller :: "'k poller"
  pt_outbox :: "dispatch list"
  pt_left :: bool

record 'x worker_thread =
  wt_worker :: "'x worker"
  wt_stats :: stats
  wt_result :: "completion_batch option"
  wt_left :: bool
  wt_taken :: "record_batch list"

datatype writer_phase = Receiving | Draining | Over

record 'w writer_thread =
  wr_state :: "'w writer_state"
  wr_outbox :: "(nat \<times> release list) list"
  wr_phase :: writer_phase
  wr_taken :: "completion_batch list"

text \<open>How far the main thread is: the next thread to start, or inside \<open>writer_loop\<close> and the joins.\<close>

datatype main_pc = StartReporter | StartPollers nat | StartWorkers nat | Started

record ('x, 'k, 'w) pipeline =
  sy_main :: main_pc
  sy_pollers :: "'k poller_thread list"
  sy_workers :: "'x worker_thread list"
  sy_writer :: "'w writer_thread"
  sy_work :: "record_batch list"
  sy_completions :: "completion_batch list"
  sy_releases :: "release list list list"
  sy_shared :: shared_admission
  sy_control :: control

text \<open>The arguments of \<open>run_pipeline\<close> and the code outside the repository that the threads call.\<close>

record ('x, 'i, 'e, 'v, 'k, 'w) setting =
  en_config :: "'x runtime_config"
  en_inputs :: "'k kafka_input list"
  en_stats :: stats
  en_kafka :: "'k kafka_ops"
  en_engine :: "('x, 'i, 'e, 'v) jsonata_engine"
  en_panics :: "bytes \<Rightarrow> bool"
  en_unwound :: "vec \<Rightarrow> vec \<Rightarrow> vec option \<times> vec"
  en_json :: "string \<Rightarrow> bytes"
  en_sink :: "'w sink_ops"
  en_parallelism :: nat

definition record_capacity :: "('x, 'i, 'e, 'v, 'k, 'w) setting \<Rightarrow> nat" where
  "record_capacity e = max_inflight_records (cf_limits (en_config e))"

definition batch_capacity :: "('x, 'i, 'e, 'v, 'k, 'w) setting \<Rightarrow> nat" where
  "batch_capacity e = work_capacity (en_config e)"

definition worker_count :: "('x, 'i, 'e, 'v, 'k, 'w) setting \<Rightarrow> nat" where
  "worker_count e = evaluators (en_config e) (en_parallelism e) (length (en_inputs e))"

definition pipeline_start :: "('x, 'i, 'e, 'v, 'k, 'w) setting \<Rightarrow> 'w \<Rightarrow> bool \<Rightarrow> ('x, 'k, 'w) pipeline" where
  "pipeline_start e w shutdown =
     (let ct = \<lparr>ct_first = None, ct_shutdown = shutdown\<rparr> in
      \<lparr>sy_main = StartReporter, sy_pollers = [], sy_workers = [],
       sy_writer = \<lparr>wr_state = writer_init w ct (en_stats e), wr_outbox = [], wr_phase = Receiving, wr_taken = []\<rparr>,
       sy_work = [], sy_completions = [], sy_releases = replicate (length (en_inputs e)) [],
       sy_shared = shared_new (cf_limits (en_config e)) (cf_count_limit (en_config e)), sy_control = ct\<rparr>)"

section \<open>Who holds the ends of a channel\<close>

text \<open>A poller holds its sender until it takes its buffer away; its release receiver as long as it runs.\<close>

definition holds_sender :: "'k poller_thread \<Rightarrow> bool" where
  "holds_sender pt \<longleftrightarrow> pt_outbox pt \<noteq> [] \<or> \<not> pt_left pt \<and> pl_buffer (pt_poller pt) \<noteq> None"

definition poller_gone :: "'k poller_thread \<Rightarrow> bool" where
  "poller_gone pt \<longleftrightarrow> pt_left pt \<and> pt_outbox pt = []"

definition work_senders :: "('x, 'k, 'w) pipeline \<Rightarrow> bool" where
  "work_senders s \<longleftrightarrow>
     (case sy_main s of StartReporter \<Rightarrow> True | StartPollers _ \<Rightarrow> True | _ \<Rightarrow> False) \<or> list_ex holds_sender (sy_pollers s)"

definition work_receivers :: "('x, 'k, 'w) pipeline \<Rightarrow> bool" where
  "work_receivers s \<longleftrightarrow> sy_main s \<noteq> Started \<or> list_ex (\<lambda>wt. \<not> wt_left wt) (sy_workers s)"

definition completion_senders :: "('x, 'i, 'e, 'v, 'k, 'w) setting \<Rightarrow> ('x, 'k, 'w) pipeline \<Rightarrow> bool" where
  "completion_senders e s \<longleftrightarrow> sy_main s \<noteq> Started \<or> list_ex (\<lambda>wt. \<not> wt_left wt) (sy_workers s) \<or>
     \<not> tp_parses_json (cf_transform (en_config e)) \<and> list_ex holds_sender (sy_pollers s)"

section \<open>The steps\<close>

subsection \<open>Starting the threads\<close>

text \<open>\<open>write_completions\<close> begins by looking for a thread that could not be started.\<close>

definition start_writing :: "('x, 'k, 'w) pipeline \<Rightarrow> ('x, 'k, 'w) pipeline" where
  "start_writing s =
     (let wr = sy_writer s in
      s\<lparr>sy_main := Started,
        sy_writer := wr\<lparr>wr_state := writer_init (ws_sink (wr_state wr)) (sy_control s) (ws_stats (wr_state wr))\<rparr>\<rparr>)"

text \<open>\<open>err\<close> is the operating system's answer to the next \<open>spawn_scoped\<close>: the text of an error, or none.\<close>

definition start_thread ::
    "('x, 'i, 'e, 'v, 'k, 'w) setting \<Rightarrow> string option \<Rightarrow> ('x, 'k, 'w) pipeline \<Rightarrow> ('x, 'k, 'w) pipeline" where
  "start_thread e err s = (case sy_main s of
      StartReporter \<Rightarrow>
        (case (cf_stats_interval (en_config e), err) of
           (Some _, Some m) \<Rightarrow>
             s\<lparr>sy_main := StartPollers 0,
               sy_control := thread_start_failure ''statistics reporter thread'' m (sy_control s)\<rparr>
         | _ \<Rightarrow> s\<lparr>sy_main := StartPollers 0\<rparr>)
    | StartPollers i \<Rightarrow>
        if i \<ge> length (en_inputs e) then s\<lparr>sy_main := StartWorkers 0\<rparr>
        else (case err of
           None \<Rightarrow>
             s\<lparr>sy_main := StartPollers (i + 1),
               sy_pollers := sy_pollers s @
                 [\<lparr>pt_poller = poller_new (en_config e) i (en_inputs e ! i) (sy_shared s) (sy_control s) (en_stats e),
                   pt_outbox = [], pt_left = False\<rparr>]\<rparr>
         | Some m \<Rightarrow>
             s\<lparr>sy_main := StartWorkers 0,
               sy_control := thread_start_failure ''Kafka poll thread'' m (sy_control s)\<rparr>)
    | StartWorkers j \<Rightarrow>
        if j \<ge> worker_count e then start_writing s
        else (case err of
           None \<Rightarrow>
             s\<lparr>sy_main := StartWorkers (j + 1),
               sy_workers := sy_workers s @
                 [\<lparr>wt_worker = evaluator_worker (en_config e), wt_stats = en_stats e, wt_result = None,
                   wt_left = False, wt_taken = []\<rparr>]\<rparr>
         | Some m \<Rightarrow>
             start_writing (s\<lparr>sy_control := thread_start_failure ''compute worker thread'' m (sy_control s)\<rparr>))
    | Started \<Rightarrow> s)"

subsection \<open>Pollers\<close>

definition set_poller :: "nat \<Rightarrow> 'k poller_thread \<Rightarrow> ('x, 'k, 'w) pipeline \<Rightarrow> ('x, 'k, 'w) pipeline" where
  "set_poller k pt s = s\<lparr>sy_pollers := (sy_pollers s)[k := pt]\<rparr>"

text \<open>
  What iteration \<open>k\<close> meets: the shared state as it is, the first \<open>n\<close> batches of its release channel, and for a
  final wait the next batch there, the disconnected channel once the writer is over, or the timeout
  (\<open>late\<close>: what is in the channel beyond the \<open>n\<close> batches came too late for the wait).
\<close>

definition meets :: "('x, 'k, 'w) pipeline \<Rightarrow> nat \<Rightarrow> nat \<Rightarrow> bool \<Rightarrow> turn" where
  "meets s k n late =
     (let q = sy_releases s ! k in
      \<lparr>tn_shared = (\<lambda>_. sy_shared s), tn_control = (\<lambda>_. sy_control s), tn_releases = take n q, tn_refusal = None,
       tn_received =
         (if late then ReceivedTimeout
          else if n < length q then ReceivedReleases (q ! n)
          else if wr_phase (sy_writer s) = Over then ReceivedDisconnect else ReceivedTimeout)\<rparr>)"

text \<open>An iteration without its final wait.\<close>

definition turn_body ::
    "'k kafka_ops \<Rightarrow> 'x runtime_config \<Rightarrow> turn \<Rightarrow> 'k poller \<Rightarrow> flow \<times> 'k poller" where
  "turn_body ko cf tn p = (let p = begin_turn tn p in if pl_stopping p then stopping tn p else running ko cf tn p)"

lemma poll_turn_body: "poll_turn ko cf tn p = wait tn (turn_body ko cf tn p)"
  by (simp add: poll_turn_def turn_body_def Let_def)

definition releases_read :: "turn \<Rightarrow> flow \<Rightarrow> nat" where
  "releases_read tn fl = length (tn_releases tn) +
     (case (fl, tn_received tn) of (Waits, ReceivedReleases _) \<Rightarrow> 1 | _ \<Rightarrow> 0)"

text \<open>The iteration; a panic in it is caught by \<open>guard_thread\<close> and ends the thread.\<close>

definition poller_turn ::
    "('x, 'i, 'e, 'v, 'k, 'w) setting \<Rightarrow> nat \<Rightarrow> nat \<Rightarrow> bool \<Rightarrow> ('x, 'k, 'w) pipeline \<Rightarrow> ('x, 'k, 'w) pipeline" where
  "poller_turn e k n late s =
     (let pt = sy_pollers s ! k; p = pt_poller pt; tn = meets s k n late;
          body = turn_body (en_kafka e) (en_config e) tn p
      in case wait tn body of (fl, p') \<Rightarrow>
        let ct = (if fl = Crashed then snd (guard_thread ''Kafka poll thread'' (None :: unit option, pl_control p'))
                  else pl_control p')
        in set_poller k
             \<lparr>pt_poller = p', pt_outbox = drop (length (pl_sent p)) (pl_sent p'), pt_left = (fl \<noteq> Again)\<rparr>
             (s\<lparr>sy_shared := pl_shared p', sy_control := ct,
                sy_releases := (sy_releases s)[k := drop (releases_read tn (fst body)) (sy_releases s ! k)]\<rparr>))"

text \<open>The send of the batch completes: the channel had room.\<close>

definition poller_send :: "nat \<Rightarrow> ('x, 'k, 'w) pipeline \<Rightarrow> ('x, 'k, 'w) pipeline" where
  "poller_send k s =
     (let pt = sy_pollers s ! k; s = set_poller k (pt\<lparr>pt_outbox := tl (pt_outbox pt)\<rparr>) s
      in case hd (pt_outbox pt) of
          SentWork b \<Rightarrow> s\<lparr>sy_work := sy_work s @ [b]\<rparr>
        | SentCompletions b \<Rightarrow> s\<lparr>sy_completions := sy_completions s @ [b]\<rparr>)"

text \<open>The send fails with \<open>err\<close>: no evaluator is there to receive.\<close>

definition poller_refused :: "nat \<Rightarrow> string \<Rightarrow> ('x, 'k, 'w) pipeline \<Rightarrow> ('x, 'k, 'w) pipeline" where
  "poller_refused k err s =
     (let pt = sy_pollers s ! k; p = fail (dispatch_error err) ((pt_poller pt)\<lparr>pl_control := sy_control s\<rparr>)
      in set_poller k (pt\<lparr>pt_poller := p, pt_outbox := [], pt_left := True\<rparr>) (s\<lparr>sy_control := pl_control p\<rparr>))"

subsection \<open>Evaluators\<close>

definition set_worker :: "nat \<Rightarrow> 'x worker_thread \<Rightarrow> ('x, 'k, 'w) pipeline \<Rightarrow> ('x, 'k, 'w) pipeline" where
  "set_worker j wt s = s\<lparr>sy_workers := (sy_workers s)[j := wt]\<rparr>"

definition worker_take ::
    "('x, 'i, 'e, 'v, 'k, 'w) setting \<Rightarrow> nat \<Rightarrow> ('x, 'k, 'w) pipeline \<Rightarrow> ('x, 'k, 'w) pipeline" where
  "worker_take e j s =
     (let wt = sy_workers s ! j; b = hd (sy_work s)
      in case complete_items (en_engine e) (en_panics e) (en_unwound e) (en_config e) (rb_consumer b) (rb_items b)
             (wt_worker wt, wt_stats wt) of (cs, w, st) \<Rightarrow>
        set_worker j
          (wt\<lparr>wt_worker := w, wt_stats := st, wt_result := Some \<lparr>cb_consumer = rb_consumer b, cb_items = cs\<rparr>,
              wt_taken := wt_taken wt @ [b]\<rparr>)
          (s\<lparr>sy_work := tl (sy_work s)\<rparr>))"

definition worker_send :: "nat \<Rightarrow> ('x, 'k, 'w) pipeline \<Rightarrow> ('x, 'k, 'w) pipeline" where
  "worker_send j s =
     (let wt = sy_workers s ! j in
      case wt_result wt of
        None \<Rightarrow> s
      | Some b \<Rightarrow> set_worker j (wt\<lparr>wt_result := None\<rparr>) (s\<lparr>sy_completions := sy_completions s @ [b]\<rparr>))"

definition worker_end :: "nat \<Rightarrow> ('x, 'k, 'w) pipeline \<Rightarrow> ('x, 'k, 'w) pipeline" where
  "worker_end j s = set_worker j ((sy_workers s ! j)\<lparr>wt_left := True\<rparr>) s"

subsection \<open>The writer\<close>

text \<open>The writer computes on the shared failure cell; what it logs as sent waits in its outbox.\<close>

definition writer_computes ::
    "('w writer_state \<Rightarrow> 'w writer_state) \<Rightarrow> ('x, 'k, 'w) pipeline \<Rightarrow> ('x, 'k, 'w) pipeline" where
  "writer_computes f s =
     (let wr = sy_writer s; ws = f ((wr_state wr)\<lparr>ws_control := sy_control s\<rparr>)
      in s\<lparr>sy_control := ws_control ws,
           sy_writer := wr\<lparr>wr_state := ws, wr_outbox := drop (length (ws_sent (wr_state wr))) (ws_sent ws)\<rparr>\<rparr>)"

definition set_phase :: "writer_phase \<Rightarrow> ('x, 'k, 'w) pipeline \<Rightarrow> ('x, 'k, 'w) pipeline" where
  "set_phase ph s = s\<lparr>sy_writer := (sy_writer s)\<lparr>wr_phase := ph\<rparr>\<rparr>"

definition writer_take ::
    "('x, 'i, 'e, 'v, 'k, 'w) setting \<Rightarrow> ('x, 'k, 'w) pipeline \<Rightarrow> ('x, 'k, 'w) pipeline" where
  "writer_take e s =
     (let b = hd (sy_completions s); wr = sy_writer s
      in writer_computes (take_batch (en_json e) (en_sink e) (en_config e) b)
           (s\<lparr>sy_completions := tl (sy_completions s), sy_writer := wr\<lparr>wr_taken := wr_taken wr @ [b]\<rparr>\<rparr>))"

text \<open>A release to a poller that has ended is discarded, as the code ignores the error of that send.\<close>

definition release_refused :: "('x, 'k, 'w) pipeline \<Rightarrow> nat \<Rightarrow> bool" where
  "release_refused s k \<longleftrightarrow> k \<ge> length (sy_pollers s) \<or> poller_gone (sy_pollers s ! k)"

definition writer_release :: "('x, 'k, 'w) pipeline \<Rightarrow> ('x, 'k, 'w) pipeline" where
  "writer_release s =
     (let wr = sy_writer s; s' = s\<lparr>sy_writer := wr\<lparr>wr_outbox := tl (wr_outbox wr)\<rparr>\<rparr>
      in case hd (wr_outbox wr) of (k, rs) \<Rightarrow>
        if release_refused s k then s'
        else s'\<lparr>sy_releases := (sy_releases s)[k := sy_releases s ! k @ [rs]]\<rparr>)"

definition writer_close ::
    "('x, 'i, 'e, 'v, 'k, 'w) setting \<Rightarrow> ('x, 'k, 'w) pipeline \<Rightarrow> ('x, 'k, 'w) pipeline" where
  "writer_close e s = set_phase Draining (writer_computes (drain_pending (length (en_inputs e))) s)"

definition writer_flush ::
    "('x, 'i, 'e, 'v, 'k, 'w) setting \<Rightarrow> ('x, 'k, 'w) pipeline \<Rightarrow> ('x, 'k, 'w) pipeline" where
  "writer_flush e s = set_phase Over (writer_computes (final_flush (en_sink e)) s)"

section \<open>The transition system\<close>

datatype act =
    StartThread "string option"
  | Turn nat nat bool
  | Send nat
  | Refuse nat string
  | TakeWork nat
  | SendResult nat
  | EndWorker nat
  | TakeCompletions
  | SendReleases
  | CloseWriter
  | FlushWriter
  | Interrupt

text \<open>When a step can be made: which thread is where, and which channel has room, contents or an end.\<close>

fun enabled :: "('x, 'i, 'e, 'v, 'k, 'w) setting \<Rightarrow> act \<Rightarrow> ('x, 'k, 'w) pipeline \<Rightarrow> bool" where
  "enabled e (StartThread err) s = (sy_main s \<noteq> Started)"
| "enabled e (Turn k n late) s = (k < length (sy_pollers s) \<and>
     \<not> pt_left (sy_pollers s ! k) \<and> pt_outbox (sy_pollers s ! k) = [] \<and> n \<le> length (sy_releases s ! k))"
| "enabled e (Send k) s = (k < length (sy_pollers s) \<and> (case pt_outbox (sy_pollers s ! k) of
      SentWork _ # _ \<Rightarrow> length (sy_work s) < batch_capacity e \<and> work_receivers s
    | SentCompletions _ # _ \<Rightarrow> length (sy_completions s) < batch_capacity e
    | [] \<Rightarrow> False))"
| "enabled e (Refuse k err) s = (k < length (sy_pollers s) \<and> (case pt_outbox (sy_pollers s ! k) of
      SentWork _ # _ \<Rightarrow> \<not> work_receivers s
    | _ \<Rightarrow> False))"
| "enabled e (TakeWork j) s = (j < length (sy_workers s) \<and> \<not> wt_left (sy_workers s ! j) \<and>
     wt_result (sy_workers s ! j) = None \<and> sy_work s \<noteq> [])"
| "enabled e (SendResult j) s = (j < length (sy_workers s) \<and> \<not> wt_left (sy_workers s ! j) \<and>
     wt_result (sy_workers s ! j) \<noteq> None \<and> length (sy_completions s) < batch_capacity e)"
| "enabled e (EndWorker j) s = (j < length (sy_workers s) \<and> \<not> wt_left (sy_workers s ! j) \<and>
     wt_result (sy_workers s ! j) = None \<and> sy_work s = [] \<and> \<not> work_senders s)"
| "enabled e TakeCompletions s = (sy_main s = Started \<and> wr_phase (sy_writer s) = Receiving \<and>
     wr_outbox (sy_writer s) = [] \<and> sy_completions s \<noteq> [])"
| "enabled e SendReleases s = (case wr_outbox (sy_writer s) of
      [] \<Rightarrow> False
    | (k, _) # _ \<Rightarrow> release_refused s k \<or> length (sy_releases s ! k) < record_capacity e)"
| "enabled e CloseWriter s = (sy_main s = Started \<and> wr_phase (sy_writer s) = Receiving \<and>
     wr_outbox (sy_writer s) = [] \<and> sy_completions s = [] \<and> \<not> completion_senders e s)"
| "enabled e FlushWriter s = (wr_phase (sy_writer s) = Draining \<and> wr_outbox (sy_writer s) = [])"
| "enabled e Interrupt s = True"

fun perform :: "('x, 'i, 'e, 'v, 'k, 'w) setting \<Rightarrow> act \<Rightarrow> ('x, 'k, 'w) pipeline \<Rightarrow> ('x, 'k, 'w) pipeline" where
  "perform e (StartThread err) s = start_thread e err s"
| "perform e (Turn k n late) s = poller_turn e k n late s"
| "perform e (Send k) s = poller_send k s"
| "perform e (Refuse k err) s = poller_refused k err s"
| "perform e (TakeWork j) s = worker_take e j s"
| "perform e (SendResult j) s = worker_send j s"
| "perform e (EndWorker j) s = worker_end j s"
| "perform e TakeCompletions s = writer_take e s"
| "perform e SendReleases s = writer_release s"
| "perform e CloseWriter s = writer_close e s"
| "perform e FlushWriter s = writer_flush e s"
| "perform e Interrupt s = s\<lparr>sy_control := (sy_control s)\<lparr>ct_shutdown := True\<rparr>\<rparr>"

inductive run_step :: "('x, 'i, 'e, 'v, 'k, 'w) setting \<Rightarrow> ('x, 'k, 'w) pipeline \<Rightarrow> ('x, 'k, 'w) pipeline \<Rightarrow> bool"
  for e where
  step: "enabled e a s \<Longrightarrow> run_step e s (perform e a s)"

text \<open>A schedule, executed as long as its actions are enabled.\<close>

fun run_acts ::
    "('x, 'i, 'e, 'v, 'k, 'w) setting \<Rightarrow> act list \<Rightarrow> ('x, 'k, 'w) pipeline \<Rightarrow> ('x, 'k, 'w) pipeline option" where
  "run_acts e [] s = Some s"
| "run_acts e (a # as) s = (if enabled e a s then run_acts e as (perform e a s) else None)"

text \<open>Every thread has ended, so the main thread's joins return.\<close>

definition finished :: "('x, 'k, 'w) pipeline \<Rightarrow> bool" where
  "finished s \<longleftrightarrow> sy_main s = Started \<and> wr_phase (sy_writer s) = Over \<and>
     list_all wt_left (sy_workers s) \<and> list_all poller_gone (sy_pollers s)"

definition run_result :: "nat \<Rightarrow> ('x, 'k, 'w) pipeline \<Rightarrow> pipeline_error + int option" where
  "run_result signal s = pipeline_result (sy_control s) signal"

lemma run_acts_reach: "run_acts e as s = Some s' \<Longrightarrow> (run_step e)\<^sup>*\<^sup>* s s'"
  by (induction as arbitrary: s)
    (auto split: if_splits intro: converse_rtranclp_into_rtranclp run_step.intros)

end
