(* ===== verification/Poller_Books.thy ===== *)
theory Poller_Books
  imports Run_Pipeline Poller_Stops
begin

text \<open>
  A poller's accounts: what it has admitted is in its buffer or left with the batches it sent, both admissions count
  exactly that, and no release that is due can be refused.
\<close>

section \<open>Tickets\<close>

text \<open>What a record weighs: its partition and the bytes it retains. It is the same for the completion and the release.\<close>

type_synonym ticket = "int \<times> nat"

definition t_item :: "work_item \<Rightarrow> ticket" where
  "t_item w = (r_partition (w_record w), r_retained_bytes (w_record w))"

definition t_completion :: "completion \<Rightarrow> ticket" where
  "t_completion c = (c_partition c, c_retained_bytes c)"

definition t_release :: "release \<Rightarrow> ticket" where
  "t_release r = (rel_partition r, rel_retained_bytes r)"

definition tickets :: "release list \<Rightarrow> ticket multiset" where
  "tickets rs = mset (map t_release rs)"

fun t_dispatch :: "dispatch \<Rightarrow> ticket multiset" where
  "t_dispatch (SentWork b) = mset (map t_item (rb_items b))"
| "t_dispatch (SentCompletions b) = mset (map t_completion (cb_items b))"

definition t_sent :: "dispatch list \<Rightarrow> ticket multiset" where
  "t_sent ds = sum_list (map t_dispatch ds)"

definition t_own :: "'k poller \<Rightarrow> ticket multiset" where
  "t_own p = mset (map t_item (buffered p))"

definition in_partition :: "int \<Rightarrow> ticket multiset \<Rightarrow> nat" where
  "in_partition q M = size (filter_mset (\<lambda>t. fst t = q) M)"

definition weight :: "ticket multiset \<Rightarrow> nat" where
  "weight M = \<Sum>\<^sub># (image_mset snd M)"

lemma in_partition_simps [simp]:
  "in_partition q {#} = 0" "in_partition q (M + N) = in_partition q M + in_partition q N"
  "in_partition q (add_mset t M) = in_partition q M + (if fst t = q then 1 else 0)"
  by (simp_all add: in_partition_def)

lemma weight_simps [simp]:
  "weight {#} = 0" "weight (M + N) = weight M + weight N" "weight (add_mset t M) = snd t + weight M"
  by (simp_all add: weight_def)

lemma tickets_simps [simp]:
  "tickets [] = {#}" "tickets (rs @ rs') = tickets rs + tickets rs'"
  by (simp_all add: tickets_def)

lemma t_sent_simps [simp]:
  "t_sent [] = {#}" "t_sent (ds @ ds') = t_sent ds + t_sent ds'" "t_sent (d # ds) = t_dispatch d + t_sent ds"
  by (simp_all add: t_sent_def)

lemma for_partition_tickets: "for_partition q rs = in_partition q (tickets rs)"
  by (induction rs) (auto simp: for_partition_def in_partition_def tickets_def t_release_def)

lemma charge_of_tickets: "charge_of rs = weight (tickets rs)"
  by (induction rs) (simp_all add: charge_of_def weight_def tickets_def t_release_def)

lemma size_tickets [simp]: "size (tickets rs) = length rs"
  by (simp add: tickets_def)

lemma t_release_of [simp]: "t_release (release_of c) = t_completion c"
  by (simp add: t_release_def t_completion_def release_of_def)

lemma t_direct_completion [simp]: "t_completion (direct_completion k drops w) = t_item w"
  by (simp add: t_completion_def t_item_def direct_completion_def Let_def)

section \<open>One poller's books\<close>

definition item_ok :: "int set \<Rightarrow> work_item \<Rightarrow> bool" where
  "item_ok P w \<longleftrightarrow> w_sequence w < u64_max \<and> r_partition (w_record w) \<in> P"

definition dispatch_ok :: "nat \<Rightarrow> destination \<Rightarrow> int set \<Rightarrow> dispatch \<Rightarrow> bool" where
  "dispatch_ok k dest P d \<longleftrightarrow> (\<exists>g. d = package k dest g \<and> g \<noteq> [] \<and> (\<forall>w \<in> set g. item_ok P w))"

definition buffer_ok :: "nat \<Rightarrow> destination \<Rightarrow> int set \<Rightarrow> poller_buffer \<Rightarrow> bool" where
  "buffer_ok k dest P b \<longleftrightarrow> bf_consumer b = k \<and> bf_destination b = dest \<and> (\<forall>w \<in> set (bf_pending b). item_ok P w)"

definition shared_ok :: "runtime_limits \<Rightarrow> shared_admission \<Rightarrow> bool" where
  "shared_ok lim sh \<longleftrightarrow> sa_limits sh = lim \<and> sa_records sh \<le> max_inflight_records lim \<and> sa_bytes sh \<le> usize_max"

text \<open>
  \<open>X\<close> is what the poller has outside its buffer, apart from what it sent after its first \<open>l\<close> batches;
  \<open>n\<close> records and \<open>b\<close> bytes are the others'.
\<close>

definition books ::
    "nat \<Rightarrow> destination \<Rightarrow> int set \<Rightarrow> runtime_limits \<Rightarrow> nat \<Rightarrow> nat \<Rightarrow> ticket multiset \<Rightarrow> nat \<Rightarrow> 'k poller \<Rightarrow> bool" where
  "books k dest P lim n b X l p \<longleftrightarrow>
     (let M = t_own p + X + t_sent (drop l (pl_sent p)); sh = pl_shared p; a = pl_admission p in
      l \<le> length (pl_sent p) \<and> list_all (dispatch_ok k dest P) (drop l (pl_sent p)) \<and>
      pred_option (buffer_ok k dest P) (pl_buffer p) \<and>
      admission_ok a \<and> (\<forall>q. bt_get (adm_partitions a) q \<noteq> None \<longrightarrow> q \<in> P) \<and>
      (\<forall>q. in_flight_of a q = in_partition q M) \<and>
      shared_ok lim sh \<and> size M + n \<le> sa_records sh \<and> weight M + b \<le> sa_bytes sh)"

lemma books_cong:
  assumes "pl_sent p' = pl_sent p" "pl_buffer p' = pl_buffer p" "pl_admission p' = pl_admission p" "pl_shared p' = pl_shared p"
  shows "books k dest P lim n b X l p' = books k dest P lim n b X l p"
  using assms by (simp add: books_def t_own_def buffered_def)

lemma admission_release_keys:
  "admission_release a q = (res, a') \<Longrightarrow> bt_get (adm_partitions a') p = None \<longleftrightarrow> bt_get (adm_partitions a) p = None"
  by (auto simp: admission_release_def bt_get_insert split: option.splits if_splits)

lemma release_each_keys:
  "release_each rs (a, pb) = (res, a', pb') \<Longrightarrow> bt_get (adm_partitions a') p = None \<longleftrightarrow> bt_get (adm_partitions a) p = None"
  by (induction rs arbitrary: a pb)
    (auto split: prod.splits sum.splits dest: admission_release_keys)

lemma take_back_accepts:
  assumes "admission_ok a" "\<forall>q. for_partition q rs \<le> in_flight_of a q" "charge_of rs \<le> usize_max"
    and "length rs \<le> sa_records sh" "charge_of rs \<le> sa_bytes sh"
  obtains a' pb' where "release_batch rs (a, sh, pb) =
      (Inr (), a', sh\<lparr>sa_records := sa_records sh - length rs, sa_bytes := sa_bytes sh - charge_of rs\<rparr>, pb')"
    "admission_ok a'" "\<forall>q. in_flight_of a' q = in_flight_of a q - for_partition q rs"
    "\<forall>q. bt_get (adm_partitions a') q = None \<longleftrightarrow> bt_get (adm_partitions a) q = None"
proof -
  obtain a' pb' where each: "release_each rs (a, pb) = (Inr (), a', pb')" "admission_ok a'"
    "\<forall>q. in_flight_of a' q = in_flight_of a q - for_partition q rs"
    using release_each_flight [OF assms(1,2)] by blast
  have "shared_release (length rs) (charge_of rs) sh =
      (Inr (), sh\<lparr>sa_records := sa_records sh - length rs, sa_bytes := sa_bytes sh - charge_of rs\<rparr>)"
    using assms(4,5) by (simp add: shared_release_def release_records_def release_bytes_def checked_sub_def)
  with each that release_each_keys [OF each(1)] total_charge_spec [of 0 rs] assms(3) show thesis
    by (auto simp: release_batch_def)
qed

lemma take_back_books:
  assumes "books k dest P lim n b (X + tickets rs) l p"
  shows "books k dest P lim n b X l (take_back rs p) \<and> pl_control (take_back rs p) = pl_control p"
proof -
  let ?M = "t_own p + X + t_sent (drop l (pl_sent p))"
  from assms have ok: "l \<le> length (pl_sent p)" "list_all (dispatch_ok k dest P) (drop l (pl_sent p))"
    "pred_option (buffer_ok k dest P) (pl_buffer p)"
    "admission_ok (pl_admission p)" "\<And>q. bt_get (adm_partitions (pl_admission p)) q \<noteq> None \<Longrightarrow> q \<in> P"
    "\<And>q. in_flight_of (pl_admission p) q = in_partition q ?M + for_partition q rs"
    "shared_ok lim (pl_shared p)" "size ?M + length rs + n \<le> sa_records (pl_shared p)"
    "weight ?M + charge_of rs + b \<le> sa_bytes (pl_shared p)"
    by (simp_all add: books_def Let_def for_partition_tickets charge_of_tickets)
  have fits: "charge_of rs \<le> usize_max" using ok(7,9) by (simp add: shared_ok_def)
  have fl: "\<forall>q. for_partition q rs \<le> in_flight_of (pl_admission p) q" by (simp add: ok(6))
  have room: "length rs \<le> sa_records (pl_shared p)" "charge_of rs \<le> sa_bytes (pl_shared p)" using ok(8,9) by simp_all
  from take_back_accepts [OF ok(4) fl fits room, of "ki_payload_buffers (pl_input p)"]
  obtain a' pb' where r: "release_batch rs (pl_admission p, pl_shared p, ki_payload_buffers (pl_input p)) =
      (Inr (), a', (pl_shared p)\<lparr>sa_records := sa_records (pl_shared p) - length rs, sa_bytes := sa_bytes (pl_shared p) - charge_of rs\<rparr>, pb')"
    "admission_ok a'" "\<forall>q. in_flight_of a' q = in_flight_of (pl_admission p) q - for_partition q rs"
    "\<forall>q. bt_get (adm_partitions a') q = None \<longleftrightarrow> bt_get (adm_partitions (pl_admission p)) q = None" by blast
  have p': "pl_admission (take_back rs p) = a'" "pl_sent (take_back rs p) = pl_sent p"
    "pl_buffer (take_back rs p) = pl_buffer p" "pl_control (take_back rs p) = pl_control p"
    "pl_shared (take_back rs p) = (pl_shared p)\<lparr>sa_records := sa_records (pl_shared p) - length rs, sa_bytes := sa_bytes (pl_shared p) - charge_of rs\<rparr>"
    by (simp_all add: take_back_def r(1) Let_def)
  have own: "t_own (take_back rs p) = t_own p" by (simp add: t_own_def buffered_def p'(3))
  show ?thesis
    unfolding books_def Let_def own p'
    using ok r by (auto simp: shared_ok_def)
qed

lemma take_back_all_books:
  "books k dest P lim n b (X + tickets (concat rss)) l p \<Longrightarrow>
     books k dest P lim n b X l (fold take_back rss p) \<and> pl_control (fold take_back rss p) = pl_control p"
proof (induction rss arbitrary: p)
  case (Cons rs rss)
  then have "books k dest P lim n b ((X + tickets (concat rss)) + tickets rs) l p" by (simp add: add_ac)
  from take_back_books [OF this] Cons.IH [of "take_back rs p"] show ?case by simp
qed simp


section \<open>A turn keeps the books\<close>

lemma t_package: "t_dispatch (package k dest g) = mset (map t_item g)"
  by (cases dest) (simp_all add: package_def comp_def)

lemma buffer_flush_package:
  assumes "bf_consumer b = k" "bf_destination b = dest"
  shows "\<exists>st'. buffer_flush None b st = (Inr (), if bf_pending b = [] then [] else [package k dest (bf_pending b)],
    (if bf_pending b = [] then b else b\<lparr>bf_retained := 0, bf_pending := []\<rparr>), st')"
  using assms by (auto simp: buffer_flush_def package_def Let_def split: destination.splits)

lemma t_own_Some: "pl_buffer p = Some b \<Longrightarrow> t_own p = mset (map t_item (bf_pending b))"
  by (simp add: t_own_def buffered_def)

text \<open>Sending the whole buffer moves its tickets from the buffer to what was sent.\<close>

lemma books_send:
  assumes "books k dest P lim n b X l p" "pl_buffer p = Some bf"
  shows "books k dest P lim n b X l (p\<lparr>pl_buffer := Some (if bf_pending bf = [] then bf else bf\<lparr>bf_retained := 0, bf_pending := []\<rparr>),
    pl_stats := st, pl_sent := pl_sent p @ (if bf_pending bf = [] then [] else [package k dest (bf_pending bf)])\<rparr>)"
  using assms by (auto simp: books_def Let_def t_own_Some t_package dispatch_ok_def buffer_ok_def add_ac)

lemma flush_or_stop_books:
  assumes "books k dest P lim n b X l p" "pl_buffer p = Some bf" "tn_refusal tn = None"
  obtains st where "flush_or_stop tn nf bf p =
    (nf, p\<lparr>pl_buffer := Some (if bf_pending bf = [] then bf else bf\<lparr>bf_retained := 0, bf_pending := []\<rparr>),
      pl_stats := st, pl_sent := pl_sent p @ (if bf_pending bf = [] then [] else [package k dest (bf_pending bf)])\<rparr>)"
    "books k dest P lim n b X l (snd (flush_or_stop tn nf bf p))"
proof -
  have "bf_consumer bf = k" "bf_destination bf = dest" using assms(1,2) by (simp_all add: books_def Let_def buffer_ok_def)
  from buffer_flush_package [OF this, of "pl_stats p"] obtain st where
    "buffer_flush None bf (pl_stats p) = (Inr (), if bf_pending bf = [] then [] else [package k dest (bf_pending bf)],
      (if bf_pending bf = [] then bf else bf\<lparr>bf_retained := 0, bf_pending := []\<rparr>), st)" by blast
  with books_send [OF assms(1,2), of st] assms(3) show thesis
    by (intro that [of st]) (simp_all add: flush_or_stop_def Let_def)
qed

lemma books_pending [simp]:
  "books k dest P lim n b X l (p\<lparr>pl_pending := x\<rparr>) = books k dest P lim n b X l p"
  "books k dest P lim n b X l (p\<lparr>pl_input := ki\<rparr>) = books k dest P lim n b X l p"
  "books k dest P lim n b X l (p\<lparr>pl_stopping := v\<rparr>) = books k dest P lim n b X l p"
  "books k dest P lim n b X l (p\<lparr>pl_control := ct\<rparr>) = books k dest P lim n b X l p"
  "books k dest P lim n b X l (fail m p) = books k dest P lim n b X l p"
  by (rule books_cong; simp add: fail_def)+

text \<open>An admission puts a new ticket into the buffer; a full buffer goes out at once.\<close>

lemma reserve_flight:
  assumes "reserve a q = (Inr m, a')" "admission_ok a"
  shows "m < u64_max" "admission_ok a'" "bt_get (adm_partitions a) q \<noteq> None"
    "in_flight_of a' p = in_flight_of a p + (if p = q then 1 else 0)"
    "bt_get (adm_partitions a') p = None \<longleftrightarrow> bt_get (adm_partitions a) p = None"
  using assms reserve_ok [OF assms(2,1)]
  by (auto elim!: reserve_cases simp: in_flight_of_def bt_get_insert split: if_splits)

lemma try_reserve_charges:
  assumes "try_reserve c sh = (True, sh')" "shared_ok lim sh"
  shows "shared_ok lim sh' \<and> sa_records sh' = sa_records sh + 1 \<and> sa_bytes sh' = sa_bytes sh + c"
  using assms by (auto simp: try_reserve_spec fits_def shared_ok_def split: if_splits)

lemma try_reserve_refuses: "try_reserve c sh = (False, sh') \<Longrightarrow> sh' = sh"
  by (auto simp: try_reserve_spec split: if_splits)

lemma buffer_push_books:
  fixes p :: "'k poller"
  assumes bk: "books k dest P lim n b X l p" and buf: "pl_buffer p = Some bf"
    and res: "reserve (pl_admission p) (r_partition r) = (Inr m, a')"
    and sh: "try_reserve (r_retained_bytes r) (pl_shared p) = (True, sh')"
    and push: "buffer_push None r m bf st = (rs, sent, bf', st')"
  shows "rs = Inr () \<and> books k dest P lim n b X l
    (p\<lparr>pl_shared := sh', pl_admission := a', pl_buffer := Some bf', pl_stats := st', pl_sent := pl_sent p @ sent\<rparr>)"
proof -
  define w where "w = \<lparr>w_sequence = m, w_record = r\<rparr>"
  define b1 where "b1 = bf\<lparr>bf_retained := u64_add (bf_retained bf) (r_retained_bytes r), bf_pending := bf_pending bf @ [w]\<rparr>"
  define p1 where "p1 = p\<lparr>pl_shared := sh', pl_admission := a', pl_buffer := Some b1\<rparr>"
  have ok: "admission_ok (pl_admission p)" "shared_ok lim (pl_shared p)" using bk by (simp_all add: books_def Let_def)
  note rf = reserve_flight [OF res ok(1)]
  note tc = try_reserve_charges [OF sh ok(2)]
  have P: "r_partition r \<in> P" using bk rf(3) by (auto simp: books_def Let_def)
  have keys: "\<forall>q. bt_get (adm_partitions a') q \<noteq> None \<longrightarrow> q \<in> P"
    unfolding rf(5) using bk unfolding books_def Let_def by blast
  have "books k dest P lim n b X l p1"
    using bk buf rf(1,2,4) keys tc P
    by (auto simp del: not_None_eq simp: books_def Let_def p1_def b1_def w_def t_own_def buffered_def buffer_ok_def item_ok_def t_item_def)
  moreover have "pl_buffer p1 = Some b1" by (simp add: p1_def)
  moreover have b1: "bf_consumer b1 = k" "bf_destination b1 = dest" "bf_pending b1 \<noteq> []"
    using bk buf by (simp_all add: books_def Let_def buffer_ok_def b1_def)
  moreover from buffer_flush_package [OF b1(1,2), of st] b1(3) obtain st2 where fl:
    "buffer_flush None b1 st = (Inr (), [package k dest (bf_pending b1)], b1\<lparr>bf_retained := 0, bf_pending := []\<rparr>, st2)" by auto
  ultimately have full: "books k dest P lim n b X l (p1\<lparr>pl_buffer := Some (b1\<lparr>bf_retained := 0, bf_pending := []\<rparr>),
      pl_stats := st2, pl_sent := pl_sent p1 @ [package k dest (bf_pending b1)]\<rparr>)"
    using books_send [of k dest P lim n b X l p1 b1 st2] by simp
  have kept: "books k dest P lim n b X l (p1\<lparr>pl_stats := st'\<rparr>)"
    using \<open>books k dest P lim n b X l p1\<close> by (rule iffD2 [OF books_cong, rotated -1]) simp_all
  show ?thesis
    using push full kept fl
    by (auto simp: buffer_push_def Let_def p1_def simp flip: w_def b1_def split: if_splits)
qed


lemma shared_release_undoes:
  assumes "try_reserve c sh = (True, sh')" "shared_ok lim sh"
  obtains sh'' where "shared_release 1 c sh' = (Inr (), sh'')" "sa_records sh'' = sa_records sh"
    "sa_bytes sh'' = sa_bytes sh" "shared_ok lim sh''"
  using assms that
  by (auto simp: try_reserve_spec fits_def shared_ok_def shared_release_def release_records_def release_bytes_def
      checked_sub_def split: if_splits)

lemma admit_books:
  assumes bk: "books k dest P lim n b X l p" and buf: "pl_buffer p = Some bf" and none: "tn_refusal tn = None"
    and sh: "try_reserve (r_retained_bytes r) (pl_shared p) = (True, sh')"
  shows "books k dest P lim n b X l (snd (admit tn r bf (p\<lparr>pl_shared := sh'\<rparr>)))"
proof (cases "reserve (pl_admission p) (r_partition r)")
  case (Pair res a)
  show ?thesis
  proof (cases res)
    case (Inl err)
    from reserve_error_keeps [of "pl_admission p" "r_partition r" err a] Pair Inl have a: "a = pl_admission p" by simp
    have "shared_ok lim (pl_shared p)" using bk by (simp add: books_def Let_def)
    from shared_release_undoes [OF sh this] obtain sh'' where sh'':
      "shared_release 1 (r_retained_bytes r) sh' = (Inr (), sh'')" "sa_records sh'' = sa_records (pl_shared p)"
      "sa_bytes sh'' = sa_bytes (pl_shared p)" "shared_ok lim sh''" .
    with bk buf Pair Inl a show ?thesis
      by (simp add: admit_def books_def Let_def t_own_def buffered_def)
  next
    case (Inr m)
    obtain rs sent bf' st' where push: "buffer_push None r m bf (stats_admit r (pl_stats p)) = (rs, sent, bf', st')"
      by (metis prod.exhaust)
    from buffer_push_books [OF bk buf _ sh push, of a] Pair Inr
    have "books k dest P lim n b X l
      (p\<lparr>pl_shared := sh', pl_admission := a, pl_buffer := Some bf', pl_stats := st', pl_sent := pl_sent p @ sent\<rparr>)" by simp
    with Pair Inr push none show ?thesis by (simp add: admit_def)
  qed
qed

lemma after_admit_books:
  "books k dest P lim n b X l (snd (after_admit ko cf q res)) = books k dest P lim n b X l (snd res)"
  by (auto simp: after_admit_def split: prod.splits sum.splits)

lemma offer_books:
  assumes bk: "books k dest P lim n b X l p" and buf: "pl_buffer p = Some bf" and none: "tn_refusal tn = None"
  shows "books k dest P lim n b X l (snd (offer ko cf tn r bf p))"
proof -
  have flush: "books k dest P lim n b X l (snd (flush_or_stop tn Waits bf (p\<lparr>pl_pending := Some r\<rparr>)))"
    by (rule flush_or_stop_books [of k dest P lim n b X l "p\<lparr>pl_pending := Some r\<rparr>" bf tn Waits])
      (use bk buf none in simp_all)
  obtain took sh' where sh: "try_reserve (r_retained_bytes r) (pl_shared p) = (took, sh')" by fastforce
  show ?thesis
  proof (cases "can_reserve (pl_admission p) (r_partition r) \<and> took")
    case True
    with admit_books [OF bk buf none, of r sh'] sh show ?thesis
      by (simp add: offer_def after_admit_books)
  next
    case False
    with flush sh try_reserve_refuses [of "r_retained_bytes r" "pl_shared p" sh'] show ?thesis
      by (auto simp: offer_def)
  qed
qed

lemma running_books:
  assumes bk: "books k dest P lim n b X l p" and none: "tn_refusal tn = None"
  shows "books k dest P lim n b X l (snd (running ko cf tn p))"
proof (cases "pl_buffer p")
  case None
  with bk show ?thesis by (simp add: running_def)
next
  case (Some bf)
  have off: "books k dest P lim n b X l (snd (offer ko cf tn r bf (p\<lparr>pl_input := ki\<rparr>)))"
    "books k dest P lim n b X l (snd (offer ko cf tn r bf (p\<lparr>pl_pending := None\<rparr>)))" for r ki
    by (rule offer_books; use bk Some none in simp)+
  have fl: "books k dest P lim n b X l (snd (flush_or_stop tn Again bf (p\<lparr>pl_input := ki\<rparr>)))" for ki
    by (rule flush_or_stop_books [of k dest P lim n b X l "p\<lparr>pl_input := ki\<rparr>" bf tn Again]) (use bk Some none in simp_all)
  have stop: "books k dest P lim n b X l (p\<lparr>pl_input := ki, pl_stopping := v\<rparr>)" for ki v
    using bk by (rule iffD2 [OF books_cong, rotated -1]) simp_all
  show ?thesis
    using bk Some off fl stop
    by (simp add: running_def split: option.split prod.split sum.split poll_event.split)
qed

text \<open>The stopping poller hands its buffer out, so it has nothing left in it.\<close>

lemma stopping_books:
  assumes bk: "books k dest P lim n b X l p" and none: "tn_refusal tn = None"
  shows "books k dest P lim n b X l (snd (stopping tn p)) \<and> pl_buffer (snd (stopping tn p)) = None"
proof (cases "pl_buffer p")
  case None
  with bk show ?thesis by (auto simp: stopping_def Let_def)
next
  case (Some bf)
  from flush_or_stop_books [OF bk Some none, of Waits] obtain st where
    fl: "flush_or_stop tn Waits bf p =
      (Waits, p\<lparr>pl_buffer := Some (if bf_pending bf = [] then bf else bf\<lparr>bf_retained := 0, bf_pending := []\<rparr>),
        pl_stats := st, pl_sent := pl_sent p @ (if bf_pending bf = [] then [] else [package k dest (bf_pending bf)])\<rparr>)"
    and kept: "books k dest P lim n b X l (snd (flush_or_stop tn Waits bf p))" by metis
  let ?p = "snd (flush_or_stop tn Waits bf p)"
  have "t_own (?p\<lparr>pl_buffer := None, pl_pending := None\<rparr>) = t_own ?p"
    by (simp add: fl t_own_def buffered_def)
  then have "books k dest P lim n b X l (?p\<lparr>pl_buffer := None, pl_pending := None\<rparr>)"
    using kept by (simp add: books_def Let_def)
  with Some show ?thesis by (auto simp: stopping_def Let_def fl)
qed


lemma begin_turn_books:
  assumes "books k dest P lim n b (X + tickets (concat (tn_releases tn))) l (p\<lparr>pl_shared := tn_shared tn (pl_shared p)\<rparr>)"
  shows "books k dest P lim n b X l (begin_turn tn p) \<and>
    pl_control (begin_turn tn p) = tn_control tn (pl_control p)"
proof -
  let ?p = "p\<lparr>pl_shared := tn_shared tn (pl_shared p), pl_control := tn_control tn (pl_control p)\<rparr>"
  have "books k dest P lim n b (X + tickets (concat (tn_releases tn))) l ?p"
    using assms by (rule iffD2 [OF books_cong, rotated -1]) simp_all
  from take_back_all_books [OF this] show ?thesis by (simp add: begin_turn_def Let_def)
qed

lemma turn_body_books:
  assumes "books k dest P lim n b (X + tickets (concat (tn_releases tn))) l (p\<lparr>pl_shared := tn_shared tn (pl_shared p)\<rparr>)"
    and "tn_refusal tn = None"
  shows "books k dest P lim n b X l (snd (turn_body ko cf tn p))"
  using begin_turn_books [OF assms(1)] running_books [OF _ assms(2), of k dest P lim n b X l "begin_turn tn p" ko cf]
    stopping_books [OF _ assms(2), of k dest P lim n b X l "begin_turn tn p"]
  by (simp add: turn_body_def Let_def)

definition waited :: "turn \<Rightarrow> flow \<Rightarrow> release list" where
  "waited tn fl = (case (fl, tn_received tn) of (Waits, ReceivedReleases rs) \<Rightarrow> rs | _ \<Rightarrow> [])"

lemma wait_books:
  assumes "books k dest P lim n b (X + tickets (waited tn (fst body))) l (snd body)"
  shows "books k dest P lim n b X l (snd (wait tn body))"
  using assms
  by (cases body) (auto simp: wait_def waited_def take_back_books split: flow.splits received.splits)

end
