(* ===== verification/Run_Ledger.thy ===== *)
theory Run_Ledger
  imports Poller_Books
begin

text \<open>
  Where every admitted record of a run is: in its poller's buffer, on its way, in the orderer, or among the
  releases on their way back; and that the admissions count exactly these. It follows that the release channels
  never fill up and that no release is ever lost or refused.
\<close>

section \<open>What a consumer has outstanding\<close>

definition t_work :: "nat \<Rightarrow> record_batch \<Rightarrow> ticket multiset" where
  "t_work k b = (if rb_consumer b = k then mset (map t_item (rb_items b)) else {#})"

definition t_done :: "nat \<Rightarrow> completion_batch \<Rightarrow> ticket multiset" where
  "t_done k b = (if cb_consumer b = k then mset (map t_completion (cb_items b)) else {#})"

definition t_result :: "nat \<Rightarrow> 'x worker_thread \<Rightarrow> ticket multiset" where
  "t_result k wt = (case wt_result wt of None \<Rightarrow> {#} | Some b \<Rightarrow> t_done k b)"

definition t_pending :: "nat \<Rightarrow> orderer \<Rightarrow> ticket multiset" where
  "t_pending k ord = image_mset t_completion (filter_mset (\<lambda>c. c_consumer c = k) (pending_of ord))"

definition t_log :: "nat \<Rightarrow> (nat \<times> release list) list \<Rightarrow> ticket multiset" where
  "t_log k log = image_mset t_release (sent_to k log)"

definition t_poller :: "'k poller_thread \<Rightarrow> ticket multiset" where
  "t_poller pt = t_own (pt_poller pt) + t_sent (pt_outbox pt)"

definition elsewhere :: "nat \<Rightarrow> ('x, 'k, 'w) pipeline \<Rightarrow> ticket multiset" where
  "elsewhere k s = sum_list (map (t_work k) (sy_work s)) + sum_list (map (t_result k) (sy_workers s)) +
     sum_list (map (t_done k) (sy_completions s)) + t_pending k (ws_orderer (wr_state (sy_writer s))) +
     t_log k (wr_outbox (sy_writer s))"

definition outstanding :: "nat \<Rightarrow> ('x, 'k, 'w) pipeline \<Rightarrow> ticket multiset" where
  "outstanding k s =
     (if k < length (sy_pollers s) then t_poller (sy_pollers s ! k) else {#}) + elsewhere k s +
     tickets (concat (sy_releases s ! k))"

section \<open>The invariant\<close>

definition consumers :: "('x, 'i, 'e, 'v, 'k, 'w) setting \<Rightarrow> nat" where
  "consumers e = length (en_inputs e)"

definition members :: "('x, 'i, 'e, 'v, 'k, 'w) setting \<Rightarrow> nat \<Rightarrow> int set" where
  "members e k = set (assigned_partitions (en_inputs e ! k))"

text \<open>In ordered mode no partition is assigned twice.\<close>

definition lawful :: "('x, 'i, 'e, 'v, 'k, 'w) setting \<Rightarrow> ('w \<Rightarrow> bytes) \<Rightarrow> bool" where
  "lawful e contents \<longleftrightarrow> sink (en_sink e) contents \<and>
     (is_ordered (en_config e) \<longrightarrow> (\<forall>j < consumers e. \<forall>k < consumers e. members e j \<inter> members e k \<noteq> {} \<longrightarrow> j = k))"

definition work_ok :: "('x, 'i, 'e, 'v, 'k, 'w) setting \<Rightarrow> nat \<Rightarrow> record_batch \<Rightarrow> bool" where
  "work_ok e m b \<longleftrightarrow> rb_consumer b < m \<and> list_all (item_ok (members e (rb_consumer b))) (rb_items b)"

definition completion_ok :: "('x, 'i, 'e, 'v, 'k, 'w) setting \<Rightarrow> nat \<Rightarrow> completion \<Rightarrow> bool" where
  "completion_ok e m c \<longleftrightarrow> c_consumer c < m \<and> c_sequence c < u64_max \<and> c_partition c \<in> members e (c_consumer c)"

definition done_ok :: "('x, 'i, 'e, 'v, 'k, 'w) setting \<Rightarrow> nat \<Rightarrow> completion_batch \<Rightarrow> bool" where
  "done_ok e m b \<longleftrightarrow> cb_consumer b < m \<and> list_all (\<lambda>c. c_consumer c = cb_consumer b \<and> completion_ok e m c) (cb_items b)"

definition writer_ok :: "('x, 'i, 'e, 'v, 'k, 'w) setting \<Rightarrow> nat \<Rightarrow> 'w writer_thread \<Rightarrow> bool" where
  "writer_ok e m wr \<longleftrightarrow> orderer_ok (ws_orderer (wr_state wr)) \<and>
     (\<forall>c \<in># pending_of (ws_orderer (wr_state wr)). completion_ok e m c) \<and>
     list_all (\<lambda>(k, rs). k < m \<and> rs \<noteq> []) (wr_outbox wr)"

definition poller_sound :: "('x, 'i, 'e, 'v, 'k, 'w) setting \<Rightarrow> nat \<Rightarrow> 'k poller_thread \<Rightarrow> bool" where
  "poller_sound e k pt \<longleftrightarrow>
     (let p = pt_poller pt; dest = destination_of (en_config e); P = members e k in
      list_all (dispatch_ok k dest P) (pt_outbox pt) \<and> pred_option (buffer_ok k dest P) (pl_buffer p) \<and>
      admission_ok (pl_admission p) \<and> (\<forall>q. bt_get (adm_partitions (pl_admission p)) q \<noteq> None \<longrightarrow> q \<in> P))"

definition in_shape :: "('x, 'i, 'e, 'v, 'k, 'w) setting \<Rightarrow> ('x, 'k, 'w) pipeline \<Rightarrow> bool" where
  "in_shape e s \<longleftrightarrow> (let m = length (sy_pollers s) in
     m \<le> consumers e \<and> length (sy_releases s) = consumers e \<and>
     (case sy_main s of StartReporter \<Rightarrow> m = 0 | StartPollers i \<Rightarrow> i = m | _ \<Rightarrow> True) \<and>
     (sy_main s = Started \<or> ws_orderer (wr_state (sy_writer s)) = bt_empty) \<and>
     list_all (work_ok e m) (sy_work s) \<and> list_all (\<lambda>wt. pred_option (done_ok e m) (wt_result wt)) (sy_workers s) \<and>
     list_all (done_ok e m) (sy_completions s) \<and> writer_ok e m (sy_writer s) \<and>
     list_all (list_all (\<lambda>rs. rs \<noteq> [])) (sy_releases s) \<and>
     (\<forall>k < m. poller_sound e k (sy_pollers s ! k)) \<and> shared_ok (cf_limits (en_config e)) (sy_shared s))"

definition balanced :: "('x, 'k, 'w) pipeline \<Rightarrow> nat \<Rightarrow> bool" where
  "balanced s k \<longleftrightarrow> pt_left (sy_pollers s ! k) \<or>
     (\<forall>q. in_flight_of (pl_admission (pt_poller (sy_pollers s ! k))) q = in_partition q (outstanding k s))"

definition ledger :: "('x, 'i, 'e, 'v, 'k, 'w) setting \<Rightarrow> ('x, 'k, 'w) pipeline \<Rightarrow> bool" where
  "ledger e s \<longleftrightarrow> in_shape e s \<and> (\<forall>k < length (sy_pollers s). balanced s k) \<and>
     (\<forall>k < consumers e. length (sy_pollers s) \<le> k \<longrightarrow> outstanding k s = {#}) \<and>
     (\<Sum>k < consumers e. size (outstanding k s)) \<le> sa_records (sy_shared s) \<and>
     (\<Sum>k < consumers e. weight (outstanding k s)) \<le> sa_bytes (sy_shared s)"

section \<open>Bookkeeping\<close>

lemma t_log_simps [simp]:
  "t_log k [] = {#}" "t_log k (log @ log') = t_log k log + t_log k log'"
  "t_log k (entry # log) = (if fst entry = k then tickets (snd entry) else {#}) + t_log k log"
  by (auto simp: t_log_def sent_to_def tickets_def case_prod_unfold)

lemma weight_mono: "M \<subseteq># N \<Longrightarrow> weight M \<le> weight N"
  by (metis le_add1 mset_subset_eq_exists_conv weight_simps(2))

lemma set_poller_simps [simp]:
  "sy_main (set_poller k pt s) = sy_main s"
  "sy_workers (set_poller k pt s) = sy_workers s"
  "sy_writer (set_poller k pt s) = sy_writer s"
  "sy_work (set_poller k pt s) = sy_work s"
  "sy_completions (set_poller k pt s) = sy_completions s"
  "sy_releases (set_poller k pt s) = sy_releases s"
  "sy_shared (set_poller k pt s) = sy_shared s"
  "sy_control (set_poller k pt s) = sy_control s"
  "length (sy_pollers (set_poller k pt s)) = length (sy_pollers s)"
  "j < length (sy_pollers s) \<Longrightarrow> sy_pollers (set_poller k pt s) ! j = (if j = k then pt else sy_pollers s ! j)"
  by (simp_all add: set_poller_def nth_list_update)

lemma set_worker_simps [simp]:
  "sy_main (set_worker k wt s) = sy_main s"
  "sy_pollers (set_worker k wt s) = sy_pollers s"
  "sy_writer (set_worker k wt s) = sy_writer s"
  "sy_work (set_worker k wt s) = sy_work s"
  "sy_completions (set_worker k wt s) = sy_completions s"
  "sy_releases (set_worker k wt s) = sy_releases s"
  "sy_shared (set_worker k wt s) = sy_shared s"
  "sy_control (set_worker k wt s) = sy_control s"
  "length (sy_workers (set_worker k wt s)) = length (sy_workers s)"
  "j < length (sy_workers s) \<Longrightarrow> sy_workers (set_worker k wt s) ! j = (if j = k then wt else sy_workers s ! j)"
  by (simp_all add: set_worker_def nth_list_update)

text \<open>A step that leaves the pollers' admissions and the shared one alone, and loses tickets only of threads that left.\<close>

lemma ledger_transfer:
  assumes led: "ledger e s" and shape: "in_shape e s'" and sh: "sy_shared s' = sy_shared s"
    and len: "length (sy_pollers s') = length (sy_pollers s)"
    and less: "\<And>k. k < consumers e \<Longrightarrow> outstanding k s' \<subseteq># outstanding k s"
    and keep: "\<And>k. k < length (sy_pollers s) \<Longrightarrow> pt_left (sy_pollers s' ! k) \<or> \<not> pt_left (sy_pollers s ! k) \<and>
      pl_admission (pt_poller (sy_pollers s' ! k)) = pl_admission (pt_poller (sy_pollers s ! k)) \<and>
      outstanding k s' = outstanding k s"
  shows "ledger e s'"
proof -
  have "(\<Sum>k < consumers e. size (outstanding k s')) \<le> (\<Sum>k < consumers e. size (outstanding k s))"
    "(\<Sum>k < consumers e. weight (outstanding k s')) \<le> (\<Sum>k < consumers e. weight (outstanding k s))"
    using less by (auto intro!: sum_mono size_mset_mono weight_mono)
  moreover have "balanced s' k" if "k < length (sy_pollers s)" for k
    using keep [OF that] led that by (auto simp: ledger_def balanced_def)
  moreover have "outstanding k s' = {#}" if "k < consumers e" "length (sy_pollers s) \<le> k" for k
    using less [OF that(1)] led that by (auto simp: ledger_def)
  ultimately show ?thesis
    using led shape sh len unfolding ledger_def by (auto intro: order_trans)
qed

section \<open>Starting\<close>

lemma ledger_start: "ledger e (pipeline_start e w shutdown)"
  by (auto simp: ledger_def in_shape_def Let_def pipeline_start_def writer_ok_def writer_init_def shared_ok_def shared_new_def
      consumers_def outstanding_def elsewhere_def t_pending_def list_all_iff)


lemma batches_mono:
  assumes "m \<le> m'"
  shows "work_ok e m b \<Longrightarrow> work_ok e m' b" "completion_ok e m c \<Longrightarrow> completion_ok e m' c"
    "done_ok e m d \<Longrightarrow> done_ok e m' d" "writer_ok e m wr \<Longrightarrow> writer_ok e m' wr"
    "pred_option (done_ok e m) r \<Longrightarrow> pred_option (done_ok e m') r"
proof -
  show c: "completion_ok e m c \<Longrightarrow> completion_ok e m' c" for c using assms by (auto simp: completion_ok_def)
  show d: "done_ok e m d \<Longrightarrow> done_ok e m' d" for d using assms c by (auto simp: done_ok_def list_all_iff)
  show "work_ok e m b \<Longrightarrow> work_ok e m' b" using assms by (auto simp: work_ok_def)
  show "writer_ok e m wr \<Longrightarrow> writer_ok e m' wr" using assms c by (fastforce simp: writer_ok_def list_all_iff)
  show "pred_option (done_ok e m) r \<Longrightarrow> pred_option (done_ok e m') r" using d by (cases r) auto
qed

lemma poller_new_sound: "poller_sound e k \<lparr>pt_poller = poller_new (en_config e) k (en_inputs e ! k) sh ct st,
    pt_outbox = [], pt_left = False\<rparr>"
proof -
  have "q \<in> set qs" if "bt_get (adm_partitions (admission_new qs limit)) q \<noteq> None" for q qs limit
    using that by (auto simp: admission_new_def bt_get_of_list dest!: map_of_SomeD)
  then show ?thesis
    by (auto simp: poller_sound_def poller_new_def members_def buffer_ok_def buffer_new_def destination_of_def)
qed

lemma in_flight_new [simp]: "in_flight_of (admission_new qs limit) q = 0"
  by (auto simp: in_flight_of_def admission_new_def bt_get_of_list dest!: map_of_SomeD split: option.split)

lemma outstanding_update [simp]:
  "outstanding k (s\<lparr>sy_main := pc\<rparr>) = outstanding k s"
  "outstanding k (s\<lparr>sy_control := ct\<rparr>) = outstanding k s"
  "outstanding k (s\<lparr>sy_shared := sh\<rparr>) = outstanding k s"
  by (simp_all add: outstanding_def elsewhere_def)

lemma ledger_main:
  assumes "ledger e s" "\<forall>i. pc = StartPollers i \<longrightarrow> i = length (sy_pollers s)" "pc \<noteq> StartReporter" "sy_main s \<noteq> Started"
  shows "ledger e (s\<lparr>sy_main := pc\<rparr>)"
  using assms
  by (auto simp: ledger_def in_shape_def Let_def balanced_def split: main_pc.splits)

lemma ledger_control [simp]: "ledger e (s\<lparr>sy_control := ct\<rparr>) = ledger e s"
  by (simp add: ledger_def in_shape_def balanced_def)

lemma ledger_add_poller:
  assumes "ledger e s" "length (sy_pollers s) < consumers e" "\<forall>i. pc = StartPollers i \<longrightarrow> i = length (sy_pollers s) + 1"
    "pc \<noteq> StartReporter" "sy_main s \<noteq> Started" "pt = \<lparr>pt_poller = poller_new (en_config e) (length (sy_pollers s)) (en_inputs e ! length (sy_pollers s)) sh ct st,
      pt_outbox = [], pt_left = False\<rparr>"
  shows "ledger e (s\<lparr>sy_main := pc, sy_pollers := sy_pollers s @ [pt]\<rparr>)" (is "ledger e ?s")
proof -
  let ?m = "length (sy_pollers s)"
  have none: "t_poller pt = {#}" by (simp add: assms(6) t_poller_def t_own_def buffered_def poller_new_def buffer_new_def)
  have out: "outstanding k ?s = outstanding k s" for k
    using none by (auto simp: outstanding_def elsewhere_def nth_append)
  have sound: "\<forall>k < Suc ?m. poller_sound e k ((sy_pollers s @ [pt]) ! k)"
    using assms(1) poller_new_sound assms(6) by (auto simp: ledger_def in_shape_def Let_def nth_append less_Suc_eq)
  have "in_shape e ?s"
    using assms(1-5) sound batches_mono [of ?m "Suc ?m" e]
    by (auto simp: ledger_def in_shape_def Let_def list_all_iff split: main_pc.split)
  moreover have "balanced ?s k" if "k < Suc ?m" for k
  proof (cases "k = ?m")
    case True
    with assms(1,2) have "outstanding k s = {#}" by (simp add: ledger_def)
    then show ?thesis unfolding balanced_def out using True by (simp add: assms(6) poller_new_def)
  next
    case False
    with that assms(1) show ?thesis unfolding balanced_def out by (auto simp: ledger_def balanced_def nth_append)
  qed
  ultimately show ?thesis using assms(1) unfolding ledger_def out by auto
qed

lemma ledger_add_worker:
  assumes "ledger e s" "wt_result wt = None" "\<forall>i. pc \<noteq> StartPollers i" "pc \<noteq> StartReporter" "sy_main s \<noteq> Started"
  shows "ledger e (s\<lparr>sy_main := pc, sy_workers := sy_workers s @ [wt]\<rparr>)"
proof (rule ledger_transfer [OF assms(1)])
  show "in_shape e (s\<lparr>sy_main := pc, sy_workers := sy_workers s @ [wt]\<rparr>)"
    using assms by (auto simp: ledger_def in_shape_def Let_def split: main_pc.split)
qed (use assms(2) in \<open>auto simp: outstanding_def elsewhere_def t_result_def\<close>)

lemma ledger_writing:
  assumes "ledger e s" "ws_orderer (wr_state (sy_writer s)) = bt_empty"
  shows "ledger e (start_writing s)"
proof (rule ledger_transfer [OF assms(1)])
  show "in_shape e (start_writing s)"
    using assms by (auto simp: ledger_def in_shape_def start_writing_def Let_def writer_ok_def writer_init_def)
qed (use assms(2) in \<open>auto simp: outstanding_def elsewhere_def start_writing_def Let_def writer_init_def\<close>)

lemma ledger_start_thread:
  assumes "ledger e s" "sy_main s \<noteq> Started"
  shows "ledger e (start_thread e err s)"
proof (cases "sy_main s")
  case StartReporter
  then have "sy_pollers s = []" using assms(1) by (simp add: ledger_def in_shape_def Let_def)
  then have "ledger e (s\<lparr>sy_main := StartPollers 0\<rparr>)" using assms by (intro ledger_main) auto
  with StartReporter show ?thesis
    by (auto simp: start_thread_def split: option.split)
next
  case (StartPollers i)
  then have i: "i = length (sy_pollers s)" using assms(1) by (simp add: ledger_def in_shape_def Let_def)
  have pass: "ledger e (s\<lparr>sy_main := StartWorkers 0\<rparr>)" using assms by (intro ledger_main) auto
  then have "ledger e (s\<lparr>sy_main := StartWorkers 0, sy_control := ct\<rparr>)" for ct
    using ledger_control by blast
  moreover have "i < length (en_inputs e) \<Longrightarrow>
      ledger e (s\<lparr>sy_main := StartPollers (i + 1), sy_pollers := sy_pollers s @
        [\<lparr>pt_poller = poller_new (en_config e) i (en_inputs e ! i) sh ct st, pt_outbox = [], pt_left = False\<rparr>]\<rparr>)" for sh ct st
    using i StartPollers by (intro ledger_add_poller [OF assms(1)]) (auto simp: consumers_def)
  ultimately show ?thesis using StartPollers pass by (auto simp: start_thread_def not_le split: option.split)
next
  case (StartWorkers j)
  have empty: "ws_orderer (wr_state (sy_writer s)) = bt_empty"
    using assms by (auto simp: ledger_def in_shape_def Let_def)
  show ?thesis using StartWorkers empty ledger_writing [of e s] ledger_writing [of e "s\<lparr>sy_control := ct\<rparr>" for ct] assms(1)
      ledger_add_worker [OF assms(1)]
    by (auto simp: start_thread_def split: option.split)
qed (use assms in simp)


section \<open>Pollers send\<close>

lemma t_done_alt: "t_done k b = (if cb_consumer b = k then t_dispatch (SentCompletions b) else {#})"
  "t_work k c = (if rb_consumer c = k then t_dispatch (SentWork c) else {#})"
  by (simp_all add: t_done_def t_work_def)

lemma dispatch_ok_sent:
  assumes "dispatch_ok k dest (members e k) d" "k < m"
  shows "(\<exists>b. d = SentWork b \<and> rb_consumer b = k \<and> work_ok e m b) \<or>
    (\<exists>b. d = SentCompletions b \<and> cb_consumer b = k \<and> done_ok e m b)"
  using assms
  by (cases dest) (auto simp: dispatch_ok_def package_def work_ok_def done_ok_def list_all_iff completion_ok_def item_ok_def
      direct_completion_def Let_def)

lemma outstanding_poller:
  assumes "k < length (sy_pollers s)"
  shows "outstanding j (set_poller k pt s) + (if j = k then t_poller (sy_pollers s ! k) else {#}) =
    outstanding j s + (if j = k then t_poller pt else {#})"
  using assms by (auto simp: outstanding_def elsewhere_def set_poller_def add_ac nth_list_update)

lemma in_shape_poller:
  assumes "in_shape e s" "k < length (sy_pollers s)" "poller_sound e k pt"
  shows "in_shape e (set_poller k pt s)"
  using assms by (auto simp: in_shape_def Let_def set_poller_def nth_list_update)

lemma in_shape_control [simp]: "in_shape e (s\<lparr>sy_control := ct\<rparr>) = in_shape e s"
  by (simp add: in_shape_def)

lemma ledger_send:
  assumes led: "ledger e s" and en: "enabled e (Send k) s"
  shows "ledger e (poller_send k s)"
proof -
  let ?pt = "sy_pollers s ! k" and ?s = "set_poller k ((sy_pollers s ! k)\<lparr>pt_outbox := tl (pt_outbox (sy_pollers s ! k))\<rparr>) s"
  have k: "k < length (sy_pollers s)" using en by simp
  obtain d ds where ds: "pt_outbox ?pt = d # ds" using en by (auto split: list.splits)
  have sound: "poller_sound e k ?pt" using led k by (simp add: ledger_def in_shape_def Let_def)
  then have d: "dispatch_ok k (destination_of (en_config e)) (members e k) d" using ds by (simp add: poller_sound_def Let_def)
  have rest: "poller_sound e k (?pt\<lparr>pt_outbox := tl (pt_outbox ?pt)\<rparr>)" using sound ds by (simp add: poller_sound_def Let_def)
  have moved: "outstanding j ?s + (if j = k then t_dispatch d else {#}) = outstanding j s" for j
  proof -
    have "t_poller ?pt = t_poller (?pt\<lparr>pt_outbox := tl (pt_outbox ?pt)\<rparr>) + t_dispatch d"
      by (simp add: t_poller_def ds)
    with outstanding_poller [OF k, of j "?pt\<lparr>pt_outbox := tl (pt_outbox ?pt)\<rparr>"] show ?thesis by (auto simp: add.assoc [symmetric])
  qed
  have shape: "in_shape e ?s" using led k rest by (simp add: ledger_def in_shape_poller)
  from dispatch_ok_sent [OF d k] show ?thesis
  proof (elim disjE exE conjE)
    fix b assume b: "d = SentWork b" "rb_consumer b = k" "work_ok e (length (sy_pollers s)) b"
    then have s': "poller_send k s = ?s\<lparr>sy_work := sy_work s @ [b]\<rparr>" by (simp add: poller_send_def ds set_poller_def)
    have out: "outstanding j (poller_send k s) = outstanding j s" for j
      unfolding moved [of j, symmetric]
      using b by (simp add: s' outstanding_def elsewhere_def set_poller_def t_done_alt add_ac)
    show ?thesis
    proof (rule ledger_transfer [OF led])
      show "in_shape e (poller_send k s)" unfolding s'
        using shape b(3) by (simp add: in_shape_def Let_def)
    qed (auto simp: out [unfolded s'] s')
  next
    fix b assume b: "d = SentCompletions b" "cb_consumer b = k" "done_ok e (length (sy_pollers s)) b"
    then have s': "poller_send k s = ?s\<lparr>sy_completions := sy_completions s @ [b]\<rparr>" by (simp add: poller_send_def ds set_poller_def)
    have out: "outstanding j (poller_send k s) = outstanding j s" for j
      unfolding moved [of j, symmetric]
      using b by (simp add: s' outstanding_def elsewhere_def set_poller_def t_done_alt add_ac)
    show ?thesis
    proof (rule ledger_transfer [OF led])
      show "in_shape e (poller_send k s)" unfolding s'
        using shape b(3) by (simp add: in_shape_def Let_def)
    qed (auto simp: out [unfolded s'] s')
  qed
qed

lemma ledger_refuse:
  assumes led: "ledger e s" and k: "k < length (sy_pollers s)"
  shows "ledger e (poller_refused k err s)"
proof -
  let ?pt = "sy_pollers s ! k"
  define p where "p = fail (dispatch_error err) ((pt_poller ?pt)\<lparr>pl_control := sy_control s\<rparr>)"
  define pt where "pt = ?pt\<lparr>pt_poller := p, pt_outbox := [], pt_left := True\<rparr>"
  have s': "poller_refused k err s = set_poller k pt (s\<lparr>sy_control := pl_control p\<rparr>)"
    by (simp add: poller_refused_def Let_def p_def pt_def)
  have same: "pl_buffer p = pl_buffer (pt_poller ?pt)" "pl_admission p = pl_admission (pt_poller ?pt)"
    by (simp_all add: p_def fail_def)
  have tp: "t_poller pt \<subseteq># t_poller ?pt" by (simp add: t_poller_def pt_def t_own_def buffered_def same)
  have sound: "poller_sound e k pt"
    using led k by (simp add: ledger_def in_shape_def Let_def poller_sound_def pt_def same)
  have "outstanding j (set_poller k pt (s\<lparr>sy_control := pl_control p\<rparr>)) \<subseteq># outstanding j s" for j
  proof (cases "j = k")
    case True
    from tp obtain c where "t_poller ?pt = t_poller pt + c" by (metis mset_subset_eq_exists_conv)
    with True outstanding_poller [of k "s\<lparr>sy_control := pl_control p\<rparr>" j pt] k show ?thesis
      by (simp add: mset_subset_eq_exists_conv) (metis add.assoc add.commute add_right_cancel)
  qed (use outstanding_poller [of k "s\<lparr>sy_control := pl_control p\<rparr>" j pt] k in simp)
  moreover have "outstanding j (set_poller k pt (s\<lparr>sy_control := pl_control p\<rparr>)) = outstanding j s" if "j \<noteq> k" for j
    using outstanding_poller [of k "s\<lparr>sy_control := pl_control p\<rparr>" j pt] k that by simp
  moreover have "in_shape e (set_poller k pt (s\<lparr>sy_control := pl_control p\<rparr>))"
    using led sound k by (simp add: ledger_def in_shape_poller)
  ultimately show ?thesis unfolding s'
    by (intro ledger_transfer [OF led]) (auto simp: pt_def)
qed


section \<open>Evaluators\<close>

definition completion_keys :: "completion \<Rightarrow> nat \<times> int \<times> nat \<times> nat" where
  "completion_keys c = (c_consumer c, c_partition c, c_sequence c, c_retained_bytes c)"

definition item_keys :: "nat \<Rightarrow> work_item \<Rightarrow> nat \<times> int \<times> nat \<times> nat" where
  "item_keys k w = (k, r_partition (w_record w), w_sequence w, r_retained_bytes (w_record w))"

lemma complete_item_keys:
  "completion_keys (fst (complete_item jx panics unwound cf k w s)) = item_keys k w"
  by (auto simp: complete_item_def completion_keys_def item_keys_def Let_def split: prod.split sum.split)

lemma complete_items_keys:
  "complete_items jx panics unwound cf k its s = (cs, s') \<Longrightarrow> map completion_keys cs = map (item_keys k) its"
proof (induction its arbitrary: s cs s')
  case (Cons w its)
  obtain c s1 where c: "complete_item jx panics unwound cf k w s = (c, s1)" by (metis surj_pair)
  obtain cs1 s2 where cs: "complete_items jx panics unwound cf k its s1 = (cs1, s2)" by (metis surj_pair)
  from Cons.prems c cs have "cs = c # cs1" by simp
  with Cons.IH [OF cs] complete_item_keys [of jx panics unwound cf k w s] c show ?case by simp
qed simp

lemma same_keys_ok:
  assumes "map completion_keys cs = map (item_keys k) its" "k < m" "list_all (item_ok (members e k)) its"
  shows "mset (map t_completion cs) = mset (map t_item its)"
    and "done_ok e m \<lparr>cb_consumer = k, cb_items = cs\<rparr>"
proof -
  have "map t_completion cs = map (\<lambda>(k, q, n, b). (q, b)) (map completion_keys cs)"
    by (simp add: t_completion_def completion_keys_def comp_def)
  also have "\<dots> = map t_item its" by (simp add: assms(1) t_item_def item_keys_def comp_def)
  finally show "mset (map t_completion cs) = mset (map t_item its)" by (simp only:)
  have "\<exists>w \<in> set its. completion_keys c = item_keys k w" if "c \<in> set cs" for c
    using that assms(1) by (metis (no_types, lifting) image_iff image_set list.set_map)
  with assms(2,3) show "done_ok e m \<lparr>cb_consumer = k, cb_items = cs\<rparr>"
    by (fastforce simp: done_ok_def completion_ok_def item_ok_def list_all_iff completion_keys_def item_keys_def)
qed

lemma outstanding_worker:
  assumes "j < length (sy_workers s)"
  shows "outstanding k (set_worker j wt s) + t_result k (sy_workers s ! j) = outstanding k s + t_result k wt"
  using sum_list_map_update [OF assms, of "t_result k" wt]
  by (auto simp: outstanding_def elsewhere_def set_worker_def add_ac)

lemma in_shape_worker:
  assumes "in_shape e s" "pred_option (done_ok e (length (sy_pollers s))) (wt_result wt)"
  shows "in_shape e (set_worker j wt s)"
  using assms set_update_subset_insert [of "sy_workers s" j wt]
  by (auto simp: in_shape_def Let_def set_worker_def list_all_iff)

lemma ledger_work_taken:
  assumes led: "ledger e s" and en: "enabled e (TakeWork j) s"
  shows "ledger e (worker_take e j s)"
proof -
  let ?wt = "sy_workers s ! j" and ?b = "hd (sy_work s)"
  have j: "j < length (sy_workers s)" "wt_result ?wt = None" "sy_work s = ?b # tl (sy_work s)" using en by auto
  obtain cs w st where run: "complete_items (en_engine e) (en_panics e) (en_unwound e) (en_config e) (rb_consumer ?b) (rb_items ?b)
      (wt_worker ?wt, wt_stats ?wt) = (cs, w, st)" by (metis prod.exhaust)
  define wt where "wt = ?wt\<lparr>wt_worker := w, wt_stats := st, wt_result := Some \<lparr>cb_consumer = rb_consumer ?b, cb_items = cs\<rparr>,
      wt_taken := wt_taken ?wt @ [?b]\<rparr>"
  have s': "worker_take e j s = set_worker j wt (s\<lparr>sy_work := tl (sy_work s)\<rparr>)"
    by (simp add: worker_take_def Let_def run wt_def)
  have shape: "in_shape e s" using led by (simp add: ledger_def)
  have "list_all (work_ok e (length (sy_pollers s))) (sy_work s)" using shape by (simp add: in_shape_def Let_def)
  then have "work_ok e (length (sy_pollers s)) ?b" using j(3) by (metis list.pred_inject(2))
  then have b: "rb_consumer ?b < length (sy_pollers s)" "list_all (item_ok (members e (rb_consumer ?b))) (rb_items ?b)"
    by (simp_all add: work_ok_def)
  note same = same_keys_ok [OF complete_items_keys [OF run] b]
  have res: "t_result k wt = t_work k ?b" for k
    using same(1) by (simp add: t_result_def wt_def t_done_def t_work_def)
  have "outstanding k (s\<lparr>sy_work := tl (sy_work s)\<rparr>) + t_work k ?b = outstanding k s" for k
  proof -
    have "sum_list (map (t_work k) (sy_work s)) = t_work k ?b + sum_list (map (t_work k) (tl (sy_work s)))"
      by (subst j(3)) simp
    then show ?thesis by (simp add: outstanding_def elsewhere_def add_ac)
  qed
  moreover have "outstanding k (set_worker j wt (s\<lparr>sy_work := tl (sy_work s)\<rparr>)) =
      outstanding k (s\<lparr>sy_work := tl (sy_work s)\<rparr>) + t_work k ?b" for k
    using outstanding_worker [of j "s\<lparr>sy_work := tl (sy_work s)\<rparr>" k wt] j(1,2)
    by (simp add: res) (simp add: t_result_def)
  ultimately have out: "outstanding k (set_worker j wt (s\<lparr>sy_work := tl (sy_work s)\<rparr>)) = outstanding k s" for k by simp
  have "in_shape e (s\<lparr>sy_work := tl (sy_work s)\<rparr>)"
    using shape j(3) by (cases "sy_work s") (auto simp: in_shape_def Let_def)
  then have "in_shape e (set_worker j wt (s\<lparr>sy_work := tl (sy_work s)\<rparr>))"
    by (rule in_shape_worker) (use same(2) in \<open>simp add: wt_def\<close>)
  then show ?thesis unfolding s' by (intro ledger_transfer [OF led]) (simp_all add: out)
qed

lemma ledger_result_sent:
  assumes led: "ledger e s" and en: "enabled e (SendResult j) s"
  shows "ledger e (worker_send j s)"
proof -
  let ?wt = "sy_workers s ! j"
  obtain b where j: "j < length (sy_workers s)" "wt_result ?wt = Some b" using en by auto
  define wt where "wt = ?wt\<lparr>wt_result := None\<rparr>"
  have s': "worker_send j s = set_worker j wt (s\<lparr>sy_completions := sy_completions s @ [b]\<rparr>)"
    by (simp add: worker_send_def j wt_def)
  have shape: "in_shape e s" using led by (simp add: ledger_def)
  have "list_all (\<lambda>wt. pred_option (done_ok e (length (sy_pollers s))) (wt_result wt)) (sy_workers s)"
    using shape by (simp add: in_shape_def Let_def)
  then have b: "done_ok e (length (sy_pollers s)) b" using j by (auto simp: list_all_length dest: spec [of _ j])
  have out: "outstanding k (set_worker j wt (s\<lparr>sy_completions := sy_completions s @ [b]\<rparr>)) = outstanding k s" for k
    using outstanding_worker [of j "s\<lparr>sy_completions := sy_completions s @ [b]\<rparr>" k wt] j
    by (simp add: outstanding_def elsewhere_def wt_def t_result_def add_ac)
  have "in_shape e (set_worker j wt (s\<lparr>sy_completions := sy_completions s @ [b]\<rparr>))"
    by (rule in_shape_worker) (use shape b in \<open>simp_all add: in_shape_def Let_def wt_def\<close>)
  then show ?thesis unfolding s' by (intro ledger_transfer [OF led]) (simp_all add: out)
qed

lemma ledger_worker_ended:
  assumes led: "ledger e s" and j: "j < length (sy_workers s)" "wt_result (sy_workers s ! j) = None"
  shows "ledger e (worker_end j s)"
proof (rule ledger_transfer [OF led])
  have out: "outstanding k (worker_end j s) = outstanding k s" for k
    using outstanding_worker [of j s k "(sy_workers s ! j)\<lparr>wt_left := True\<rparr>"] j by (simp add: worker_end_def t_result_def)
  show "in_shape e (worker_end j s)" unfolding worker_end_def
    by (rule in_shape_worker) (use led j in \<open>simp_all add: ledger_def\<close>)
  show "sy_shared (worker_end j s) = sy_shared s" "length (sy_pollers (worker_end j s)) = length (sy_pollers s)"
    by (simp_all add: worker_end_def)
  show "outstanding k (worker_end j s) \<subseteq># outstanding k s" for k by (simp add: out)
  show "pt_left (sy_pollers (worker_end j s) ! k) \<or> \<not> pt_left (sy_pollers s ! k) \<and>
      pl_admission (pt_poller (sy_pollers (worker_end j s) ! k)) = pl_admission (pt_poller (sy_pollers s ! k)) \<and>
      outstanding k (worker_end j s) = outstanding k s" for k
    by (simp add: out) (simp add: worker_end_def)
qed


section \<open>The writer\<close>

definition owner_of :: "('x, 'i, 'e, 'v, 'k, 'w) setting \<Rightarrow> int \<Rightarrow> nat" where
  "owner_of e q = (LEAST k. k < consumers e \<and> q \<in> members e k)"

lemma owner_of:
  assumes "lawful e contents" "is_ordered (en_config e)" "k < consumers e" "q \<in> members e k"
  shows "owner_of e q = k"
proof -
  have "owner_of e q < consumers e \<and> q \<in> members e (owner_of e q)"
    unfolding owner_of_def by (rule LeastI) (use assms(3,4) in blast)
  with assms show ?thesis unfolding lawful_def by blast
qed

lemma completion_owner:
  assumes "lawful e contents" "is_ordered (en_config e)" "m \<le> consumers e" "completion_ok e m c"
  shows "c_consumer c = owner_of e (c_partition c)"
  using owner_of [OF assms(1,2), of "c_consumer c" "c_partition c"] assms(3,4) by (simp add: completion_ok_def)

lemma t_log_owed: "image_mset t_release (owed_to k M) = image_mset t_completion (filter_mset (\<lambda>c. c_consumer c = k) M)"
  by (simp add: owed_to_def image_mset.compositionality comp_def)

lemma fold_take_completion_sent [simp]:
  "ws_sent (fst (fold (take_completion js ops cf) cs sr)) = ws_sent (fst sr)"
proof (induction cs arbitrary: sr)
  case (Cons c cs)
  have "ws_sent (fst (take_completion js ops cf c sr)) = ws_sent (fst sr)"
    by (auto simp: take_completion_def writer_failure_def fold_emit_keeps split: prod.split sum.split)
  with Cons show ?case by simp
qed simp

lemma take_batch_sent:
  obtains "ws_sent (take_batch js ops cf b s) = ws_sent s"
  | rs where "rs \<noteq> []" "ws_sent (take_batch js ops cf b s) = ws_sent s @ [(cb_consumer b, rs)]"
proof -
  obtain s' rs where fold: "fold (take_completion js ops cf) (cb_items b) (s, []) = (s', rs)" by fastforce
  with fold_take_completion_sent [of js ops cf "cb_items b" "(s, [])"] have "ws_sent s' = ws_sent s" by simp
  with that fold show thesis by (cases "rs = []") (simp_all add: take_batch_def)
qed

lemma take_batch_books:
  assumes law: "lawful e contents" and m: "m \<le> consumers e" and b: "done_ok e m b"
    and ok: "orderer_ok (ws_orderer s)" "\<forall>c \<in># pending_of (ws_orderer s). completion_ok e m c"
    and s': "s' = take_batch js (en_sink e) (en_config e) b s"
  obtains new where "ws_sent s' = ws_sent s @ new" "list_all (\<lambda>(k, rs). k < m \<and> rs \<noteq> []) new" "length new \<le> 1"
    "orderer_ok (ws_orderer s')" "\<forall>c \<in># pending_of (ws_orderer s'). completion_ok e m c"
    "\<And>k. t_log k new + t_pending k (ws_orderer s') = t_pending k (ws_orderer s) + t_done k b"
proof -
  let ?cf = "en_config e" and ?o = "is_ordered (en_config e)"
  have sink: "sink (en_sink e) contents" using law by (simp add: lawful_def)
  have items: "\<forall>c \<in> set (cb_items b). c_consumer c = cb_consumer b \<and> completion_ok e m c"
    using b by (simp add: done_ok_def list_all_iff)
  have routed: "routed ?o (owner_of e) [b]"
    unfolding routed_def using items completion_owner [OF law _ m] by (auto simp: completion_ok_def)
  have owned: "owned ?o (owner_of e) (pending_of (ws_orderer s))"
    unfolding owned_def using ok(2) completion_owner [OF law _ m] by auto
  have lt: "\<forall>c \<in> set (cb_items b). c_sequence c < u64_max" using items by (auto simp: completion_ok_def)
  have s1: "s' = fold (take_batch js (en_sink e) ?cf) [b] s" by (simp add: s')
  have bal: "sent_to k (ws_sent s') + owed_to k (pending_of (ws_orderer s'))
      = sent_to k (ws_sent s) + owed_to k (pending_of (ws_orderer s)) + owed_to k (mset (cb_items b))"
    and ok': "orderer_ok (ws_orderer s')" for k
    using sink.take_batches_sent [OF sink ok(1) routed owned s1] by simp_all
  obtain new where new: "ws_sent s' = ws_sent s @ new" "list_all (\<lambda>(k, rs). k < m \<and> rs \<noteq> []) new" "length new \<le> 1"
  proof (cases rule: take_batch_sent [of js "en_sink e" ?cf b s])
    case 1
    then show ?thesis by (intro that [of "[]"]) (simp_all add: s')
  next
    case (2 rs)
    then show ?thesis using b by (intro that [of "[(cb_consumer b, rs)]"]) (simp_all add: s' done_ok_def)
  qed
  have log: "t_log k new + t_pending k (ws_orderer s') = t_pending k (ws_orderer s) + t_done k b" for k
  proof -
    have "sent_to k new + owed_to k (pending_of (ws_orderer s')) =
        owed_to k (pending_of (ws_orderer s)) + owed_to k (mset (cb_items b))"
      using bal [of k] by (simp add: new(1) add.assoc)
    from arg_cong [OF this, of "image_mset t_release"] have
      "t_log k new + t_pending k (ws_orderer s') = t_pending k (ws_orderer s) +
        image_mset t_completion (filter_mset (\<lambda>c. c_consumer c = k) (mset (cb_items b)))"
      by (simp add: t_log_def t_pending_def t_log_owed)
    moreover have "filter_mset (\<lambda>c. c_consumer c = k) (mset (cb_items b)) =
        (if cb_consumer b = k then mset (cb_items b) else {#})"
      using items by (auto simp: filter_mset_eq_conv)
    ultimately show ?thesis by (simp add: t_done_def split: if_splits)
  qed
  obtain due rejected ord where run: "buffer_run ?o (cb_items b) (ws_orderer s) = (due, rejected, ord)"
    by (metis prod.exhaust)
  have "ws_orderer s' = ord"
    using sink.take_batches [OF sink ok(1), of "[b]" ?cf due rejected ord] lt run by (simp add: s1)
  with buffer_run_balance [OF ok(1) lt run] have
    "pending_of (ws_orderer s') \<subseteq># pending_of (ws_orderer s) + mset (cb_items b)"
    by (metis mset_subset_eq_add_right)
  then have "\<forall>c \<in># pending_of (ws_orderer s'). completion_ok e m c"
    using ok(2) items by (auto dest!: mset_subset_eqD)
  with that new ok' log show thesis by blast
qed


lemma in_shape_writer:
  assumes "in_shape e s" "writer_ok e (length (sy_pollers s)) wr" "sy_main s = Started \<or> ws_orderer (wr_state wr) = bt_empty"
  shows "in_shape e (s\<lparr>sy_writer := wr\<rparr>)"
  using assms by (auto simp: in_shape_def Let_def)

lemma outstanding_writer:
  "outstanding k (s\<lparr>sy_writer := wr\<rparr>) + t_pending k (ws_orderer (wr_state (sy_writer s))) + t_log k (wr_outbox (sy_writer s)) =
   outstanding k s + t_pending k (ws_orderer (wr_state wr)) + t_log k (wr_outbox wr)"
  by (simp add: outstanding_def elsewhere_def add_ac)

lemma ledger_completions_taken:
  assumes law: "lawful e contents" and led: "ledger e s" and en: "enabled e TakeCompletions s"
  shows "ledger e (writer_take e s)"
proof -
  let ?b = "hd (sy_completions s)" and ?wr = "sy_writer s"
  have c: "sy_main s = Started" "wr_outbox ?wr = []" "sy_completions s = ?b # tl (sy_completions s)" using en by auto
  have shape: "in_shape e s" and m: "length (sy_pollers s) \<le> consumers e" using led by (auto simp: ledger_def in_shape_def Let_def)
  have "list_all (done_ok e (length (sy_pollers s))) (sy_completions s)" using shape by (simp add: in_shape_def Let_def)
  then have b: "done_ok e (length (sy_pollers s)) ?b" using c(3) by (metis list.pred_inject(2))
  define ws where "ws = take_batch (en_json e) (en_sink e) (en_config e) ?b ((wr_state ?wr)\<lparr>ws_control := sy_control s\<rparr>)"
  have w: "orderer_ok (ws_orderer ((wr_state ?wr)\<lparr>ws_control := sy_control s\<rparr>))"
    "\<forall>c \<in># pending_of (ws_orderer ((wr_state ?wr)\<lparr>ws_control := sy_control s\<rparr>)). completion_ok e (length (sy_pollers s)) c"
    using shape by (simp_all add: in_shape_def Let_def writer_ok_def)
  obtain new where new: "ws_sent ws = ws_sent (wr_state ?wr) @ new"
    "list_all (\<lambda>(k, rs). k < length (sy_pollers s) \<and> rs \<noteq> []) new"
    "orderer_ok (ws_orderer ws)" "\<forall>c \<in># pending_of (ws_orderer ws). completion_ok e (length (sy_pollers s)) c"
    "\<And>k. t_log k new + t_pending k (ws_orderer ws) = t_pending k (ws_orderer (wr_state ?wr)) + t_done k ?b"
    by (rule take_batch_books [OF law m b w ws_def]) (rule that, simp_all)
  define wr where "wr = ?wr\<lparr>wr_taken := wr_taken ?wr @ [?b], wr_state := ws, wr_outbox := new\<rparr>"
  define s1 where "s1 = s\<lparr>sy_completions := tl (sy_completions s), sy_control := ws_control ws\<rparr>"
  have s': "writer_take e s = s1\<lparr>sy_writer := wr\<rparr>"
    by (simp add: writer_take_def writer_computes_def Let_def s1_def wr_def ws_def [symmetric] new(1))
  have "outstanding k s1 + t_done k ?b = outstanding k s" for k
  proof -
    have "sum_list (map (t_done k) (sy_completions s)) = t_done k ?b + sum_list (map (t_done k) (tl (sy_completions s)))"
      by (subst c(3)) simp
    then show ?thesis by (simp add: s1_def outstanding_def elsewhere_def add_ac)
  qed
  moreover have "outstanding k (s1\<lparr>sy_writer := wr\<rparr>) = outstanding k s1 + t_done k ?b" for k
  proof -
    have "outstanding k (s1\<lparr>sy_writer := wr\<rparr>) + t_pending k (ws_orderer (wr_state ?wr)) =
        outstanding k s1 + (t_log k new + t_pending k (ws_orderer ws))"
      using outstanding_writer [of k wr s1] c(2) by (simp add: s1_def wr_def add_ac)
    then show ?thesis unfolding new(5) by (simp add: add_ac)
  qed
  ultimately have out: "outstanding k (s1\<lparr>sy_writer := wr\<rparr>) = outstanding k s" for k by simp
  have "in_shape e s1"
    using shape c(3) by (cases "sy_completions s") (auto simp: in_shape_def Let_def s1_def)
  then have "in_shape e (s1\<lparr>sy_writer := wr\<rparr>)"
    by (rule in_shape_writer) (use new c(1) in \<open>simp_all add: s1_def wr_def writer_ok_def\<close>)
  then show ?thesis unfolding s' by (intro ledger_transfer [OF led]) (simp_all add: out, simp_all add: s1_def)
qed

lemma take_pending_ok:
  assumes "orderer_ok ord"
  shows "orderer_ok (snd (take_pending ord))"
proof -
  have keys: "bt_keys (snd (take_pending ord)) = bt_keys ord"
    by (simp add: take_pending_def bt_keys_def case_prod_unfold comp_def)
  have get: "bt_get (snd (take_pending ord)) q = map_option (\<lambda>s. s\<lparr>po_pending := bt_empty\<rparr>) (bt_get ord q)" for q
    by (simp add: take_pending_def bt_get_def map_of_map)
  show ?thesis
    using assms by (auto simp: orderer_ok_def bt_ok_def keys get order_ok_def) (simp_all add: bt_keys_def bt_empty_def bt_get_def)
qed

lemma drain_pending_books:
  assumes m: "m \<le> n" and ok: "orderer_ok (ws_orderer s)" "\<forall>c \<in># pending_of (ws_orderer s). completion_ok e m c"
    and s': "s' = drain_pending n s"
  obtains new where "ws_sent s' = ws_sent s @ new" "list_all (\<lambda>(k, rs). k < m \<and> rs \<noteq> []) new" "length new \<le> n"
    "orderer_ok (ws_orderer s')" "pending_of (ws_orderer s') = {#}"
    "\<And>k. t_log k new = t_pending k (ws_orderer s)"
proof -
  obtain pending ord where tp: "take_pending (ws_orderer s) = (pending, ord)" by fastforce
  have pend: "pending_of (ws_orderer s) = mset pending" using tp by (simp add: pending_of_def)
  define new where "new = (if pending = [] then [] else filter (\<lambda>(k, rs). rs \<noteq> [])
      (map (\<lambda>k. (k, map release_of (filter (\<lambda>c. c_consumer c = k) pending))) [0..<n]))"
  have new: "ws_sent s' = ws_sent s @ new" "ws_orderer s' = ord"
    by (simp_all add: s' drain_pending_def tp new_def writer_failure_def)
  have ok': "orderer_ok ord" "pending_of ord = {#}"
    using take_pending_ok [OF ok(1)] take_pending_clears [of "ws_orderer s"] tp by simp_all
  have lt: "\<forall>c \<in># pending_of (ws_orderer s). c_consumer c < m" using ok(2) by (auto simp: completion_ok_def)
  then have lt': "\<forall>c \<in># pending_of (ws_orderer s). c_consumer c < n" using m by auto
  have "sent_to k new = owed_to k (pending_of (ws_orderer s))" for k
    using drain_pending_sent [OF lt', of k] new(1) by (simp add: s')
  then have log: "t_log k new = t_pending k (ws_orderer s)" for k
    by (simp add: t_log_def t_pending_def t_log_owed)
  have small: "list_all (\<lambda>(k, rs). k < m \<and> rs \<noteq> []) new"
    using lt unfolding pend by (auto simp: new_def list_all_iff filter_empty_conv)
  have "length new \<le> n" unfolding new_def by (auto intro: order_trans [OF length_filter_le])
  with that new ok' log small show thesis by metis
qed

lemma ledger_closed:
  assumes led: "ledger e s" and en: "enabled e CloseWriter s"
  shows "ledger e (writer_close e s)"
proof -
  let ?wr = "sy_writer s"
  have c: "sy_main s = Started" "wr_outbox ?wr = []" using en by auto
  have shape: "in_shape e s" and m: "length (sy_pollers s) \<le> length (en_inputs e)"
    using led by (auto simp: ledger_def in_shape_def Let_def consumers_def)
  define ws where "ws = drain_pending (length (en_inputs e)) ((wr_state ?wr)\<lparr>ws_control := sy_control s\<rparr>)"
  have w: "orderer_ok (ws_orderer ((wr_state ?wr)\<lparr>ws_control := sy_control s\<rparr>))"
    "\<forall>c \<in># pending_of (ws_orderer ((wr_state ?wr)\<lparr>ws_control := sy_control s\<rparr>)). completion_ok e (length (sy_pollers s)) c"
    using shape by (simp_all add: in_shape_def Let_def writer_ok_def)
  obtain new where new: "ws_sent ws = ws_sent (wr_state ?wr) @ new"
    "list_all (\<lambda>(k, rs). k < length (sy_pollers s) \<and> rs \<noteq> []) new"
    "orderer_ok (ws_orderer ws)" "pending_of (ws_orderer ws) = {#}" "\<And>k. t_log k new = t_pending k (ws_orderer (wr_state ?wr))"
    by (rule drain_pending_books [OF m w ws_def]) (rule that, simp_all)
  define wr where "wr = ?wr\<lparr>wr_state := ws, wr_outbox := new, wr_phase := Draining\<rparr>"
  have s': "writer_close e s = s\<lparr>sy_control := ws_control ws, sy_writer := wr\<rparr>"
    by (simp add: writer_close_def set_phase_def writer_computes_def Let_def wr_def ws_def [symmetric] new(1))
  have out: "outstanding k (s\<lparr>sy_control := ws_control ws, sy_writer := wr\<rparr>) = outstanding k s" for k
    using outstanding_writer [of k wr "s\<lparr>sy_control := ws_control ws\<rparr>"] new(4,5) c(2) by (simp add: wr_def t_pending_def)
  have "in_shape e (s\<lparr>sy_control := ws_control ws, sy_writer := wr\<rparr>)"
    by (rule in_shape_writer) (use shape new c(1) in \<open>simp_all add: wr_def writer_ok_def\<close>)
  then show ?thesis unfolding s' by (intro ledger_transfer [OF led]) (simp_all add: out)
qed

lemma ledger_flushed:
  assumes led: "ledger e s" and en: "enabled e FlushWriter s"
  shows "ledger e (writer_flush e s)"
proof -
  let ?wr = "sy_writer s"
  define ws where "ws = final_flush (en_sink e) ((wr_state ?wr)\<lparr>ws_control := sy_control s\<rparr>)"
  have ws: "ws_sent ws = ws_sent (wr_state ?wr)" "ws_orderer ws = ws_orderer (wr_state ?wr)"
    by (auto simp: ws_def final_flush_def writer_failure_def split: option.split pipeline_error.split sum.split prod.split)
  define wr where "wr = ?wr\<lparr>wr_state := ws, wr_outbox := [], wr_phase := Over\<rparr>"
  have s': "writer_flush e s = s\<lparr>sy_control := ws_control ws, sy_writer := wr\<rparr>"
    by (simp add: writer_flush_def set_phase_def writer_computes_def Let_def wr_def ws_def [symmetric] ws(1))
  have out: "outstanding k (s\<lparr>sy_control := ws_control ws, sy_writer := wr\<rparr>) = outstanding k s" for k
    using outstanding_writer [of k wr "s\<lparr>sy_control := ws_control ws\<rparr>"] en by (simp add: wr_def ws)
  have "in_shape e (s\<lparr>sy_control := ws_control ws, sy_writer := wr\<rparr>)"
    by (rule in_shape_writer) (use led en in \<open>auto simp: ledger_def in_shape_def Let_def wr_def writer_ok_def ws\<close>)
  then show ?thesis unfolding s' by (intro ledger_transfer [OF led]) (simp_all add: out)
qed


lemma ledger_released:
  assumes led: "ledger e s" and en: "enabled e SendReleases s"
  shows "ledger e (writer_release s)"
proof -
  let ?wr = "sy_writer s"
  obtain k rs rest where box: "wr_outbox ?wr = (k, rs) # rest" using en by (auto split: list.splits)
  have shape: "in_shape e s" using led by (simp add: ledger_def)
  have k: "k < length (sy_pollers s)" "rs \<noteq> []" and len: "length (sy_pollers s) \<le> length (sy_releases s)"
    using shape box by (auto simp: in_shape_def Let_def writer_ok_def)
  define wr where "wr = ?wr\<lparr>wr_outbox := rest\<rparr>"
  let ?s = "s\<lparr>sy_writer := wr\<rparr>"
  have out: "outstanding j ?s + (if j = k then tickets rs else {#}) = outstanding j s" for j
    using outstanding_writer [of j wr s] box by (auto simp: wr_def add_ac)
  have shape': "in_shape e ?s"
    by (rule in_shape_writer) (use shape box in \<open>auto simp: in_shape_def Let_def wr_def writer_ok_def\<close>)
  show ?thesis
  proof (cases "release_refused s k")
    case True
    with k have gone: "pt_left (sy_pollers s ! k)" by (simp add: release_refused_def poller_gone_def)
    have s': "writer_release s = ?s" using True box by (simp add: writer_release_def wr_def Let_def)
    have "outstanding j ?s \<subseteq># outstanding j s" for j using out [of j] by (metis mset_subset_eq_add_left)
    moreover have "j \<noteq> k \<Longrightarrow> outstanding j ?s = outstanding j s" for j using out [of j] by simp
    ultimately show ?thesis unfolding s' by (intro ledger_transfer [OF led shape']) (simp_all, metis gone)
  next
    case False
    define s1 where "s1 = ?s\<lparr>sy_releases := (sy_releases s)[k := sy_releases s ! k @ [rs]]\<rparr>"
    have s': "writer_release s = s1" using False box by (simp add: writer_release_def wr_def Let_def s1_def)
    have "outstanding j s1 = outstanding j ?s + (if j = k then tickets rs else {#})" for j
      using k len by (auto simp: s1_def outstanding_def elsewhere_def add_ac)
    then have same: "outstanding j s1 = outstanding j s" for j using out [of j] by simp
    have "in_shape e s1"
      using shape' k len list_all_update [of "list_all (\<lambda>rs. rs \<noteq> [])" "sy_releases s" "sy_releases s ! k @ [rs]" k]
      by (simp add: in_shape_def Let_def s1_def list_all_length [of _ "sy_releases s"])
    then show ?thesis unfolding s' by (intro ledger_transfer [OF led]) (auto simp: same, simp_all add: s1_def)
  qed
qed

section \<open>A poller's turn\<close>

lemma queue_split:
  assumes "n \<le> length q"
  shows "concat q = concat (take n q) @ concat (drop n q)"
  by (metis append_take_drop_id concat_append)

lemma read_split:
  assumes "tn = meets s k n late" "n \<le> length (sy_releases s ! k)"
  shows "tickets (concat (sy_releases s ! k)) = tickets (concat (tn_releases tn)) + tickets (waited tn fl) +
    tickets (concat (drop (releases_read tn fl) (sy_releases s ! k)))"
proof -
  let ?q = "sy_releases s ! k"
  have tn: "tn_releases tn = take n ?q" "length (tn_releases tn) = n" using assms by (simp_all add: meets_def Let_def)
  have one: "tickets (concat (drop n ?q)) = tickets (waited tn fl) + tickets (concat (drop (releases_read tn fl) ?q))"
  proof (cases "fl = Waits \<and> \<not> late \<and> n < length ?q")
    case True
    then have "drop n ?q = ?q ! n # drop (Suc n) ?q" by (simp add: Cons_nth_drop_Suc)
    with True assms show ?thesis by (simp add: waited_def releases_read_def meets_def Let_def)
  next
    case False
    with assms show ?thesis by (auto simp: waited_def releases_read_def meets_def Let_def split: flow.splits)
  qed
  show ?thesis unfolding queue_split [OF assms(2)] tickets_simps tn(1) one by (simp add: add.assoc)
qed

text \<open>A running poller with nothing left to send meets the books of its turn.\<close>

lemma ledger_books:
  assumes led: "ledger e s" and k: "k < length (sy_pollers s)" "\<not> pt_left (sy_pollers s ! k)" "pt_outbox (sy_pollers s ! k) = []"
  defines "p \<equiv> pt_poller (sy_pollers s ! k)"
  shows "books k (destination_of (en_config e)) (members e k) (cf_limits (en_config e))
    (\<Sum>j \<in> {..<consumers e} - {k}. size (outstanding j s)) (\<Sum>j \<in> {..<consumers e} - {k}. weight (outstanding j s))
    (elsewhere k s + tickets (concat (sy_releases s ! k))) (length (pl_sent p)) (p\<lparr>pl_shared := sy_shared s\<rparr>)"
proof -
  let ?N = "consumers e"
  have shape: "in_shape e s" using led by (simp add: ledger_def)
  have kN: "k \<in> {..<?N}" using shape k(1) by (simp add: in_shape_def Let_def)
  have out: "outstanding k s = t_own p + (elsewhere k s + tickets (concat (sy_releases s ! k)))"
    using k by (simp add: outstanding_def t_poller_def p_def add_ac)
  have "poller_sound e k (sy_pollers s ! k)" using shape k(1) by (simp add: in_shape_def Let_def)
  moreover have "\<forall>r. in_flight_of (pl_admission p) r = in_partition r (outstanding k s)"
    using led k by (auto simp: ledger_def balanced_def p_def)
  moreover have "size (outstanding k s) + (\<Sum>j \<in> {..<?N} - {k}. size (outstanding j s)) \<le> sa_records (sy_shared s)"
    "weight (outstanding k s) + (\<Sum>j \<in> {..<?N} - {k}. weight (outstanding j s)) \<le> sa_bytes (sy_shared s)"
    using led sum.remove [OF _ kN, of "\<lambda>j. size (outstanding j s)"] sum.remove [OF _ kN, of "\<lambda>j. weight (outstanding j s)"]
    by (simp_all add: ledger_def)
  ultimately show ?thesis
    using shape unfolding out
    by (simp add: books_def poller_sound_def Let_def in_shape_def p_def t_own_def buffered_def add_ac)
qed

lemma ledger_turn:
  assumes led: "ledger e s" and en: "enabled e (Turn k n late) s"
  shows "ledger e (poller_turn e k n late s)"
proof -
  let ?pt = "sy_pollers s ! k" and ?p = "pt_poller (sy_pollers s ! k)" and ?N = "consumers e"
  define tn where "tn = meets s k n late"
  define body where "body = turn_body (en_kafka e) (en_config e) tn ?p"
  define q where "q = drop (releases_read tn (fst body)) (sy_releases s ! k)"
  obtain fl p' where w: "wait tn body = (fl, p')" by fastforce
  define ct where "ct = (if fl = Crashed then snd (guard_thread ''Kafka poll thread'' (None :: unit option, pl_control p'))
      else pl_control p')"
  define pt where "pt = \<lparr>pt_poller = p', pt_outbox = drop (length (pl_sent ?p)) (pl_sent p'), pt_left = (fl \<noteq> Again)\<rparr>"
  define s1 where "s1 = s\<lparr>sy_shared := pl_shared p', sy_control := ct, sy_releases := (sy_releases s)[k := q]\<rparr>"
  have s': "poller_turn e k n late s = set_poller k pt s1"
    by (simp add: poller_turn_def Let_def tn_def [symmetric] body_def [symmetric] w q_def [symmetric] ct_def [symmetric]
        pt_def [symmetric] s1_def)
  have k: "k < length (sy_pollers s)" "\<not> pt_left ?pt" "pt_outbox ?pt = []" "n \<le> length (sy_releases s ! k)" using en by auto
  have shape: "in_shape e s" using led by (simp add: ledger_def)
  have m: "length (sy_pollers s) \<le> ?N" "length (sy_releases s) = ?N" using shape by (simp_all add: in_shape_def Let_def)
  let ?dest = "destination_of (en_config e)" and ?P = "members e k" and ?lim = "cf_limits (en_config e)"
  let ?l = "length (pl_sent ?p)"
  define Y where "Y = elsewhere k s + tickets (concat q)"
  define others where "others = (\<Sum>j \<in> {..<?N} - {k}. size (outstanding j s))"
  define weights where "weights = (\<Sum>j \<in> {..<?N} - {k}. weight (outstanding j s))"
  have kN: "k \<in> {..<?N}" using k(1) m by simp
  have tn: "tn_shared tn (pl_shared ?p) = sy_shared s" "tn_refusal tn = None" by (simp_all add: tn_def meets_def Let_def)
  have split: "elsewhere k s + tickets (concat (sy_releases s ! k)) =
      Y + tickets (waited tn (fst body)) + tickets (concat (tn_releases tn))"
    using read_split [OF tn_def k(4), of "fst body"] by (simp add: Y_def q_def add_ac)
  have start: "books k ?dest ?P ?lim others weights (Y + tickets (waited tn (fst body)) + tickets (concat (tn_releases tn))) ?l
      (?p\<lparr>pl_shared := tn_shared tn (pl_shared ?p)\<rparr>)"
    using ledger_books [OF led k(1-3)] unfolding split tn(1) others_def weights_def .
  have "books k ?dest ?P ?lim others weights (Y + tickets (waited tn (fst body))) ?l (snd body)"
    using turn_body_books [OF start tn(2), of "en_kafka e" "en_config e"] by (simp add: body_def)
  from wait_books [OF this] w have fin: "books k ?dest ?P ?lim others weights Y ?l p'" by simp
  let ?s = "set_poller k pt s1"
  have own: "t_poller pt = t_own p' + t_sent (drop ?l (pl_sent p'))" by (simp add: t_poller_def pt_def)
  have out': "outstanding k ?s = t_own p' + Y + t_sent (drop ?l (pl_sent p'))"
    using k(1) m own by (simp add: outstanding_def elsewhere_def Y_def s1_def set_poller_def add_ac)
  have same: "outstanding j ?s = outstanding j s" if "j \<noteq> k" for j
    using that by (simp add: outstanding_def elsewhere_def s1_def set_poller_def)
  have sound': "poller_sound e k pt" using fin by (simp add: books_def poller_sound_def pt_def Let_def)
  have fin': "size (outstanding k ?s) + others \<le> sa_records (pl_shared p')" "weight (outstanding k ?s) + weights \<le> sa_bytes (pl_shared p')"
    "shared_ok ?lim (pl_shared p')" "\<forall>r. in_flight_of (pl_admission p') r = in_partition r (outstanding k ?s)"
    using fin unfolding out' by (simp_all add: books_def Let_def)
  have sums': "(\<Sum>j < ?N. size (outstanding j ?s)) \<le> sa_records (pl_shared p')" "(\<Sum>j < ?N. weight (outstanding j ?s)) \<le> sa_bytes (pl_shared p')"
    using fin'(1,2) sum.remove [OF _ kN, of "\<lambda>j. size (outstanding j ?s)"] sum.remove [OF _ kN, of "\<lambda>j. weight (outstanding j ?s)"]
    by (simp_all add: same others_def weights_def)
  have "list_all (list_all (\<lambda>rs. rs \<noteq> [])) ((sy_releases s)[k := q])"
  proof -
    have "list_all (\<lambda>rs. rs \<noteq> []) (sy_releases s ! k)"
      using shape k(1) m by (simp add: in_shape_def Let_def list_all_length)
    then have "list_all (\<lambda>rs. rs \<noteq> []) q" unfolding q_def by (auto simp: list_all_iff dest: in_set_dropD)
    then show ?thesis
      using shape by (intro list_all_update) (simp_all add: in_shape_def Let_def)
  qed
  then have "in_shape e s1" using shape fin'(3) by (simp add: in_shape_def Let_def s1_def)
  then have "in_shape e ?s" using k(1) sound' by (intro in_shape_poller) (simp_all add: s1_def)
  moreover have "balanced ?s j" if "j < length (sy_pollers s)" for j
  proof (cases "j = k")
    case True
    then show ?thesis using fin'(4) k(1) by (simp add: balanced_def s1_def pt_def)
  next
    case False
    have "balanced s j" using led that by (simp add: ledger_def)
    with False that show ?thesis unfolding balanced_def same [OF False] by (simp add: s1_def)
  qed
  moreover have "outstanding j ?s = {#}" if "j < ?N" "length (sy_pollers s) \<le> j" for j
    using that k(1) led same [of j] by (auto simp: ledger_def)
  ultimately show ?thesis using sums' unfolding s' ledger_def by (simp add: s1_def)
qed

theorem ledger_step: "lawful e contents \<Longrightarrow> ledger e s \<Longrightarrow> enabled e a s \<Longrightarrow> ledger e (perform e a s)"
proof (cases a)
  case Interrupt
  assume "ledger e s"
  with Interrupt show "ledger e (perform e a s)" by simp
qed (auto simp del: enabled.simps intro: ledger_turn ledger_send ledger_work_taken ledger_result_sent ledger_completions_taken
    ledger_released ledger_closed ledger_flushed intro!: ledger_start_thread ledger_refuse ledger_worker_ended
    simp: enabled.simps(1,4,7))

end
