(* ===== verification/Run_Progress.thy ===== *)
theory Run_Progress
  imports Run_Ledger
begin

text \<open>
  That the pipeline always winds down: no thread can block for good, and once a shutdown is requested every
  step leaves less, or no more, to do.
\<close>

section \<open>Control only moves towards shutdown\<close>

lemma take_back_keeps:
  "pl_buffer (take_back rs p) = pl_buffer p" "pl_sent (take_back rs p) = pl_sent p"
  "pl_stopping (take_back rs p) = pl_stopping p"
  "ct_shutdown (pl_control p) \<Longrightarrow> ct_shutdown (pl_control (take_back rs p))"
  by (simp_all add: take_back_def fail_def runtime_failure_def Let_def split: prod.split sum.split)

lemma take_back_all_keeps:
  "pl_buffer (fold take_back rss p) = pl_buffer p" "pl_sent (fold take_back rss p) = pl_sent p"
  "pl_stopping (fold take_back rss p) = pl_stopping p"
  "ct_shutdown (pl_control p) \<Longrightarrow> ct_shutdown (pl_control (fold take_back rss p))"
  by (induction rss arbitrary: p) (simp_all add: take_back_keeps)

lemma begin_turn_keeps:
  "pl_buffer (begin_turn tn p) = pl_buffer p" "pl_sent (begin_turn tn p) = pl_sent p"
  "ct_shutdown (tn_control tn (pl_control p)) \<Longrightarrow> pl_stopping (begin_turn tn p) \<and> ct_shutdown (pl_control (begin_turn tn p))"
  by (simp_all add: begin_turn_def Let_def take_back_all_keeps)

lemma wait_keeps:
  "pl_buffer (snd (wait tn body)) = pl_buffer (snd body)" "pl_sent (snd (wait tn body)) = pl_sent (snd body)"
  "ct_shutdown (pl_control (snd body)) \<Longrightarrow> ct_shutdown (pl_control (snd (wait tn body)))"
  "fst body \<in> {Stopped, Waits} \<Longrightarrow> fst (wait tn body) \<in> {Stopped, Again}"
  by (cases body; auto simp: wait_def take_back_keeps fail_def runtime_failure_def split: flow.splits received.splits)+

text \<open>A stopping iteration: the buffer goes out as one batch, and afterwards there is none.\<close>

lemma stopping_keeps:
  assumes "tn_refusal tn = None" "stopping tn p = (fl, p')"
  shows "pl_buffer p' = None \<and> fl \<in> {Stopped, Waits} \<and> (ct_shutdown (pl_control p) \<longrightarrow> ct_shutdown (pl_control p')) \<and>
    (\<exists>sent. pl_sent p' = pl_sent p @ sent \<and> length sent \<le> (if pl_buffer p = None then 0 else 1)) \<and>
    (fl = Waits \<longrightarrow> total_records (pl_admission p') \<noteq> 0)"
  using assms
  by (auto simp: stopping_def flush_or_stop_def buffer_flush_def Let_def split: option.splits if_splits destination.splits)

lemma running_without_buffer: "pl_buffer p = None \<Longrightarrow> running ko cf tn p = (Crashed, p)"
  by (simp add: running_def)

lemma turn_without_buffer:
  assumes "pl_buffer p = None" "tn_refusal tn = None" "wait tn (turn_body ko cf tn p) = (fl, p')"
  shows "pl_buffer p' = None \<and> pl_sent p' = pl_sent p"
proof -
  let ?p = "begin_turn tn p"
  obtain fl1 p1 where st: "stopping tn ?p = (fl1, p1)" by fastforce
  have none: "pl_buffer ?p = None" by (simp add: begin_turn_keeps assms(1))
  from stopping_keeps [OF assms(2) st] none have "pl_buffer p1 = None" "pl_sent p1 = pl_sent ?p" by auto
  with st none have "pl_buffer (snd (turn_body ko cf tn p)) = None \<and> pl_sent (snd (turn_body ko cf tn p)) = pl_sent p"
    by (simp add: turn_body_def Let_def running_without_buffer begin_turn_keeps)
  with assms(3) wait_keeps(1,2) [of tn "turn_body ko cf tn p"] show ?thesis by simp
qed

lemma turn_shutting_down:
  assumes down: "ct_shutdown (tn_control tn (pl_control p))" and none: "tn_refusal tn = None"
    and turn: "wait tn (turn_body ko cf tn p) = (fl, p')"
  shows "pl_buffer p' = None" "fl \<in> {Stopped, Again}" "ct_shutdown (pl_control p')"
    "\<exists>sent. pl_sent p' = pl_sent p @ sent \<and> length sent \<le> (if pl_buffer p = None then 0 else 1)"
    "fl = Stopped \<or> fst (turn_body ko cf tn p) = Waits \<and> tn_received tn \<noteq> ReceivedDisconnect"
proof -
  let ?p = "begin_turn tn p"
  note b = begin_turn_keeps(3) [OF down]
  obtain fl1 p1 where st: "stopping tn ?p = (fl1, p1)" by fastforce
  have body: "turn_body ko cf tn p = (fl1, p1)" using b st by (simp add: turn_body_def Let_def)
  note k = stopping_keeps [OF none st]
  from turn body wait_keeps [where tn = tn and body = "(fl1, p1)"] k b show "pl_buffer p' = None" "fl \<in> {Stopped, Again}"
    "ct_shutdown (pl_control p')" by auto
  from turn body wait_keeps(2) [of tn "(fl1, p1)"] k show
    "\<exists>sent. pl_sent p' = pl_sent p @ sent \<and> length sent \<le> (if pl_buffer p = None then 0 else 1)"
    by (simp add: begin_turn_keeps)
  from turn body k show "fl = Stopped \<or> fst (turn_body ko cf tn p) = Waits \<and> tn_received tn \<noteq> ReceivedDisconnect"
    by (auto simp: wait_def)
qed

lemma writer_failure_shutdown: "ct_shutdown (ws_control (writer_failure err s))"
  by (simp add: writer_failure_def)

lemma emit_one_shutdown: "ct_shutdown (ws_control s) \<Longrightarrow> ct_shutdown (ws_control (emit_one js ops cf c s))"
  by (auto simp: emit_one_def writer_failure_shutdown split: completion_outcome.split prod.split sum.split)

lemma fold_emit_shutdown: "ct_shutdown (ws_control s) \<Longrightarrow> ct_shutdown (ws_control (fold (emit_one js ops cf) cs s))"
  by (induction cs arbitrary: s) (simp_all add: emit_one_shutdown)

lemma take_completion_shutdown:
  "ct_shutdown (ws_control (fst sr)) \<Longrightarrow> ct_shutdown (ws_control (fst (take_completion js ops cf c sr)))"
  by (auto simp: take_completion_def writer_failure_shutdown fold_emit_shutdown split: prod.split sum.split)

lemma take_items_shutdown:
  "ct_shutdown (ws_control (fst sr)) \<Longrightarrow> ct_shutdown (ws_control (fst (fold (take_completion js ops cf) cs sr)))"
  by (induction cs arbitrary: sr) (simp_all add: take_completion_shutdown)

lemma take_batch_shutdown: "ct_shutdown (ws_control s) \<Longrightarrow> ct_shutdown (ws_control (take_batch js ops cf b s))"
  using take_items_shutdown [of "(s, [])" js ops cf "cb_items b"] by (auto simp: take_batch_def split: prod.split)

lemma drain_pending_shutdown: "ct_shutdown (ws_control s) \<Longrightarrow> ct_shutdown (ws_control (drain_pending n s))"
  by (auto simp: drain_pending_def writer_failure_shutdown split: prod.split)

lemma final_flush_shutdown: "ct_shutdown (ws_control s) \<Longrightarrow> ct_shutdown (ws_control (final_flush ops s))"
  by (auto simp: final_flush_def writer_failure_shutdown split: option.split pipeline_error.split sum.split prod.split)

lemma shutdown_stays:
  assumes "ct_shutdown (sy_control s)" "enabled e a s"
  shows "ct_shutdown (sy_control (perform e a s))"
proof (cases a)
  case (StartThread err)
  with assms show ?thesis
    by (auto simp: start_thread_def start_writing_def thread_start_failure_def Let_def split: main_pc.split option.split)
next
  case (Turn k n late)
  let ?tn = "meets s k n late" and ?p = "pt_poller (sy_pollers s ! k)"
  have "ct_shutdown (tn_control ?tn (pl_control ?p))" "tn_refusal ?tn = None" using assms(1) by (simp_all add: meets_def Let_def)
  from turn_shutting_down [OF this] Turn show ?thesis
    by (auto simp: poller_turn_def Let_def guard_thread_def split: prod.split)
next
  case (Send k)
  with assms(1) show ?thesis by (simp add: poller_send_def Let_def split: dispatch.split)
next
  case (Refuse k err)
  then show ?thesis by (simp add: poller_refused_def Let_def fail_def runtime_failure_def)
next
  case (SendResult j)
  with assms(1) show ?thesis by (simp add: worker_send_def Let_def split: option.split)
next
  case SendReleases
  with assms(1) show ?thesis by (simp add: writer_release_def Let_def split: prod.split)
qed (use assms(1) in \<open>simp_all add: worker_take_def worker_end_def writer_take_def writer_close_def writer_flush_def
    set_phase_def writer_computes_def take_batch_shutdown drain_pending_shutdown final_flush_shutdown Let_def split: prod.split\<close>)


lemmas perform_defs = start_thread_def start_writing_def poller_turn_def poller_send_def poller_refused_def
  worker_take_def worker_send_def worker_end_def writer_take_def writer_release_def writer_close_def writer_flush_def
  set_phase_def writer_computes_def Let_def

section \<open>Channel ends that are gone stay gone\<close>

lemma turn_holds_sender:
  assumes "enabled e (Turn k n late) s" "\<not> holds_sender (sy_pollers s ! k)"
  shows "\<not> holds_sender (sy_pollers (poller_turn e k n late s) ! k)"
proof -
  let ?tn = "meets s k n late" and ?p = "pt_poller (sy_pollers s ! k)"
  obtain fl p' where w: "wait ?tn (turn_body (en_kafka e) (en_config e) ?tn ?p) = (fl, p')" by fastforce
  have none: "pl_buffer ?p = None" using assms by (auto simp: holds_sender_def)
  have "tn_refusal ?tn = None" by (simp add: meets_def Let_def)
  from turn_without_buffer [OF none this w] assms(1) show ?thesis
    by (simp add: poller_turn_def Let_def w set_poller_def holds_sender_def)
qed

lemma perform_pollers:
  assumes "enabled e a s" "j < length (sy_pollers s)" "\<not> holds_sender (sy_pollers s ! j)"
  shows "j < length (sy_pollers (perform e a s)) \<and> \<not> holds_sender (sy_pollers (perform e a s) ! j)"
proof (cases a)
  case (StartThread err)
  with assms show ?thesis
    by (auto simp: start_thread_def start_writing_def Let_def nth_append split: main_pc.split option.split)
next
  case (Turn k n late)
  show ?thesis
  proof (cases "j = k")
    case True
    with Turn turn_holds_sender [of e k n late s] assms show ?thesis
      by (simp add: poller_turn_def Let_def split: prod.split)
  next
    case False
    with Turn assms show ?thesis by (simp add: poller_turn_def Let_def set_poller_def split: prod.split)
  qed
next
  case (Send k)
  with assms show ?thesis
    by (auto simp: poller_send_def Let_def holds_sender_def split: dispatch.split list.splits)
next
  case (Refuse k err)
  with assms show ?thesis
    by (auto simp: poller_refused_def Let_def holds_sender_def)
next
  case (SendResult i)
  with assms show ?thesis by (simp add: worker_send_def Let_def split: option.split)
next
  case SendReleases
  with assms show ?thesis by (simp add: writer_release_def Let_def split: prod.split)
qed (use assms in \<open>simp_all add: worker_take_def worker_end_def writer_take_def writer_close_def writer_flush_def
    set_phase_def writer_computes_def Let_def split: prod.split\<close>)

lemma perform_pollers_length:
  "length (sy_pollers (perform e a s)) = length (sy_pollers s) \<or> (\<exists>i. sy_main s = StartPollers i)"
  by (cases a) (auto simp: perform_defs split: main_pc.split option.split dispatch.split prod.split)

lemma perform_workers:
  assumes "enabled e a s" "i < length (sy_workers s)" "wt_left (sy_workers s ! i)"
  shows "i < length (sy_workers (perform e a s)) \<and> wt_left (sy_workers (perform e a s) ! i)"
  using assms
  by (cases a) (auto simp: perform_defs nth_append split: main_pc.split option.split dispatch.split prod.split)

lemma perform_workers_length:
  "length (sy_workers (perform e a s)) = length (sy_workers s) \<or> (\<exists>j. sy_main s = StartWorkers j)"
  by (cases a) (auto simp: perform_defs split: main_pc.split option.split dispatch.split prod.split)

lemma perform_main:
  "sy_main (perform e a s) = sy_main s \<or> (\<exists>err. a = StartThread err)"
  by (cases a) (simp_all add: perform_defs split: option.split dispatch.split prod.split)

lemma start_thread_main:
  "sy_main s \<noteq> Started \<Longrightarrow> sy_main (start_thread e err s) =
     (case sy_main s of StartReporter \<Rightarrow> StartPollers 0
      | StartPollers i \<Rightarrow> if i < length (en_inputs e) \<and> err = None then StartPollers (i + 1) else StartWorkers 0
      | StartWorkers j \<Rightarrow> if j < worker_count e \<and> err = None then StartWorkers (j + 1) else Started
      | Started \<Rightarrow> Started)"
  by (auto simp: start_thread_def start_writing_def Let_def split: main_pc.split option.split)

lemma work_senders_gone:
  assumes "enabled e a s" "\<not> work_senders s"
  shows "\<not> work_senders (perform e a s)"
proof -
  have main: "case sy_main s of StartReporter \<Rightarrow> False | StartPollers _ \<Rightarrow> False | _ \<Rightarrow> True"
    and hold: "\<forall>j < length (sy_pollers s). \<not> holds_sender (sy_pollers s ! j)"
    using assms(2) by (auto simp: work_senders_def list_ex_iff split: main_pc.splits)
  have len: "length (sy_pollers (perform e a s)) = length (sy_pollers s)"
    using perform_pollers_length [of e a s] main by auto
  have "\<forall>j < length (sy_pollers s). \<not> holds_sender (sy_pollers (perform e a s) ! j)"
    using perform_pollers [OF assms(1)] hold by blast
  then have "\<not> list_ex holds_sender (sy_pollers (perform e a s))" using len by (auto simp: list_ex_length)
  moreover have "case sy_main (perform e a s) of StartReporter \<Rightarrow> False | StartPollers _ \<Rightarrow> False | _ \<Rightarrow> True"
    using perform_main [of e a s] main assms(1) start_thread_main [of s e]
    by (auto split: main_pc.splits if_splits)
  ultimately show ?thesis by (auto simp: work_senders_def split: main_pc.splits)
qed

lemma completion_senders_gone:
  assumes "enabled e a s" "\<not> completion_senders e s"
  shows "\<not> completion_senders e (perform e a s)"
proof -
  have main: "sy_main s = Started" and left: "\<forall>i < length (sy_workers s). wt_left (sy_workers s ! i)"
    and hold: "tp_parses_json (cf_transform (en_config e)) \<or> (\<forall>j < length (sy_pollers s). \<not> holds_sender (sy_pollers s ! j))"
    using assms(2) by (auto simp: completion_senders_def list_ex_length)
  have "sy_main (perform e a s) = Started" using perform_main [of e a s] main assms(1) by auto
  moreover have "length (sy_pollers (perform e a s)) = length (sy_pollers s)" "length (sy_workers (perform e a s)) = length (sy_workers s)"
    using perform_pollers_length [of e a s] perform_workers_length [of e a s] main by auto
  ultimately show ?thesis
    using perform_pollers [OF assms(1)] perform_workers [OF assms(1)] left hold
    by (auto simp: completion_senders_def list_ex_length)
qed


section \<open>Where the threads are\<close>

definition phases :: "('x, 'i, 'e, 'v, 'k, 'w) setting \<Rightarrow> ('x, 'k, 'w) pipeline \<Rightarrow> bool" where
  "phases e s \<longleftrightarrow>
     length (sy_workers s) \<le> worker_count e \<and>
     (case sy_main s of StartReporter \<Rightarrow> sy_workers s = [] | StartPollers _ \<Rightarrow> sy_workers s = []
      | StartWorkers j \<Rightarrow> j = length (sy_workers s) | Started \<Rightarrow> True) \<and>
     (sy_main s \<noteq> Started \<longrightarrow> wr_phase (sy_writer s) = Receiving \<and> wr_outbox (sy_writer s) = []) \<and>
     (wr_phase (sy_writer s) \<noteq> Receiving \<longrightarrow> sy_completions s = [] \<and> \<not> completion_senders e s) \<and>
     (wr_phase (sy_writer s) = Over \<longrightarrow> wr_outbox (sy_writer s) = []) \<and>
     (list_ex wt_left (sy_workers s) \<longrightarrow> sy_work s = [] \<and> \<not> work_senders s) \<and>
     list_all (\<lambda>wt. wt_result wt \<noteq> None \<longrightarrow> \<not> wt_left wt) (sy_workers s)"

lemma phases_start: "phases e (pipeline_start e w shutdown)"
  by (simp add: phases_def pipeline_start_def Let_def)

lemma sent_kind:
  assumes "ledger e s" "k < length (sy_pollers s)" "d \<in> set (pt_outbox (sy_pollers s ! k))"
  shows "(\<exists>b. d = SentWork b) = tp_parses_json (cf_transform (en_config e))"
proof -
  have "dispatch_ok k (destination_of (en_config e)) (members e k) d"
    using assms by (auto simp: ledger_def in_shape_def Let_def poller_sound_def list_all_iff)
  then show ?thesis by (auto simp: dispatch_ok_def destination_of_def package_def split: if_splits)
qed

lemma worker_counted: "worker_count e = 0 \<longleftrightarrow> \<not> tp_parses_json (cf_transform (en_config e)) \<or> record_capacity e = 0"
  by (auto simp: worker_count_def evaluators_def evaluator_count_def record_capacity_def)

lemma completions_grow:
  assumes "ledger e s" "enabled e a s" "sy_completions (perform e a s) \<noteq> []" "sy_completions s = []"
  shows "completion_senders e s"
  using assms(2-4) sent_kind [OF assms(1)]
  by (cases a) (auto simp: perform_defs completion_senders_def list_ex_length holds_sender_def
      split: main_pc.splits option.splits dispatch.splits prod.splits list.splits if_splits,
    metis dispatch.distinct(1) list.set_intros(1))

lemma work_grows:
  assumes "enabled e a s" "sy_work (perform e a s) \<noteq> []" "sy_work s = []"
  shows "work_senders s"
  using assms
  by (cases a) (auto simp: perform_defs work_senders_def list_ex_length holds_sender_def
      split: main_pc.splits option.splits dispatch.splits prod.splits list.splits if_splits)


text \<open>The phases one after the other.\<close>

lemma perform_writer:
  assumes "enabled e a s" "phases e s"
  shows "(sy_main (perform e a s) \<noteq> Started \<longrightarrow> wr_phase (sy_writer (perform e a s)) = Receiving \<and> wr_outbox (sy_writer (perform e a s)) = [])"
    and "wr_phase (sy_writer (perform e a s)) \<noteq> Receiving \<longrightarrow> wr_phase (sy_writer s) \<noteq> Receiving \<or>
      sy_completions s = [] \<and> \<not> completion_senders e s"
    and "wr_phase (sy_writer (perform e a s)) = Over \<longrightarrow> wr_outbox (sy_writer (perform e a s)) = []"
  using assms
  by (cases a; auto simp: perform_defs phases_def split: main_pc.splits option.splits dispatch.splits prod.splits list.splits if_splits)+


lemma perform_worker_counts:
  assumes "enabled e a s" "phases e s"
  shows "length (sy_workers (perform e a s)) \<le> worker_count e \<and>
     (case sy_main (perform e a s) of StartReporter \<Rightarrow> sy_workers (perform e a s) = []
      | StartPollers _ \<Rightarrow> sy_workers (perform e a s) = []
      | StartWorkers j \<Rightarrow> j = length (sy_workers (perform e a s)) | Started \<Rightarrow> True)"
  using assms
  by (cases a) (auto simp: perform_defs phases_def split: main_pc.splits option.splits dispatch.splits prod.splits if_splits)

lemma newly_left:
  assumes "enabled e a s" "list_ex wt_left (sy_workers (perform e a s))"
  shows "list_ex wt_left (sy_workers s) \<or> sy_work s = [] \<and> \<not> work_senders s"
proof (cases "\<exists>j. a = EndWorker j")
  case True
  with assms(1) show ?thesis by auto
next
  case False
  have "wt_left wt \<longrightarrow> list_ex wt_left (sy_workers s)" if "wt \<in> set (sy_workers (perform e a s))" for wt
    using that False assms(1)
    by (cases a) (auto simp: perform_defs set_worker_def list_ex_iff dest!: in_set_conv_nth [THEN iffD1]
        split: main_pc.splits option.splits dispatch.splits prod.splits if_splits,
      auto simp: nth_list_update split: if_splits intro: nth_mem)
  with assms(2) show ?thesis by (auto simp: list_ex_iff)
qed

lemma perform_results:
  assumes "enabled e a s" "phases e s"
  shows "list_all (\<lambda>wt. wt_result wt \<noteq> None \<longrightarrow> \<not> wt_left wt) (sy_workers (perform e a s))"
proof -
  have "list_all (\<lambda>wt. wt_result wt \<noteq> None \<longrightarrow> \<not> wt_left wt) (sy_workers s)" using assms(2) by (simp add: phases_def)
  with assms(1) show ?thesis
    by (cases a) (auto simp: perform_defs set_worker_def intro!: list_all_update
      split: main_pc.splits option.splits dispatch.splits prod.splits if_splits)
qed

lemma phases_step:
  assumes led: "ledger e s" and ph: "phases e s" and en: "enabled e a s"
  shows "phases e (perform e a s)"
proof -
  let ?s = "perform e a s"
  have "sy_completions ?s = [] \<and> \<not> completion_senders e ?s" if "wr_phase (sy_writer ?s) \<noteq> Receiving"
  proof -
    have "sy_completions s = [] \<and> \<not> completion_senders e s"
      using perform_writer(2) [OF en ph] that ph by (auto simp: phases_def)
    with completion_senders_gone [OF en] completions_grow [OF led en] show ?thesis by blast
  qed
  moreover have "sy_work ?s = [] \<and> \<not> work_senders ?s" if "list_ex wt_left (sy_workers ?s)"
  proof -
    have "sy_work s = [] \<and> \<not> work_senders s"
      using newly_left [OF en that] ph by (auto simp: phases_def)
    with work_senders_gone [OF en] work_grows [OF en] show ?thesis by blast
  qed
  ultimately show ?thesis
    unfolding phases_def using perform_worker_counts [OF en ph] perform_writer [OF en ph] perform_results [OF en ph] by blast
qed

section \<open>The work left\<close>

text \<open>
  An upper bound for the steps the pipeline still needs once it shuts down: every batch has a number of channels to
  go through, a poller still has its buffer to hand out, and every thread has to end.
\<close>

definition left_poller :: "'k poller_thread \<Rightarrow> nat" where
  "left_poller pt = (if pt_left pt then 0 else if pl_buffer (pt_poller pt) = None then 1 else 8) + 6 * length (pt_outbox pt)"

definition left_worker :: "'x worker_thread \<Rightarrow> nat" where
  "left_worker wt = (if wt_left wt then 0 else 1) + (if wt_result wt = None then 0 else 4)"

definition left_main :: "('x, 'i, 'e, 'v, 'k, 'w) setting \<Rightarrow> main_pc \<Rightarrow> nat" where
  "left_main e pc = (case pc of
      StartReporter \<Rightarrow> 9 * consumers e + 2 * worker_count e + 3
    | StartPollers i \<Rightarrow> 9 * (consumers e - i) + 2 * worker_count e + 2
    | StartWorkers j \<Rightarrow> 2 * (worker_count e - j) + 1
    | Started \<Rightarrow> 0)"

definition left_writer :: "('x, 'i, 'e, 'v, 'k, 'w) setting \<Rightarrow> 'w writer_thread \<Rightarrow> nat" where
  "left_writer e wr = 2 * length (wr_outbox wr) +
     (case wr_phase wr of Receiving \<Rightarrow> 2 * consumers e + 2 | Draining \<Rightarrow> 1 | Over \<Rightarrow> 0)"

definition left_to_do :: "('x, 'i, 'e, 'v, 'k, 'w) setting \<Rightarrow> ('x, 'k, 'w) pipeline \<Rightarrow> nat" where
  "left_to_do e s = left_main e (sy_main s) + sum_list (map left_poller (sy_pollers s)) +
     sum_list (map left_worker (sy_workers s)) + left_writer e (sy_writer s) +
     5 * length (sy_work s) + 3 * length (sy_completions s) + sum_list (map length (sy_releases s))"

lemma left_set_poller:
  "k < length (sy_pollers s) \<Longrightarrow>
     left_to_do e (set_poller k pt s) + left_poller (sy_pollers s ! k) = left_to_do e s + left_poller pt"
  using sum_list_map_update [of k "sy_pollers s" left_poller pt] by (simp add: left_to_do_def set_poller_def)

lemma left_set_worker:
  "j < length (sy_workers s) \<Longrightarrow>
     left_to_do e (set_worker j wt s) + left_worker (sy_workers s ! j) = left_to_do e s + left_worker wt"
  using sum_list_map_update [of j "sy_workers s" left_worker wt] by (simp add: left_to_do_def set_worker_def)

lemma left_poller_less:
  assumes "k < length (sy_pollers s)" "left_poller pt + d \<le> left_poller (sy_pollers s ! k) + c"
  shows "left_to_do e (set_poller k pt s) + d \<le> left_to_do e s + c"
  using left_set_poller [OF assms(1), of e pt] assms(2) by linarith

lemma left_worker_less:
  assumes "j < length (sy_workers s)" "left_worker wt + d \<le> left_worker (sy_workers s ! j) + c"
  shows "left_to_do e (set_worker j wt s) + d \<le> left_to_do e s + c"
  using left_set_worker [OF assms(1), of e wt] assms(2) by linarith

lemma left_control [simp]: "left_to_do e (s\<lparr>sy_control := ct\<rparr>) = left_to_do e s"
  by (simp add: left_to_do_def)

lemma left_start_thread: "sy_main s \<noteq> Started \<Longrightarrow> left_to_do e (start_thread e err s) < left_to_do e s"
  by (auto simp: start_thread_def start_writing_def left_to_do_def left_main_def left_poller_def left_worker_def
      left_writer_def consumers_def poller_new_def Let_def split: main_pc.split option.split)


lemma left_send:
  assumes "enabled e (Send k) s"
  shows "left_to_do e (poller_send k s) < left_to_do e s"
proof -
  let ?pt = "sy_pollers s ! k" and ?s = "set_poller k ((sy_pollers s ! k)\<lparr>pt_outbox := tl (pt_outbox (sy_pollers s ! k))\<rparr>) s"
  have k: "k < length (sy_pollers s)" using assms by simp
  obtain d ds where ds: "pt_outbox ?pt = d # ds" using assms by (auto split: list.splits)
  have "left_to_do e ?s + 6 \<le> left_to_do e s + 0"
    by (rule left_poller_less [OF k]) (simp add: left_poller_def ds split: if_split)
  moreover have "left_to_do e (poller_send k s) < left_to_do e ?s + 6"
    by (simp add: poller_send_def Let_def ds left_to_do_def split: dispatch.split)
  ultimately show ?thesis by simp
qed

lemma left_refused:
  assumes "enabled e (Refuse k err) s"
  shows "left_to_do e (poller_refused k err s) < left_to_do e s"
proof -
  let ?pt = "sy_pollers s ! k"
  have k: "k < length (sy_pollers s)" and out: "0 < length (pt_outbox ?pt)" using assms by (auto split: list.splits)
  have "left_to_do e (set_poller k (?pt\<lparr>pt_poller := p, pt_outbox := [], pt_left := True\<rparr>) (s\<lparr>sy_control := ct\<rparr>)) + 1
      \<le> left_to_do e (s\<lparr>sy_control := ct\<rparr>) + 0" for p ct
    by (rule left_poller_less) (use k out in \<open>simp_all add: left_poller_def Suc_le_eq\<close>)
  then show ?thesis by (simp add: poller_refused_def Let_def Suc_le_eq)
qed

lemma left_work_taken:
  assumes "enabled e (TakeWork j) s"
  shows "left_to_do e (worker_take e j s) < left_to_do e s"
proof -
  let ?s = "s\<lparr>sy_work := tl (sy_work s)\<rparr>" and ?wt = "sy_workers s ! j"
  have j: "j < length (sy_workers s)" "wt_result ?wt = None" "sy_work s \<noteq> []" using assms by auto
  have fewer: "left_to_do e ?s + 5 = left_to_do e s" using j(3) by (cases "sy_work s") (simp_all add: left_to_do_def)
  have "left_to_do e (set_worker j (?wt\<lparr>wt_worker := w, wt_stats := st, wt_result := Some b, wt_taken := ts\<rparr>) ?s) + 0
      \<le> left_to_do e ?s + 4" for w st b ts
    by (rule left_worker_less) (use j in \<open>simp_all add: left_worker_def\<close>)
  note less = le_less_trans [OF this, of "left_to_do e s"]
  show ?thesis using less fewer by (simp add: worker_take_def Let_def split: prod.split)
qed

lemma left_result_sent:
  assumes "enabled e (SendResult j) s"
  shows "left_to_do e (worker_send j s) < left_to_do e s"
proof -
  let ?wt = "sy_workers s ! j"
  obtain b where j: "j < length (sy_workers s)" "wt_result ?wt = Some b" using assms by auto
  let ?s = "s\<lparr>sy_completions := sy_completions s @ [b]\<rparr>"
  have "left_to_do e (set_worker j (?wt\<lparr>wt_result := None\<rparr>) ?s) + 4 \<le> left_to_do e ?s + 0"
    by (rule left_worker_less) (use j in \<open>simp_all add: left_worker_def\<close>)
  moreover have "left_to_do e ?s = left_to_do e s + 3" by (simp add: left_to_do_def)
  ultimately show ?thesis by (simp add: worker_send_def j(2))
qed

lemma left_worker_ended:
  assumes "enabled e (EndWorker j) s"
  shows "left_to_do e (worker_end j s) < left_to_do e s"
proof -
  have "left_to_do e (set_worker j ((sy_workers s ! j)\<lparr>wt_left := True\<rparr>) s) + 1 \<le> left_to_do e s + 0"
    by (rule left_worker_less) (use assms in \<open>simp_all add: left_worker_def\<close>)
  then show ?thesis by (simp add: worker_end_def)
qed

lemma left_completions_taken:
  assumes "enabled e TakeCompletions s"
  shows "left_to_do e (writer_take e s) < left_to_do e s"
proof -
  let ?wr = "sy_writer s" and ?b = "hd (sy_completions s)"
  let ?ws = "take_batch (en_json e) (en_sink e) (en_config e) ?b ((wr_state ?wr)\<lparr>ws_control := sy_control s\<rparr>)"
  have c: "wr_outbox ?wr = []" "sy_completions s \<noteq> []" using assms by auto
  have "length (drop (length (ws_sent (wr_state ?wr))) (ws_sent ?ws)) \<le> 1"
    by (cases rule: take_batch_sent [of "en_json e" "en_sink e" "en_config e" ?b "(wr_state ?wr)\<lparr>ws_control := sy_control s\<rparr>"])
      simp_all
  moreover have "length (tl (sy_completions s)) + 1 = length (sy_completions s)" using c(2) by (cases "sy_completions s") simp_all
  ultimately show ?thesis
    using c(1) by (simp add: writer_take_def writer_computes_def left_to_do_def left_writer_def Let_def)
qed

lemma left_released:
  assumes "enabled e SendReleases s"
  shows "left_to_do e (writer_release s) < left_to_do e s"
proof -
  obtain k rs rest where box: "wr_outbox (sy_writer s) = (k, rs) # rest" using assms by (auto split: list.splits)
  have "sum_list (map length ((sy_releases s)[k := sy_releases s ! k @ [rs]])) \<le> sum_list (map length (sy_releases s)) + 1"
  proof (cases "k < length (sy_releases s)")
    case True
    from sum_list_map_update [OF this, of length "sy_releases s ! k @ [rs]"] show ?thesis by simp
  qed (simp add: list_update_beyond)
  with box show ?thesis by (simp add: writer_release_def Let_def left_to_do_def left_writer_def)
qed

lemma left_closed:
  assumes "enabled e CloseWriter s"
  shows "left_to_do e (writer_close e s) < left_to_do e s"
proof -
  let ?ws = "drain_pending (length (en_inputs e)) ((wr_state (sy_writer s))\<lparr>ws_control := sy_control s\<rparr>)"
  have "length (drop (length (ws_sent (wr_state (sy_writer s)))) (ws_sent ?ws)) \<le> length (en_inputs e)"
    by (auto simp: drain_pending_def writer_failure_def split: prod.split intro: order_trans [OF length_filter_le])
  then show ?thesis
    using assms by (simp add: writer_close_def set_phase_def writer_computes_def left_to_do_def left_writer_def Let_def consumers_def)
qed

lemma left_flushed:
  assumes "enabled e FlushWriter s"
  shows "left_to_do e (writer_flush e s) < left_to_do e s"
  using assms
  by (simp add: writer_flush_def set_phase_def writer_computes_def left_to_do_def left_writer_def Let_def)


text \<open>A turn after the request: it can only hand out its last batch and take releases.\<close>

lemma left_turn:
  assumes down: "ct_shutdown (sy_control s)" and en: "enabled e (Turn k n late) s" and len: "length (sy_pollers s) \<le> length (sy_releases s)"
  shows "left_to_do e (poller_turn e k n late s) \<le> left_to_do e s"
    and "pl_buffer (pt_poller (sy_pollers s ! k)) \<noteq> None \<or> 0 < n \<or> wr_phase (sy_writer s) = Over \<and> n = length (sy_releases s ! k) \<and> \<not> late
      \<Longrightarrow> left_to_do e (poller_turn e k n late s) < left_to_do e s"
proof -
  let ?pt = "sy_pollers s ! k" and ?p = "pt_poller (sy_pollers s ! k)" and ?q = "sy_releases s ! k"
  define tn where "tn = meets s k n late"
  define body where "body = turn_body (en_kafka e) (en_config e) tn ?p"
  define r where "r = releases_read tn (fst body)"
  obtain fl p' where w: "wait tn body = (fl, p')" by fastforce
  define ct where "ct = (if fl = Crashed then snd (guard_thread ''Kafka poll thread'' (None :: unit option, pl_control p'))
      else pl_control p')"
  define pt where "pt = \<lparr>pt_poller = p', pt_outbox = drop (length (pl_sent ?p)) (pl_sent p'), pt_left = (fl \<noteq> Again)\<rparr>"
  define s1 where "s1 = s\<lparr>sy_shared := pl_shared p', sy_control := ct, sy_releases := (sy_releases s)[k := drop r ?q]\<rparr>"
  have s': "poller_turn e k n late s = set_poller k pt s1"
    by (simp add: poller_turn_def Let_def tn_def [symmetric] body_def [symmetric] w r_def [symmetric] ct_def [symmetric]
        pt_def [symmetric] s1_def)
  have k: "k < length (sy_pollers s)" "\<not> pt_left ?pt" "pt_outbox ?pt = []" "n \<le> length ?q" using en by auto
  have kq: "k < length (sy_releases s)" using k(1) len by simp
  have tn: "ct_shutdown (tn_control tn (pl_control ?p))" "tn_refusal tn = None" using down by (simp_all add: tn_def meets_def Let_def)
  from turn_shutting_down [OF tn w [unfolded body_def]] have turn: "pl_buffer p' = None" "fl \<in> {Stopped, Again}"
    "\<exists>sent. pl_sent p' = pl_sent ?p @ sent \<and> length sent \<le> (if pl_buffer ?p = None then 0 else 1)"
    "fl = Stopped \<or> tn_received tn \<noteq> ReceivedDisconnect" by (auto simp: body_def)
  have reads: "r \<le> length ?q" "n \<le> r"
    using k(4) by (auto simp: r_def releases_read_def tn_def meets_def Let_def split: flow.split received.split)
  have box: "length (pt_outbox pt) \<le> (if pl_buffer ?p = None then 0 else 1)" using turn(3) by (auto simp: pt_def)
  have poller: "left_poller pt + (if pl_buffer ?p \<noteq> None \<or> fl = Stopped then 1 else 0) \<le> left_poller ?pt"
    using turn(1,2) box k(2,3) by (auto simp: left_poller_def pt_def split: if_splits)
  have "sum_list (map length ((sy_releases s)[k := drop r ?q])) + r = sum_list (map length (sy_releases s))"
    using sum_list_map_update [OF kq, of length "drop r ?q"] reads(1) by simp
  then have "left_to_do e s1 + r = left_to_do e s" by (simp add: s1_def left_to_do_def)
  moreover have "left_to_do e (set_poller k pt s1) + (if pl_buffer ?p \<noteq> None \<or> fl = Stopped then 1 else 0) \<le> left_to_do e s1 + 0"
    by (rule left_poller_less) (use k(1) poller in \<open>simp_all add: s1_def\<close>)
  ultimately have less: "left_to_do e (poller_turn e k n late s) + r + (if pl_buffer ?p \<noteq> None \<or> fl = Stopped then 1 else 0)
      \<le> left_to_do e s" unfolding s' by linarith
  then show "left_to_do e (poller_turn e k n late s) \<le> left_to_do e s" by linarith
  assume "pl_buffer ?p \<noteq> None \<or> 0 < n \<or> wr_phase (sy_writer s) = Over \<and> n = length ?q \<and> \<not> late"
  then have "0 < r + (if pl_buffer ?p \<noteq> None \<or> fl = Stopped then 1 else 0)"
    using reads(2) turn(4) by (auto simp: tn_def meets_def Let_def)
  with less show "left_to_do e (poller_turn e k n late s) < left_to_do e s" by linarith
qed

lemma left_other:
  assumes "enabled e a s" "\<forall>k n late. a \<noteq> Turn k n late" "a \<noteq> Interrupt"
  shows "left_to_do e (perform e a s) < left_to_do e s"
proof (cases a)
  case (StartThread err)
  with assms(1) show ?thesis by (simp add: left_start_thread)
qed (use assms in \<open>auto simp del: enabled.simps intro: left_send left_refused left_work_taken left_result_sent
    left_worker_ended left_completions_taken left_released left_closed left_flushed\<close>)

lemma left_step:
  assumes "ledger e s" "ct_shutdown (sy_control s)" "enabled e a s"
  shows "left_to_do e (perform e a s) \<le> left_to_do e s"
proof -
  have len: "length (sy_pollers s) \<le> length (sy_releases s)" using assms(1) by (simp add: ledger_def in_shape_def Let_def)
  consider k n late where "a = Turn k n late" | "a = Interrupt" | "\<forall>k n late. a \<noteq> Turn k n late" "a \<noteq> Interrupt" by blast
  then show ?thesis
  proof cases
    case 1
    with left_turn(1) [OF assms(2) _ len] assms(3) show ?thesis by simp
  next
    case 3
    with left_other [OF assms(3)] show ?thesis by simp
  qed simp
qed

section \<open>No thread blocks for good\<close>

lemma queue_room:
  assumes led: "ledger e s" and box: "wr_outbox (sy_writer s) = (k, rs) # rest"
  shows "k < length (sy_pollers s) \<and> length (sy_releases s ! k) < record_capacity e"
proof -
  have shape: "in_shape e s" using led by (simp add: ledger_def)
  have k: "k < length (sy_pollers s)" "rs \<noteq> []" "k < consumers e" and len: "length (sy_releases s) = consumers e"
    using shape box by (auto simp: in_shape_def Let_def writer_ok_def)
  have "list_all (\<lambda>rs. rs \<noteq> []) (sy_releases s ! k)"
    using shape k(3) len by (simp add: in_shape_def Let_def list_all_length)
  then have "length (sy_releases s ! k) \<le> length (concat (sy_releases s ! k))"
    by (rule length_concat_nonempty)
  moreover have "length (concat (sy_releases s ! k)) + length rs \<le> size (outstanding k s)"
    using box by (simp add: outstanding_def elsewhere_def)
  moreover have "size (outstanding k s) \<le> (\<Sum>j < consumers e. size (outstanding j s))"
    using k(3) by (intro member_le_sum) simp_all
  moreover have "(\<Sum>j < consumers e. size (outstanding j s)) \<le> record_capacity e"
    using led shape by (auto simp: ledger_def in_shape_def Let_def shared_ok_def record_capacity_def)
  moreover have "0 < length rs" using k(2) by simp
  ultimately show ?thesis using k(1) by linarith
qed


text \<open>
  While something is on its way, or a thread waits for its end, there is a step other than a poller's turn; otherwise
  only turns remain, and then one that has something to hand out, to take back or to learn.
\<close>

lemma ending:
  assumes main: "sy_main s = Started" and box: "wr_outbox (sy_writer s) = []" and comp: "sy_completions s = []"
    and idle: "\<not> (\<exists>j < length (sy_workers s). wt_result (sy_workers s ! j) \<noteq> None)"
    and no_work: "\<not> (\<exists>j < length (sy_workers s). \<not> wt_left (sy_workers s ! j) \<and> sy_work s \<noteq> [])"
    and free: "\<not> (\<exists>k < length (sy_pollers s). holds_sender (sy_pollers s ! k))" and unfinished: "\<not> finished s"
  shows "(\<exists>a. enabled e a s \<and> (\<forall>k n late. a \<noteq> Turn k n late) \<and> a \<noteq> Interrupt) \<or>
    (\<exists>k. enabled e (Turn k (length (sy_releases s ! k)) False) s \<and> wr_phase (sy_writer s) = Over)"
proof (cases "\<exists>j < length (sy_workers s). \<not> wt_left (sy_workers s ! j)")
  case True
  then obtain j where j: "j < length (sy_workers s)" "\<not> wt_left (sy_workers s ! j)" by blast
  with no_work have "sy_work s = []" by blast
  moreover have "\<not> work_senders s" using main free by (simp add: work_senders_def list_ex_length)
  ultimately have "enabled e (EndWorker j) s" using j idle by simp
  then show ?thesis by blast
next
  case False
  then have none: "\<not> completion_senders e s" using main free by (simp add: completion_senders_def list_ex_length)
  show ?thesis
  proof (cases "wr_phase (sy_writer s)")
    case Receiving
    with main box comp none have "enabled e CloseWriter s" by simp
    then show ?thesis by blast
  next
    case Draining
    with box have "enabled e FlushWriter s" by simp
    then show ?thesis by blast
  next
    case Over
    with unfinished main False have "\<not> list_all poller_gone (sy_pollers s)" by (auto simp: finished_def list_all_length)
    then obtain k where k: "k < length (sy_pollers s)" "\<not> poller_gone (sy_pollers s ! k)" by (auto simp: list_all_length)
    moreover have "\<not> holds_sender (sy_pollers s ! k)" using free k(1) by blast
    ultimately have "enabled e (Turn k (length (sy_releases s ! k)) False) s" by (simp add: holds_sender_def poller_gone_def)
    with Over show ?thesis by blast
  qed
qed

lemma progress:
  assumes led: "ledger e s" and ph: "phases e s" and cap: "0 < record_capacity e" and unfinished: "\<not> finished s"
  obtains a where "enabled e a s" "\<forall>k n late. a \<noteq> Turn k n late" "a \<noteq> Interrupt"
  | k where "enabled e (Turn k (length (sy_releases s ! k)) False) s"
      "pl_buffer (pt_poller (sy_pollers s ! k)) \<noteq> None \<or> 0 < length (sy_releases s ! k) \<or> wr_phase (sy_writer s) = Over"
proof -
  have batch: "0 < batch_capacity e"
    using cap by (simp add: batch_capacity_def work_capacity_def record_capacity_def div_ceil_def batch_records_def Let_def, presburger)
  note go = that(1)
  show thesis
  proof (cases "sy_main s = Started")
    case False
    then show thesis by (intro go [of "StartThread None"]) simp_all
  next
    case main: True
    show thesis
    proof (cases "wr_outbox (sy_writer s)")
      case (Cons entry rest)
      obtain k rs where "entry = (k, rs)" by fastforce
      with Cons queue_room [OF led, of k rs rest] show thesis by (intro go [of SendReleases]) simp_all
    next
      case box: Nil
      show thesis
      proof (cases "sy_completions s = []")
        case False
        with ph have "wr_phase (sy_writer s) = Receiving" by (auto simp: phases_def)
        with False main box show thesis by (intro go [of TakeCompletions]) simp_all
      next
        case comp: True
        show thesis
        proof (cases "\<exists>j < length (sy_workers s). wt_result (sy_workers s ! j) \<noteq> None")
          case True
          then obtain j where j: "j < length (sy_workers s)" "wt_result (sy_workers s ! j) \<noteq> None" by blast
          with ph have "\<not> wt_left (sy_workers s ! j)" by (simp add: phases_def list_all_length)
          with j comp batch show thesis by (intro go [of "SendResult j"]) simp_all
        next
          case idle: False
          note quiet = main box comp batch idle
          show thesis
          proof (cases "\<exists>j < length (sy_workers s). \<not> wt_left (sy_workers s ! j) \<and> sy_work s \<noteq> []")
            case True
            with idle show thesis by (auto intro!: go [of "TakeWork _"])
          next
            case no_work: False
            show thesis
            proof (cases "\<exists>k < length (sy_pollers s). pt_outbox (sy_pollers s ! k) \<noteq> []")
              case True
              then obtain k d ds where k: "k < length (sy_pollers s)" "pt_outbox (sy_pollers s ! k) = d # ds"
                by (meson list.exhaust)
              show thesis
              proof (cases d)
                case (SentWork b)
                show thesis
                proof (cases "work_receivers s")
                  case True
                  with main obtain j where "j < length (sy_workers s)" "\<not> wt_left (sy_workers s ! j)"
                    by (auto simp: work_receivers_def list_ex_length)
                  with no_work have "sy_work s = []" by blast
                  with k SentWork True batch show thesis by (intro go [of "Send k"]) simp_all
                next
                  case False
                  with k SentWork show thesis by (intro go [of "Refuse k []"]) simp_all
                qed
              next
                case (SentCompletions b)
                with k comp batch show thesis by (intro go [of "Send k"]) simp_all
              qed
            next
              case sent: False
              show thesis
              proof (cases "\<exists>k < length (sy_pollers s). holds_sender (sy_pollers s ! k)")
                case True
                then obtain k where "k < length (sy_pollers s)" "holds_sender (sy_pollers s ! k)" by blast
                with sent that(2) [of k] show thesis by (auto simp: holds_sender_def)
              next
                case False
                from ending [OF main box comp idle no_work False unfinished] that show thesis by blast
              qed
            qed
          qed
        qed
      qed
    qed
  qed
qed

text \<open>The state the pipeline starts in, and every state it reaches.\<close>

lemma reached:
  assumes "lawful e contents" "(run_step e)\<^sup>*\<^sup>* (pipeline_start e w shutdown) s"
  shows "ledger e s \<and> phases e s"
  using assms(2)
proof induction
  case base
  show ?case by (simp add: ledger_start phases_start)
next
  case (step s1 s2)
  from step.hyps(2) obtain a where "enabled e a s1" "s2 = perform e a s1" by cases
  with step.IH ledger_step [OF assms(1)] phases_step show ?case by blast
qed

text \<open>Under a shutdown request some step always leaves less to do.\<close>

lemma left_progress:
  assumes "lawful e contents" "0 < record_capacity e" "ledger e s" "phases e s" "ct_shutdown (sy_control s)"
  shows "finished s \<or> (\<exists>a. enabled e a s \<and> left_to_do e (perform e a s) < left_to_do e s)"
proof (rule ccontr)
  assume no: "\<not> ?thesis"
  then have unfinished: "\<not> finished s" by blast
  show False
  proof (cases rule: progress [OF assms(3,4,2) unfinished])
    case (1 a)
    with left_other no show ?thesis by blast
  next
    case (2 k)
    have "length (sy_pollers s) \<le> length (sy_releases s)" using assms(3) by (simp add: ledger_def in_shape_def Let_def)
    from left_turn(2) [OF assms(5) 2(1) this] 2 have
      "left_to_do e (perform e (Turn k (length (sy_releases s ! k)) False) s) < left_to_do e s" by auto
    with 2(1) no show ?thesis by blast
  qed
qed

lemma winds_down:
  assumes "lawful e contents" "0 < record_capacity e" "ledger e s" "phases e s" "ct_shutdown (sy_control s)"
  shows "\<exists>s'. (run_step e)\<^sup>*\<^sup>* s s' \<and> finished s'"
  using assms(3-5)
proof (induction "left_to_do e s" arbitrary: s rule: less_induct)
  case less
  show ?case
  proof (cases "finished s")
    case False
    with left_progress [OF assms(1,2) less.prems]
    obtain a where a: "enabled e a s" "left_to_do e (perform e a s) < left_to_do e s" by blast
    from less.hyps [OF a(2) ledger_step [OF assms(1) less.prems(1) a(1)] phases_step [OF less.prems(1,2) a(1)]
        shutdown_stays [OF less.prems(3) a(1)]] a(1)
    show ?thesis by (meson converse_rtranclp_into_rtranclp run_step.intros)
  qed blast
qed

end
