(* ===== verification/Run_Delivers.thy ===== *)
theory Run_Delivers
  imports Run_Progress
begin

text \<open>
  What a complete run of the transition system amounts to: as long as no failure is recorded, every poller's
  steps are one run of its loop, every evaluator's one run of its own, and the writer's one run over the
  batches it received. So what holds of these runs holds of the interleaved threads.
\<close>

section \<open>A recorded failure stays\<close>

lemma take_back_failed': "failed p \<Longrightarrow> failed (fold take_back rss p)"
  by (induction rss arbitrary: p) (simp_all add: take_back_failed)

lemma begin_turn_failed: "ct_first (tn_control tn (pl_control p)) \<noteq> None \<Longrightarrow> failed (begin_turn tn p)"
  using take_back_failed' [of "p\<lparr>pl_shared := tn_shared tn (pl_shared p), pl_control := tn_control tn (pl_control p)\<rparr>"]
  by (simp add: begin_turn_def Let_def failed_def)

lemma wait_failed: "failed (snd body) \<Longrightarrow> failed (snd (wait tn body))"
  by (cases body) (auto simp: wait_def take_back_failed split: flow.split received.split)

lemma turn_failed:
  "ct_first (tn_control tn (pl_control p)) \<noteq> None \<Longrightarrow> failed (snd (wait tn (turn_body ko cf tn p)))"
  by (auto intro!: wait_failed stopping_failed running_failed begin_turn_failed simp: turn_body_def Let_def)

definition broken :: "'w writer_state \<Rightarrow> bool" where
  "broken s \<longleftrightarrow> ct_first (ws_control s) \<noteq> None"

lemma broken_update [simp]:
  "broken (s\<lparr>ws_sink := w\<rparr>) = broken s" "broken (s\<lparr>ws_stats := st\<rparr>) = broken s"
  "broken (s\<lparr>ws_orderer := ord\<rparr>) = broken s" "broken (s\<lparr>ws_sent := log\<rparr>) = broken s"
  "broken (writer_failure err s)"
  by (simp_all add: broken_def writer_failure_def record_failure_first split: option.split)

lemma emit_one_broken: "broken s \<Longrightarrow> broken (emit_one js ops cf c s)"
  by (simp add: emit_one_def split: completion_outcome.split prod.split sum.split)

lemma fold_emit_broken: "broken s \<Longrightarrow> broken (fold (emit_one js ops cf) cs s)"
  by (induction cs arbitrary: s) (simp_all add: emit_one_broken)

lemma take_completion_broken: "broken (fst sr) \<Longrightarrow> broken (fst (take_completion js ops cf c sr))"
  by (auto simp: take_completion_def fold_emit_broken split: prod.split sum.split)

lemma take_items_broken: "broken (fst sr) \<Longrightarrow> broken (fst (fold (take_completion js ops cf) cs sr))"
  by (induction cs arbitrary: sr) (simp_all add: take_completion_broken)

lemma take_batch_broken: "broken s \<Longrightarrow> broken (take_batch js ops cf b s)"
  using take_items_broken [of "(s, [])" js ops cf "cb_items b"] by (auto simp: take_batch_def split: prod.split)

lemma drain_pending_broken: "broken s \<Longrightarrow> broken (drain_pending n s)"
  by (auto simp: drain_pending_def split: prod.split)

lemma final_flush_broken: "broken s \<Longrightarrow> broken (final_flush ops s)"
  by (auto simp: final_flush_def split: option.split pipeline_error.split sum.split prod.split)

lemma writer_computes_failed:
  assumes "ct_first (sy_control s) \<noteq> None" "\<And>ws. broken ws \<Longrightarrow> broken (f ws)"
  shows "ct_first (sy_control (writer_computes f s)) \<noteq> None"
  using assms(2) [of "(wr_state (sy_writer s))\<lparr>ws_control := sy_control s\<rparr>"] assms(1)
  by (simp add: writer_computes_def Let_def broken_def)

lemma failure_stays:
  assumes "ct_first (sy_control s) \<noteq> None"
  shows "ct_first (sy_control (perform e a s)) \<noteq> None"
proof (cases a)
  case (StartThread err)
  with assms show ?thesis
    by (auto simp: start_thread_def start_writing_def thread_start_failure_def once_set_first Let_def
        split: main_pc.split option.split)
next
  case (Turn k n late)
  let ?tn = "meets s k n late"
  obtain fl p' where w: "wait ?tn (turn_body (en_kafka e) (en_config e) ?tn (pt_poller (sy_pollers s ! k))) = (fl, p')" by fastforce
  with turn_failed [of ?tn "pt_poller (sy_pollers s ! k)" "en_kafka e" "en_config e"] assms
  have "ct_first (pl_control p') \<noteq> None" by (simp add: meets_def Let_def failed_def)
  with Turn w show ?thesis
    by (auto simp: poller_turn_def Let_def guard_thread_def record_failure_first)
next
  case (Refuse k err)
  then show ?thesis by (simp add: poller_refused_def Let_def fail_def runtime_failure_def record_failure_first split: option.split)
next
  case TakeCompletions
  let ?s = "s\<lparr>sy_completions := tl (sy_completions s), sy_writer := (sy_writer s)\<lparr>wr_taken := wr_taken (sy_writer s) @ [hd (sy_completions s)]\<rparr>\<rparr>"
  have "ct_first (sy_control ?s) \<noteq> None" using assms by simp
  from writer_computes_failed [OF this take_batch_broken] TakeCompletions show ?thesis
    by (simp add: writer_take_def Let_def del: not_None_eq)
next
  case CloseWriter
  with writer_computes_failed [OF assms, of "drain_pending (length (en_inputs e))"] show ?thesis
    by (simp add: writer_close_def set_phase_def drain_pending_broken del: not_None_eq)
next
  case FlushWriter
  with writer_computes_failed [OF assms, of "final_flush (en_sink e)"] show ?thesis
    by (simp add: writer_flush_def set_phase_def final_flush_broken del: not_None_eq)
qed (use assms in \<open>simp_all add: poller_send_def worker_take_def worker_send_def worker_end_def writer_release_def Let_def
    del: not_None_eq split: prod.split dispatch.split option.split\<close>)

section \<open>The writer does not look at the failure cell\<close>

definition hushed :: "'w writer_state \<Rightarrow> 'w writer_state" where
  "hushed s = s\<lparr>ws_control := calm\<rparr>"

lemma hushed_iff:
  "hushed a = hushed b \<longleftrightarrow> ws_sink a = ws_sink b \<and> ws_orderer a = ws_orderer b \<and> ws_failure a = ws_failure b \<and>
     ws_stats a = ws_stats b \<and> ws_sent a = ws_sent b"
  by (cases a; cases b) (auto simp: hushed_def)

lemma writer_failure_hushed: "hushed a = hushed b \<Longrightarrow> hushed (writer_failure err a) = hushed (writer_failure err b)"
  by (simp add: hushed_iff writer_failure_def)

lemma emit_one_hushed: "hushed a = hushed b \<Longrightarrow> hushed (emit_one js ops cf c a) = hushed (emit_one js ops cf c b)"
proof -
  assume same: "hushed a = hushed b"
  then have eq: "ws_failure a = ws_failure b" "ws_sink a = ws_sink b" "ws_stats a = ws_stats b" by (simp_all add: hushed_iff)
  have put: "hushed (a\<lparr>ws_sink := w, ws_stats := st\<rparr>) = hushed (b\<lparr>ws_sink := w, ws_stats := st\<rparr>)" for w st
    using same by (simp add: hushed_iff)
  show ?thesis
  proof (cases "ws_failure b")
    case None
    show ?thesis
    proof (cases "c_outcome c")
      case (Done act)
      obtain res w st where act: "write_action js ops cf (c_source c) act (ws_sink b, ws_stats b) = (res, w, st)" by (metis surj_pair)
      then show ?thesis
        unfolding emit_one_def eq None Done using put [of st w] writer_failure_hushed [OF put]
        by (cases res) simp_all
    next
      case (Fatal m)
      then show ?thesis unfolding emit_one_def eq None using writer_failure_hushed [OF same] by simp
    qed
  qed (simp add: emit_one_def eq same)
qed

lemma fold_emit_hushed:
  "hushed a = hushed b \<Longrightarrow> hushed (fold (emit_one js ops cf) cs a) = hushed (fold (emit_one js ops cf) cs b)"
proof (induction cs arbitrary: a b)
  case (Cons c cs)
  from Cons.IH [OF emit_one_hushed [OF Cons.prems]] show ?case by simp
qed simp

lemma take_completion_hushed:
  assumes "hushed a = hushed b"
  shows "hushed (fst (take_completion js ops cf c (a, rs))) = hushed (fst (take_completion js ops cf c (b, rs))) \<and>
    snd (take_completion js ops cf c (a, rs)) = snd (take_completion js ops cf c (b, rs))"
proof -
  obtain res ord where ins: "buffer_insert (is_ordered cf) c (ws_orderer b) [] = (res, ord)" by fastforce
  have same: "ws_orderer a = ws_orderer b" using assms by (simp add: hushed_iff)
  have put: "hushed (a\<lparr>ws_orderer := ord\<rparr>) = hushed (b\<lparr>ws_orderer := ord\<rparr>)" using assms by (simp add: hushed_iff)
  show ?thesis
    using writer_failure_hushed [OF put] fold_emit_hushed [OF put]
    by (cases res) (auto simp: take_completion_def same ins split: prod.split)
qed

lemma take_items_hushed:
  "hushed a = hushed b \<Longrightarrow> hushed (fst (fold (take_completion js ops cf) cs (a, rs))) = hushed (fst (fold (take_completion js ops cf) cs (b, rs))) \<and>
    snd (fold (take_completion js ops cf) cs (a, rs)) = snd (fold (take_completion js ops cf) cs (b, rs))"
proof (induction cs arbitrary: a b rs)
  case (Cons c cs)
  obtain a1 r1 b1 r2 where one: "take_completion js ops cf c (a, rs) = (a1, r1)" "take_completion js ops cf c (b, rs) = (b1, r2)"
    by (metis surj_pair)
  with take_completion_hushed [OF Cons.prems, of js ops cf c rs] have "hushed a1 = hushed b1" "r1 = r2" by simp_all
  with Cons.IH [of a1 b1 r1] one show ?case by simp
qed simp

lemma take_batch_hushed: "hushed a = hushed b \<Longrightarrow> hushed (take_batch js ops cf bt a) = hushed (take_batch js ops cf bt b)"
proof -
  assume same: "hushed a = hushed b"
  obtain a1 r1 b1 r2 where one: "fold (take_completion js ops cf) (cb_items bt) (a, []) = (a1, r1)"
    "fold (take_completion js ops cf) (cb_items bt) (b, []) = (b1, r2)" by (metis surj_pair)
  with take_items_hushed [OF same, of js ops cf "cb_items bt" "[]"] have "hushed a1 = hushed b1" "r1 = r2" by simp_all
  with one show ?thesis by (simp add: take_batch_def hushed_iff)
qed

lemma drain_pending_hushed: "hushed a = hushed b \<Longrightarrow> hushed (drain_pending n a) = hushed (drain_pending n b)"
  by (auto simp: drain_pending_def hushed_iff writer_failure_def split: prod.split)

lemma final_flush_hushed: "hushed a = hushed b \<Longrightarrow> hushed (final_flush ops a) = hushed (final_flush ops b)"
  by (auto simp: final_flush_def hushed_iff writer_failure_def split: option.split pipeline_error.split sum.split prod.split)


section \<open>A poller's steps are its loop\<close>

definition extends :: "'k poller \<Rightarrow> 'k poller \<Rightarrow> bool" where
  "extends p p' \<longleftrightarrow> (\<exists>sent. pl_sent p' = pl_sent p @ sent)"

lemma extends_refl: "pl_sent p' = pl_sent p \<Longrightarrow> extends p p'"
  by (simp add: extends_def)

lemma extends_trans: "extends p q \<Longrightarrow> extends q r \<Longrightarrow> extends p r"
  by (auto simp: extends_def)

lemma flush_or_stop_extends: "pl_sent p = pl_sent p0 \<Longrightarrow> extends p0 (snd (flush_or_stop tn nf b p))"
  by (simp add: extends_def flush_or_stop_def Let_def fail_def split: prod.split sum.split)

lemma admit_extends: "pl_sent p = pl_sent p0 \<Longrightarrow> extends p0 (snd (admit tn r b p))"
  by (simp add: extends_def admit_def split: prod.split sum.split)

lemma after_admit_extends: "extends p0 (snd res) \<Longrightarrow> extends p0 (snd (after_admit ko cf q res))"
  by (auto simp: extends_def after_admit_def fail_def split: prod.split sum.split)

lemma offer_extends: "pl_sent p = pl_sent p0 \<Longrightarrow> extends p0 (snd (offer ko cf tn r b p))"
  by (auto simp: offer_def flush_or_stop_extends intro!: after_admit_extends admit_extends split: prod.split bool.split)

lemma running_extends: "extends p (snd (running ko cf tn p))"
  by (auto simp: running_def fail_def offer_extends flush_or_stop_extends intro: extends_refl
      split: option.split prod.split sum.split poll_event.split)

lemma stopping_extends: "extends p (snd (stopping tn p))"
proof (cases "pl_buffer p")
  case None
  then show ?thesis by (auto simp: stopping_def Let_def intro: extends_refl)
next
  case (Some b)
  obtain fl p1 where f: "flush_or_stop tn Waits b p = (fl, p1)" by fastforce
  with flush_or_stop_extends [of p p tn Waits b] have "extends p p1" by simp
  then have "extends p (p1\<lparr>pl_buffer := None\<rparr>)" "extends p (p1\<lparr>pl_buffer := None, pl_pending := None\<rparr>)"
    by (simp_all add: extends_def)
  with Some f show ?thesis by (simp add: stopping_def Let_def split: flow.split)
qed

lemma turn_extends: "extends p (snd (wait tn (turn_body ko cf tn p)))"
proof -
  let ?p = "begin_turn tn p"
  have "extends p ?p" by (simp add: extends_refl begin_turn_keeps)
  from extends_trans [OF this running_extends [of ?p ko cf tn]] extends_trans [OF this stopping_extends [of ?p tn]]
  have "extends p (snd (turn_body ko cf tn p))" by (simp add: turn_body_def Let_def)
  then show ?thesis by (simp add: extends_def wait_keeps)
qed

lemma flush_stopped: "fst (flush_or_stop tn nf b q) = Stopped \<Longrightarrow> nf \<noteq> Stopped \<Longrightarrow> failed (snd (flush_or_stop tn nf b q))"
  by (auto simp: flush_or_stop_def Let_def split: prod.splits sum.splits)

lemma after_admit_stopped: "fst (after_admit ko cf q x) = Stopped \<Longrightarrow> failed (snd (after_admit ko cf q x))"
  by (auto simp: after_admit_def split: prod.splits sum.splits if_splits)

lemma offer_stopped: "fst (offer ko cf tn r b p) = Stopped \<Longrightarrow> failed (snd (offer ko cf tn r b p))"
  by (auto simp: offer_def flush_stopped after_admit_stopped split: prod.splits if_splits bool.splits)

lemma running_stopped: "fst (running ko cf tn p) = Stopped \<Longrightarrow> failed (snd (running ko cf tn p))"
  by (auto simp: running_def flush_stopped offer_stopped split: option.splits prod.splits sum.splits poll_event.splits if_splits)

text \<open>A loop is left without a failure only by a poller that has handed its buffer out.\<close>

lemma turn_flow:
  assumes "poll_turn ko cf tn p = (fl, p')" "\<not> failed p'"
  shows "fl = Again \<or> fl = Crashed \<or> fl = Stopped \<and> pl_buffer p' = None"
proof -
  obtain fl1 p1 where body: "turn_body ko cf tn p = (fl1, p1)" by fastforce
  have w: "wait tn (fl1, p1) = (fl, p')" using assms(1) by (simp add: poll_turn_body body)
  have "failed p1 \<Longrightarrow> failed p'" using wait_failed [of "(fl1, p1)" tn] w by simp
  then have ok: "\<not> failed p1" using assms(2) by blast
  have "fl1 = Stopped \<longrightarrow> pl_buffer p1 = None"
  proof
    assume st: "fl1 = Stopped"
    show "pl_buffer p1 = None"
    proof (cases "pl_stopping (begin_turn tn p)")
      case True
      then have "stopping tn (begin_turn tn p) = (fl1, p1)" using body by (simp add: turn_body_def Let_def)
      then show ?thesis by (auto simp: stopping_def Let_def split: option.splits prod.splits flow.splits if_splits)
    next
      case False
      then have "running ko cf tn (begin_turn tn p) = (fl1, p1)" using body by (simp add: turn_body_def Let_def)
      then have "failed p1" using st running_stopped [of ko cf tn "begin_turn tn p"] by simp
      with ok show ?thesis by blast
    qed
  qed
  with w show ?thesis
    using assms(2) by (auto simp: wait_def split: flow.splits received.splits)
qed


text \<open>A turn asks for the failure cell once, at its beginning.\<close>

lemma tn_control_unused:
  "flush_or_stop (tn\<lparr>tn_control := f\<rparr>) = flush_or_stop tn" "admit (tn\<lparr>tn_control := f\<rparr>) = admit tn"
  "wait (tn\<lparr>tn_control := f\<rparr>) = wait tn"
  by (simp_all add: fun_eq_iff flush_or_stop_def admit_def wait_def split: sum.split prod.split flow.split received.split)

lemma poll_turn_control:
  assumes "f (pl_control p) = tn_control tn (pl_control p)"
  shows "poll_turn ko cf (tn\<lparr>tn_control := f\<rparr>) p = poll_turn ko cf tn p"
proof -
  have off: "offer ko cf (tn\<lparr>tn_control := f\<rparr>) = offer ko cf tn"
    by (intro ext) (simp only: offer_def tn_control_unused)
  have "running ko cf (tn\<lparr>tn_control := f\<rparr>) q = running ko cf tn q" "stopping (tn\<lparr>tn_control := f\<rparr>) q = stopping tn q" for q
    by (simp_all only: running_def stopping_def tn_control_unused off)
  moreover have "begin_turn (tn\<lparr>tn_control := f\<rparr>) p = begin_turn tn p" using assms by (simp add: begin_turn_def)
  ultimately show ?thesis by (simp only: poll_turn_def tn_control_unused)
qed

lemma poll_loop_append:
  "poll_loop ko cf tns p = (Again, q) \<Longrightarrow> poll_loop ko cf (tns @ us) p = poll_loop ko cf us q"
  by (induction tns arbitrary: p) (auto split: prod.splits flow.splits)

definition looped :: "('x, 'i, 'e, 'v, 'k, 'w) setting \<Rightarrow> nat \<Rightarrow> 'k poller_thread \<Rightarrow> bool" where
  "looped e k pt \<longleftrightarrow> (\<exists>tns sh ct st. (\<forall>tn \<in> set tns. steady tn) \<and>
     poll_loop (en_kafka e) (en_config e) tns (poller_new (en_config e) k (en_inputs e ! k) sh ct st)
       = (if pt_left pt then Stopped else Again, pt_poller pt)) \<and>
     \<not> failed (pt_poller pt) \<and> (pt_left pt \<longrightarrow> pl_buffer (pt_poller pt) = None)"

lemma looped_new:
  assumes "ct_first ct = None"
  shows "looped e k \<lparr>pt_poller = poller_new (en_config e) k (en_inputs e ! k) sh ct st, pt_outbox = [], pt_left = False\<rparr>"
  unfolding looped_def using assms
  by (auto simp: failed_def poller_new_def intro!: exI [of _ "[]"])

lemma looped_turn:
  assumes loop: "looped e k pt" "\<not> pt_left pt" and tn: "ct_first (tn_control tn (pl_control (pt_poller pt))) = None"
    and turn: "wait tn (turn_body (en_kafka e) (en_config e) tn (pt_poller pt)) = (fl, p')" "\<not> failed p'" "fl \<noteq> Crashed"
  shows "looped e k \<lparr>pt_poller = p', pt_outbox = ds, pt_left = (fl \<noteq> Again)\<rparr>"
proof -
  let ?p = "pt_poller pt"
  define f where "f c = (if ct_first c = None then tn_control tn (pl_control ?p) else c)" for c
  have quiet: "ct_first (pl_control ?p) = None" using loop(1) by (simp add: looped_def failed_def)
  have poll: "poll_turn (en_kafka e) (en_config e) tn ?p = (fl, p')" using turn(1) by (simp add: poll_turn_body)
  then have poll': "poll_turn (en_kafka e) (en_config e) (tn\<lparr>tn_control := f\<rparr>) ?p = (fl, p')"
    using quiet by (subst poll_turn_control) (simp_all add: f_def)
  have flow: "fl = Again \<or> fl = Stopped \<and> pl_buffer p' = None" using turn_flow [OF poll turn(2)] turn(3) by blast
  obtain tns sh ct st where run: "\<forall>tn \<in> set tns. steady tn"
    "poll_loop (en_kafka e) (en_config e) tns (poller_new (en_config e) k (en_inputs e ! k) sh ct st) = (Again, ?p)"
    using loop by (auto simp: looped_def)
  have "steady (tn\<lparr>tn_control := f\<rparr>)" by (simp add: steady_def f_def)
  moreover have "poll_loop (en_kafka e) (en_config e) (tns @ [tn\<lparr>tn_control := f\<rparr>]) (poller_new (en_config e) k (en_inputs e ! k) sh ct st)
      = (fl, p')"
    using poll_loop_append [OF run(2), of "[tn\<lparr>tn_control := f\<rparr>]"] poll' by (simp split: flow.split)
  ultimately have "\<exists>tns sh ct st. (\<forall>tn \<in> set tns. steady tn) \<and>
     poll_loop (en_kafka e) (en_config e) tns (poller_new (en_config e) k (en_inputs e ! k) sh ct st) = (fl, p')"
    using run(1) by (intro exI [of _ "tns @ [tn\<lparr>tn_control := f\<rparr>]"]) auto
  with flow turn(2) show ?thesis by (auto simp: looped_def)
qed

definition pollers_follow :: "('x, 'i, 'e, 'v, 'k, 'w) setting \<Rightarrow> ('x, 'k, 'w) pipeline \<Rightarrow> bool" where
  "pollers_follow e s \<longleftrightarrow> (\<forall>k < length (sy_pollers s). looped e k (sy_pollers s ! k)) \<and>
     (case sy_main s of StartReporter \<Rightarrow> sy_pollers s = [] | StartPollers i \<Rightarrow> i = length (sy_pollers s)
      | StartWorkers j \<Rightarrow> length (sy_pollers s) = consumers e \<and> length (sy_workers s) = j
      | Started \<Rightarrow> length (sy_pollers s) = consumers e \<and> length (sy_workers s) = worker_count e)"

lemma pollers_follow_start: "pollers_follow e (pipeline_start e w shutdown)"
  by (simp add: pollers_follow_def pipeline_start_def Let_def)

lemma looped_outbox [simp]: "looped e k (pt\<lparr>pt_outbox := ds\<rparr>) = looped e k pt"
  by (simp add: looped_def)

lemma pollers_follow_step:
  assumes fo: "pollers_follow e s" and led: "ledger e s" and ph: "phases e s" and en: "enabled e a s"
    and none: "ct_first (sy_control (perform e a s)) = None"
  shows "pollers_follow e (perform e a s)"
proof -
  have before: "ct_first (sy_control s) = None" using failure_stays [of s e a] none by blast
  have m: "length (sy_pollers s) \<le> consumers e" using led by (simp add: ledger_def in_shape_def Let_def)
  show ?thesis
  proof (cases a)
    case (StartThread err)
    with fo before none m ph show ?thesis
      by (auto simp: pollers_follow_def start_thread_def start_writing_def thread_start_failure_def once_set_first Let_def
          nth_append looped_new consumers_def phases_def less_Suc_eq split: main_pc.splits option.splits if_splits)
  next
    case (Turn k n late)
    let ?tn = "meets s k n late" and ?pt = "sy_pollers s ! k"
    have k: "k < length (sy_pollers s)" "\<not> pt_left ?pt" using en Turn by auto
    obtain fl p' where w: "wait ?tn (turn_body (en_kafka e) (en_config e) ?tn (pt_poller ?pt)) = (fl, p')" by fastforce
    have ok: "ct_first (pl_control p') = None" "fl \<noteq> Crashed"
      using none Turn w
      by (auto simp: poller_turn_def Let_def guard_thread_def record_failure_first split: if_splits option.splits)
    have "looped e k ?pt" using fo k(1) by (simp add: pollers_follow_def)
    from looped_turn [OF this k(2) _ w] ok before
    have "looped e k \<lparr>pt_poller = p', pt_outbox = ds, pt_left = (fl \<noteq> Again)\<rparr>" for ds
      by (simp add: failed_def meets_def Let_def)
    with fo k(1) Turn w show ?thesis
      by (auto simp: pollers_follow_def poller_turn_def Let_def set_poller_def nth_list_update split: main_pc.splits)
  next
    case (Send k)
    with fo en show ?thesis
      by (auto simp: pollers_follow_def poller_send_def Let_def set_poller_def nth_list_update split: dispatch.split main_pc.splits)
  next
    case (Refuse k err)
    with none show ?thesis
      by (simp add: poller_refused_def Let_def fail_def runtime_failure_def record_failure_first split: option.splits)
  next
    case (TakeWork j)
    with fo show ?thesis
      by (auto simp: pollers_follow_def worker_take_def Let_def split: prod.split main_pc.splits)
  next
    case (SendResult j)
    with fo show ?thesis
      by (auto simp: pollers_follow_def worker_send_def Let_def split: option.split main_pc.splits)
  next
    case (EndWorker j)
    with fo show ?thesis by (auto simp: pollers_follow_def worker_end_def split: main_pc.splits)
  qed (use fo in \<open>auto simp: pollers_follow_def writer_take_def writer_release_def writer_close_def writer_flush_def
      set_phase_def writer_computes_def Let_def split: prod.split main_pc.splits\<close>)
qed


section \<open>The evaluators' steps are their loops\<close>

lemma worker_loop_append:
  "worker_loop jx panics unwound cf (\<lambda>_. True) (bs @ cs) s =
     (case worker_loop jx panics unwound cf (\<lambda>_. True) bs s of (out, s1) \<Rightarrow>
        (case worker_loop jx panics unwound cf (\<lambda>_. True) cs s1 of (out', s2) \<Rightarrow> (out @ out', s2)))"
  by (induction bs arbitrary: s) (auto split: prod.splits)

definition worked ::
    "('x, 'i, 'e, 'v, 'k, 'w) setting \<Rightarrow> record_batch list \<Rightarrow> completion_batch list \<times> 'x worker \<times> stats" where
  "worked e bs = worker_loop (en_engine e) (en_panics e) (en_unwound e) (en_config e) (\<lambda>_. True) bs
     (evaluator_worker (en_config e), en_stats e)"

definition result_of :: "'x worker_thread \<Rightarrow> completion_batch multiset" where
  "result_of wt = (case wt_result wt of None \<Rightarrow> {#} | Some b \<Rightarrow> {#b#})"

definition handed :: "'k poller_thread \<Rightarrow> record_batch multiset" where
  "handed pt = mset (concat (map work_of (pl_sent (pt_poller pt))))"

definition waiting :: "'k poller_thread \<Rightarrow> record_batch multiset" where
  "waiting pt = mset (concat (map work_of (pt_outbox pt)))"

text \<open>Every batch handed out is in an outbox, in the channel or with an evaluator, whose answers reach the writer.\<close>

definition work_follows :: "('x, 'i, 'e, 'v, 'k, 'w) setting \<Rightarrow> ('x, 'k, 'w) pipeline \<Rightarrow> bool" where
  "work_follows e s \<longleftrightarrow>
     sum_list (map handed (sy_pollers s)) =
       sum_list (map waiting (sy_pollers s)) + mset (sy_work s) + sum_list (map (\<lambda>wt. mset (wt_taken wt)) (sy_workers s)) \<and>
     list_all (\<lambda>wt. snd (worked e (wt_taken wt)) = (wt_worker wt, wt_stats wt)) (sy_workers s) \<and>
     mset (wr_taken (sy_writer s)) + mset (sy_completions s) + sum_list (map result_of (sy_workers s)) =
       sum_list (map (\<lambda>wt. mset (fst (worked e (wt_taken wt)))) (sy_workers s))"

lemma work_follows_start: "work_follows e (pipeline_start e w shutdown)"
  by (simp add: work_follows_def pipeline_start_def Let_def)

lemma moved_on:
  fixes h :: "'a :: cancel_comm_monoid_add"
  assumes "h' + x = h + x'" "w' + y = w + y'" "h = w + rest" "x' + y = y' + x + n"
  shows "h' = w' + (rest + n)"
proof -
  have "h' + (x + y) = (h + x') + y" using assms(1) by (simp add: add.assoc [symmetric])
  also have "\<dots> = (w + y') + rest + n + x" using assms(3,4) by (simp add: add_ac)
  also have "\<dots> = w' + (rest + n) + (x + y)" unfolding assms(2) [symmetric] by (simp add: add_ac)
  finally show ?thesis by simp
qed

lemma work_follows_poller:
  assumes fo: "work_follows e s" and k: "k < length (sy_pollers s)"
    and same: "handed pt + waiting (sy_pollers s ! k) = waiting pt + handed (sy_pollers s ! k) + mset new"
    and s': "sy_pollers s' = (sy_pollers s)[k := pt]" "mset (sy_work s') = mset (sy_work s) + mset new" "sy_workers s' = sy_workers s"
      "sy_completions s' = sy_completions s" "wr_taken (sy_writer s') = wr_taken (sy_writer s)"
  shows "work_follows e s'"
proof -
  have "sum_list (map handed (sy_pollers s')) + handed (sy_pollers s ! k) = sum_list (map handed (sy_pollers s)) + handed pt"
    "sum_list (map waiting (sy_pollers s')) + waiting (sy_pollers s ! k) = sum_list (map waiting (sy_pollers s)) + waiting pt"
    unfolding s'(1) by (rule sum_list_map_update [OF k])+
  from moved_on [OF this(1,2) _ same] fo have
    "sum_list (map handed (sy_pollers s')) = sum_list (map waiting (sy_pollers s')) +
       (mset (sy_work s) + sum_list (map (\<lambda>wt. mset (wt_taken wt)) (sy_workers s)) + mset new)"
    by (simp add: work_follows_def add_ac)
  with fo show ?thesis by (simp add: work_follows_def s' add_ac)
qed


lemma worked_more:
  assumes "snd (worked e bs) = (w, st)"
    and "complete_items (en_engine e) (en_panics e) (en_unwound e) (en_config e) (rb_consumer b) (rb_items b) (w, st) = (cs, w', st')"
  shows "worked e (bs @ [b]) = (fst (worked e bs) @ [\<lparr>cb_consumer = rb_consumer b, cb_items = cs\<rparr>], w', st')"
  using assms by (cases "worked e bs") (simp add: worked_def worker_loop_append)

lemma work_follows_taken:
  assumes fo: "work_follows e s" and en: "enabled e (TakeWork j) s"
  shows "work_follows e (worker_take e j s)"
proof -
  let ?wt = "sy_workers s ! j" and ?b = "hd (sy_work s)"
  have j: "j < length (sy_workers s)" "wt_result ?wt = None" "sy_work s = ?b # tl (sy_work s)" using en by auto
  obtain cs w st where run: "complete_items (en_engine e) (en_panics e) (en_unwound e) (en_config e) (rb_consumer ?b) (rb_items ?b)
      (wt_worker ?wt, wt_stats ?wt) = (cs, w, st)" by (metis prod.exhaust)
  let ?done = "\<lparr>cb_consumer = rb_consumer ?b, cb_items = cs\<rparr>"
  define wt where "wt = ?wt\<lparr>wt_worker := w, wt_stats := st, wt_result := Some ?done, wt_taken := wt_taken ?wt @ [?b]\<rparr>"
  have s': "worker_take e j s = set_worker j wt (s\<lparr>sy_work := tl (sy_work s)\<rparr>)"
    by (simp add: worker_take_def Let_def run wt_def)
  have "snd (worked e (wt_taken ?wt)) = (wt_worker ?wt, wt_stats ?wt)"
    using fo j(1) by (simp add: work_follows_def list_all_length)
  from worked_more [OF this run] have more: "worked e (wt_taken wt) = (fst (worked e (wt_taken ?wt)) @ [?done], w, st)"
    by (simp add: wt_def)
  let ?ws = "(sy_workers s)[j := wt]"
  have taken: "sum_list (map (\<lambda>wt. mset (wt_taken wt)) ?ws) = sum_list (map (\<lambda>wt. mset (wt_taken wt)) (sy_workers s)) + {#?b#}"
    using sum_list_map_update [OF j(1), of "\<lambda>wt. mset (wt_taken wt)" wt] by (simp add: wt_def)
  have results: "sum_list (map result_of ?ws) = sum_list (map result_of (sy_workers s)) + {#?done#}"
    using sum_list_map_update [OF j(1), of result_of wt] j(2) by (simp add: wt_def result_of_def)
  have outs: "sum_list (map (\<lambda>wt. mset (fst (worked e (wt_taken wt)))) ?ws) =
      sum_list (map (\<lambda>wt. mset (fst (worked e (wt_taken wt)))) (sy_workers s)) + {#?done#}"
    using sum_list_map_update [OF j(1), of "\<lambda>wt. mset (fst (worked e (wt_taken wt)))" wt] by (simp add: more)
  have work: "mset (sy_work s) = mset (tl (sy_work s)) + {#?b#}" by (subst j(3)) simp
  have "list_all (\<lambda>wt. snd (worked e (wt_taken wt)) = (wt_worker wt, wt_stats wt)) ?ws"
    using fo more by (intro list_all_update) (simp_all add: work_follows_def wt_def)
  with fo show ?thesis unfolding s'
    by (simp add: work_follows_def set_worker_def taken results outs work add_ac)
qed

lemma work_follows_result:
  assumes fo: "work_follows e s" and en: "enabled e (SendResult j) s"
  shows "work_follows e (worker_send j s)"
proof -
  let ?wt = "sy_workers s ! j"
  obtain b where j: "j < length (sy_workers s)" "wt_result ?wt = Some b" using en by auto
  define wt where "wt = ?wt\<lparr>wt_result := None\<rparr>"
  have s': "worker_send j s = set_worker j wt (s\<lparr>sy_completions := sy_completions s @ [b]\<rparr>)"
    by (simp add: worker_send_def j wt_def)
  let ?ws = "(sy_workers s)[j := wt]"
  have taken: "sum_list (map (\<lambda>wt. mset (wt_taken wt)) ?ws) = sum_list (map (\<lambda>wt. mset (wt_taken wt)) (sy_workers s))"
    using sum_list_map_update [OF j(1), of "\<lambda>wt. mset (wt_taken wt)" wt] by (simp add: wt_def)
  have results: "sum_list (map result_of ?ws) + {#b#} = sum_list (map result_of (sy_workers s))"
    using sum_list_map_update [OF j(1), of result_of wt] j(2) by (simp add: wt_def result_of_def)
  have outs: "sum_list (map (\<lambda>wt. mset (fst (worked e (wt_taken wt)))) ?ws) =
      sum_list (map (\<lambda>wt. mset (fst (worked e (wt_taken wt)))) (sy_workers s))"
    using sum_list_map_update [OF j(1), of "\<lambda>wt. mset (fst (worked e (wt_taken wt)))" wt] by (simp add: wt_def)
  have "list_all (\<lambda>wt. snd (worked e (wt_taken wt)) = (wt_worker wt, wt_stats wt)) ?ws"
    using fo j(1) by (intro list_all_update) (simp_all add: work_follows_def wt_def list_all_length)
  with fo show ?thesis unfolding s'
    by (simp add: work_follows_def set_worker_def taken outs results [symmetric] add_ac)
qed

lemma work_follows_ended:
  assumes fo: "work_follows e s" and j: "j < length (sy_workers s)"
  shows "work_follows e (worker_end j s)"
proof -
  let ?wt = "(sy_workers s ! j)\<lparr>wt_left := True\<rparr>"
  have same: "map f ((sy_workers s)[j := ?wt]) = map f (sy_workers s)" if "f ?wt = f (sy_workers s ! j)" for f
    using that by (metis list_update_id map_update)
  have "list_all (\<lambda>wt. snd (worked e (wt_taken wt)) = (wt_worker wt, wt_stats wt)) ((sy_workers s)[j := ?wt])"
    using fo j by (intro list_all_update) (simp_all add: work_follows_def list_all_length)
  with fo show ?thesis by (simp add: worker_end_def set_worker_def work_follows_def same result_of_def)
qed


lemma work_follows_turn:
  assumes fo: "work_follows e s" and en: "enabled e (Turn k n late) s"
  shows "work_follows e (poller_turn e k n late s)"
proof -
  let ?tn = "meets s k n late" and ?pt = "sy_pollers s ! k"
  have k: "k < length (sy_pollers s)" "pt_outbox ?pt = []" using en by auto
  obtain fl p' where w: "wait ?tn (turn_body (en_kafka e) (en_config e) ?tn (pt_poller ?pt)) = (fl, p')" by fastforce
  define pt where "pt = \<lparr>pt_poller = p', pt_outbox = drop (length (pl_sent (pt_poller ?pt))) (pl_sent p'), pt_left = (fl \<noteq> Again)\<rparr>"
  have "extends (pt_poller ?pt) p'" using turn_extends [of "pt_poller ?pt" ?tn "en_kafka e" "en_config e"] w by simp
  then obtain sent where "pl_sent p' = pl_sent (pt_poller ?pt) @ sent" by (auto simp: extends_def)
  then have "handed pt + waiting ?pt = waiting pt + handed ?pt + mset []"
    by (simp add: handed_def waiting_def pt_def k(2))
  then show ?thesis
    by (rule work_follows_poller [OF fo k(1)]) (simp_all add: poller_turn_def Let_def w set_poller_def pt_def)
qed

lemma work_follows_sent:
  assumes fo: "work_follows e s" and en: "enabled e (Send k) s" and led: "ledger e s"
    and json: "tp_parses_json (cf_transform (en_config e))"
  shows "work_follows e (poller_send k s)"
proof -
  let ?pt = "sy_pollers s ! k"
  have k: "k < length (sy_pollers s)" using en by simp
  obtain d ds where ds: "pt_outbox ?pt = d # ds" using en by (auto split: list.splits)
  with sent_kind [OF led k, of d] json obtain b where d: "d = SentWork b" by auto
  have "handed (?pt\<lparr>pt_outbox := ds\<rparr>) + waiting ?pt = waiting (?pt\<lparr>pt_outbox := ds\<rparr>) + handed ?pt + mset [b]"
    by (simp add: handed_def waiting_def ds d)
  then show ?thesis
    by (rule work_follows_poller [OF fo k]) (simp_all add: poller_send_def Let_def ds d set_poller_def)
qed

lemma work_follows_started:
  assumes fo: "work_follows e s"
  shows "work_follows e (start_thread e err s)"
proof -
  have new: "worked e [] = ([], evaluator_worker (en_config e), en_stats e)" by (simp add: worked_def)
  show ?thesis
    using fo by (auto simp: work_follows_def start_thread_def start_writing_def Let_def handed_def waiting_def poller_new_def
        new result_of_def split: main_pc.split option.split)
qed

lemma work_follows_step:
  assumes fo: "work_follows e s" and led: "ledger e s" and en: "enabled e a s"
    and json: "tp_parses_json (cf_transform (en_config e))" and none: "ct_first (sy_control (perform e a s)) = None"
  shows "work_follows e (perform e a s)"
proof (cases a)
  case (StartThread err)
  with work_follows_started [OF fo] show ?thesis by simp
next
  case (Turn k n late)
  with work_follows_turn [OF fo] en show ?thesis by simp
next
  case (Send k)
  with work_follows_sent [OF fo _ led json] en show ?thesis by (simp del: enabled.simps)
next
  case (Refuse k err)
  with none show ?thesis
    by (simp add: poller_refused_def Let_def fail_def runtime_failure_def record_failure_first split: option.splits)
next
  case (TakeWork j)
  with work_follows_taken [OF fo] en show ?thesis by (simp del: enabled.simps)
next
  case (SendResult j)
  with work_follows_result [OF fo] en show ?thesis by (simp del: enabled.simps)
next
  case (EndWorker j)
  with work_follows_ended [OF fo] en show ?thesis by simp
next
  case TakeCompletions
  have "mset (sy_completions s) = {#hd (sy_completions s)#} + mset (tl (sy_completions s))"
    using en TakeCompletions by (cases "sy_completions s") simp_all
  with fo TakeCompletions show ?thesis
    by (simp add: work_follows_def writer_take_def writer_computes_def Let_def add_ac)
qed (use fo in \<open>simp_all add: work_follows_def writer_release_def writer_close_def writer_flush_def
      set_phase_def writer_computes_def Let_def split: prod.split\<close>)

section \<open>The writer's steps are one run\<close>

definition so_far :: "('x, 'i, 'e, 'v, 'k, 'w) setting \<Rightarrow> 'w \<Rightarrow> 'w writer_thread \<Rightarrow> 'w writer_state" where
  "so_far e w wr =
     (let s = fold (take_batch (en_json e) (en_sink e) (en_config e)) (wr_taken wr) (writer_init w calm (en_stats e));
          s' = drain_pending (length (en_inputs e)) s
      in case wr_phase wr of Receiving \<Rightarrow> s | Draining \<Rightarrow> s' | Over \<Rightarrow> final_flush (en_sink e) s')"

definition writer_follows :: "('x, 'i, 'e, 'v, 'k, 'w) setting \<Rightarrow> 'w \<Rightarrow> ('x, 'k, 'w) pipeline \<Rightarrow> bool" where
  "writer_follows e w s \<longleftrightarrow> hushed (wr_state (sy_writer s)) = hushed (so_far e w (sy_writer s)) \<and>
     ws_failure (wr_state (sy_writer s)) = None \<and> (sy_main s \<noteq> Started \<longrightarrow> wr_taken (sy_writer s) = [])"

lemma writer_follows_start: "writer_follows e w (pipeline_start e w shutdown)"
  by (simp add: writer_follows_def pipeline_start_def so_far_def writer_init_def calm_def hushed_iff Let_def)

text \<open>A step of the writer that records no failure leaves none behind.\<close>

lemma writer_unbroken:
  assumes "ws_failure (wr_state (sy_writer s)) = None" "ct_first (sy_control s) = None"
    and "\<And>ws. reported None ws \<Longrightarrow> reported None (f ws)" "ct_first (sy_control (writer_computes f s)) = None"
  shows "ws_failure (wr_state (sy_writer (writer_computes f s))) = None"
proof -
  let ?ws = "(wr_state (sy_writer s))\<lparr>ws_control := sy_control s\<rparr>"
  have "reported None ?ws" using assms(1,2) by (simp add: reported_def agree_def)
  from assms(3) [OF this] assms(4) show ?thesis
    by (auto simp: writer_computes_def Let_def reported_def agree_def split: option.splits)
qed

lemma writer_computes_hushed:
  assumes "hushed (wr_state (sy_writer s)) = hushed ws" "\<And>a b. hushed a = hushed b \<Longrightarrow> hushed (f a) = hushed (f b)"
  shows "hushed (wr_state (sy_writer (writer_computes f s))) = hushed (f ws)"
proof -
  have "hushed ((wr_state (sy_writer s))\<lparr>ws_control := sy_control s\<rparr>) = hushed ws" using assms(1) by (simp add: hushed_iff)
  from assms(2) [OF this] show ?thesis by (simp add: writer_computes_def Let_def)
qed


lemma reported_take_batch: "reported None ws \<Longrightarrow> reported None (take_batch js ops cf b ws)"
  using reported_take_batches [of None ws js ops cf "[b]"] by simp

lemma writer_computes_writer:
  "wr_taken (sy_writer (writer_computes f s)) = wr_taken (sy_writer s)" "wr_phase (sy_writer (writer_computes f s)) = wr_phase (sy_writer s)"
  "sy_main (writer_computes f s) = sy_main s"
  by (simp_all add: writer_computes_def Let_def)

lemma writer_follows_same:
  assumes "writer_follows e w s" "wr_state (sy_writer s') = wr_state (sy_writer s)" "wr_taken (sy_writer s') = wr_taken (sy_writer s)"
    "wr_phase (sy_writer s') = wr_phase (sy_writer s)" "sy_main s' \<noteq> Started \<longrightarrow> sy_main s \<noteq> Started"
  shows "writer_follows e w s'"
  using assms by (simp add: writer_follows_def so_far_def Let_def)

lemma start_thread_writer:
  assumes "sy_main s \<noteq> Started"
  shows "(\<exists>s'. start_thread e err s = start_writing s' \<and> sy_writer s' = sy_writer s \<and>
      sy_control s' = sy_control (start_thread e err s)) \<or> sy_writer (start_thread e err s) = sy_writer s"
proof -
  have control: "sy_control (start_writing s') = sy_control s'" for s' :: "('a, 'b, 'c) pipeline"
    by (simp add: start_writing_def Let_def)
  have "start_thread e err s = start_writing s \<or> (\<exists>ct. start_thread e err s = start_writing (s\<lparr>sy_control := ct\<rparr>)) \<or>
      sy_writer (start_thread e err s) = sy_writer s"
    using assms by (auto simp: start_thread_def split: main_pc.split option.split)
  then show ?thesis
  proof (elim disjE exE)
    fix ct assume "start_thread e err s = start_writing (s\<lparr>sy_control := ct\<rparr>)"
    then show ?thesis by (intro disjI1 exI [of _ "s\<lparr>sy_control := ct\<rparr>"]) (simp add: control)
  qed (use control in auto)
qed

lemma writer_follows_step:
  assumes fo: "writer_follows e w s" and ph: "phases e s" and en: "enabled e a s"
    and none: "ct_first (sy_control (perform e a s)) = None"
  shows "writer_follows e w (perform e a s)"
proof -
  have before: "ct_first (sy_control s) = None" using failure_stays [of s e a] none by blast
  have fail: "ws_failure (wr_state (sy_writer s)) = None" using fo by (simp add: writer_follows_def)
  have hush: "hushed (wr_state (sy_writer s)) = hushed (so_far e w (sy_writer s))" using fo by (simp add: writer_follows_def)
  show ?thesis
  proof (cases a)
    case (StartThread err)
    have st: "sy_main s \<noteq> Started" using en StartThread by simp
    with fo ph have r: "wr_taken (sy_writer s) = []" "wr_phase (sy_writer s) = Receiving" by (simp_all add: writer_follows_def phases_def)
    with hush have ws: "ws_sink (wr_state (sy_writer s)) = w" "ws_stats (wr_state (sy_writer s)) = en_stats e"
      by (simp_all add: so_far_def hushed_iff writer_init_def)
    have fresh: "writer_follows e w (start_writing s')" if "sy_writer s' = sy_writer s" "ct_first (sy_control s') = None" for s'
      using that r ws by (simp add: writer_follows_def start_writing_def so_far_def hushed_iff writer_init_def calm_def Let_def)
    from start_thread_writer [OF st, of e err] show ?thesis
    proof (elim disjE exE conjE)
      fix s' assume "start_thread e err s = start_writing s'" "sy_writer s' = sy_writer s" "sy_control s' = sy_control (start_thread e err s)"
      with fresh none StartThread show ?thesis by simp
    next
      assume "sy_writer (start_thread e err s) = sy_writer s"
      with StartThread st show ?thesis by (intro writer_follows_same [OF fo]) simp_all
    qed
  next
    case TakeCompletions
    let ?f = "take_batch (en_json e) (en_sink e) (en_config e) (hd (sy_completions s))"
    let ?s = "s\<lparr>sy_completions := tl (sy_completions s), sy_writer := (sy_writer s)\<lparr>wr_taken := wr_taken (sy_writer s) @ [hd (sy_completions s)]\<rparr>\<rparr>"
    have s': "perform e a s = writer_computes ?f ?s" using TakeCompletions by (simp add: writer_take_def Let_def)
    have rec: "wr_phase (sy_writer s) = Receiving" "sy_main s = Started" using en TakeCompletions by simp_all
    have "hushed (wr_state (sy_writer (writer_computes ?f ?s))) = hushed (?f (so_far e w (sy_writer s)))"
      by (rule writer_computes_hushed) (use hush take_batch_hushed in auto)
    moreover have "?f (so_far e w (sy_writer s)) = so_far e w (sy_writer (writer_computes ?f ?s))"
      using rec by (simp add: so_far_def writer_computes_writer Let_def)
    moreover have "ws_failure (wr_state (sy_writer (writer_computes ?f ?s))) = None"
      by (rule writer_unbroken) (use fail before reported_take_batch none s' in auto)
    ultimately show ?thesis unfolding s' using rec by (simp add: writer_follows_def writer_computes_writer)
  next
    case CloseWriter
    let ?f = "drain_pending (length (en_inputs e))"
    have s': "perform e a s = set_phase Draining (writer_computes ?f s)" using CloseWriter by (simp add: writer_close_def)
    have rec: "wr_phase (sy_writer s) = Receiving" "sy_main s = Started" using en CloseWriter by simp_all
    have "hushed (wr_state (sy_writer (writer_computes ?f s))) = hushed (?f (so_far e w (sy_writer s)))"
      by (rule writer_computes_hushed [OF hush drain_pending_hushed])
    moreover have "?f (so_far e w (sy_writer s)) = so_far e w (sy_writer (set_phase Draining (writer_computes ?f s)))"
      using rec by (simp add: so_far_def set_phase_def writer_computes_writer Let_def)
    moreover have "ws_failure (wr_state (sy_writer (writer_computes ?f s))) = None"
      by (rule writer_unbroken) (use fail before reported_drain none s' in \<open>auto simp: set_phase_def\<close>)
    ultimately show ?thesis unfolding s' using rec by (simp add: writer_follows_def set_phase_def writer_computes_writer)
  next
    case FlushWriter
    let ?f = "final_flush (en_sink e)"
    have s': "perform e a s = set_phase Over (writer_computes ?f s)" using FlushWriter by (simp add: writer_flush_def)
    have rec: "wr_phase (sy_writer s) = Draining" "sy_main s = Started" using en FlushWriter ph by (auto simp: phases_def)
    have "hushed (wr_state (sy_writer (writer_computes ?f s))) = hushed (?f (so_far e w (sy_writer s)))"
      by (rule writer_computes_hushed [OF hush final_flush_hushed])
    moreover have "?f (so_far e w (sy_writer s)) = so_far e w (sy_writer (set_phase Over (writer_computes ?f s)))"
      using rec by (simp add: so_far_def set_phase_def writer_computes_writer Let_def)
    moreover have "ws_failure (wr_state (sy_writer (writer_computes ?f s))) = None"
      by (rule writer_unbroken) (use fail before reported_flush none s' in \<open>auto simp: set_phase_def\<close>)
    ultimately show ?thesis unfolding s' using rec by (simp add: writer_follows_def set_phase_def writer_computes_writer)
  qed (rule writer_follows_same [OF fo]; auto simp: poller_turn_def poller_send_def poller_refused_def worker_take_def worker_send_def
      worker_end_def writer_release_def Let_def split: prod.split dispatch.split option.split)+
qed

section \<open>The channel without evaluators\<close>

text \<open>
  Without evaluators the pollers send to the writer themselves: of each poller, what it handed out is at the writer, in
  the channel or in its outbox, in this order.
\<close>

definition at_poller :: "('k poller_thread \<Rightarrow> dispatch list) \<Rightarrow> ('x, 'k, 'w) pipeline \<Rightarrow> nat \<Rightarrow> completion_batch list" where
  "at_poller f s k = (if k < length (sy_pollers s) then concat (map done_of (f (sy_pollers s ! k))) else [])"

definition direct_follows :: "('x, 'k, 'w) pipeline \<Rightarrow> bool" where
  "direct_follows s \<longleftrightarrow> (\<forall>k. filter (\<lambda>b. cb_consumer b = k) (wr_taken (sy_writer s) @ sy_completions s) @
     at_poller pt_outbox s k = at_poller (\<lambda>pt. pl_sent (pt_poller pt)) s k)"

lemma direct_follows_start: "direct_follows (pipeline_start e w shutdown)"
  by (simp add: direct_follows_def pipeline_start_def at_poller_def Let_def)

lemma at_poller_set: "k < length (sy_pollers s) \<Longrightarrow>
    at_poller f (set_poller k pt s) j = (if j = k then concat (map done_of (f pt)) else at_poller f s j)"
  by (simp add: at_poller_def set_poller_def)

lemma at_poller_same: "sy_pollers s' = sy_pollers s \<Longrightarrow> at_poller f s' = at_poller f s"
  by (simp add: fun_eq_iff at_poller_def)

lemma at_poller_grown:
  assumes "sy_pollers s' = sy_pollers s @ [pt]" "f pt = []"
  shows "at_poller f s' = at_poller f s"
  using assms by (auto simp: fun_eq_iff at_poller_def nth_append less_Suc_eq)

lemma direct_followsD: "direct_follows s \<Longrightarrow> filter (\<lambda>b. cb_consumer b = k) (wr_taken (sy_writer s) @ sy_completions s) @
    at_poller pt_outbox s k = at_poller (\<lambda>pt. pl_sent (pt_poller pt)) s k"
  unfolding direct_follows_def by blast

lemma direct_follows_same:
  assumes "direct_follows s" "sy_pollers s' = sy_pollers s"
    "wr_taken (sy_writer s') @ sy_completions s' = wr_taken (sy_writer s) @ sy_completions s"
  shows "direct_follows s'"
  using assms by (simp add: direct_follows_def at_poller_same [OF assms(2)] del: filter_append)

lemma direct_follows_started:
  assumes fo: "direct_follows s"
  shows "direct_follows (start_thread e err s)"
proof -
  have same: "direct_follows (start_writing s')" if "direct_follows s'" for s'
    by (rule direct_follows_same [OF that]) (simp_all add: start_writing_def Let_def)
  have grown: "direct_follows s'" if "sy_pollers s' = sy_pollers s @ [pt]" "pt_outbox pt = []" "pl_sent (pt_poller pt) = []"
    "wr_taken (sy_writer s') = wr_taken (sy_writer s)" "sy_completions s' = sy_completions s" for s' pt
    using fo that(2-5) at_poller_grown [OF that(1), of pt_outbox] at_poller_grown [OF that(1), of "\<lambda>pt. pl_sent (pt_poller pt)"]
    by (simp add: direct_follows_def del: filter_append)
  have plain: "direct_follows (s\<lparr>sy_main := m\<rparr>)" "direct_follows (s\<lparr>sy_main := m, sy_control := ct\<rparr>)"
    "direct_follows (s\<lparr>sy_main := m, sy_workers := ws\<rparr>)" "direct_follows (s\<lparr>sy_control := ct\<rparr>)" for m ct ws
    by (rule direct_follows_same [OF fo]; simp)+
  show ?thesis
    using fo by (auto simp: start_thread_def same plain poller_new_def intro: grown split: main_pc.split option.split)
qed

lemma direct_follows_turn:
  assumes fo: "direct_follows s" and en: "enabled e (Turn k n late) s"
  shows "direct_follows (poller_turn e k n late s)"
proof -
  let ?tn = "meets s k n late" and ?pt = "sy_pollers s ! k"
  have k: "k < length (sy_pollers s)" "pt_outbox ?pt = []" using en by auto
  obtain fl p' where w: "wait ?tn (turn_body (en_kafka e) (en_config e) ?tn (pt_poller ?pt)) = (fl, p')" by fastforce
  have "extends (pt_poller ?pt) p'" using turn_extends [of "pt_poller ?pt" ?tn "en_kafka e" "en_config e"] w by simp
  then obtain sent where sent: "pl_sent p' = pl_sent (pt_poller ?pt) @ sent" by (auto simp: extends_def)
  obtain s1 pt where s': "poller_turn e k n late s = set_poller k pt s1" "sy_pollers s1 = sy_pollers s"
      "sy_writer s1 = sy_writer s" "sy_completions s1 = sy_completions s" "pt_poller pt = p'" "pt_outbox pt = sent"
    by (auto simp: poller_turn_def Let_def w sent)
  have "filter (\<lambda>b. cb_consumer b = k) (wr_taken (sy_writer s) @ sy_completions s) = concat (map done_of (pl_sent (pt_poller ?pt)))"
    using direct_followsD [OF fo, of k] k by (simp add: at_poller_def del: filter_append)
  then show ?thesis
    using fo k(1) by (simp add: direct_follows_def s' at_poller_set at_poller_same [OF s'(2)] sent del: filter_append)
qed

lemma direct_follows_sent:
  assumes fo: "direct_follows s" and en: "enabled e (Send k) s" and led: "ledger e s"
    and json: "\<not> tp_parses_json (cf_transform (en_config e))"
  shows "direct_follows (poller_send k s)"
proof -
  let ?pt = "sy_pollers s ! k"
  have k: "k < length (sy_pollers s)" using en by simp
  obtain d ds where ds: "pt_outbox ?pt = d # ds" using en by (auto split: list.splits)
  have "dispatch_ok k (destination_of (en_config e)) (members e k) d"
    using led k ds by (auto simp: ledger_def in_shape_def Let_def poller_sound_def)
  with json obtain b where d: "d = SentCompletions b" "cb_consumer b = k" by (auto simp: dispatch_ok_def package_def destination_of_def)
  have one: "filter (\<lambda>b. cb_consumer b = k) (wr_taken (sy_writer s) @ sy_completions s) @ b # concat (map done_of ds) =
      at_poller (\<lambda>pt. pl_sent (pt_poller pt)) s k"
    using direct_followsD [OF fo, of k] k ds d by (simp add: at_poller_def del: filter_append)
  show ?thesis
    unfolding direct_follows_def
  proof
    fix j
    show "filter (\<lambda>b. cb_consumer b = j) (wr_taken (sy_writer (poller_send k s)) @ sy_completions (poller_send k s)) @
        at_poller pt_outbox (poller_send k s) j = at_poller (\<lambda>pt. pl_sent (pt_poller pt)) (poller_send k s) j"
      using direct_followsD [OF fo, of j] one k
      by (cases "j = k") (auto simp: poller_send_def Let_def ds d at_poller_def set_poller_def)
  qed
qed

lemma direct_follows_step:
  assumes fo: "direct_follows s" and led: "ledger e s" and ph: "phases e s" and en: "enabled e a s"
    and json: "\<not> tp_parses_json (cf_transform (en_config e))" and none: "ct_first (sy_control (perform e a s)) = None"
  shows "direct_follows (perform e a s)"
proof -
  have idle: "sy_workers s = []" using ph json by (simp add: phases_def worker_counted [THEN iffD2])
  show ?thesis
  proof (cases a)
    case (StartThread err)
    with direct_follows_started [OF fo] show ?thesis by simp
  next
    case (Turn k n late)
    with direct_follows_turn [OF fo] en show ?thesis by simp
  next
    case (Send k)
    with direct_follows_sent [OF fo _ led json] en show ?thesis by (simp del: enabled.simps)
  next
    case (Refuse k err)
    with none show ?thesis
      by (simp add: poller_refused_def Let_def fail_def runtime_failure_def record_failure_first split: option.splits)
  next
    case TakeCompletions
    have "sy_completions s = hd (sy_completions s) # tl (sy_completions s)" using en TakeCompletions by simp
    then show ?thesis
      using TakeCompletions by (intro direct_follows_same [OF fo]) (simp_all add: writer_take_def writer_computes_def Let_def)
  qed (use en idle in \<open>auto intro!: direct_follows_same [OF fo]
      simp: writer_release_def writer_close_def writer_flush_def set_phase_def writer_computes_def Let_def split: prod.split\<close>)
qed

section \<open>A finished run\<close>

definition batches_follow :: "('x, 'i, 'e, 'v, 'k, 'w) setting \<Rightarrow> ('x, 'k, 'w) pipeline \<Rightarrow> bool" where
  "batches_follow e s \<longleftrightarrow> (if tp_parses_json (cf_transform (en_config e)) then work_follows e s else direct_follows s)"

lemma followed:
  assumes law: "lawful e contents" and run: "(run_step e)\<^sup>*\<^sup>* (pipeline_start e w shutdown) s" and none: "ct_first (sy_control s) = None"
  shows "pollers_follow e s \<and> batches_follow e s \<and> writer_follows e w s"
  using run none
proof induction
  case base
  show ?case by (simp add: pollers_follow_start batches_follow_def work_follows_start direct_follows_start writer_follows_start)
next
  case (step s1 s2)
  from step.hyps(2) obtain a where a: "enabled e a s1" "s2 = perform e a s1" by cases
  have "ct_first (sy_control s1) = None" using step.prems a(2) by (metis failure_stays)
  with step.IH have fo: "pollers_follow e s1" "batches_follow e s1" "writer_follows e w s1" by simp_all
  have inv: "ledger e s1" "phases e s1" using reached [OF law step.hyps(1)] by simp_all
  have "batches_follow e (perform e a s1)"
    using fo(2) work_follows_step [OF _ inv(1) a(1)] direct_follows_step [OF _ inv a(1)] step.prems a(2)
    by (simp add: batches_follow_def split: if_splits)
  then show ?case unfolding a(2)
    using pollers_follow_step [OF fo(1) inv a(1)] writer_follows_step [OF fo(3) inv(2) a(1)] step.prems a(2) by simp
qed

lemma finished_run:
  assumes law: "lawful e contents" and cap: "0 < record_capacity e"
    and run: "(run_step e)\<^sup>*\<^sup>* (pipeline_start e w shutdown) s" and fin: "finished s" and none: "ct_first (sy_control s) = None"
  defines "ps \<equiv> map pt_poller (sy_pollers s)"
  shows "pollers_ran (en_kafka e) (en_config e) (en_inputs e) ps"
    and "arrived (en_engine e) (en_panics e) (en_unwound e) (en_config e) ps (wr_taken (sy_writer s))"
    and "\<exists>ws. write_completions (en_json e) (en_sink e) (en_config e) (length (en_inputs e)) (wr_taken (sy_writer s))
        (writer_init w calm (en_stats e)) = (Inr (), ws) \<and> ws_sink ws = ws_sink (wr_state (sy_writer s))"
proof -
  have fo: "pollers_follow e s" "batches_follow e s" "writer_follows e w s" using followed [OF law run none] by simp_all
  have inv: "phases e s" using reached [OF law run] by simp
  have f: "sy_main s = Started" "wr_phase (sy_writer s) = Over" "list_all wt_left (sy_workers s)" "list_all poller_gone (sy_pollers s)"
    using fin by (simp_all add: finished_def)
  have len: "length (sy_pollers s) = length (en_inputs e)" "length (sy_workers s) = worker_count e"
    using fo(1) f(1) by (simp_all add: pollers_follow_def consumers_def)
  show "pollers_ran (en_kafka e) (en_config e) (en_inputs e) ps"
    unfolding pollers_ran_def
  proof (intro conjI allI impI)
    show "length ps = length (en_inputs e)" by (simp add: ps_def len)
    fix k assume k: "k < length (en_inputs e)"
    have gone: "pt_left (sy_pollers s ! k)" using f(4) k len(1) by (simp add: list_all_length poller_gone_def)
    have "looped e k (sy_pollers s ! k)" using fo(1) k len(1) by (simp add: pollers_follow_def)
    with gone obtain tns sh ct st where "\<forall>tn \<in> set tns. steady tn"
      "poll_loop (en_kafka e) (en_config e) tns (poller_new (en_config e) k (en_inputs e ! k) sh ct st) = (Stopped, ps ! k)"
      "\<not> failed (ps ! k)" "pl_buffer (ps ! k) = None"
      using k len(1) by (auto simp: looped_def ps_def)
    then show "\<exists>tns sh ct st fl. (\<forall>tn \<in> set tns. steady tn) \<and>
        poll_loop (en_kafka e) (en_config e) tns (poller_new (en_config e) k (en_inputs e ! k) sh ct st) = (fl, ps ! k) \<and>
        \<not> failed (ps ! k) \<and> buffered (ps ! k) = []"
      by (intro exI conjI) (auto simp: buffered_def)
  qed
  have comp: "sy_completions s = []" using inv f(2) by (simp add: phases_def)
  show "arrived (en_engine e) (en_panics e) (en_unwound e) (en_config e) ps (wr_taken (sy_writer s))"
  proof (cases "tp_parses_json (cf_transform (en_config e))")
    case True
    then have follow: "work_follows e s" using fo(2) by (simp add: batches_follow_def)
    have "sy_workers s \<noteq> []" using len(2) True cap worker_counted [of e] by auto
    then have "list_ex wt_left (sy_workers s)" using f(3) by (cases "sy_workers s") simp_all
    then have work: "sy_work s = []" using inv by (simp add: phases_def)
    have results: "sum_list (map result_of (sy_workers s)) = {#}"
      by (rule sum_list_empty) (use inv f(3) in \<open>force simp: phases_def list_all_iff result_of_def split: option.split\<close>)
    have "sum_list (map waiting (sy_pollers s)) = {#}"
      by (rule sum_list_empty) (use f(4) in \<open>auto simp: list_all_iff poller_gone_def waiting_def\<close>)
    with follow work have sent: "sum_list (map handed (sy_pollers s)) = sum_list (map (\<lambda>wt. mset (wt_taken wt)) (sy_workers s))"
      by (simp add: work_follows_def)
    have all: "mset (concat (map g xs)) = sum_list (map (\<lambda>x. mset (g x)) xs)" for g :: "'z \<Rightarrow> 'y list" and xs
      by (induction xs) simp_all
    let ?shares = "map (\<lambda>wt. (wt_taken wt, en_stats e)) (sy_workers s)"
    have "mset (concat (map fst ?shares)) = mset (sent_work ps)"
    proof -
      have "mset (sent_work ps) = sum_list (map handed (sy_pollers s))"
        by (simp add: sent_work_def ps_def comp_def all handed_def [abs_def])
      with sent show ?thesis by (simp add: comp_def all)
    qed
    moreover have "mset (wr_taken (sy_writer s)) = mset (concat (map (\<lambda>(share, st).
        fst (worker_loop (en_engine e) (en_panics e) (en_unwound e) (en_config e) (\<lambda>_. True) share (evaluator_worker (en_config e), st))) ?shares))"
      using follow comp results by (simp add: work_follows_def worked_def all comp_def)
    ultimately have "evaluated (en_engine e) (en_panics e) (en_unwound e) (en_config e) (sent_work ps) (wr_taken (sy_writer s))"
      unfolding evaluated_def by blast
    with True show ?thesis by (simp add: arrived_def)
  next
    case False
    then have direct: "direct_follows s" using fo(2) by (simp add: batches_follow_def)
    have "filter (\<lambda>b. cb_consumer b = k) (wr_taken (sy_writer s)) =
        (if k < length ps then concat (map done_of (pl_sent (ps ! k))) else [])" for k
      using direct_followsD [OF direct, of k] comp f(4)
      by (auto simp: at_poller_def ps_def list_all_length poller_gone_def split: if_splits)
    with False show ?thesis by (simp add: arrived_def)
  qed
  have "hushed (wr_state (sy_writer s)) = hushed (so_far e w (sy_writer s))" "ws_failure (wr_state (sy_writer s)) = None"
    using fo(3) by (simp_all add: writer_follows_def)
  then show "\<exists>ws. write_completions (en_json e) (en_sink e) (en_config e) (length (en_inputs e)) (wr_taken (sy_writer s))
        (writer_init w calm (en_stats e)) = (Inr (), ws) \<and> ws_sink ws = ws_sink (wr_state (sy_writer s))"
    using f(2) by (simp add: write_completions_def so_far_def hushed_iff Let_def)
qed

end
