(* ===== verification/Poller_Completes.thy ===== *)
theory Poller_Completes
  imports Poller_Facts
begin

text \<open>
  That a poller leaves nothing out: as long as nobody asks it to stop and no limit on the number of records
  applies, a partition is only finished by the message that ends it, and every due message before that
  becomes a record.
\<close>

section \<open>The message that ends a partition\<close>

definition ends :: "bool \<Rightarrow> partition_state \<Rightarrow> native_message \<Rightarrow> bool" where
  "ends exit_at_end st m \<longleftrightarrow> nm_partition m = pr_partition (ps_range st) \<and> (case nm_err m of
      RespPartitionEof \<Rightarrow> (case pr_end (ps_range st) of Some e \<Rightarrow> e \<le> nm_offset m | None \<Rightarrow> exit_at_end)
    | RespNoError \<Rightarrow> (case pr_end (ps_range st) of Some e \<Rightarrow> e \<le> nm_offset m | None \<Rightarrow> False)
    | _ \<Rightarrow> False)"

text \<open>The due messages of a log up to the one that ends the partition.\<close>

definition in_time :: "bool \<Rightarrow> partition_state \<Rightarrow> native_message list \<Rightarrow> native_message list" where
  "in_time exit_at_end st log = filter (due st) (takeWhile (\<lambda>m. \<not> ends exit_at_end st m) log)"

lemma ends_done [simp]: "ends x (st\<lparr>ps_done := d\<rparr>) = ends x st"
  by (auto simp: fun_eq_iff ends_def split: resp_code.split option.split)

lemma due_done [simp]: "due (st\<lparr>ps_done := d\<rparr>) = due st"
  by (simp add: fun_eq_iff due_def)

lemma in_time_done [simp]: "in_time x (st\<lparr>ps_done := d\<rparr>) log = in_time x st log"
  by (simp add: in_time_def)

lemma in_time_prefix: "in_time x st log = take (length (in_time x st log)) (filter (due st) log)"
proof -
  have "filter (due st) log = in_time x st log @ filter (due st) (dropWhile (\<lambda>m. \<not> ends x st m) log)"
    unfolding in_time_def by (metis filter_append takeWhile_dropWhile_id)
  then show ?thesis by simp
qed

text \<open>Only the partition's own messages count.\<close>

lemma in_time_own:
  assumes "pr_partition (ps_range st) = q"
  shows "in_time x st (filter (\<lambda>m. nm_partition m = q) log) = in_time x st log"
proof -
  have own: "due st m \<or> ends x st m \<Longrightarrow> nm_partition m = q" for m
    using assms by (auto simp: due_def ends_def covers_def)
  show ?thesis
  proof (induction log)
    case (Cons m log)
    then show ?case using own [of m] by (cases "nm_partition m = q") (auto simp: in_time_def)
  qed simp
qed

lemma in_time_ended:
  assumes "\<forall>m \<in> set read. \<not> ends x st m" "ends x st m"
  shows "in_time x st (read @ m # rest) = filter (due st) read"
  using assms by (simp add: in_time_def takeWhile_append2)

lemma ends_not_due: "ends x st m \<Longrightarrow> \<not> due st m"
  by (auto simp: ends_def due_def covers_def split: option.splits resp_code.splits)

section \<open>Which partitions a poll finishes\<close>

lemma finish_get:
  "bt_get (ki_partitions (snd (finish ko p ki))) q =
     (if q = p then map_option (\<lambda>st. st\<lparr>ps_done := True\<rparr>) (bt_get (ki_partitions ki) q) else bt_get (ki_partitions ki) q)"
  by (cases "bt_get (ki_partitions ki) p") (auto simp: finish_def pause_def bt_get_insert split: prod.split)

lemma handle_eof_get:
  "bt_get (ki_partitions (snd (handle_eof ko p n ki))) q =
     (if q = p then map_option (\<lambda>st. st\<lparr>ps_done := ps_done st \<or>
          (case pr_end (ps_range st) of Some e \<Rightarrow> e \<le> n | None \<Rightarrow> ki_exit_at_end ki)\<rparr>) (bt_get (ki_partitions ki) q)
      else bt_get (ki_partitions ki) q)"
  by (auto simp: handle_eof_def finish_get split: option.split)

lemma finish_exit: "ki_exit_at_end (snd (finish ko p ki)) = ki_exit_at_end ki"
  by (simp add: finish_def pause_def split: option.split prod.split)

lemma handle_eof_exit: "ki_exit_at_end (snd (handle_eof ko p n ki)) = ki_exit_at_end ki"
  by (simp add: handle_eof_def finish_exit split: option.split)

lemma poll_exit: "ki_exit_at_end (snd (poll_with_timeout ko timeout ki)) = ki_exit_at_end ki"
proof -
  have idle: "snd (idle_after x) = snd x" for x :: "(input_error + unit) \<times> 'a kafka_input"
    by (simp add: idle_after_def case_prod_beta)
  have "ki_exit_at_end (snd (take_message ko m ki)) = ki_exit_at_end ki" for m ki
    by (simp add: take_message_def idle handle_eof_exit finish_exit own_record_def Let_def case_prod_beta
        split: option.split sum.split)
  moreover have "ki_exit_at_end (snd (poll_error ko e ki)) = ki_exit_at_end ki" for e ki
    by (simp add: poll_error_def split: kafka_error.split)
  ultimately show ?thesis
    by (simp add: poll_with_timeout_def Let_def case_prod_beta split: option.split polled.split)
qed

lemma take_message_get:
  assumes ok: "input_ok ki" and code: "nm_err m = RespNoError \<or> nm_err m = RespPartitionEof"
    and take: "take_message ko m ki = (Inr ev, ki')" and get: "bt_get (ki_partitions ki) q = Some st"
  shows "bt_get (ki_partitions ki') q = Some (st\<lparr>ps_done := ps_done st \<or> ends (ki_exit_at_end ki) st m\<rparr>)"
proof -
  have idle: "snd (idle_after x) = snd x" for x :: "(input_error + unit) \<times> 'a kafka_input"
    by (simp add: idle_after_def case_prod_beta)
  have range: "pr_partition (ps_range st) = q" using ok get by (simp add: input_ok_def)
  have same: "st\<lparr>ps_done := ps_done st\<rparr> = st" for st :: partition_state by simp
  show ?thesis
  proof (cases "nm_err m = RespPartitionEof")
    case True
    with take have "ki' = snd (handle_eof ko (nm_partition m) (nm_offset m) ki)"
      using idle [of "handle_eof ko (nm_partition m) (nm_offset m) ki"] by (simp add: take_message_def is_partition_eof_def)
    then show ?thesis
      using get range True by (auto simp: handle_eof_get ends_def)
  next
    case False
    with code have real: "nm_err m = RespNoError" by simp
    show ?thesis
    proof (cases "nm_partition m = q")
      case own: True
      show ?thesis
      proof (cases "\<not> ps_done st \<and> (case pr_end (ps_range st) of Some e \<Rightarrow> nm_offset m \<ge> e | None \<Rightarrow> False)")
        case True
        then have "ki' = snd (finish ko q ki)" "ends (ki_exit_at_end ki) st m"
          using take real get own range idle [of "finish ko q ki"]
          by (auto simp: take_message_def is_partition_eof_def ends_def split: option.splits)
        then show ?thesis using get by (simp add: finish_get)
      next
        case False
        then have "ps_done st \<or> \<not> ends (ki_exit_at_end ki) st m" using real by (auto simp: ends_def)
        moreover have "ki_partitions ki' = ki_partitions ki"
          using take real get own False
          by (auto simp: take_message_def is_partition_eof_def own_record_def Let_def split: if_splits sum.splits prod.splits option.splits)
        ultimately show ?thesis using get by auto
      qed
    next
      case False
      then have "\<not> ends (ki_exit_at_end ki) st m" using range by (simp add: ends_def)
      moreover have "bt_get (ki_partitions ki') q = bt_get (ki_partitions ki) q"
        using take real False idle [of "finish ko (nm_partition m) ki"]
        by (auto simp: take_message_def is_partition_eof_def own_record_def Let_def finish_get
            dest!: arg_cong [where f = snd] split: if_splits sum.splits prod.splits option.splits)
      ultimately show ?thesis using get by simp
    qed
  qed
qed


text \<open>What a poll without an error does: nothing, or the next message, which it may turn into a record.\<close>

lemma poll_takes:
  assumes ok: "input_ok ki" and laws: "queue_law ko incoming" "pause_law ko incoming"
    and size: "\<forall>m \<in> set (backlog incoming (ki_consumer ki)). \<forall>bs. nm_payload m = Some bs \<longrightarrow> length bs \<le> usize_max"
    and poll: "poll_with_timeout ko timeout ki = (Inr ev, ki')"
  shows "ki_exit_at_end ki' = ki_exit_at_end ki \<and>
    (ki_partitions ki' = ki_partitions ki \<and> backlog incoming (ki_consumer ki') = backlog incoming (ki_consumer ki) \<and>
       (\<forall>rc. ev \<noteq> PollRecord rc) \<or>
     (\<exists>m rest. backlog incoming (ki_consumer ki) = m # rest \<and> decided ki m (Inr ev) \<and>
       (\<forall>q st. bt_get (ki_partitions ki) q = Some st \<longrightarrow>
          bt_get (ki_partitions ki') q = Some (st\<lparr>ps_done := ps_done st \<or> ends (ki_exit_at_end ki) st m\<rparr>)) \<and>
       unread incoming ki' (ki_consumer ki') = filter (\<lambda>m. open_at ki' (nm_partition m)) rest))"
proof (cases "ki_remaining ki = 0")
  case True
  with poll show ?thesis by (auto simp: poll_with_timeout_def)
next
  case False
  obtain r1 fc where fetch: "fetch_poll ko timeout (ki_consumer ki) = (r1, fc)" by fastforce
  define ki1 where "ki1 = ki\<lparr>ki_consumer := fc\<rparr>"
  have fc_ok: "fetch_ok (ki_consumer ki)" using ok by (simp add: input_ok_def)
  note fifo = fetch_poll_step [OF laws(1) fc_ok fetch]
  have ki1: "input_ok ki1" "ki_partitions ki1 = ki_partitions ki" "ki_consumer ki1 = fc"
    "ki_requirements ki1 = ki_requirements ki" "ki_exit_at_end ki1 = ki_exit_at_end ki"
    using ok fifo by (simp_all add: ki1_def input_ok_def)
  have "wanted ki1 = wanted ki" by (simp add: fun_eq_iff wanted_def ki1)
  then have same: "decided ki1 m r = decided ki m r" for m r
    unfolding decided_def by (simp only: ki1)
  have passed: ?thesis if "ki' = ki1\<lparr>ki_notices := ns\<rparr>" "ev = PollIdle"
      "backlog incoming fc = backlog incoming (ki_consumer ki) \<or>
        (\<exists>m. backlog incoming (ki_consumer ki) = m # backlog incoming fc \<and> nm_err m \<noteq> RespNoError \<and> nm_err m \<noteq> RespPartitionEof)" for ns
  proof -
    have "\<not> ends x st m \<and> \<not> wanted ki m" if "nm_err m \<noteq> RespNoError" "nm_err m \<noteq> RespPartitionEof" for m x st
      using that by (auto simp: ends_def wanted_def split: resp_code.split)
    with that show ?thesis by (auto simp: ki1 decided_def unread_def)
  qed
  show ?thesis
  proof (cases r1)
    case None
    with poll False fetch have r: "ev = PollIdle" "ki' = ki1" by (simp_all add: poll_with_timeout_def ki1_def Let_def)
    moreover have "ki1 = ki1\<lparr>ki_notices := ki_notices ki1\<rparr>" by simp
    ultimately show ?thesis using fifo None by (intro passed [of "ki_notices ki1"]) auto
  next
    case (Some out)
    show ?thesis
    proof (cases out)
      case NullMessage
      with fifo Some show ?thesis by simp
    next
      case (PollError e)
      with poll False fetch Some have "poll_error ko e ki1 = (Inr ev, ki')"
        by (simp add: poll_with_timeout_def ki1_def Let_def)
      then have "ev = PollIdle" "ki' = ki1 \<or> (\<exists>ns. ki' = ki1\<lparr>ki_notices := ns\<rparr>)"
        by (auto simp: poll_error_def split: if_splits kafka_error.splits)
      moreover have "ki1 = ki1\<lparr>ki_notices := ki_notices ki1\<rparr>" by simp
      ultimately obtain ns where "ki' = ki1\<lparr>ki_notices := ns\<rparr>" "ev = PollIdle" by metis
      moreover have "nm_err m \<noteq> RespNoError \<and> nm_err m \<noteq> RespPartitionEof" if "outcome_of m = PollError e" for m
        using that by (auto simp: outcome_of_def)
      ultimately show ?thesis using fifo Some PollError by (intro passed) auto
    next
      case (Polled m)
      with fifo Some obtain m' where m': "backlog incoming (ki_consumer ki) = m' # backlog incoming fc"
        "outcome_of m' = Polled m" by auto
      then have m: "m' = m" "nm_err m = RespNoError \<or> nm_err m = RespPartitionEof"
        by (auto simp: outcome_of_def split: resp_code.splits)
      from poll False fetch Some Polled have take: "take_message ko m ki1 = (Inr ev, ki')"
        by (simp add: poll_with_timeout_def ki1_def Let_def)
      have fits: "\<forall>bs. nm_payload m = Some bs \<longrightarrow> length bs \<le> usize_max" using size m' m by auto
      have spec: "keeps incoming ki1 ki'" "decided ki m (Inr ev)"
        using take_message_decides [OF ki1(1) laws(2) fits m(2) take] by (simp_all add: same)
      then show ?thesis
        using m' m take_message_get [OF ki1(1) m(2) take] poll_exit [of ko timeout ki] poll
        by (auto simp: ki1 keeps_def unread_def)
    qed
  qed
qed


section \<open>Nothing is left out\<close>

text \<open>
  \<open>c q\<close> records of partition \<open>q\<close> were made of \<open>log\<close>: of an open partition every due message that was read so far,
  of a finished one every due message before the end.
\<close>

definition on_partition :: "int \<Rightarrow> native_message list \<Rightarrow> native_message list" where
  "on_partition q log = filter (\<lambda>m. nm_partition m = q) log"

definition paced ::
    "('k \<Rightarrow> native_message list) \<Rightarrow> bool \<Rightarrow> native_message list \<Rightarrow> int set \<Rightarrow> (int \<Rightarrow> nat) \<Rightarrow> 'k kafka_input \<Rightarrow> bool" where
  "paced incoming x log Q c ki \<longleftrightarrow> ki_exit_at_end ki = x \<and> (\<forall>q \<in> Q. \<forall>st. bt_get (ki_partitions ki) q = Some st \<longrightarrow>
     (if ps_done st then c q = length (in_time x st log)
      else \<exists>read. on_partition q log = read @ on_partition q (backlog incoming (ki_consumer ki)) \<and>
        (\<forall>m \<in> set read. \<not> ends x st m) \<and> c q = length (filter (due st) read)))"

definition one_more :: "poll_event \<Rightarrow> int \<Rightarrow> nat" where
  "one_more ev q = (case ev of PollRecord rc \<Rightarrow> if r_partition rc = q then 1 else 0 | _ \<Rightarrow> 0)"

lemma poll_paced:
  assumes ok: "input_ok ki" and laws: "queue_law ko incoming" "pause_law ko incoming"
    and size: "\<forall>m \<in> set (backlog incoming (ki_consumer ki)). \<forall>bs. nm_payload m = Some bs \<longrightarrow> length bs \<le> usize_max"
    and poll: "poll_with_timeout ko timeout ki = (Inr ev, ki')" and pace: "paced incoming x log Q c ki"
  shows "paced incoming x log Q (\<lambda>q. c q + one_more ev q) ki'"
proof -
  note takes = poll_takes [OF ok laws size poll]
  have exit: "ki_exit_at_end ki' = x" "ki_exit_at_end ki = x" using takes pace by (simp_all add: paced_def)
  from takes consider "ki_partitions ki' = ki_partitions ki" "backlog incoming (ki_consumer ki') = backlog incoming (ki_consumer ki)"
      "\<forall>rc. ev \<noteq> PollRecord rc"
    | m rest where "backlog incoming (ki_consumer ki) = m # rest" "decided ki m (Inr ev)"
      "\<forall>q st. bt_get (ki_partitions ki) q = Some st \<longrightarrow>
          bt_get (ki_partitions ki') q = Some (st\<lparr>ps_done := ps_done st \<or> ends (ki_exit_at_end ki) st m\<rparr>)"
      "unread incoming ki' (ki_consumer ki') = filter (\<lambda>m. open_at ki' (nm_partition m)) rest" by blast
  then show ?thesis
  proof cases
    case 1
    then have "one_more ev = (\<lambda>q. 0)" by (auto simp: one_more_def fun_eq_iff split: poll_event.split)
    with 1 pace show ?thesis by (simp add: paced_def exit)
  next
    case (2 m rest)
    show ?thesis
      unfolding paced_def
    proof (intro conjI ballI allI impI)
      show "ki_exit_at_end ki' = x" by (rule exit(1))
    next
      fix q st'
      assume q: "q \<in> Q" and get': "bt_get (ki_partitions ki') q = Some st'"
      have "later ki ki'" using poll_step [OF ok laws size poll] by simp
      with get' obtain st where get: "bt_get (ki_partitions ki) q = Some st" by (auto dest: later_done)
      have st': "st' = st\<lparr>ps_done := ps_done st \<or> ends x st m\<rparr>" using 2(3) get get' by (simp add: exit)
      have range: "pr_partition (ps_range st) = q" using ok get by (simp add: input_ok_def)
      have taken: "wanted ki m \<and> r_partition rc = nm_partition m" if "ev = PollRecord rc" for rc
        using 2(2) that by (simp add: decided_def carries_def)
      have quiet: "one_more ev q = 0" if "\<not> (wanted ki m \<and> nm_partition m = q)"
        using taken that by (auto simp: one_more_def split: poll_event.split)
      let ?goal = "if ps_done st' then c q + one_more ev q = length (in_time x st' log)
        else \<exists>read. on_partition q log = read @ on_partition q (backlog incoming (ki_consumer ki')) \<and>
          (\<forall>m \<in> set read. \<not> ends x st' m) \<and> c q + one_more ev q = length (filter (due st') read)"
      show ?goal
      proof (cases "ps_done st")
        case True
        with get have "\<not> (wanted ki m \<and> nm_partition m = q)" by (auto simp: wanted_def)
        with pace q get True st' quiet show ?thesis by (auto simp: paced_def)
      next
        case undone0: False
        with pace q get obtain read where read: "on_partition q log = read @ on_partition q (m # rest)"
          "\<forall>m \<in> set read. \<not> ends x st m" "c q = length (filter (due st) read)"
          using 2(1) unfolding paced_def by fastforce
        have left: "on_partition q (backlog incoming (ki_consumer ki')) = on_partition q rest" if "\<not> ps_done st'"
        proof -
          have "open_at ki' q" using get' that by (simp add: open_at_def)
          then have "on_partition q (filter (\<lambda>m. open_at ki' (nm_partition m)) ms) = on_partition q ms" for ms
            by (induction ms) (auto simp: on_partition_def)
          with 2(4) show ?thesis unfolding unread_def by metis
        qed
        show ?thesis
        proof (cases "ends x st m")
          case True
          then have own: "nm_partition m = q" using range by (simp add: ends_def)
          have "in_time x st log = filter (due st) read"
            using in_time_ended [OF read(2) True, of "on_partition q rest"] in_time_own [OF range, of x log] read(1) own
            by (simp add: on_partition_def)
          moreover have "\<not> wanted ki m"
            using ends_not_due [OF True] get own by (auto simp: wanted_def due_def)
          ultimately show ?thesis using True st' quiet read(3) by simp
        next
          case False
          then have undone: "\<not> ps_done st'" using st' undone0 by simp
          show ?thesis
          proof (cases "nm_partition m = q")
            case own: True
            have wanted: "wanted ki m \<longleftrightarrow> due st m" using get own undone0 by (auto simp: wanted_def due_def)
            have "one_more ev q = (if due st m then 1 else 0)"
              using 2(2) taken own by (auto simp: one_more_def decided_def wanted split: poll_event.splits)
            moreover have "on_partition q log = (read @ [m]) @ on_partition q rest"
              using read(1) own by (simp add: on_partition_def)
            ultimately show ?thesis using read(2,3) False undone left [OF undone] st'
              by (auto intro!: exI [of _ "read @ [m]"])
          next
            case other: False
            then have "on_partition q log = read @ on_partition q rest" using read(1) by (simp add: on_partition_def)
            then show ?thesis using read(2,3) undone left [OF undone] st' quiet other by (auto intro!: exI [of _ read])
          qed
        qed
      qed
    qed
  qed
qed


section \<open>The poller\<close>

text \<open>How many records of a partition the poller has admitted or holds back.\<close>

definition pace :: "'k poller \<Rightarrow> int \<Rightarrow> nat" where
  "pace p q = next_sequence_of (pl_admission p) q + length (held q p)"

text \<open>Without a limit on the number of records a poller stops by itself only when all partitions are done.\<close>

definition whole ::
    "('k \<Rightarrow> native_message list) \<Rightarrow> bool \<Rightarrow> native_message list \<Rightarrow> int set \<Rightarrow> 'k poller \<Rightarrow> bool" where
  "whole incoming x log Q p \<longleftrightarrow> paced incoming x log Q (pace p) (pl_input p) \<and> sa_count_limit (pl_shared p) = None \<and>
     (pl_stopping p \<longrightarrow> pl_pending p = None \<and> (\<forall>q st. bt_get (ki_partitions (pl_input p)) q = Some st \<longrightarrow> ps_done st))"

lemma whole_cong:
  assumes "pl_input p' = pl_input p" "pl_pending p' = pl_pending p" "pl_stopping p' = pl_stopping p"
    "next_sequence_of (pl_admission p') = next_sequence_of (pl_admission p)"
    "sa_count_limit (pl_shared p') = sa_count_limit (pl_shared p)"
  shows "whole incoming x log Q p' = whole incoming x log Q p"
proof -
  have "pace p' = pace p" using assms by (simp add: pace_def held_def fun_eq_iff)
  with assms show ?thesis by (simp add: whole_def)
qed

lemma shared_release_limit: "shared_release n b sh = (r, sh') \<Longrightarrow> sa_count_limit sh' = sa_count_limit sh"
  by (auto simp: shared_release_def release_records_def release_bytes_def split: option.splits)

lemma try_reserve_limit: "try_reserve b sh = (r, sh') \<Longrightarrow> sa_count_limit sh' = sa_count_limit sh"
  by (auto simp: try_reserve_def take_record_def take_bytes_def take_count_def undo_record_def undo_bytes_def
      split: option.splits if_splits)

lemma take_back_whole:
  assumes "poller_ok incoming start cf consumer dest its p" "whole incoming x log Q p"
  shows "failed (take_back rs p) \<or> whole incoming x log Q (take_back rs p)"
proof -
  obtain res a sh pb where res: "release_batch rs (pl_admission p, pl_shared p, ki_payload_buffers (pl_input p)) = (res, a, sh, pb)"
    by (metis prod.exhaust)
  show ?thesis
  proof (cases res)
    case (Inl m)
    with res show ?thesis by (simp add: take_back_def)
  next
    case (Inr u)
    have parts: "admission_ok (pl_admission p)" "buffers_ok (ki_payload_buffers (pl_input p))"
      using assms(1) by (simp_all add: poller_ok_def numbered_def input_ok_def)
    from res Inr have same: "next_sequence_of a = next_sequence_of (pl_admission p)" "sa_count_limit sh = sa_count_limit (pl_shared p)"
      using release_each_keeps [OF parts, of rs]
      by (auto simp: release_batch_def dest: shared_release_limit split: option.splits prod.splits sum.splits)
    have p': "take_back rs p = p\<lparr>pl_admission := a, pl_shared := sh, pl_input := (pl_input p)\<lparr>ki_payload_buffers := pb\<rparr>\<rparr>"
      using res Inr by (simp add: take_back_def Let_def)
    have "pace (take_back rs p) = pace p" by (simp add: pace_def held_def fun_eq_iff p' same)
    with assms(2) show ?thesis by (simp add: whole_def p' same paced_def)
  qed
qed

lemma begin_turn_whole:
  assumes ok: "poller_ok incoming start cf consumer dest its p" and whole: "whole incoming x log Q p"
    and tn: "sa_count_limit (tn_shared tn (pl_shared p)) = None" "\<not> ct_shutdown (pl_control (begin_turn tn p))"
  shows "failed (begin_turn tn p) \<or> whole incoming x log Q (begin_turn tn p)"
proof -
  define p0 where "p0 = p\<lparr>pl_shared := tn_shared tn (pl_shared p), pl_control := tn_control tn (pl_control p)\<rparr>"
  have "poller_ok incoming start cf consumer dest its p0 = poller_ok incoming start cf consumer dest its p"
    by (rule poller_ok_cong) (simp_all add: p0_def)
  moreover have "whole incoming x log Q p0 = whole incoming x log Q p"
    by (rule whole_cong) (use whole tn(1) in \<open>simp_all add: p0_def whole_def\<close>)
  ultimately have p0: "poller_ok incoming start cf consumer dest its p0" "whole incoming x log Q p0"
    using ok whole by simp_all
  have "failed (fold take_back rs p1) \<or> poller_ok incoming start cf consumer dest its (fold take_back rs p1) \<and>
      whole incoming x log Q (fold take_back rs p1)"
    if "failed p1 \<or> poller_ok incoming start cf consumer dest its p1 \<and> whole incoming x log Q p1" for rs p1
    using that
  proof (induction rs arbitrary: p1)
    case (Cons r rs)
    have "failed (take_back r p1) \<or> poller_ok incoming start cf consumer dest its (take_back r p1) \<and>
        whole incoming x log Q (take_back r p1)"
      using Cons.prems take_back_failed take_back_ok take_back_whole by metis
    from Cons.IH [OF this] show ?case by simp
  qed simp
  note taken_back = this [of p0 "tn_releases tn"]
  define p1 where "p1 = fold take_back (tn_releases tn) p0"
  have eq: "begin_turn tn p = p1\<lparr>pl_stopping := pl_stopping p1 \<or> ct_shutdown (pl_control p1) \<or> count_reached (pl_shared p1)\<rparr>"
    by (simp add: begin_turn_def p0_def p1_def Let_def)
  from taken_back p0 have "failed p1 \<or> whole incoming x log Q p1" by (auto simp: p1_def)
  then show ?thesis
  proof
    assume "failed p1"
    then show ?thesis by (simp add: eq failed_def)
  next
    assume whole: "whole incoming x log Q p1"
    then have "\<not> count_reached (pl_shared p1)" by (simp add: whole_def count_reached_def)
    with tn(2) have "begin_turn tn p = p1" by (simp add: eq)
    with whole show ?thesis by simp
  qed
qed

lemma flush_or_stop_whole:
  assumes "whole incoming x log Q p" "flush_or_stop tn nf b p = (fl, p')"
  shows "whole incoming x log Q p'"
proof -
  have "whole incoming x log Q p' = whole incoming x log Q p"
    by (rule whole_cong) (use assms(2) in \<open>auto simp: flush_or_stop_def Let_def fail_def split: prod.splits sum.splits\<close>)
  with assms(1) show ?thesis by simp
qed

lemma offer_whole:
  assumes ok: "numbered its (pl_admission p)" and whole: "whole incoming x log Q (p\<lparr>pl_pending := Some r\<rparr>)"
    and none: "pl_pending p = None" and unlimited: "cf_count_per_partition cf = None" and offer: "offer ko cf tn r b p = (fl, p')"
  shows "failed p' \<or> whole incoming x log Q p'"
proof -
  have lim: "sa_count_limit (pl_shared p) = None" "\<not> pl_stopping p" using whole by (simp_all add: whole_def)
  have refused: "whole incoming x log Q p'" if "flush_or_stop tn Waits b (p\<lparr>pl_shared := sh, pl_pending := Some r\<rparr>) = (fl, p')"
    "sa_count_limit sh = None" for sh
  proof -
    have "whole incoming x log Q (p\<lparr>pl_shared := sh, pl_pending := Some r\<rparr>) = whole incoming x log Q (p\<lparr>pl_pending := Some r\<rparr>)"
      by (rule whole_cong) (use lim that(2) in simp_all)
    with flush_or_stop_whole [OF _ that(1)] whole show ?thesis by simp
  qed
  show ?thesis
  proof (cases "can_reserve (pl_admission p) (r_partition r)")
    case False
    with offer refused [of "pl_shared p"] lim show ?thesis by (simp add: offer_def)
  next
    case True
    obtain got sh where got: "try_reserve (r_retained_bytes r) (pl_shared p) = (got, sh)" by fastforce
    have sh: "sa_count_limit sh = None" using try_reserve_limit [OF got] lim by simp
    show ?thesis
    proof (cases got)
      case False
      with offer True got refused [OF _ sh] show ?thesis by (simp add: offer_def)
    next
      case taken: True
      obtain res p1 where admit: "admit tn r b (p\<lparr>pl_shared := sh\<rparr>) = (res, p1)" by fastforce
      have p': "after_admit ko cf (r_partition r) (res, p1) = (fl, p')" using offer True got taken admit by (simp add: offer_def)
      show ?thesis
      proof (cases res)
        case (Inl m)
        with p' show ?thesis by (auto simp: after_admit_def)
      next
        case (Inr n)
        then have same: "p' = p1" using p' unlimited by (simp add: after_admit_def)
        from admit Inr obtain a where a: "reserve (pl_admission p) (r_partition r) = (Inr n, a)"
          "pl_admission p1 = a" "pl_input p1 = pl_input p" "pl_pending p1 = None" "pl_stopping p1 = False" "pl_shared p1 = sh"
          using none lim by (auto simp: admit_def bind_r_Inr_iff split: prod.splits sum.splits)
        have "next_sequence_of a = (next_sequence_of (pl_admission p))(r_partition r := Suc n)"
          "n = next_sequence_of (pl_admission p) (r_partition r)" using reserve_numbered [OF ok a(1)] by simp_all
        then have "pace p1 = pace (p\<lparr>pl_pending := Some r\<rparr>)"
          by (auto simp: pace_def held_def fun_eq_iff a(2,4))
        with whole show ?thesis by (simp add: same whole_def a sh)
      qed
    qed
  qed
qed

lemma running_whole:
  assumes law: "client_law ko incoming" and ok: "poller_ok incoming start cf consumer dest its p"
    and whole: "whole incoming x log Q p" and unlimited: "cf_count_per_partition cf = None"
    and run: "\<not> pl_stopping p" "running ko cf tn p = (fl, p')"
  shows "failed p' \<or> whole incoming x log Q p'"
proof (cases "pl_buffer p")
  case None
  with run(2) whole show ?thesis by (simp add: running_def)
next
  case (Some b)
  have numbered: "numbered its (pl_admission p)" using ok by (simp add: poller_ok_def)
  show ?thesis
  proof (cases "pl_pending p")
    case (Some r)
    have "p\<lparr>pl_pending := Some r\<rparr> = p" using Some by simp
    with whole have "whole incoming x log Q ((p\<lparr>pl_pending := None\<rparr>)\<lparr>pl_pending := Some r\<rparr>)" by simp
    from offer_whole [OF _ this _ unlimited, where its = its] numbered run \<open>pl_buffer p = Some b\<close> Some
    show ?thesis by (simp add: running_def)
  next
    case none: None
    obtain timeout res ki where poll: "poll_with_timeout ko timeout (pl_input p) = (res, ki)"
      "(if bf_pending b = [] then input_poll ko (pl_input p) else poll_with_timeout ko 0 (pl_input p)) = (res, ki)"
      unfolding input_poll_def by (metis surj_pair)
    have iok: "input_ok (pl_input p)" using ok by (simp add: poller_ok_def)
    have size: "\<forall>m \<in> set (backlog incoming (ki_consumer (pl_input p))). \<forall>bs. nm_payload m = Some bs \<longrightarrow> length bs \<le> usize_max"
      using ok law by (auto simp: poller_ok_def client_law_def backlog_def fits_memory_def)
    have laws: "queue_law ko incoming" "pause_law ko incoming" using law by (simp_all add: client_law_def)
    show ?thesis
    proof (cases res)
      case (Inl e)
      with run(2) poll(2) Some none show ?thesis by (auto simp: running_def)
    next
      case (Inr ev)
      have "paced incoming x log Q (pace p) (pl_input p)" using whole by (simp add: whole_def)
      from poll_paced [OF iok laws size poll(1) [unfolded Inr] this]
      have paced: "paced incoming x log Q (\<lambda>q. pace p q + one_more ev q) ki" .
      show ?thesis
      proof (cases ev)
        case (PollRecord r)
        have "pace (p\<lparr>pl_input := ki, pl_pending := Some r\<rparr>) = (\<lambda>q. pace p q + one_more ev q)"
          using none by (simp add: pace_def held_def PollRecord one_more_def fun_eq_iff)
        then have "whole incoming x log Q ((p\<lparr>pl_input := ki\<rparr>)\<lparr>pl_pending := Some r\<rparr>)"
          using paced whole run(1) by (simp add: whole_def)
        from offer_whole [OF _ this _ unlimited, where its = its] numbered run(2) poll(2) Some none Inr PollRecord
        show ?thesis by (simp add: running_def)
      next
        case PollIdle
        then have "whole incoming x log Q (p\<lparr>pl_input := ki\<rparr>)"
          using paced whole run(1) none by (simp add: whole_def pace_def [abs_def] held_def one_more_def)
        from flush_or_stop_whole [OF this] run(2) poll(2) Some none Inr PollIdle show ?thesis by (simp add: running_def)
      next
        case PollDone
        have all: "bt_get (ki_partitions ki) q = Some st \<Longrightarrow> ps_done st" for q st
          using poll_step [OF iok laws size poll(1)] Inr PollDone by (auto dest!: later_done)
        from PollDone have "whole incoming x log Q (p\<lparr>pl_input := ki, pl_stopping := True\<rparr>)"
          using paced whole none all by (simp add: whole_def pace_def [abs_def] held_def one_more_def)
        with run(2) poll(2) Some none Inr PollDone show ?thesis by (simp add: running_def)
      qed
    qed
  qed
qed

lemma stopping_whole:
  assumes "whole incoming x log Q p" "pl_stopping p" "stopping tn p = (fl, p')"
  shows "whole incoming x log Q p' \<and> pl_stopping p'"
proof -
  obtain fl1 p1 where first: "(case pl_buffer p of None \<Rightarrow> (Waits, p)
      | Some b \<Rightarrow> (case flush_or_stop tn Waits b p of (fl, p') \<Rightarrow> (fl, p'\<lparr>pl_buffer := None\<rparr>))) = (fl1, p1)"
    by fastforce
  have same: "pl_input p1 = pl_input p" "pl_pending p1 = pl_pending p" "pl_stopping p1 = pl_stopping p"
    "pl_admission p1 = pl_admission p" "pl_shared p1 = pl_shared p"
    using first by (auto simp: flush_or_stop_def Let_def fail_def split: option.splits prod.splits sum.splits)
  have none: "pl_pending p = None" using assms(1,2) by (simp add: whole_def)
  have "p' = p1 \<or> p' = p1\<lparr>pl_pending := None\<rparr>"
    using assms(3) first by (auto simp: stopping_def Let_def split: flow.splits if_splits)
  then have "pl_input p' = pl_input p" "pl_pending p' = pl_pending p" "pl_stopping p' = pl_stopping p"
    "pl_admission p' = pl_admission p" "pl_shared p' = pl_shared p" using same none by auto
  with whole_cong [of p' p] assms(1,2) show ?thesis by simp
qed


lemma begin_turn_control: "failed (begin_turn tn p) \<or> pl_control (begin_turn tn p) = tn_control tn (pl_control p)"
proof -
  have one: "failed (take_back rs p1) \<or> pl_control (take_back rs p1) = pl_control p1" for rs and p1 :: "'a poller"
    by (auto simp: take_back_def Let_def split: prod.split sum.split)
  have "failed (fold take_back rss p1) \<or> pl_control (fold take_back rss p1) = c"
    if "failed p1 \<or> pl_control p1 = c" for rss c and p1 :: "'a poller"
    using that
  proof (induction rss arbitrary: p1)
    case (Cons rs rss)
    then have "failed (take_back rs p1) \<or> pl_control (take_back rs p1) = c"
      using one [of rs p1] take_back_failed [of p1 rs] by auto
    from Cons.IH [OF this] show ?case by simp
  qed simp
  from this [of "p\<lparr>pl_shared := tn_shared tn (pl_shared p), pl_control := tn_control tn (pl_control p)\<rparr>" _ "tn_releases tn"]
  show ?thesis by (simp add: begin_turn_def Let_def failed_def)
qed

lemma whole_new:
  assumes "ki_exit_at_end ki = x" "sa_count_limit sh = None"
    "\<forall>q \<in> Q. \<forall>st. bt_get (ki_partitions ki) q = Some st \<longrightarrow> \<not> ps_done st"
  shows "whole incoming x (backlog incoming (ki_consumer ki)) Q (poller_new cf k ki sh ct st)"
  using assms by (auto simp: whole_def paced_def pace_def poller_new_def held_def intro!: exI [of _ "[]"])

text \<open>A poller that has stopped by itself has made every due message of its partitions a record.\<close>

lemma whole_stopped:
  assumes "whole incoming x log Q p" "pl_stopping p" "q \<in> Q" "bt_get (ki_partitions (pl_input p)) q = Some st"
  shows "next_sequence_of (pl_admission p) q = length (in_time x st log)"
  using assms by (auto simp: whole_def paced_def pace_def held_def)

end
