(* ===== verification/Run_Completes.thy ===== *)
theory Run_Completes
  imports Run_Delivers Poller_Completes
begin

text \<open>
  What a run that nobody interrupts delivers: every poller stops by itself, so nothing due is left out.
\<close>

section \<open>A turn\<close>

lemma turn_whole:
  assumes law: "client_law (ko :: 'k kafka_ops) incoming" and quiet: "\<not> failed p"
    and ok: "poller_ok incoming start cf consumer dest its p" and whole: "whole incoming x log Q p"
    and limits: "sa_count_limit (tn_shared tn (pl_shared p)) = None" "cf_count_per_partition cf = None"
    and calm: "\<not> ct_shutdown (tn_control tn (pl_control p))"
    and turn: "wait tn (turn_body ko cf tn p) = (fl, p')" and fine: "\<not> failed p'"
  shows "whole incoming x log Q p' \<and> (fl = Stopped \<longrightarrow> pl_stopping p')"
proof -
  let ?p = "begin_turn tn p"
  obtain fl1 p1 where body: "turn_body ko cf tn p = (fl1, p1)" by fastforce
  have fine1: "\<not> failed p1" using wait_failed [of "(fl1, p1)" tn] turn body fine by auto
  have fine0: "\<not> failed ?p"
    using body fine1 running_failed [of ?p ko cf tn] stopping_failed [of ?p tn] by (auto simp: turn_body_def Let_def split: if_splits)
  then have calm0: "\<not> ct_shutdown (pl_control ?p)" using begin_turn_control [of tn p] calm by auto
  have ok0: "poller_ok incoming start cf consumer dest its ?p"
  proof -
    define f where "f c = (if ct_first c = None then tn_control tn (pl_control p) else c)" for c
    have "steady (tn\<lparr>tn_control := f\<rparr>)" by (simp add: steady_def f_def)
    moreover have "begin_turn (tn\<lparr>tn_control := f\<rparr>) p = ?p"
      using quiet by (simp add: begin_turn_def f_def failed_def)
    ultimately show ?thesis using begin_turn_ok [of "tn\<lparr>tn_control := f\<rparr>" p] ok fine0 by metis
  qed
  have whole0: "whole incoming x log Q ?p" using begin_turn_whole [OF ok whole limits(1) calm0] fine0 by blast
  have whole1: "whole incoming x log Q p1 \<and> (fl1 = Stopped \<longrightarrow> pl_stopping p1)"
  proof (cases "pl_stopping ?p")
    case True
    then show ?thesis using stopping_whole [OF whole0 True] body by (simp add: turn_body_def Let_def)
  next
    case False
    then have run: "running ko cf tn ?p = (fl1, p1)" using body by (simp add: turn_body_def Let_def)
    with running_stopped [of ko cf tn ?p] fine1 have "fl1 \<noteq> Stopped" by auto
    with running_whole [OF law ok0 whole0 limits(2) False run] fine1 show ?thesis by blast
  qed
  from turn body have w: "wait tn (fl1, p1) = (fl, p')" by simp
  show ?thesis
  proof (cases "\<exists>rs. fl1 = Waits \<and> tn_received tn = ReceivedReleases rs")
    case True
    then obtain rs where rs: "p' = take_back rs p1" "fl = Again" using w by (auto simp: wait_def)
    obtain its' where "poller_ok incoming start cf consumer dest its' p1"
    proof (cases "pl_stopping ?p")
      case True
      with stopping_ok [OF ok0 True] body fine1 that show ?thesis by (auto simp: turn_body_def Let_def)
    next
      case False
      then have "running ko cf tn ?p = (fl1, p1)" using body by (simp add: turn_body_def Let_def)
      from running_ok [OF law ok0 False this] fine1 that show ?thesis by (auto simp: grows_def)
    qed
    from take_back_whole [OF this] whole1 rs fine show ?thesis by auto
  next
    case False
    with w fine whole1 show ?thesis
      by (auto simp: wait_def split: flow.splits received.splits)
  qed
qed


section \<open>Every state of an uninterrupted run\<close>

definition opened :: "'k kafka_input \<Rightarrow> int set" where
  "opened ki = {q. \<exists>st. bt_get (ki_partitions ki) q = Some st \<and> \<not> ps_done st}"

definition whole_thread ::
    "('x, 'i, 'e, 'v, 'k, 'w) setting \<Rightarrow> ('k \<Rightarrow> native_message list) \<Rightarrow> nat \<Rightarrow> 'k poller_thread \<Rightarrow> bool" where
  "whole_thread e incoming k pt \<longleftrightarrow>
     (let ki = en_inputs e ! k in
      whole incoming (ki_exit_at_end ki) (backlog incoming (ki_consumer ki)) (opened ki) (pt_poller pt) \<and>
      (pt_left pt \<longrightarrow> pl_stopping (pt_poller pt)))"

definition all_whole ::
    "('x, 'i, 'e, 'v, 'k, 'w) setting \<Rightarrow> ('k \<Rightarrow> native_message list) \<Rightarrow> ('x, 'k, 'w) pipeline \<Rightarrow> bool" where
  "all_whole e incoming s \<longleftrightarrow> sa_count_limit (sy_shared s) = None \<and>
     (\<forall>k < length (sy_pollers s). whole_thread e incoming k (sy_pollers s ! k))"

definition unlimited_run :: "('x, 'i, 'e, 'v, 'k, 'w) setting \<Rightarrow> bool" where
  "unlimited_run e \<longleftrightarrow> cf_count_limit (en_config e) = None \<and> cf_count_per_partition (en_config e) = None"

lemma whole_thread_outbox [simp]: "whole_thread e incoming k (pt\<lparr>pt_outbox := ds\<rparr>) = whole_thread e incoming k pt"
  by (simp add: whole_thread_def)

lemma some_outbox: "\<exists>ds. pt = pt\<lparr>pt_outbox := ds\<rparr>"
  by (rule exI [of _ "pt_outbox pt"]) simp

lemma whole_thread_new:
  "sa_count_limit sh = None \<Longrightarrow> whole_thread e incoming k
     \<lparr>pt_poller = poller_new (en_config e) k (en_inputs e ! k) sh ct st, pt_outbox = [], pt_left = False\<rparr>"
  by (auto simp: whole_thread_def Let_def opened_def intro!: whole_new)

text \<open>A poller of the pipeline is in a state of its loop.\<close>

lemma looped_ok:
  assumes law: "client_law (en_kafka e) incoming" and fresh: "unread_inputs (en_inputs e)" and k: "k < length (en_inputs e)"
    and limit: "cf_count_per_partition (en_config e) \<noteq> Some 0" and loop: "looped e k pt"
  obtains its where "poller_ok incoming (backlog incoming (ki_consumer (en_inputs e ! k))) (en_config e) k
      (destination_of (en_config e)) its (pt_poller pt)" "layout_of (pl_input (pt_poller pt)) = layout_of (en_inputs e ! k)"
proof -
  let ?ki = "en_inputs e ! k"
  have ki: "input_ok ?ki" "fetch_dropped (ki_consumer ?ki) = []" using fresh k by (auto simp: unread_inputs_def)
  obtain tns sh ct st where run: "\<forall>tn \<in> set tns. steady tn"
    "poll_loop (en_kafka e) (en_config e) tns (poller_new (en_config e) k ?ki sh ct st)
       = (if pt_left pt then Stopped else Again, pt_poller pt)" and fine: "\<not> failed (pt_poller pt)"
    using loop by (auto simp: looped_def)
  have "poller_ok incoming (backlog incoming (ki_consumer ?ki)) (en_config e) k (destination_of (en_config e)) []
      (poller_new (en_config e) k ?ki sh ct st)" using poller_new_ok [OF ki(1) _ limit] ki(2) by simp
  then have "grows (\<lambda>p its. poller_ok incoming (backlog incoming (ki_consumer ?ki)) (en_config e) k (destination_of (en_config e)) its p) []
      (poller_new (en_config e) k ?ki sh ct st)" by (intro growsI) simp
  from poll_loop_ok [OF law run(1) this _ run(2)] that fine show thesis
    by (auto simp: grows_def alive_def poller_new_def)
qed

lemma all_whole_start: "unlimited_run e \<Longrightarrow> all_whole e incoming (pipeline_start e w shutdown)"
  by (simp add: all_whole_def pipeline_start_def Let_def unlimited_run_def shared_new_def)

lemma all_whole_step:
  assumes law: "client_law (en_kafka e) incoming" and fresh: "unread_inputs (en_inputs e)" and free: "unlimited_run e"
    and whole: "all_whole e incoming s" and fo: "pollers_follow e s" and led: "ledger e s" and en: "enabled e a s"
    and fine: "ct_first (sy_control (perform e a s)) = None" "\<not> ct_shutdown (sy_control (perform e a s))"
  shows "all_whole e incoming (perform e a s)"
proof -
  have before: "ct_first (sy_control s) = None" "\<not> ct_shutdown (sy_control s)"
    using failure_stays [of s e a] shutdown_stays [OF _ en] fine by blast+
  have m: "length (sy_pollers s) \<le> length (en_inputs e)" using led by (simp add: ledger_def in_shape_def Let_def consumers_def)
  have same: "all_whole e incoming s'" if "sy_shared s' = sy_shared s" "length (sy_pollers s') = length (sy_pollers s)"
    "\<forall>k < length (sy_pollers s). \<exists>ds. sy_pollers s' ! k = (sy_pollers s ! k)\<lparr>pt_outbox := ds\<rparr>" for s'
    using whole that by (fastforce simp: all_whole_def)
  show ?thesis
  proof (cases a)
    case (StartThread err)
    have "sy_main s = StartPollers i \<Longrightarrow> i = length (sy_pollers s)" for i using fo by (simp add: pollers_follow_def)
    with StartThread whole fine before show ?thesis
      by (auto simp: all_whole_def start_thread_def start_writing_def thread_start_failure_def once_set_first Let_def
          nth_append whole_thread_new less_Suc_eq split: main_pc.splits option.splits if_splits)
  next
    case (Turn k n late)
    let ?tn = "meets s k n late" and ?pt = "sy_pollers s ! k"
    have k: "k < length (sy_pollers s)" "\<not> pt_left ?pt" using en Turn by auto
    obtain fl p' where w: "wait ?tn (turn_body (en_kafka e) (en_config e) ?tn (pt_poller ?pt)) = (fl, p')" by fastforce
    have ok: "ct_first (pl_control p') = None" "fl \<noteq> Crashed"
      using fine Turn w
      by (auto simp: poller_turn_def Let_def guard_thread_def record_failure_first split: if_splits option.splits)
    have limit: "cf_count_per_partition (en_config e) \<noteq> Some 0" using free by (simp add: unlimited_run_def)
    have "looped e k ?pt" using fo k(1) by (simp add: pollers_follow_def)
    then obtain its where its: "poller_ok incoming (backlog incoming (ki_consumer (en_inputs e ! k))) (en_config e) k
      (destination_of (en_config e)) its (pt_poller ?pt)" using looped_ok [OF law fresh _ limit] k(1) m by (meson less_le_trans)
    have now: "whole_thread e incoming k ?pt" "sa_count_limit (sy_shared s) = None" using whole k(1) by (simp_all add: all_whole_def)
    let ?ki = "en_inputs e ! k"
    have "whole incoming (ki_exit_at_end ?ki) (backlog incoming (ki_consumer ?ki)) (opened ?ki) p' \<and> (fl = Stopped \<longrightarrow> pl_stopping p')"
      by (rule turn_whole [OF law _ its _ _ _ _ w])
        (use now free ok before \<open>looped e k ?pt\<close> in \<open>simp_all add: whole_thread_def Let_def unlimited_run_def failed_def looped_def meets_def\<close>)
    moreover have "fl = Again \<or> fl = Stopped"
      using turn_flow [of "en_kafka e" "en_config e" ?tn "pt_poller ?pt" fl p'] w ok by (auto simp: poll_turn_body failed_def)
    ultimately show ?thesis
      using whole k(1) Turn w
      by (auto simp: all_whole_def poller_turn_def Let_def set_poller_def nth_list_update whole_thread_def whole_def)
  next
    case (Send k)
    with en show ?thesis
      by (intro same) (auto simp: poller_send_def Let_def set_poller_def nth_list_update split: dispatch.split intro: some_outbox)
  next
    case (Refuse k err)
    with fine show ?thesis
      by (simp add: poller_refused_def Let_def fail_def runtime_failure_def record_failure_first split: option.splits)
  qed (rule same; auto simp: worker_take_def worker_send_def worker_end_def writer_take_def writer_release_def
      writer_close_def writer_flush_def set_phase_def writer_computes_def Let_def split: prod.split option.split intro: some_outbox)+
qed

lemma uninterrupted:
  assumes law: "lawful e contents"
    and client: "client_law (en_kafka e) incoming" and fresh: "unread_inputs (en_inputs e)" and free: "unlimited_run e"
    and run: "(run_step e)\<^sup>*\<^sup>* (pipeline_start e w shutdown) s"
    and fine: "ct_first (sy_control s) = None" "\<not> ct_shutdown (sy_control s)"
  shows "all_whole e incoming s"
  using run fine
proof induction
  case base
  show ?case by (rule all_whole_start [OF free])
next
  case (step s1 s2)
  from step.hyps(2) obtain a where a: "enabled e a s1" "s2 = perform e a s1" by cases
  have before: "ct_first (sy_control s1) = None" "\<not> ct_shutdown (sy_control s1)"
    using step.prems a failure_stays [of s1 e a] shutdown_stays [OF _ a(1)] by blast+
  have fo: "pollers_follow e s1" using followed [OF law step.hyps(1) before(1)] by simp
  have led: "ledger e s1" using reached [OF law step.hyps(1)] by simp
  show ?case
    using all_whole_step [OF client fresh free step.IH [OF before] fo led a(1)] step.prems unfolding a(2) by simp
qed

lemma in_time_range:
  "ps_range st = ps_range st' \<Longrightarrow> in_time x st log = in_time x st' log"
  by (simp only: in_time_def ends_def due_def [abs_def])

lemma uninterrupted_whole:
  assumes law: "lawful e contents"
    and client: "client_law (en_kafka e) incoming" and fresh: "unread_inputs (en_inputs e)" and free: "unlimited_run e"
    and run: "(run_step e)\<^sup>*\<^sup>* (pipeline_start e w shutdown) s" and fin: "finished s"
    and fine: "ct_first (sy_control s) = None" "\<not> ct_shutdown (sy_control s)"
    and k: "k < length (en_inputs e)" and part: "bt_get (ki_partitions (en_inputs e ! k)) q = Some st" "\<not> ps_done st"
  shows "next_sequence_of (pl_admission (pt_poller (sy_pollers s ! k))) q =
    length (in_time (ki_exit_at_end (en_inputs e ! k)) st (backlog incoming (ki_consumer (en_inputs e ! k))))"
proof -
  let ?pt = "sy_pollers s ! k" and ?ki = "en_inputs e ! k"
  have fo: "pollers_follow e s" using followed [OF law run fine(1)] by simp
  have f: "sy_main s = Started" "list_all poller_gone (sy_pollers s)" using fin by (simp_all add: finished_def)
  then have len: "k < length (sy_pollers s)" using fo k by (simp add: pollers_follow_def consumers_def)
  have left: "pt_left ?pt" using f(2) len by (simp add: list_all_length poller_gone_def)
  have "whole_thread e incoming k ?pt"
    using uninterrupted [OF law client fresh free run fine] len by (simp add: all_whole_def)
  then have whole: "whole incoming (ki_exit_at_end ?ki) (backlog incoming (ki_consumer ?ki)) (opened ?ki) (pt_poller ?pt)"
    "pl_stopping (pt_poller ?pt)" using left by (simp_all add: whole_thread_def Let_def)
  have "looped e k ?pt" using fo len by (simp add: pollers_follow_def)
  moreover have "cf_count_per_partition (en_config e) \<noteq> Some 0" using free by (simp add: unlimited_run_def)
  ultimately have "layout_of (pl_input (pt_poller ?pt)) = layout_of ?ki"
    using looped_ok [OF client fresh k] by metis
  then have "map_option ps_range (bt_get (ki_partitions (pl_input (pt_poller ?pt))) q) = map_option ps_range (bt_get (ki_partitions ?ki) q)"
    by (simp add: layout_of_def fun_eq_iff)
  then obtain st' where st': "bt_get (ki_partitions (pl_input (pt_poller ?pt))) q = Some st'" "ps_range st' = ps_range st"
    using part(1) by auto
  have "q \<in> opened ?ki" using part by (auto simp: opened_def)
  from whole_stopped [OF whole this st'(1)] in_time_range [OF st'(2)] show ?thesis by simp
qed

end
