(* ===== verification/Run_Facts.thy ===== *)
theory Run_Facts
  imports Run_Completes
begin

text \<open>
  The properties of the running pipeline, over every interleaving of its threads, and one run of it
  evaluated from the client's log to the output bytes.
\<close>

lemma lawful_fresh:
  assumes "sink (en_sink e) contents" "fresh_inputs (en_inputs e)"
  shows "lawful e contents"
  using assms by (auto simp: lawful_def fresh_inputs_def disjoint_inputs_def members_def consumers_def)

lemma lawful_disjoint: "lawful e contents \<Longrightarrow> is_ordered (en_config e) \<Longrightarrow> disjoint_inputs (en_inputs e)"
  by (auto simp: lawful_def disjoint_inputs_def members_def consumers_def)

lemma no_failure: "run_result signal s = Inr r \<Longrightarrow> ct_first (sy_control s) = None"
  by (simp add: run_result_def pipeline_result_def split: option.splits)


section \<open>A run\<close>

text \<open>One consumer reads a log of four messages, of which two are due; their payloads pass unchanged.\<close>

definition pass_config :: "string runtime_config" where
  "pass_config = sample_config (sample_plan [''false''] [] None) (FormatPlan None [Payload, Literal '';''])"

definition pass_setting :: "(string, string list \<times> string, string, string, nat, string) setting" where
  "pass_setting =
     \<lparr>en_config = pass_config, en_inputs = [two_partitions 0], en_stats = stats_new False, en_kafka = log_kafka,
      en_engine = sample_engine, en_panics = (\<lambda>bs. False), en_unwound = (\<lambda>v s. (None, s)), en_json = id,
      en_sink = vec_sink, en_parallelism = 1\<rparr>"

lemmas pass_eval = pass_config_def sample_config_def sample_plan_def stats_new_def vec_extend_def vec_new_def
  vec_clear_def to_vec_def Let_def

lemmas input_eval = input_poll_def poll_with_timeout_def fetch_poll_def fetch_refill_def fetch_two_def
  fetch_extract_def fetch_take_def take_message_def idle_after_def handle_eof_def finish_def pause_def
  own_record_def copy_payload_def outcome_of_def is_partition_eof_def native_timestamp_def retained_bytes_def
  log_kafka_def demo_log_def plain_message_def two_partitions_def fetch_new_def batch_size_def
  partition_states_def initially_done_def assigned_partitions_def buffers_new_def buffer_copy_def
  max_reusable_payload_capacity_def max_spare_payload_bytes_def
  bt_of_list_def bt_empty_def bt_get_def bt_values_def bt_keys_def

lemmas poller_eval = poll_turn_def begin_turn_def wait_def running_def offer_def flush_or_stop_def after_admit_def
  admit_def buffer_push_def buffer_flush_def buffer_new_def poller_new_def quiet_turn_def
  shared_new_def admission_new_def can_reserve_def reserve_def try_reserve_def take_record_def take_bytes_def
  take_count_def count_reached_def batch_records_def batch_bytes_def stats_admit_def
  checked_add_def checked_sub_def checked_mul_def usize_max_def u64_add_def u64_inc_def u64_max_def usize_sub_def

lemmas run_eval = perform_defs pass_setting_def pipeline_start_def worker_count_def evaluators_def evaluator_count_def
  saturating_add_def saturating_sub_def record_capacity_def batch_capacity_def work_capacity_def div_ceil_def meets_def
  turn_body_def releases_read_def set_poller_def set_worker_def work_senders_def work_receivers_def completion_senders_def
  holds_sender_def poller_gone_def release_refused_def finished_def run_result_def pipeline_result_def

lemmas release_eval = stopping_def take_back_def release_batch_def admission_release_def recycle_def shared_release_def
  release_records_def release_bytes_def next_sequence_of_def

lemmas work_eval = complete_item_def execute_report_def sample_engine_def evaluate_predicates_def predicate_def
  record_panics_def evaluator_worker_def worker_new_def input_plan_def source_of_def stats_transformed_def
  render_report_def lenient_def evaluation_result_def

lemmas pass_evaluation = run_eval pass_eval input_eval poller_eval release_eval work_eval writer_eval

text \<open>The threads start, the poller reads until its batch is sent, and the records go round to the writer.\<close>

definition pass_reads :: "act list" where
  "pass_reads = [StartThread None, StartThread None, StartThread None, StartThread None, StartThread None,
     Turn 0 0 False, Turn 0 0 False, Turn 0 0 False, Turn 0 0 False, Send 0, TakeWork 0, SendResult 0, TakeCompletions]"

definition pass_ends :: "act list" where
  "pass_ends = [SendReleases, Interrupt, Turn 0 1 False, EndWorker 0, CloseWriter, FlushWriter]"

definition pass_start :: "(string, nat, string) pipeline" where
  "pass_start = pipeline_start pass_setting [] False"

lemma run_acts_append:
  "run_acts e (as @ bs) s = Option.bind (run_acts e as s) (run_acts e bs)"
  by (induction as arbitrary: s) simp_all

lemma pass_run:
  "map_option (\<lambda>s. (finished s, run_result 0 s, ws_sink (wr_state (sy_writer s)),
      map (\<lambda>pt. map (next_sequence_of (pl_admission (pt_poller pt))) [0, 1]) (sy_pollers s)))
    (run_acts pass_setting (pass_reads @ pass_ends) pass_start) = Some (True, Inr None, ''a;b;'', [[1, 1]])"
  by (simp add: pass_start_def pass_reads_def pass_ends_def pass_evaluation cong: let_weak_cong)

lemma pass_half:
  "map_option (\<lambda>s. (length (sy_pollers s), pt_left (sy_pollers s ! 0), pt_outbox (sy_pollers s ! 0),
      map (\<lambda>(k, rs). (k, map t_release rs)) (wr_outbox (sy_writer s))))
    (run_acts pass_setting pass_reads pass_start) = Some (1, False, [], [(0, [(0, 1), (1, 1)])])"
  by (simp add: pass_start_def pass_reads_def pass_evaluation t_release_def cong: let_weak_cong)

lemma pass_laws:
  "client_law (en_kafka pass_setting) (\<lambda>k. drop k demo_log)" "fresh_inputs (en_inputs pass_setting)"
  "cf_count_per_partition (en_config pass_setting) \<noteq> Some 0" "is_ordered (en_config pass_setting)"
  "ignores_capacity (en_engine pass_setting)" "sink (en_sink pass_setting) (\<lambda>bs. bs)" "0 < record_capacity pass_setting"
  using log_kafka_law sample_engine_law vs.sink_axioms
  by (simp_all add: pass_setting_def fresh_inputs_def unread_inputs_def disjoint_inputs_def two_partitions_ok is_ordered_def record_capacity_def pass_config_def
      sample_config_def sample_plan_def) (simp add: two_partitions_def fetch_dropped_def fetch_new_def)

section \<open>What is delivered\<close>

lemma run_written:
  assumes client: "client_law (en_kafka e) incoming" and unread: "unread_inputs (en_inputs e)"
    and limit: "cf_count_per_partition (en_config e) \<noteq> Some 0" and engine: "ignores_capacity (en_engine e)"
    and law: "lawful e contents" and cap: "0 < record_capacity e" and run: "(run_step e)\<^sup>*\<^sup>* (pipeline_start e w shutdown) s"
    and fin: "finished s" and ok: "run_result signal s = Inr r"
  obtains written where
    "contents (ws_sink (wr_state (sy_writer s))) = contents w @ texts (en_json e) (en_config e) written"
    "\<forall>c \<in> set written. \<not> is_fatal c \<and> c_consumer c < length (en_inputs e) \<and>
       c_partition c \<in> set (assigned_partitions (en_inputs e ! c_consumer c))"
    "\<forall>k < length (en_inputs e). \<forall>q part. bt_get (ki_partitions (en_inputs e ! k)) q = Some part \<longrightarrow>
      length (records_of k q written) = next_sequence_of (pl_admission (pt_poller (sy_pollers s ! k))) q \<and>
      list_all2 (became (en_engine e) (evaluator_panics (en_config e) (en_panics e)) (en_config e) (ki_requirements (en_inputs e ! k)) k)
        (take (length (records_of k q written)) (filter (due part) (backlog incoming (ki_consumer (en_inputs e ! k)))))
        (sort_key c_sequence (records_of k q written)) \<and>
      (\<not> cf_unordered (en_config e) \<or> \<not> tp_parses_json (cf_transform (en_config e)) \<longrightarrow>
        sort_key c_sequence (records_of k q written) = records_of k q written)"
proof -
  let ?ps = "map pt_poller (sy_pollers s)"
  have sink: "sink (en_sink e) contents" using law by (simp add: lawful_def)
  note ran = finished_run [OF law cap run fin no_failure [OF ok]]
  from ran(3) obtain ws where ws: "write_completions (en_json e) (en_sink e) (en_config e) (length (en_inputs e))
      (wr_taken (sy_writer s)) (writer_init w calm (en_stats e)) = (Inr (), ws)" "ws_sink ws = ws_sink (wr_state (sy_writer s))"
    by blast
  have len: "length (sy_pollers s) = length (en_inputs e)" using ran(1) by (simp add: pollers_ran_def)
  from pipeline_delivers [OF client unread limit lawful_disjoint [OF law] ran(1) engine ran(2) sink ws(1)] obtain written where
    out: "contents (ws_sink ws) = contents w @ texts (en_json e) (en_config e) written"
    "\<forall>c \<in> set written. \<not> is_fatal c \<and> c_consumer c < length (en_inputs e) \<and>
       c_partition c \<in> set (assigned_partitions (en_inputs e ! c_consumer c))"
    and each: "\<forall>k < length (en_inputs e). \<forall>q part. bt_get (ki_partitions (en_inputs e ! k)) q = Some part \<longrightarrow>
      length (records_of k q written) = next_sequence_of (pl_admission (?ps ! k)) q \<and>
      list_all2 (became (en_engine e) (evaluator_panics (en_config e) (en_panics e)) (en_config e) (ki_requirements (en_inputs e ! k)) k)
        (take (length (records_of k q written)) (filter (due part) (backlog incoming (ki_consumer (en_inputs e ! k)))))
        (sort_key c_sequence (records_of k q written)) \<and>
      (\<not> cf_unordered (en_config e) \<or> \<not> tp_parses_json (cf_transform (en_config e)) \<longrightarrow>
        sort_key c_sequence (records_of k q written) = records_of k q written)" by blast
  have same: "?ps ! k = pt_poller (sy_pollers s ! k)" if "k < length (en_inputs e)" for k using that len by simp
  show ?thesis
  proof (rule that [OF _ out(2)], goal_cases)
    case 1
    show ?case using out(1) ws(2) by simp
  next
    case 2
    show ?case
    proof (intro allI impI)
      fix k q part
      assume k: "k < length (en_inputs e)" and part: "bt_get (ki_partitions (en_inputs e ! k)) q = Some part"
      show "length (records_of k q written) = next_sequence_of (pl_admission (pt_poller (sy_pollers s ! k))) q \<and>
        list_all2 (became (en_engine e) (evaluator_panics (en_config e) (en_panics e)) (en_config e) (ki_requirements (en_inputs e ! k)) k)
          (take (length (records_of k q written)) (filter (due part) (backlog incoming (ki_consumer (en_inputs e ! k)))))
          (sort_key c_sequence (records_of k q written)) \<and>
        (\<not> cf_unordered (en_config e) \<or> \<not> tp_parses_json (cf_transform (en_config e)) \<longrightarrow>
          sort_key c_sequence (records_of k q written) = records_of k q written)"
        using each k part unfolding same [OF k, symmetric] by blast
    qed
  qed
qed

text \<open>
  C2. End to end, over every interleaving of the threads, unless the output is unordered: when the pipeline has started
  and every thread has ended, and the run is a success, the output is what it held before followed by one text
  per written record; only records of assigned partitions are written, and each partition's are the first messages
  of its range in its consumer's queue, as many as its poller admitted, in order, with none left out and none twice,
  each with the outcome that the configuration and the record's own bytes determine. It holds with evaluators, whose results
  the orderer sorts, and without, where the pollers send to the writer themselves.
\<close>

theorem run_delivers_in_order:
  assumes client: "client_law (en_kafka e) incoming" and fresh: "fresh_inputs (en_inputs e)"
    and limit: "cf_count_per_partition (en_config e) \<noteq> Some 0"
    and ordered: "\<not> cf_unordered (en_config e)" and engine: "ignores_capacity (en_engine e)" and sink: "sink (en_sink e) contents"
    and cap: "0 < record_capacity e" and run: "(run_step e)\<^sup>*\<^sup>* (pipeline_start e w shutdown) s"
    and fin: "finished s" and ok: "run_result signal s = Inr r"
  shows "\<exists>written.
    contents (ws_sink (wr_state (sy_writer s))) = contents w @ texts (en_json e) (en_config e) written \<and>
    (\<forall>c \<in> set written. \<not> is_fatal c \<and> c_consumer c < length (en_inputs e) \<and>
      c_partition c \<in> set (assigned_partitions (en_inputs e ! c_consumer c))) \<and>
    (\<forall>k < length (en_inputs e). \<forall>q part. bt_get (ki_partitions (en_inputs e ! k)) q = Some part \<longrightarrow>
      length (of_partition q written) = next_sequence_of (pl_admission (pt_poller (sy_pollers s ! k))) q \<and>
      list_all2 (became (en_engine e) (evaluator_panics (en_config e) (en_panics e)) (en_config e) (ki_requirements (en_inputs e ! k)) k)
        (take (length (of_partition q written)) (filter (due part) (backlog incoming (ki_consumer (en_inputs e ! k)))))
        (of_partition q written))"
proof -
  have unread: "unread_inputs (en_inputs e)" and apart: "disjoint_inputs (en_inputs e)" using fresh by (simp_all add: fresh_inputs_def)
  show ?thesis
  proof (rule run_written [OF client unread limit engine lawful_fresh [OF sink fresh] cap run fin ok], intro exI conjI allI impI)
    fix written k q part
    assume k: "k < length (en_inputs e)" and part: "bt_get (ki_partitions (en_inputs e ! k)) q = Some part"
      and from_inputs: "\<forall>c \<in> set written. \<not> is_fatal c \<and> c_consumer c < length (en_inputs e) \<and>
        c_partition c \<in> set (assigned_partitions (en_inputs e ! c_consumer c))"
      and each: "\<forall>k < length (en_inputs e). \<forall>q part. bt_get (ki_partitions (en_inputs e ! k)) q = Some part \<longrightarrow>
      length (records_of k q written) = next_sequence_of (pl_admission (pt_poller (sy_pollers s ! k))) q \<and>
      list_all2 (became (en_engine e) (evaluator_panics (en_config e) (en_panics e)) (en_config e) (ki_requirements (en_inputs e ! k)) k)
        (take (length (records_of k q written)) (filter (due part) (backlog incoming (ki_consumer (en_inputs e ! k)))))
        (sort_key c_sequence (records_of k q written)) \<and>
      (\<not> cf_unordered (en_config e) \<or> \<not> tp_parses_json (cf_transform (en_config e)) \<longrightarrow>
        sort_key c_sequence (records_of k q written) = records_of k q written)"
    have own: "of_partition q written = records_of k q written"
      using from_inputs part by (intro records_own [OF apart k]) (auto simp: assigned_partitions_def bt_keys_iff)
    show "length (of_partition q written) = next_sequence_of (pl_admission (pt_poller (sy_pollers s ! k))) q"
      using each k part unfolding own by blast
    show "list_all2 (became (en_engine e) (evaluator_panics (en_config e) (en_panics e)) (en_config e) (ki_requirements (en_inputs e ! k)) k)
        (take (length (of_partition q written)) (filter (due part) (backlog incoming (ki_consumer (en_inputs e ! k)))))
        (of_partition q written)" using each [rule_format, OF k part] ordered unfolding own by metis
  qed assumption+
qed

theorem run_delivers_in_order_witness:
  "\<exists>written. ''a;b;'' = texts id pass_config written \<and>
     (\<forall>q part. bt_get (ki_partitions (two_partitions (0 :: nat))) q = Some part \<longrightarrow>
       list_all2 (became sample_engine (\<lambda>bs. False) pass_config (ki_requirements (two_partitions (0 :: nat))) 0)
         (take (length (of_partition q written)) (filter (due part) demo_log)) (of_partition q written))"
proof -
  obtain s where s: "run_acts pass_setting (pass_reads @ pass_ends) pass_start = Some s" "finished s" "run_result 0 s = Inr None"
    "ws_sink (wr_state (sy_writer s)) = ''a;b;''" using pass_run by auto
  have "\<not> cf_unordered (en_config pass_setting)" using pass_laws(4) by (simp add: is_ordered_def)
  from run_delivers_in_order [OF pass_laws(1-3) this pass_laws(5-7) run_acts_reach [OF s(1) [unfolded pass_start_def]] s(2,3)] s(4)
  show ?thesis by (simp add: pass_setting_def two_partitions_def) blast
qed

lemma run_complete:
  assumes client: "client_law (en_kafka e) incoming" and unread: "unread_inputs (en_inputs e)" and free: "unlimited_run e"
    and engine: "ignores_capacity (en_engine e)" and law: "lawful e contents"
    and cap: "0 < record_capacity e" and run: "(run_step e)\<^sup>*\<^sup>* (pipeline_start e w shutdown) s"
    and fin: "finished s" and ok: "run_result signal s = Inr r" and calm: "\<not> ct_shutdown (sy_control s)"
  obtains written where
    "contents (ws_sink (wr_state (sy_writer s))) = contents w @ texts (en_json e) (en_config e) written"
    "\<forall>c \<in> set written. \<not> is_fatal c \<and> c_consumer c < length (en_inputs e) \<and>
       c_partition c \<in> set (assigned_partitions (en_inputs e ! c_consumer c))"
    "\<forall>k < length (en_inputs e). \<forall>q part. bt_get (ki_partitions (en_inputs e ! k)) q = Some part \<longrightarrow>
      length (records_of k q written) = next_sequence_of (pl_admission (pt_poller (sy_pollers s ! k))) q \<and>
      list_all2 (became (en_engine e) (evaluator_panics (en_config e) (en_panics e)) (en_config e) (ki_requirements (en_inputs e ! k)) k)
        (take (length (records_of k q written)) (filter (due part) (backlog incoming (ki_consumer (en_inputs e ! k)))))
        (sort_key c_sequence (records_of k q written)) \<and>
      (\<not> cf_unordered (en_config e) \<or> \<not> tp_parses_json (cf_transform (en_config e)) \<longrightarrow>
        sort_key c_sequence (records_of k q written) = records_of k q written)"
    "\<forall>k < length (en_inputs e). \<forall>q part. bt_get (ki_partitions (en_inputs e ! k)) q = Some part \<and> \<not> ps_done part \<longrightarrow>
      list_all2 (became (en_engine e) (evaluator_panics (en_config e) (en_panics e)) (en_config e) (ki_requirements (en_inputs e ! k)) k)
        (in_time (ki_exit_at_end (en_inputs e ! k)) part (backlog incoming (ki_consumer (en_inputs e ! k))))
        (sort_key c_sequence (records_of k q written))"
proof -
  have limit: "cf_count_per_partition (en_config e) \<noteq> Some 0" using free by (simp add: unlimited_run_def)
  from run_written [OF client unread limit engine law cap run fin ok] obtain written where
    out: "contents (ws_sink (wr_state (sy_writer s))) = contents w @ texts (en_json e) (en_config e) written"
    "\<forall>c \<in> set written. \<not> is_fatal c \<and> c_consumer c < length (en_inputs e) \<and>
       c_partition c \<in> set (assigned_partitions (en_inputs e ! c_consumer c))" and
    each: "\<forall>k < length (en_inputs e). \<forall>q part. bt_get (ki_partitions (en_inputs e ! k)) q = Some part \<longrightarrow>
      length (records_of k q written) = next_sequence_of (pl_admission (pt_poller (sy_pollers s ! k))) q \<and>
      list_all2 (became (en_engine e) (evaluator_panics (en_config e) (en_panics e)) (en_config e) (ki_requirements (en_inputs e ! k)) k)
        (take (length (records_of k q written)) (filter (due part) (backlog incoming (ki_consumer (en_inputs e ! k)))))
        (sort_key c_sequence (records_of k q written)) \<and>
      (\<not> cf_unordered (en_config e) \<or> \<not> tp_parses_json (cf_transform (en_config e)) \<longrightarrow>
        sort_key c_sequence (records_of k q written) = records_of k q written)" .
  show ?thesis
  proof (intro that [OF out each] allI impI)
    fix k q part
    let ?log = "backlog incoming (ki_consumer (en_inputs e ! k))" and ?x = "ki_exit_at_end (en_inputs e ! k)"
    assume k: "k < length (en_inputs e)" and part: "bt_get (ki_partitions (en_inputs e ! k)) q = Some part \<and> \<not> ps_done part"
    have "length (records_of k q written) = length (in_time ?x part ?log)"
      using each k part uninterrupted_whole [OF law client unread free run fin no_failure [OF ok] calm k, of q part] by simp
    with in_time_prefix [of ?x part ?log] have
      "take (length (records_of k q written)) (filter (due part) ?log) = in_time ?x part ?log" by simp
    with each [rule_format, OF k conjunct1 [OF part]]
    show "list_all2 (became (en_engine e) (evaluator_panics (en_config e) (en_panics e)) (en_config e) (ki_requirements (en_inputs e ! k)) k)
        (in_time ?x part ?log) (sort_key c_sequence (records_of k q written))" by simp
  qed
qed

text \<open>
  C3. Nothing is left out, in every mode, ordered or not, with shared partitions or not, with evaluators or not: when
  nobody asked the program to stop, no limit on the number of records applies, and the run is a success, then only
  records of assigned partitions are written, and those of each consumer and partition are, in the order of their
  sequence numbers, all due messages up to the one that ends the partition, the first at or past its end offset, or its end
  of log, each with its determined outcome. Unless evaluators complete them without order, this is the order of the output.
\<close>

theorem run_delivers_everything:
  assumes client: "client_law (en_kafka e) incoming" and unread: "unread_inputs (en_inputs e)" and free: "unlimited_run e"
    and engine: "ignores_capacity (en_engine e)" and law: "lawful e contents"
    and cap: "0 < record_capacity e" and run: "(run_step e)\<^sup>*\<^sup>* (pipeline_start e w shutdown) s"
    and fin: "finished s" and ok: "run_result signal s = Inr r" and calm: "\<not> ct_shutdown (sy_control s)"
  shows "\<exists>written.
    contents (ws_sink (wr_state (sy_writer s))) = contents w @ texts (en_json e) (en_config e) written \<and>
    (\<forall>c \<in> set written. \<not> is_fatal c \<and> c_consumer c < length (en_inputs e) \<and>
      c_partition c \<in> set (assigned_partitions (en_inputs e ! c_consumer c))) \<and>
    (\<forall>k < length (en_inputs e). \<forall>q part. bt_get (ki_partitions (en_inputs e ! k)) q = Some part \<and> \<not> ps_done part \<longrightarrow>
      list_all2 (became (en_engine e) (evaluator_panics (en_config e) (en_panics e)) (en_config e) (ki_requirements (en_inputs e ! k)) k)
        (in_time (ki_exit_at_end (en_inputs e ! k)) part (backlog incoming (ki_consumer (en_inputs e ! k))))
        (sort_key c_sequence (records_of k q written)) \<and>
      (\<not> cf_unordered (en_config e) \<or> \<not> tp_parses_json (cf_transform (en_config e)) \<longrightarrow>
        sort_key c_sequence (records_of k q written) = records_of k q written))"
proof -
  from run_complete [OF assms] obtain written where
    out: "contents (ws_sink (wr_state (sy_writer s))) = contents w @ texts (en_json e) (en_config e) written"
    "\<forall>c \<in> set written. \<not> is_fatal c \<and> c_consumer c < length (en_inputs e) \<and>
       c_partition c \<in> set (assigned_partitions (en_inputs e ! c_consumer c))" and
    each: "\<forall>k < length (en_inputs e). \<forall>q part. bt_get (ki_partitions (en_inputs e ! k)) q = Some part \<longrightarrow>
      length (records_of k q written) = next_sequence_of (pl_admission (pt_poller (sy_pollers s ! k))) q \<and>
      list_all2 (became (en_engine e) (evaluator_panics (en_config e) (en_panics e)) (en_config e) (ki_requirements (en_inputs e ! k)) k)
        (take (length (records_of k q written)) (filter (due part) (backlog incoming (ki_consumer (en_inputs e ! k)))))
        (sort_key c_sequence (records_of k q written)) \<and>
      (\<not> cf_unordered (en_config e) \<or> \<not> tp_parses_json (cf_transform (en_config e)) \<longrightarrow>
        sort_key c_sequence (records_of k q written) = records_of k q written)" and
    whole: "\<forall>k < length (en_inputs e). \<forall>q part. bt_get (ki_partitions (en_inputs e ! k)) q = Some part \<and> \<not> ps_done part \<longrightarrow>
      list_all2 (became (en_engine e) (evaluator_panics (en_config e) (en_panics e)) (en_config e) (ki_requirements (en_inputs e ! k)) k)
        (in_time (ki_exit_at_end (en_inputs e ! k)) part (backlog incoming (ki_consumer (en_inputs e ! k))))
        (sort_key c_sequence (records_of k q written))" .
  show ?thesis
    by (intro exI [of _ written] conjI out allI impI) (use each whole in \<open>blast+\<close>)
qed

text \<open>
  A log with an end for both partitions, an offset past the range of the first and the end of the second, read without
  evaluators and without order.
\<close>

definition ending_log :: "native_message list" where
  "ending_log = [plain_message 0 6 ''a'', plain_message 1 3 ''b'', plain_message 0 9 ''c'',
     (plain_message 1 4 [])\<lparr>nm_err := RespPartitionEof\<rparr>]"

definition direct_config :: "string runtime_config" where
  "direct_config = (sample_config ((sample_plan [] [] None)\<lparr>tp_parses_json := False\<rparr>) (FormatPlan None [Payload, Literal '';'']))
     \<lparr>cf_unordered := True\<rparr>"

definition ending_setting :: "(string, string list \<times> string, string, string, nat, string) setting" where
  "ending_setting = pass_setting\<lparr>en_config := direct_config, en_kafka :=
     log_kafka\<lparr>ko_extract := (\<lambda>t n k. (Inr (take n (drop k ending_log)), k + n))\<rparr>\<rparr>"

definition ending_acts :: "act list" where
  "ending_acts = [StartThread None, StartThread None, StartThread None, StartThread None,
     Turn 0 0 False, Turn 0 0 False, Turn 0 0 False, Send 0, Turn 0 0 False, Turn 0 0 False, Turn 0 0 False,
     TakeCompletions, SendReleases, Turn 0 1 False, CloseWriter, FlushWriter]"

lemma ending_run:
  "map_option (\<lambda>s. (finished s, run_result 0 s, ct_shutdown (sy_control s), ws_sink (wr_state (sy_writer s))))
    (run_acts ending_setting ending_acts (pipeline_start ending_setting [] False)) = Some (True, Inr None, False, ''a;b;'')"
  by (simp add: ending_acts_def ending_setting_def ending_log_def direct_config_def direct_completion_def direct_action_def
      count_direct_def stats_transformed_def pass_evaluation cong: let_weak_cong)

lemma ending_law: "client_law (en_kafka ending_setting) (\<lambda>k. drop k ending_log)"
proof -
  have "take n xs @ drop (k + n) ending_log = drop k ending_log" if "xs = drop k ending_log" for n k and xs
    using that append_take_drop_id [of n "drop k ending_log"] by (simp add: add.commute)
  moreover have "\<forall>m \<in> set ending_log. fits_memory m"
    by (simp add: ending_log_def plain_message_def fits_memory_def usize_max_def)
  ultimately show ?thesis
    by (auto simp: client_law_def queue_law_def pause_law_def log_kafka_def ending_setting_def pass_setting_def dest: in_set_dropD)
qed

theorem run_delivers_everything_witness:
  "\<exists>written. ''a;b;'' = texts id direct_config written \<and>
     (\<forall>q part. bt_get (ki_partitions (two_partitions (0 :: nat))) q = Some part \<and> \<not> ps_done part \<longrightarrow>
       list_all2 (became sample_engine (\<lambda>bs. False) direct_config (ki_requirements (two_partitions (0 :: nat))) 0)
         (in_time True part ending_log) (records_of 0 q written))"
proof -
  obtain s where s: "run_acts ending_setting ending_acts (pipeline_start ending_setting [] False) = Some s" "finished s"
    "run_result 0 s = Inr None" "\<not> ct_shutdown (sy_control s)" "ws_sink (wr_state (sy_writer s)) = ''a;b;''"
    using ending_run by auto
  have given: "unread_inputs (en_inputs ending_setting)" "ignores_capacity (en_engine ending_setting)" "0 < record_capacity ending_setting"
    "unlimited_run ending_setting" "lawful ending_setting (\<lambda>bs. bs)"
    using pass_laws by (simp_all add: ending_setting_def record_capacity_def direct_config_def sample_config_def unlimited_run_def
        lawful_def is_ordered_def fresh_inputs_def)
  from run_delivers_everything [OF ending_law given(1,4,2,5,3) run_acts_reach [OF s(1)] s(2-4)] s(5)
  show ?thesis
    by (simp add: ending_setting_def pass_setting_def two_partitions_def direct_config_def sample_config_def sample_plan_def) metis
qed

lemmas pass_law = lawful_fresh [OF pass_laws(6,2)]

section \<open>What is accounted for\<close>

text \<open>
  C4. No record is ever lost track of: at every moment of every run, the records in flight that a running
  poller's admission counts for a partition are exactly those of its records that are in its buffer, in a channel,
  with an evaluator, waiting in the orderer, or among the releases on their way back; the shared counters cover
  the records of this poller and their bytes; and what has come back so far is accepted without a failure.
\<close>

theorem every_record_is_accounted_for:
  assumes "lawful e contents" "(run_step e)\<^sup>*\<^sup>* (pipeline_start e w shutdown) s"
    and k: "k < length (sy_pollers s)" "\<not> pt_left (sy_pollers s ! k)" "pt_outbox (sy_pollers s ! k) = []"
  defines "p \<equiv> pt_poller (sy_pollers s ! k)"
  shows "(\<forall>q. in_flight_of (pl_admission p) q = in_partition q (outstanding k s)) \<and>
    size (outstanding k s) \<le> sa_records (sy_shared s) \<and> weight (outstanding k s) \<le> sa_bytes (sy_shared s) \<and>
    pl_control (fold take_back (sy_releases s ! k) (p\<lparr>pl_shared := sy_shared s\<rparr>)) = pl_control p"
proof -
  have led: "ledger e s" using reached [OF assms(1,2)] by simp
  then have kN: "k \<in> {..<consumers e}" using k(1) by (simp add: ledger_def in_shape_def Let_def)
  have "\<forall>q. in_flight_of (pl_admission p) q = in_partition q (outstanding k s)"
    using led k(1,2) by (auto simp: ledger_def balanced_def p_def)
  moreover have "size (outstanding k s) \<le> (\<Sum>j < consumers e. size (outstanding j s))"
    "weight (outstanding k s) \<le> (\<Sum>j < consumers e. weight (outstanding j s))"
    using kN by (auto intro: member_le_sum)
  moreover have "pl_control (fold take_back (sy_releases s ! k) (p\<lparr>pl_shared := sy_shared s\<rparr>)) = pl_control p"
    using take_back_all_books [OF ledger_books [OF led k]] by (simp add: p_def)
  ultimately show ?thesis using led by (auto simp: ledger_def)
qed

lemma pass_mid:
  obtains s where "(run_step pass_setting)\<^sup>*\<^sup>* (pipeline_start pass_setting [] False) s"
    "length (sy_pollers s) = 1" "\<not> pt_left (sy_pollers s ! 0)" "pt_outbox (sy_pollers s ! 0) = []"
    "map (\<lambda>(k, rs). (k, map t_release rs)) (wr_outbox (sy_writer s)) = [(0, [(0, 1), (1, 1)])]"
  using pass_half by (auto simp: pass_start_def dest: run_acts_reach)

theorem every_record_is_accounted_for_witness:
  "\<exists>s. (run_step pass_setting)\<^sup>*\<^sup>* (pipeline_start pass_setting [] False) s \<and>
     (\<forall>q. in_flight_of (pl_admission (pt_poller (sy_pollers s ! 0))) q = in_partition q (outstanding 0 s)) \<and>
     size (outstanding 0 s) \<le> sa_records (sy_shared s)"
proof -
  obtain s where s: "(run_step pass_setting)\<^sup>*\<^sup>* (pipeline_start pass_setting [] False) s" "length (sy_pollers s) = 1"
    "\<not> pt_left (sy_pollers s ! 0)" "pt_outbox (sy_pollers s ! 0) = []" by (rule pass_mid)
  from every_record_is_accounted_for [OF pass_law s(1) _ s(3,4)] s(1,2) show ?thesis by (intro exI [of _ s]) simp
qed

section \<open>What never blocks\<close>

text \<open>
  C6. The writer is never blocked: whenever it has a release batch to send, the batch is for a poller
  that was started, the release channel of that poller has room, and so the send can be made.
\<close>

theorem release_channels_never_fill:
  assumes "lawful e contents" "(run_step e)\<^sup>*\<^sup>* (pipeline_start e w shutdown) s"
    and box: "wr_outbox (sy_writer s) = (k, rs) # rest"
  shows "k < length (sy_pollers s) \<and> length (sy_releases s ! k) < record_capacity e \<and> enabled e SendReleases s"
proof -
  have "ledger e s" using reached [OF assms(1,2)] by simp
  from queue_room [OF this box] box show ?thesis by simp
qed

theorem release_channels_never_fill_witness:
  "\<exists>s. (run_step pass_setting)\<^sup>*\<^sup>* (pipeline_start pass_setting [] False) s \<and> wr_outbox (sy_writer s) \<noteq> [] \<and>
     enabled pass_setting SendReleases s"
proof -
  obtain s where s: "(run_step pass_setting)\<^sup>*\<^sup>* (pipeline_start pass_setting [] False) s"
    "map (\<lambda>(k, rs). (k, map t_release rs)) (wr_outbox (sy_writer s)) = [(0, [(0, 1), (1, 1)])]" by (rule pass_mid)
  then obtain rs where box: "wr_outbox (sy_writer s) = [(0, rs)]" by auto
  from release_channels_never_fill [OF pass_law s(1) box] s(1) box show ?thesis by (intro exI [of _ s]) simp
qed

section \<open>How it ends\<close>

lemma can_finish:
  assumes "lawful e contents" "0 < record_capacity e"
    and run: "(run_step e)\<^sup>*\<^sup>* (pipeline_start e w shutdown) s"
  shows "\<exists>s'. (run_step e)\<^sup>*\<^sup>* s s' \<and> finished s'"
proof -
  note law = assms(1)
  have inv: "ledger e s" "phases e s" using reached [OF law run] by simp_all
  have en: "enabled e Interrupt s" by simp
  let ?s = "perform e Interrupt s"
  have "ct_shutdown (sy_control ?s)" by simp
  from winds_down [OF law assms(2) ledger_step [OF law inv(1) en] phases_step [OF inv en] this]
  show ?thesis by (meson en converse_rtranclp_into_rtranclp run_step.intros)
qed

text \<open>
  C5. The pipeline never deadlocks: from every state it can reach, whatever failed, refused to
  start or panicked before, there is a continuation in which every thread ends and the main thread's joins return.
\<close>

theorem pipeline_winds_down:
  assumes "lawful e contents" "0 < record_capacity e"
    and run: "(run_step e)\<^sup>*\<^sup>* (pipeline_start e w shutdown) s"
  shows "\<exists>s'. (run_step e)\<^sup>*\<^sup>* s s' \<and> finished s'"
  using assms by (rule can_finish)

theorem pipeline_winds_down_witness:
  "\<exists>s. (run_step pass_setting)\<^sup>*\<^sup>* (pipeline_start pass_setting [] False) s \<and> finished s"
  using pipeline_winds_down [OF pass_law pass_laws(7) rtranclp.rtrancl_refl, of "[]" False] .

text \<open>A poller's iteration may find nothing to do, and signals may keep coming.\<close>

fun idle :: "act \<Rightarrow> bool" where
  "idle (Turn k n late) = True"
| "idle Interrupt = True"
| "idle _ = False"

lemma busy_step: "enabled e a s \<Longrightarrow> \<not> idle a \<Longrightarrow> left_to_do e (perform e a s) < left_to_do e s"
  using left_other [of e a s] by (cases a) simp_all

text \<open>
  C7. After a shutdown request the work that is left is bounded, whatever the schedule: at most \<open>left_to_do\<close> further
  starts, sends, receives and ends of threads can happen; and as long as some thread has not ended, there is
  a step that leaves less to do. So a schedule that keeps serving the threads ends the program.
\<close>

theorem shutdown_bounds_the_work:
  assumes "lawful e contents" "0 < record_capacity e"
    and run: "(run_step e)\<^sup>*\<^sup>* (pipeline_start e w shutdown) s" and down: "ct_shutdown (sy_control s)"
    and acts: "run_acts e as s = Some s'"
  shows "length (filter (\<lambda>a. \<not> idle a) as) + left_to_do e s' \<le> left_to_do e s \<and>
    (finished s' \<or> (\<exists>a. enabled e a s' \<and> left_to_do e (perform e a s') < left_to_do e s'))"
proof -
  note law = assms(1)
  have inv: "ledger e s" "phases e s" using reached [OF law run] by simp_all
  have "length (filter (\<lambda>a. \<not> idle a) as) + left_to_do e s' \<le> left_to_do e s \<and>
      ledger e s' \<and> phases e s' \<and> ct_shutdown (sy_control s')"
    using acts inv down
  proof (induction as arbitrary: s)
    case (Cons a as)
    then have en: "enabled e a s" and rest: "run_acts e as (perform e a s) = Some s'" by (auto split: if_splits)
    have "left_to_do e (perform e a s) + (if idle a then 0 else 1) \<le> left_to_do e s"
      using left_step [OF Cons.prems(2,4) en] busy_step [OF en] by (simp add: Suc_le_eq)
    with Cons.IH [OF rest ledger_step [OF law Cons.prems(2) en] phases_step [OF Cons.prems(2,3) en]
        shutdown_stays [OF Cons.prems(4) en]] show ?case by (simp split: if_splits)
  qed simp
  with left_progress [OF law assms(2)] show ?thesis by blast
qed

definition pass_stops :: "act list" where
  "pass_stops = [StartThread None, StartThread None, StartThread None, StartThread None, StartThread None,
     Turn 0 0 False, EndWorker 0, CloseWriter, FlushWriter]"

lemma pass_stopped:
  "map_option finished (run_acts pass_setting pass_stops (pipeline_start pass_setting [] True)) = Some True"
  by (simp add: pass_stops_def pass_evaluation cong: let_weak_cong)

theorem shutdown_bounds_the_work_witness:
  "8 \<le> left_to_do pass_setting (pipeline_start pass_setting [] True)"
proof -
  obtain s where s: "run_acts pass_setting pass_stops (pipeline_start pass_setting [] True) = Some s"
    using pass_stopped by auto
  have "ct_shutdown (sy_control (pipeline_start pass_setting [] True))" by (simp add: pipeline_start_def Let_def)
  from shutdown_bounds_the_work [OF pass_law pass_laws(7) rtranclp.rtrancl_refl this s]
  show ?thesis by (simp add: pass_stops_def)
qed

end
