(* ===== verification/Text_Ops.thy ===== *)
theory Text_Ops
  imports Prelude "HOL-Library.Sublist"
begin

text \<open>
  The methods of \<open>str\<close> that the command line uses, on UTF-8 bytes: splitting at an ASCII character, prefixes
  and suffixes, Unicode trimming, and lines.
\<close>

section \<open>Splitting\<close>

text \<open>\<open>split(c)\<close>: always at least one piece.\<close>

fun split_at :: "char \<Rightarrow> string \<Rightarrow> string list" where
  "split_at c [] = [[]]"
| "split_at c (x # xs) = (if x = c then [] # split_at c xs
     else case split_at c xs of [] \<Rightarrow> [[x]] | p # ps \<Rightarrow> (x # p) # ps)"

fun split_once :: "char \<Rightarrow> string \<Rightarrow> (string \<times> string) option" where
  "split_once c [] = None"
| "split_once c (x # xs) = (if x = c then Some ([], xs)
     else map_option (\<lambda>(a, b). (x # a, b)) (split_once c xs))"

definition strip_prefix :: "string \<Rightarrow> string \<Rightarrow> string option" where
  "strip_prefix p s = (if prefix p s then Some (drop (length p) s) else None)"

definition strip_suffix :: "string \<Rightarrow> string \<Rightarrow> string option" where
  "strip_suffix p s = (if suffix p s then Some (take (length s - length p) s) else None)"

lemma split_at_nonempty [simp]: "split_at c s \<noteq> []"
  by (induction s) (auto split: list.split)

lemma split_at_free: "c \<notin> set s \<Longrightarrow> split_at c s = [s]"
  by (induction s) auto

lemma split_at_join:
  "c \<notin> set s \<Longrightarrow> split_at c (s @ c # rest) = s # split_at c rest"
  by (induction s) auto

lemma split_once_join: "c \<notin> set s \<Longrightarrow> split_once c (s @ c # rest) = Some (s, rest)"
  by (induction s) auto

lemma split_once_free: "c \<notin> set s \<Longrightarrow> split_once c s = None"
  by (induction s) auto

lemma split_once_Some: "split_once c s = Some (a, b) \<Longrightarrow> s = a @ c # b \<and> c \<notin> set a"
  by (induction s arbitrary: a) (auto split: if_splits)

lemma strip_suffix_append [simp]: "strip_suffix p (s @ p) = Some s"
  by (simp add: strip_suffix_def suffix_def)

lemma strip_suffix_Some: "strip_suffix p s = Some t \<longleftrightarrow> s = t @ p"
  by (auto simp: strip_suffix_def suffix_def)

lemma strip_prefix_append [simp]: "strip_prefix p (p @ s) = Some s"
  by (simp add: strip_prefix_def)

lemma strip_prefix_Some: "strip_prefix p s = Some t \<longleftrightarrow> s = p @ t"
  by (auto simp: strip_prefix_def prefix_def)

section \<open>White space\<close>

text \<open>
  The code points with the Unicode property \<open>White_Space\<close>, in UTF-8: the ASCII ones, U+0085, U+00A0, U+1680,
  U+2000 to U+200A, U+2028, U+2029, U+202F, U+205F and U+3000.
\<close>

definition ascii_space :: "string list" where
  "ascii_space = map (\<lambda>n. [char_of n]) [9, 10, 11, 12, 13, 32 :: nat]"

definition unicode_space :: "string list" where
  "unicode_space = map (map char_of) ([[0xC2, 0x85], [0xC2, 0xA0], [0xE1, 0x9A, 0x80]]
     @ map (\<lambda>n. [0xE2, 0x80, n]) ([0x80..<0x8B] @ [0xA8, 0xA9, 0xAF])
     @ [[0xE2, 0x81, 0x9F], [0xE3, 0x80, 0x80 :: nat]])"

definition white :: "string list" where
  "white = ascii_space @ unicode_space"

definition leading_space :: "string \<Rightarrow> string option" where
  "leading_space s = List.find (\<lambda>w. prefix w s) white"

definition trailing_space :: "string \<Rightarrow> string option" where
  "trailing_space s = List.find (\<lambda>w. suffix w s) white"

lemma white_nonempty: "w \<in> set white \<Longrightarrow> w \<noteq> []"
  by (auto simp: white_def ascii_space_def unicode_space_def)

lemma leading_space_Some: "leading_space s = Some w \<Longrightarrow> w \<noteq> [] \<and> prefix w s"
  by (auto simp: leading_space_def find_Some_iff white_nonempty)

lemma trailing_space_Some: "trailing_space s = Some w \<Longrightarrow> w \<noteq> [] \<and> suffix w s"
  by (auto simp: trailing_space_def find_Some_iff white_nonempty)

function trim_start :: "string \<Rightarrow> string" where
  "trim_start s = (case leading_space s of None \<Rightarrow> s | Some w \<Rightarrow> trim_start (drop (length w) s))"
  by pat_completeness auto
termination
  by (relation "measure length") (auto dest!: leading_space_Some simp: prefix_def)

function trim_end :: "string \<Rightarrow> string" where
  "trim_end s = (case trailing_space s of None \<Rightarrow> s | Some w \<Rightarrow> trim_end (take (length s - length w) s))"
  by pat_completeness auto
termination
  by (relation "measure length") (auto dest!: trailing_space_Some simp: suffix_def)

declare trim_start.simps [simp del] trim_end.simps [simp del]

definition trim :: "string \<Rightarrow> string" where
  "trim s = trim_end (trim_start s)"

definition trimmed :: "string \<Rightarrow> bool" where
  "trimmed s \<longleftrightarrow> leading_space s = None \<and> trailing_space s = None"

lemma trim_trimmed: "trimmed s \<Longrightarrow> trim s = s"
  by (simp add: trim_def trimmed_def trim_start.simps trim_end.simps)

lemma leading_space_None: "leading_space s = None \<longleftrightarrow> (\<forall>w \<in> set white. \<not> prefix w s)"
  by (auto simp: leading_space_def find_None_iff)

lemma trailing_space_None: "trailing_space s = None \<longleftrightarrow> (\<forall>w \<in> set white. \<not> suffix w s)"
  by (auto simp: trailing_space_def find_None_iff)

lemma trim_start_none: "leading_space (trim_start s) = None"
proof (induction s rule: trim_start.induct)
  case (1 s)
  then show ?case by (subst trim_start.simps) (auto split: option.split simp: trim_start.simps [of s])
qed

lemma trim_end_none: "trailing_space (trim_end s) = None"
proof (induction s rule: trim_end.induct)
  case (1 s)
  then show ?case by (subst trim_end.simps) (auto split: option.split)
qed

lemma trim_end_prefix: "prefix (trim_end s) s"
proof (induction s rule: trim_end.induct)
  case (1 s)
  show ?case
  proof (cases "trailing_space s")
    case None
    then show ?thesis by (subst trim_end.simps) simp
  next
    case (Some w)
    with 1 have "prefix (trim_end (take (length s - length w) s)) s" by (meson prefix_order.trans take_is_prefix)
    with Some show ?thesis by (subst trim_end.simps) simp
  qed
qed

lemma leading_space_prefix: "prefix t s \<Longrightarrow> leading_space s = None \<Longrightarrow> leading_space t = None"
  by (auto simp: leading_space_None intro: prefix_order.trans)

theorem trimmed_trim: "trimmed (trim s)"
  unfolding trimmed_def trim_def
  using trim_end_prefix trim_start_none trim_end_none leading_space_prefix by blast

lemma set_trim: "set (trim s) \<subseteq> set s"
proof -
  have "suffix (trim_start s) s"
  proof (induction s rule: trim_start.induct)
    case (1 s)
    show ?case
    proof (cases "leading_space s")
      case None
      then show ?thesis by (subst trim_start.simps) simp
    next
      case (Some w)
      with 1 have "suffix (trim_start (drop (length w) s)) s" by (meson suffix_drop suffix_order.trans)
      with Some show ?thesis by (subst trim_start.simps) simp
    qed
  qed
  then show ?thesis
    unfolding trim_def using trim_end_prefix [of "trim_start s"] by (meson set_mono_prefix set_mono_suffix subset_trans)
qed

text \<open>Text without white-space bytes is trimmed: none of the encodings has any other character.\<close>

definition plain_char :: "char \<Rightarrow> bool" where
  "plain_char c \<longleftrightarrow> 32 < (of_char c :: nat) \<and> (of_char c :: nat) < 127"

lemma white_not_plain: "w \<in> set white \<Longrightarrow> \<not> list_ex plain_char w"
  by (auto simp: white_def ascii_space_def unicode_space_def plain_char_def)

lemma white_sides:
  assumes "w \<in> set white" "plain_char c"
  shows "prefix w (s @ c # t) \<longleftrightarrow> prefix w s" and "suffix w (s @ c # t) \<longleftrightarrow> suffix w t"
proof -
  have c: "c \<notin> set w" using white_not_plain [OF assms(1)] assms(2) by (auto simp: list_ex_iff)
  show "prefix w (s @ c # t) \<longleftrightarrow> prefix w s"
    using c by (auto simp: prefix_append prefix_Cons)
  show "suffix w (s @ c # t) \<longleftrightarrow> suffix w t"
    using c by (auto simp: suffix_append suffix_Cons)
qed

lemma leading_space_plain: "plain_char c \<Longrightarrow> leading_space (s @ c # t) = leading_space s"
  unfolding leading_space_def by (rule find_cong) (simp_all add: white_sides)

lemma trailing_space_plain: "plain_char c \<Longrightarrow> trailing_space (s @ c # t) = trailing_space t"
  unfolding trailing_space_def by (rule find_cong) (simp_all add: white_sides)

lemma no_space_Nil [simp]: "leading_space [] = None" "trailing_space [] = None"
  by (auto simp: leading_space_None trailing_space_None white_nonempty)

lemma plain_trimmed: "\<forall>c \<in> set s. plain_char c \<Longrightarrow> trimmed s"
proof -
  assume plain: "\<forall>c \<in> set s. plain_char c"
  have "leading_space s = None" using plain leading_space_plain [of _ "[]"] by (cases s) simp_all
  moreover have "trailing_space s = None"
    using plain trailing_space_plain [of _ _ "[]"] by (cases s rule: rev_cases) simp_all
  ultimately show ?thesis by (simp add: trimmed_def)
qed

section \<open>Lines\<close>

definition newline_char :: char where
  "newline_char = CHR 0x0A"

definition carriage_return :: char where
  "carriage_return = CHR 0x0D"

text \<open>\<open>lines()\<close>: a line ends with \<open>\\n\<close> or \<open>\\r\\n\<close>; what follows the last \<open>\\n\<close> is a line when it is not empty.\<close>

definition strip_return :: "string \<Rightarrow> string" where
  "strip_return s = (case strip_suffix [carriage_return] s of None \<Rightarrow> s | Some t \<Rightarrow> t)"

definition text_lines :: "string \<Rightarrow> string list" where
  "text_lines s =
     (let ps = split_at newline_char s
      in map strip_return (butlast ps) @ (if last ps = [] then [] else [last ps]))"

lemma text_lines_join:
  assumes "\<forall>l \<in> set ls. newline_char \<notin> set l"
  shows "text_lines (concat (map (\<lambda>l. l @ [newline_char]) ls)) = map strip_return ls"
proof -
  have "split_at newline_char (concat (map (\<lambda>l. l @ [newline_char]) ls)) = ls @ [[]]"
    using assms by (induction ls) (simp_all add: split_at_join)
  then show ?thesis by (simp add: text_lines_def)
qed

lemma strip_return_trimmed: "trimmed s \<Longrightarrow> strip_return s = s"
proof -
  assume "trimmed s"
  moreover have "CHR 0x0D = char_of (13 :: nat)" by (rule sym) (simp add: char_of_eq_iff)
  then have "[carriage_return] \<in> set white"
    by (simp add: white_def ascii_space_def carriage_return_def)
  ultimately have "\<not> suffix [carriage_return] s" by (auto simp: trimmed_def trailing_space_None)
  then show ?thesis by (simp add: strip_return_def strip_suffix_def)
qed

end
