(* ===== verification/Cli_Parse.thy ===== *)
theory Cli_Parse
  imports Text_Ops Kafka_Ranges "HOL-Library.List_Lexorder" "HOL-Library.Char_ord"
begin

text \<open>
  The parsers of command-line values in \<open>src/cli.rs\<close>: partition selections, offset positions, Kafka
  properties and configuration files, durations and sizes. Errors name the messages of the source.
\<close>

section \<open>Partitions\<close>

datatype selection_error =
    EmptySelection
  | PartitionNotInteger string
  | NegativePartition int
  | DescendingRange string
  | RangeTooLarge
  | SelectionTooLong
  | DuplicatePartition int

definition parse_partition :: "string \<Rightarrow> selection_error + int" where
  "parse_partition v =
     bind_r (ok_or (parse_int i32_max v) (PartitionNotInteger v)) (\<lambda>p.
     if p < 0 then Inl (NegativePartition p) else Inr p)"

text \<open>A selection: a partition, or an ascending range.\<close>

definition parse_selection :: "string \<Rightarrow> selection_error + int \<times> int" where
  "parse_selection s =
     (if s = [] then Inl EmptySelection
      else if prefix ''-'' s then bind_r (parse_partition s) (\<lambda>p. Inr (p, p))
      else case split_once (CHR ''-'') s of
        Some (a, b) \<Rightarrow>
          bind_r (parse_partition a) (\<lambda>start_p. bind_r (parse_partition b) (\<lambda>end_p.
          if start_p > end_p then Inl (DescendingRange s) else Inr (start_p, end_p)))
      | None \<Rightarrow> bind_r (parse_partition s) (\<lambda>p. Inr (p, p)))"

text \<open>The state of the loops: the partitions so far, and the set of those seen.\<close>

fun insert_partitions :: "int list \<Rightarrow> int list \<times> int set \<Rightarrow> selection_error + int list \<times> int set" where
  "insert_partitions [] s = Inr s"
| "insert_partitions (p # ps) (partitions, seen) =
     (if p \<in> seen then Inl (DuplicatePartition p)
      else insert_partitions ps (partitions @ [p], insert p seen))"

definition add_selection :: "string \<Rightarrow> int list \<times> int set \<Rightarrow> selection_error + int list \<times> int set" where
  "add_selection sel s =
     bind_r (parse_selection sel) (\<lambda>(start_p, end_p).
     let count = end_p - start_p + 1 in
     if count < 0 \<or> count > int usize_max then Inl RangeTooLarge
     else case checked_add (length (fst s)) (nat count) of
       None \<Rightarrow> Inl SelectionTooLong
     | Some n \<Rightarrow>
         if n > max_assigned_partitions then Inl SelectionTooLong
         else insert_partitions [start_p..end_p] s)"

fun add_selections :: "string list \<Rightarrow> int list \<times> int set \<Rightarrow> selection_error + int list \<times> int set" where
  "add_selections [] s = Inr s"
| "add_selections (sel # sels) s = bind_r (add_selection sel s) (add_selections sels)"

fun add_values :: "string list \<Rightarrow> int list \<times> int set \<Rightarrow> selection_error + int list \<times> int set" where
  "add_values [] s = Inr s"
| "add_values (v # vs) s = bind_r (add_selections (map trim (split_at (CHR '','') v)) s) (add_values vs)"

definition parse_partitions :: "string list \<Rightarrow> selection_error + int list" where
  "parse_partitions vs = bind_r (add_values vs ([], {})) (\<lambda>s. Inr (fst s))"

section \<open>Offsets\<close>

datatype offset_error =
    NegativeEndOffset
  | SecondEndBoundary
  | SecondStartPosition
  | NotMilliseconds string
  | NegativeTimestamp string
  | UnsupportedPosition string

definition parse_nonnegative_i64 :: "string \<Rightarrow> string \<Rightarrow> offset_error + int" where
  "parse_nonnegative_i64 v label =
     bind_r (ok_or (parse_int i64_max v) (NotMilliseconds label)) (\<lambda>n.
     if n < 0 then Inl (NegativeTimestamp label) else Inr n)"

definition parse_start :: "string \<Rightarrow> offset_error + start_position" where
  "parse_start raw =
     (if raw = ''beginning'' then Inr Beginning
      else if raw = ''end'' then Inr EndOfLog
      else case strip_prefix ''s@'' raw of
        Some v \<Rightarrow> bind_r (parse_nonnegative_i64 v ''start timestamp'') (\<lambda>t. Inr (StartTimestamp t))
      | None \<Rightarrow>
          bind_r (ok_or (parse_int i64_max raw) (UnsupportedPosition raw)) (\<lambda>n.
          Inr (if n < 0 then RelativeToEnd (nat (- n)) else Absolute n)))"

definition parse_end :: "string \<Rightarrow> offset_error + end_position" where
  "parse_end v = bind_r (parse_nonnegative_i64 v ''end timestamp'') (\<lambda>t. Inr (EndTimestamp t))"

type_synonym boundaries = "start_position option \<times> end_position option"

definition add_position :: "string \<Rightarrow> boundaries \<Rightarrow> offset_error + boundaries" where
  "add_position raw s = (case strip_prefix ''e@'' raw of
      Some v \<Rightarrow>
        if snd s \<noteq> None then Inl SecondEndBoundary
        else bind_r (parse_end v) (\<lambda>e. Inr (fst s, Some e))
    | None \<Rightarrow>
        if fst s \<noteq> None then Inl SecondStartPosition
        else bind_r (parse_start raw) (\<lambda>st. Inr (Some st, snd s)))"

fun add_positions :: "string list \<Rightarrow> boundaries \<Rightarrow> offset_error + boundaries" where
  "add_positions [] s = Inr s"
| "add_positions (raw # raws) s = bind_r (add_position raw s) (add_positions raws)"

definition resolve_offsets ::
    "string list \<Rightarrow> int option \<Rightarrow> offset_error + start_position \<times> end_position option" where
  "resolve_offsets offsets end_offset =
     (if (case end_offset of None \<Rightarrow> False | Some n \<Rightarrow> n < 0) then Inl NegativeEndOffset
      else bind_r (add_positions offsets (None, map_option ExclusiveOffset end_offset)) (\<lambda>(st, e).
        Inr (case st of None \<Rightarrow> Beginning | Some x \<Rightarrow> x, e)))"

section \<open>Properties\<close>

datatype property_error = NotKeyValue | EmptyKey

definition parse_property :: "string \<Rightarrow> property_error + string \<times> string" where
  "parse_property v =
     bind_r (ok_or (split_once (CHR ''='') v) NotKeyValue) (\<lambda>(k, x).
     if trim k = [] then Inl EmptyKey else Inr (trim k, x))"

text \<open>The loop over the numbered lines; an error carries the line's number.\<close>

fun config_loop ::
    "nat \<Rightarrow> string list \<Rightarrow> (string, string) btree \<Rightarrow> (nat \<times> property_error) + (string, string) btree" where
  "config_loop i [] m = Inr m"
| "config_loop i (raw # ls) m =
     (let l = trim raw in
      if l = [] \<or> prefix ''#'' l then config_loop (i + 1) ls m
      else bind_r (map_err (\<lambda>e. (i + 1, e)) (parse_property l)) (\<lambda>(k, x).
        config_loop (i + 1) ls (bt_insert k (trim x) m)))"

definition parse_config :: "string \<Rightarrow> (nat \<times> property_error) + (string, string) btree" where
  "parse_config src = config_loop 0 (text_lines src) bt_empty"

section \<open>Durations and sizes\<close>

datatype quantity_error =
    NoDurationUnit
  | DurationNotInteger
  | DurationNotPositive
  | SizeNotInteger
  | SizeTooLarge
  | SizeOverPlatform

text \<open>Milliseconds.\<close>

definition duration_unit :: "string \<Rightarrow> (string \<times> nat) option" where
  "duration_unit v = (case strip_suffix ''ms'' v of
      Some n \<Rightarrow> Some (n, 1)
    | None \<Rightarrow> (case strip_suffix ''s'' v of
        Some n \<Rightarrow> Some (n, 1000)
      | None \<Rightarrow> map_option (\<lambda>n. (n, 60000)) (strip_suffix ''m'' v)))"

definition parse_duration :: "string \<Rightarrow> quantity_error + nat" where
  "parse_duration v =
     bind_r (ok_or (duration_unit v) NoDurationUnit) (\<lambda>(number, multiplier).
     bind_r (ok_or (parse_uint u64_max number) DurationNotInteger) (\<lambda>n.
     let ms = n * multiplier in
     if ms \<le> u64_max \<and> ms > 0 then Inr ms else Inl DurationNotPositive))"

definition u128_max :: nat where
  "u128_max = 340282366920938463463374607431768211455"

definition size_unit :: "string \<Rightarrow> string \<times> nat" where
  "size_unit v = (case strip_suffix ''GiB'' v of
      Some n \<Rightarrow> (n, 1024 ^ 3)
    | None \<Rightarrow> (case strip_suffix ''MiB'' v of
        Some n \<Rightarrow> (n, 1024 ^ 2)
      | None \<Rightarrow> (case strip_suffix ''KiB'' v of Some n \<Rightarrow> (n, 1024) | None \<Rightarrow> (v, 1))))"

definition parse_size :: "string \<Rightarrow> quantity_error + nat" where
  "parse_size v = (case size_unit v of (number, multiplier) \<Rightarrow>
     bind_r (ok_or (parse_uint u128_max number) SizeNotInteger) (\<lambda>n.
     if n * multiplier > u128_max then Inl SizeTooLarge
     else if n * multiplier > usize_max then Inl SizeOverPlatform
     else Inr (n * multiplier)))"

end
