(* ===== verification/Cli_Parse_Facts.thy ===== *)
theory Cli_Parse_Facts
  imports Cli_Parse
begin

text \<open>
  What the command-line parsers accept: each loop is compared with a description of the whole input.
\<close>

section \<open>Results of checks\<close>

text \<open>Reading off a successful result from a chain of checks.\<close>

lemma ok_or_bind_Inr: "bind_r (ok_or x e) f = Inr y \<longleftrightarrow> (\<exists>a. x = Some a \<and> f a = Inr y)"
  by (simp add: bind_r_Inr_iff)

lemma guard_Inr: "(if b then Inl e else r) = Inr y \<longleftrightarrow> \<not> b \<and> r = Inr y"
  by simp

lemmas checks_Inr = ok_or_bind_Inr bind_r_Inr_iff guard_Inr

section \<open>Partitions\<close>

lemma parse_partition_range: "parse_partition v = Inr p \<Longrightarrow> 0 \<le> p \<and> p \<le> i32_max"
  using parse_int_le [of i32_max v p] by (auto simp: parse_partition_def checks_Inr i32_max_def split: if_splits)

lemma parse_selection_range:
  assumes "parse_selection s = Inr (a, b)"
  shows "0 \<le> a \<and> a \<le> b \<and> b \<le> i32_max"
  using assms parse_partition_range
  by (fastforce simp: parse_selection_def checks_Inr split: if_splits option.splits)

lemma insert_partitions_spec:
  assumes "distinct ps"
  shows "insert_partitions xs (ps, set ps) = Inr s \<longleftrightarrow> distinct (ps @ xs) \<and> s = (ps @ xs, set (ps @ xs))"
  using assms
proof (induction xs arbitrary: ps)
  case (Cons x xs)
  show ?case
  proof (cases "x \<in> set ps")
    case False
    have "insert_partitions xs (ps @ [x], set (ps @ [x])) = Inr s \<longleftrightarrow>
        distinct ((ps @ [x]) @ xs) \<and> s = ((ps @ [x]) @ xs, set ((ps @ [x]) @ xs))"
      by (rule Cons.IH) (use False Cons.prems in simp)
    with False show ?thesis by simp
  qed auto
qed auto

lemma add_selection_spec:
  assumes "distinct ps"
  shows "add_selection sel (ps, set ps) = Inr s \<longleftrightarrow>
    (\<exists>a b. parse_selection sel = Inr (a, b) \<and> length ps + length [a..b] \<le> max_assigned_partitions \<and>
      distinct (ps @ [a..b]) \<and> s = (ps @ [a..b], set (ps @ [a..b])))"
proof (cases "parse_selection sel")
  case (Inr r)
  obtain a b where r: "r = (a, b)" by fastforce
  with Inr have range: "0 \<le> a" "a \<le> b" "b \<le> i32_max" using parse_selection_range by blast+
  then have "b - a + 1 \<le> int usize_max" by (simp add: int_bounds)
  moreover have "nat (b - a + 1) = length [a..b]" using range by simp
  ultimately show ?thesis using range Inr r insert_partitions_spec [OF assms, of "[a..b]" s]
    by (auto simp: add_selection_def Let_def checked_add_def max_assigned_partitions_def usize_max_def)
qed (simp add: add_selection_def)

abbreviation expand :: "(int \<times> int) list \<Rightarrow> int list" where
  "expand rs \<equiv> concat (map (\<lambda>(a, b). [a..b]) rs)"

lemma add_selections_spec:
  assumes "distinct ps"
  shows "add_selections sels (ps, set ps) = Inr s \<longleftrightarrow>
    (\<exists>rs. map parse_selection sels = map Inr rs \<and> distinct (ps @ expand rs) \<and>
      (rs \<noteq> [] \<longrightarrow> length (ps @ expand rs) \<le> max_assigned_partitions) \<and>
      s = (ps @ expand rs, set (ps @ expand rs)))"
  using assms
proof (induction sels arbitrary: ps)
  case (Cons sel sels)
  show ?case (is "?lhs \<longleftrightarrow> ?rhs")
  proof
    assume ?lhs
    then obtain a b where ab: "parse_selection sel = Inr (a, b)" "length (ps @ [a..b]) \<le> max_assigned_partitions"
        "distinct (ps @ [a..b])" and "add_selections sels (ps @ [a..b], set (ps @ [a..b])) = Inr s"
      by (auto simp: bind_r_Inr_iff add_selection_spec [OF Cons.prems])
    with Cons.IH [OF ab(3)] obtain rs where "map parse_selection sels = map Inr rs"
      "distinct ((ps @ [a..b]) @ expand rs)"
      "rs \<noteq> [] \<longrightarrow> length ((ps @ [a..b]) @ expand rs) \<le> max_assigned_partitions"
      "s = ((ps @ [a..b]) @ expand rs, set ((ps @ [a..b]) @ expand rs))" by blast
    with ab show ?rhs by (intro exI [of _ "(a, b) # rs"]) (cases "rs = []", auto)
  next
    assume ?rhs
    then obtain zs where zs: "map parse_selection (sel # sels) = map Inr zs" "distinct (ps @ expand zs)"
      "zs \<noteq> [] \<longrightarrow> length (ps @ expand zs) \<le> max_assigned_partitions" "s = (ps @ expand zs, set (ps @ expand zs))"
      by blast
    then obtain r rs where "zs = r # rs" by (cases zs) simp_all
    with zs have rs: "parse_selection sel = Inr r" "map parse_selection sels = map Inr rs"
      "distinct (ps @ expand (r # rs))" "length (ps @ expand (r # rs)) \<le> max_assigned_partitions"
      "s = (ps @ expand (r # rs), set (ps @ expand (r # rs)))" by simp_all
    obtain a b where r: "r = (a, b)" by fastforce
    have d: "distinct (ps @ [a..b])" using rs(3) r by auto
    have "add_selection sel (ps, set ps) = Inr (ps @ [a..b], set (ps @ [a..b]))"
      using rs(1,4) r d by (subst add_selection_spec [OF Cons.prems]) auto
    moreover have "add_selections sels (ps @ [a..b], set (ps @ [a..b])) = Inr s"
      using rs r by (subst Cons.IH [OF d]) auto
    ultimately show ?lhs by simp
  qed
qed auto

lemma add_selections_append:
  "add_selections (xs @ ys) s = bind_r (add_selections xs s) (add_selections ys)"
proof (induction xs arbitrary: s)
  case (Cons x xs)
  then show ?case by (cases "add_selection x s") simp_all
qed simp

text \<open>The selections of all values, in order.\<close>

definition selections :: "string list \<Rightarrow> string list" where
  "selections vs = concat (map (\<lambda>v. map trim (split_at (CHR '','') v)) vs)"

lemma add_values_flat: "add_values vs s = add_selections (selections vs) s"
proof (induction vs arbitrary: s)
  case (Cons v vs)
  then show ?case
    by (cases "add_selections (map trim (split_at (CHR '','') v)) s")
      (simp_all add: selections_def add_selections_append)
qed (simp add: selections_def)

lemma parse_partitions_iff:
  "parse_partitions vs = Inr ps \<longleftrightarrow>
    (\<exists>rs. map parse_selection (selections vs) = map Inr rs \<and> ps = expand rs \<and> distinct ps \<and> length ps \<le> 100000)"
proof -
  have "parse_partitions vs = Inr ps \<longleftrightarrow> (\<exists>s. add_selections (selections vs) ([], set []) = Inr s \<and> fst s = ps)"
    by (simp add: parse_partitions_def add_values_flat bind_r_Inr_iff)
  also have "\<dots> \<longleftrightarrow> (\<exists>rs. map parse_selection (selections vs) = map Inr rs \<and> ps = expand rs \<and> distinct ps \<and> length ps \<le> 100000)"
    by (subst add_selections_spec) (auto simp: max_assigned_partitions_def)
  finally show ?thesis .
qed

lemma parse_partitions_valid:
  assumes "parse_partitions vs = Inr ps"
  shows "distinct ps" "length ps \<le> 100000" "\<forall>p \<in> set ps. 0 \<le> p \<and> p \<le> i32_max" "vs \<noteq> [] \<longrightarrow> ps \<noteq> []"
proof -
  from assms obtain rs where rs: "map parse_selection (selections vs) = map Inr rs" "ps = expand rs"
    "distinct ps" "length ps \<le> 100000" by (auto simp: parse_partitions_iff)
  have each: "0 \<le> a \<and> a \<le> b \<and> b \<le> i32_max" if "(a, b) \<in> set rs" for a b
  proof -
    have "Inr (a, b) \<in> set (map parse_selection (selections vs))" using that rs(1) by force
    then obtain sel where "parse_selection sel = Inr (a, b)" by auto
    then show ?thesis by (rule parse_selection_range)
  qed
  show "distinct ps" "length ps \<le> 100000" by fact+
  show "\<forall>p \<in> set ps. 0 \<le> p \<and> p \<le> i32_max" using each rs(2) by fastforce
  show "vs \<noteq> [] \<longrightarrow> ps \<noteq> []"
  proof
    assume "vs \<noteq> []"
    then have "selections vs \<noteq> []" by (cases vs) (simp_all add: selections_def)
    with rs(1) obtain r rs' where "rs = r # rs'" by (cases rs) auto
    with rs(2) each [of "fst r" "snd r"] show "ps \<noteq> []" by (auto simp: case_prod_beta)
  qed
qed

text \<open>Digits are neither separators nor white space.\<close>

lemma dec_nat_plain: "\<forall>c \<in> set (dec_nat n). digit_value c \<noteq> None"
proof (induction n rule: dec_nat.induct)
  case (1 n)
  show ?case
  proof (cases "n < 10")
    case True
    then show ?thesis by (simp add: dec_nat.simps [of n])
  next
    case False
    with 1 show ?thesis by (simp add: dec_nat.simps [of n])
  qed
qed

lemma digit_is_plain: "digit_value c \<noteq> None \<Longrightarrow> plain_char c"
  by (auto simp: digit_value_def plain_char_def Let_def split: if_splits)

lemma not_in_dec: "digit_value c = None \<Longrightarrow> c \<notin> set (dec_nat n)"
  using dec_nat_plain by blast

lemma dec_nat_sep [simp]: "CHR '','' \<notin> set (dec_nat n)" "CHR ''-'' \<notin> set (dec_nat n)"
  by (rule not_in_dec, simp add: digit_value_def)+

lemma parse_partition_dec: "int n \<le> i32_max \<Longrightarrow> parse_partition (dec_nat n) = Inr (int n)"
  using parse_int_dec_int [of i32_max "int n"] by (simp add: parse_partition_def dec_int_def i32_max_def)

text \<open>A range as it is written: \<open>a\<close> alone, or \<open>a-b\<close>.\<close>

definition selection_text :: "nat \<times> nat \<Rightarrow> string" where
  "selection_text r = (if fst r = snd r then dec_nat (fst r) else dec_nat (fst r) @ ''-'' @ dec_nat (snd r))"

lemma dec_nat_not_negative: "\<not> prefix ''-'' (dec_nat n @ s)"
  using dec_nat_nonempty [of n] dec_nat_hd [of n] by (cases "dec_nat n") auto

lemma parse_selection_text:
  assumes "fst r \<le> snd r" "int (snd r) \<le> i32_max"
  shows "parse_selection (selection_text r) = Inr (int (fst r), int (snd r))"
  using assms parse_partition_dec [of "fst r"] parse_partition_dec [of "snd r"]
    dec_nat_not_negative [of "fst r" "[]"] dec_nat_not_negative [of "fst r" "CHR ''-'' # dec_nat (snd r)"]
  by (simp add: parse_selection_def selection_text_def split_once_free split_once_join)

lemma selection_text_plain: "trim (selection_text r) = selection_text r" "CHR '','' \<notin> set (selection_text r)"
proof -
  have "plain_char c" if "c \<in> set (dec_nat n)" for c n using that dec_nat_plain digit_is_plain by blast
  moreover have "plain_char (CHR ''-'')" by (simp add: plain_char_def)
  ultimately have "\<forall>c \<in> set (selection_text r). plain_char c" by (auto simp: selection_text_def)
  then show "trim (selection_text r) = selection_text r" by (simp add: plain_trimmed trim_trimmed)
  show "CHR '','' \<notin> set (selection_text r)" by (simp add: selection_text_def)
qed

text \<open>
  C31. \<open>parse_partitions\<close> accepts exactly the values whose comma-separated, trimmed selections all parse and
  together name no partition twice and at most 100000, and gives them in the order written; and every such list
  can be written: ranges \<open>a\<close> and \<open>a-b\<close> of partition numbers are read back as themselves.
\<close>

theorem partitions_accepted:
  "(parse_partitions vs = Inr ps) =
     (\<exists>rs. map parse_selection (selections vs) = map Inr rs \<and> ps = concat (map (\<lambda>(a, b). [a..b]) rs) \<and>
       distinct ps \<and> length ps \<le> 100000)"
  by (rule parse_partitions_iff)

text \<open>
  Disjoint ascending ranges of partition numbers, at most 100000 partitions in all, each written
  as \<open>a\<close> or \<open>a-b\<close>, parse back to the partitions they stand for.
\<close>

theorem partitions_roundtrip:
  assumes "\<forall>(a, b) \<in> set rs. a \<le> b \<and> int b \<le> i32_max"
    and "distinct (concat (map (\<lambda>(a, b). [int a..int b]) rs))"
    and "length (concat (map (\<lambda>(a, b). [int a..int b]) rs)) \<le> 100000"
  shows "parse_partitions (map selection_text rs) = Inr (concat (map (\<lambda>(a, b). [int a..int b]) rs))"
proof -
  have one: "map trim (split_at (CHR '','') (selection_text r)) = [selection_text r]" for r
    by (simp add: selection_text_plain split_at_free)
  have sels: "selections (map selection_text rs) = map selection_text rs"
    by (simp add: selections_def comp_def one)
  have "map parse_selection (selections (map selection_text rs)) = map Inr (map (\<lambda>(a, b). (int a, int b)) rs)"
    unfolding sels using assms(1) by (auto intro!: parse_selection_text [of "(_, _)", simplified])
  moreover have "expand (map (\<lambda>(a, b). (int a, int b)) rs) = concat (map (\<lambda>(a, b). [int a..int b]) rs)"
    by (simp add: comp_def case_prod_unfold)
  ultimately show ?thesis unfolding parse_partitions_iff using assms(2,3) by metis
qed

theorem partitions_roundtrip_witness:
  "parse_partitions [''7'', ''2-4''] = Inr [7, 2, 3, 4]"
proof -
  have texts: "map selection_text [(7, 7), (2, 4)] = [''7'', ''2-4'']"
    by (simp add: selection_text_def dec_nat.simps digit_char_def)
  have "[2..4] = [2, 3, 4 :: int]" by (simp add: upto.simps)
  with partitions_roundtrip [of "[(7, 7), (2, 4)]"] show ?thesis
    unfolding texts by (simp add: i32_max_def)
qed

section \<open>Offsets\<close>

fun of_option :: "'a option \<Rightarrow> 'a list" where
  "of_option None = []"
| "of_option (Some x) = [x]"

definition is_end :: "string \<Rightarrow> bool" where
  "is_end raw \<longleftrightarrow> prefix ''e@'' raw"

text \<open>The loop collects the start positions and the end boundaries in two places that hold at most one each.\<close>

lemma of_option_add: "of_option y = of_option x @ z # zs \<longleftrightarrow> x = None \<and> of_option y = z # zs"
  by (cases x; cases y) auto

lemma of_option_two [simp]: "of_option x \<noteq> y # z # zs"
  by (cases x) simp_all

lemma of_option_hd:
  "(\<exists>x. of_option x = xs \<and> y = (case x of None \<Rightarrow> d | Some a \<Rightarrow> a)) \<longleftrightarrow> length xs \<le> 1 \<and> y = hd (xs @ [d])"
proof (cases xs)
  case Nil
  then show ?thesis by (auto intro: exI [of _ None] split: option.splits elim: of_option.elims)
next
  case (Cons a zs)
  then show ?thesis by (cases zs) (auto intro: exI [of _ "Some a"] split: option.splits elim: of_option.elims)
qed

lemma add_positions_spec:
  "add_positions raws (s, e) = Inr (s', e') \<longleftrightarrow>
    (\<exists>ss es. map parse_start (filter (\<lambda>r. \<not> is_end r) raws) = map Inr ss \<and>
      map (\<lambda>r. parse_end (drop 2 r)) (filter is_end raws) = map Inr es \<and>
      of_option s' = of_option s @ ss \<and> of_option e' = of_option e @ es)"
proof (induction raws arbitrary: s e)
  case Nil
  then show ?case by (cases s; cases s'; cases e; cases e') auto
next
  case (Cons raw raws)
  show ?case
  proof (cases "is_end raw")
    case True
    then obtain v where raw: "raw = ''e@'' @ v" by (auto simp: is_end_def prefix_def)
    then have add: "add_position raw (s, e) = (if e \<noteq> None then Inl SecondEndBoundary
        else bind_r (parse_end v) (\<lambda>x. Inr (s, Some x)))"
      using strip_prefix_append [of "''e@''" v] by (simp add: add_position_def)
    have v: "drop 2 raw = v" using raw by simp
    show ?thesis
    proof (cases "parse_end v")
      case (Inr x)
      with True v add Cons.IH [of s "Some x"] show ?thesis
        by (auto simp: Cons_eq_map_conv of_option_add)
    qed (use True v add in \<open>auto simp: Cons_eq_map_conv\<close>)
  next
    case False
    then have add: "add_position raw (s, e) = (if s \<noteq> None then Inl SecondStartPosition
        else bind_r (parse_start raw) (\<lambda>x. Inr (Some x, e)))"
      by (simp add: add_position_def is_end_def strip_prefix_def)
    show ?thesis
    proof (cases "parse_start raw")
      case (Inr x)
      with False add Cons.IH [of "Some x" e] show ?thesis
        by (auto simp: Cons_eq_map_conv of_option_add)
    qed (use False add in \<open>auto simp: Cons_eq_map_conv\<close>)
  qed
qed

lemma parse_nonnegative_range: "parse_nonnegative_i64 v label = Inr n \<Longrightarrow> 0 \<le> n \<and> n \<le> i64_max"
  using parse_int_le [of i64_max v n] by (auto simp: parse_nonnegative_i64_def checks_Inr i64_max_def)

text \<open>The bounds of the two 64-bit types in a resolved position.\<close>

fun start_ok :: "start_position \<Rightarrow> bool" where
  "start_ok (Absolute n) \<longleftrightarrow> 0 \<le> n \<and> n \<le> i64_max"
| "start_ok (RelativeToEnd n) \<longleftrightarrow> 0 < n \<and> int n \<le> - i64_min"
| "start_ok (StartTimestamp t) \<longleftrightarrow> 0 \<le> t \<and> t \<le> i64_max"
| "start_ok _ \<longleftrightarrow> True"

fun end_ok :: "end_position \<Rightarrow> bool" where
  "end_ok (ExclusiveOffset n) \<longleftrightarrow> 0 \<le> n"
| "end_ok (EndTimestamp t) \<longleftrightarrow> 0 \<le> t \<and> t \<le> i64_max"
| "end_ok Snapshot \<longleftrightarrow> True"

lemma parse_start_ok:
  assumes "parse_start raw = Inr st"
  shows "start_ok st"
proof (cases "raw = ''beginning'' \<or> raw = ''end'' \<or> strip_prefix ''s@'' raw \<noteq> None")
  case True
  with assms parse_nonnegative_range show ?thesis
    by (fastforce simp: parse_start_def checks_Inr split: if_splits option.splits)
next
  case False
  with assms obtain n where n: "parse_int i64_max raw = Some n" "st = (if n < 0 then RelativeToEnd (nat (- n)) else Absolute n)"
    by (auto simp: parse_start_def checks_Inr)
  from parse_int_le [OF n(1)] have "- i64_max - 1 \<le> n" "n \<le> i64_max" by (simp_all add: i64_max_def)
  with n(2) show ?thesis by (simp add: int_bounds)
qed

lemma parse_end_ok: "parse_end v = Inr e \<Longrightarrow> end_ok e"
  using parse_nonnegative_range by (auto simp: parse_end_def checks_Inr)

lemma resolve_offsets_iff:
  "resolve_offsets offsets fixed = Inr (st, e) \<longleftrightarrow>
    list_all (\<lambda>n. 0 \<le> n) (of_option fixed) \<and>
    (\<exists>ss es. map parse_start (filter (\<lambda>r. \<not> is_end r) offsets) = map Inr ss \<and>
      map (\<lambda>r. parse_end (drop 2 r)) (filter is_end offsets) = map Inr es \<and>
      length ss \<le> 1 \<and> st = hd (ss @ [Beginning]) \<and> of_option e = map ExclusiveOffset (of_option fixed) @ es)"
proof -
  have fixed: "of_option (map_option ExclusiveOffset fixed) = map ExclusiveOffset (of_option fixed)"
    by (cases fixed) simp_all
  have "resolve_offsets offsets fixed = Inr (st, e) \<longleftrightarrow> list_all (\<lambda>n. 0 \<le> n) (of_option fixed) \<and>
      (\<exists>s. add_positions offsets (None, map_option ExclusiveOffset fixed) = Inr (s, e) \<and>
        st = (case s of None \<Rightarrow> Beginning | Some x \<Rightarrow> x))"
    by (cases fixed) (auto simp: resolve_offsets_def bind_r_Inr_iff)
  also have "\<dots> \<longleftrightarrow> list_all (\<lambda>n. 0 \<le> n) (of_option fixed) \<and>
      (\<exists>ss es. map parse_start (filter (\<lambda>r. \<not> is_end r) offsets) = map Inr ss \<and>
      map (\<lambda>r. parse_end (drop 2 r)) (filter is_end offsets) = map Inr es \<and>
      of_option e = map ExclusiveOffset (of_option fixed) @ es \<and>
      (\<exists>s. of_option s = ss \<and> st = (case s of None \<Rightarrow> Beginning | Some x \<Rightarrow> x)))"
    unfolding add_positions_spec fixed by auto
  also have "\<dots> \<longleftrightarrow> list_all (\<lambda>n. 0 \<le> n) (of_option fixed) \<and>
      (\<exists>ss es. map parse_start (filter (\<lambda>r. \<not> is_end r) offsets) = map Inr ss \<and>
      map (\<lambda>r. parse_end (drop 2 r)) (filter is_end offsets) = map Inr es \<and>
      length ss \<le> 1 \<and> st = hd (ss @ [Beginning]) \<and> of_option e = map ExclusiveOffset (of_option fixed) @ es)"
    unfolding of_option_hd by blast
  finally show ?thesis .
qed

text \<open>
  C32. \<open>resolve_offsets\<close> is the declarative reading of the \<open>-o\<close> values, in whatever order they come: it
  succeeds exactly when every \<open>e@\<close> value is an end timestamp, every other value a start position, there is
  at most one start position, at most one end boundary counting \<open>--end-offset\<close>, and \<open>--end-offset\<close> is not negative.
  The start defaults to the beginning.
\<close>

theorem offset_options_resolved:
  "(resolve_offsets offsets fixed = Inr (st, e)) =
    (list_all (\<lambda>n. 0 \<le> n) (of_option fixed) \<and>
     (\<exists>ss es. map parse_start (filter (\<lambda>r. \<not> is_end r) offsets) = map Inr ss \<and>
       map (\<lambda>r. parse_end (drop 2 r)) (filter is_end offsets) = map Inr es \<and>
       length ss \<le> 1 \<and> st = hd (ss @ [Beginning]) \<and> of_option e = map ExclusiveOffset (of_option fixed) @ es))"
  by (rule resolve_offsets_iff)

lemma resolved_offsets_ok:
  assumes "resolve_offsets offsets fixed = Inr (st, e)"
  shows "start_ok st" "e = None \<or> (\<exists>x. e = Some x \<and> end_ok x)"
proof -
  from assms obtain ss es where r: "list_all (\<lambda>n. 0 \<le> n) (of_option fixed)"
    "map parse_start (filter (\<lambda>r. \<not> is_end r) offsets) = map Inr ss"
    "map (\<lambda>r. parse_end (drop 2 r)) (filter is_end offsets) = map Inr es"
    "st = hd (ss @ [Beginning])" "of_option e = map ExclusiveOffset (of_option fixed) @ es"
    unfolding resolve_offsets_iff by blast
  have "start_ok x" if "x \<in> set ss" for x
  proof -
    have "Inr x \<in> set (map parse_start (filter (\<lambda>r. \<not> is_end r) offsets))" using that r(2) by simp
    then show ?thesis using parse_start_ok by (metis (no_types, lifting) ex_map_conv in_set_conv_nth length_map nth_map)
  qed
  then show "start_ok st" using r(4) by (cases ss) simp_all
  have "end_ok x" if "x \<in> set es" for x
  proof -
    have "Inr x \<in> set (map (\<lambda>r. parse_end (drop 2 r)) (filter is_end offsets))" using that r(3) by simp
    then obtain raw where "parse_end (drop 2 raw) = Inr x" by auto
    then show ?thesis by (rule parse_end_ok)
  qed
  moreover have "end_ok x" if "x \<in> set (map ExclusiveOffset (of_option fixed))" for x
    using that r(1) by (auto simp: list_all_iff)
  ultimately have "\<forall>x \<in> set (of_option e). end_ok x" unfolding r(5) by auto
  then show "e = None \<or> (\<exists>x. e = Some x \<and> end_ok x)" by (cases e) simp_all
qed

section \<open>Configuration files\<close>

definition config_line :: "string \<times> string \<Rightarrow> string" where
  "config_line kv = fst kv @ CHR ''='' # snd kv"

text \<open>Entries that a file can hold as they are.\<close>

definition storable :: "string \<times> string \<Rightarrow> bool" where
  "storable kv \<longleftrightarrow> trimmed (fst kv) \<and> trimmed (snd kv) \<and> fst kv \<noteq> [] \<and> \<not> prefix ''#'' (fst kv) \<and>
     CHR ''='' \<notin> set (fst kv) \<and> newline_char \<notin> set (fst kv) \<and> newline_char \<notin> set (snd kv)"

lemma config_line_read:
  assumes "storable kv"
  shows "trimmed (config_line kv)" "newline_char \<notin> set (config_line kv)" "\<not> prefix ''#'' (config_line kv)"
    "parse_property (config_line kv) = Inr kv"
proof -
  have eq: "plain_char (CHR ''='')" by (simp add: plain_char_def)
  show "trimmed (config_line kv)"
    using assms leading_space_plain [OF eq] trailing_space_plain [OF eq]
    by (simp add: trimmed_def storable_def config_line_def)
  show "newline_char \<notin> set (config_line kv)" using assms by (simp add: storable_def config_line_def newline_char_def)
  show "\<not> prefix ''#'' (config_line kv)"
    using assms by (cases "fst kv") (simp_all add: storable_def config_line_def)
  show "parse_property (config_line kv) = Inr kv"
    using assms by (cases kv) (simp add: storable_def config_line_def parse_property_def split_once_join trim_trimmed)
qed

lemma config_loop_lines:
  "\<forall>kv \<in> set kvs. storable kv \<Longrightarrow>
    config_loop i (map config_line kvs) m = Inr (fold (\<lambda>(k, v). bt_insert k v) kvs m)"
proof (induction kvs arbitrary: i m)
  case (Cons kv kvs)
  then have kv: "storable kv" and rest: "\<forall>kv \<in> set kvs. storable kv" by simp_all
  have "config_line kv \<noteq> []" by (simp add: config_line_def)
  moreover have "trim (snd kv) = snd kv" using kv by (simp add: storable_def trim_trimmed)
  ultimately show ?case
    using config_line_read [OF kv] Cons.IH [OF rest] by (simp add: trim_trimmed Let_def case_prod_beta)
qed simp

text \<open>
  C40. A configuration file that lists \<open>key=value\<close> lines is read back as those entries, a later line
  replacing an earlier one with its key, for all keys and values that are free of surrounding white space and of line
  breaks, keys without \<open>=\<close> and not starting a comment.
\<close>

theorem config_roundtrip:
  assumes "\<forall>kv \<in> set kvs. storable kv"
  shows "parse_config (concat (map (\<lambda>kv. config_line kv @ [newline_char]) kvs)) = Inr (bt_of_list kvs)"
proof -
  have "text_lines (concat (map (\<lambda>l. l @ [newline_char]) (map config_line kvs))) = map strip_return (map config_line kvs)"
    by (rule text_lines_join) (use assms config_line_read(2) in auto)
  moreover have "map strip_return (map config_line kvs) = map config_line kvs"
    using assms config_line_read(1) by (simp add: strip_return_trimmed)
  ultimately have "text_lines (concat (map (\<lambda>kv. config_line kv @ [newline_char]) kvs)) = map config_line kvs"
    by (simp add: comp_def)
  then show ?thesis using assms by (simp add: parse_config_def config_loop_lines bt_of_list_def)
qed

theorem config_roundtrip_witness:
  "parse_config (''a=1'' @ [newline_char] @ ''b=x=y'' @ [newline_char] @ ''a='' @ [newline_char])
    = Inr [(''a'', []), (''b'', ''x=y'')]"
proof -
  have "\<forall>c \<in> set ''abxy=1''. plain_char c" by (simp add: plain_char_def)
  then have "\<forall>kv \<in> set [(''a'', ''1''), (''b'', ''x=y''), (''a'', [])]. storable kv"
    by (simp add: storable_def plain_trimmed newline_char_def)
  from config_roundtrip [OF this] show ?thesis
    by (simp add: config_line_def bt_of_list_def bt_empty_def list_less_def)
qed

section \<open>Durations and sizes\<close>

lemma parse_digits_dec_nat_big: "hi < n \<Longrightarrow> parse_digits hi 0 (dec_nat n) = None"
proof (induction n rule: dec_nat.induct)
  case (1 n)
  show ?case
  proof (cases "n < 10")
    case True
    with 1 show ?thesis by (subst dec_nat.simps) simp
  next
    case False
    have n: "parse_digits hi 0 (dec_nat n) = (case parse_digits hi 0 (dec_nat (n div 10)) of
        None \<Rightarrow> None | Some a \<Rightarrow> if a * 10 + n mod 10 \<le> hi then Some (a * 10 + n mod 10) else None)"
      using False by (subst dec_nat.simps) (simp add: parse_digits_append split: option.split)
    show ?thesis
    proof (cases "hi < n div 10")
      case True
      with 1 False show ?thesis by (simp add: n)
    next
      case False
      then have "parse_digits hi 0 (dec_nat (n div 10)) = Some (n div 10)" by (simp add: parse_digits_dec_nat)
      with 1(2) show ?thesis by (simp add: n)
    qed
  qed
qed

lemma parse_uint_dec: "parse_uint hi (dec_nat n) = (if n \<le> hi then Some n else None)"
proof (cases "n \<le> hi")
  case False
  then show ?thesis using dec_nat_hd [of n] parse_digits_dec_nat_big [of hi n]
    by (cases "dec_nat n") (simp_all add: parse_uint_def parse_magnitude_def)
qed (simp add: parse_uint_dec_nat)

lemma strip_suffix_other: "length p = length q \<Longrightarrow> p \<noteq> q \<Longrightarrow> strip_suffix p (s @ q) = None"
  by (auto simp: strip_suffix_def suffix_def)

lemma strip_suffix_dec: "digit_value c = None \<Longrightarrow> strip_suffix (p @ [c]) (dec_nat n) = None"
  using not_in_dec [of c n] by (auto simp: strip_suffix_def suffix_def)

lemma strip_ms_seconds: "strip_suffix ''ms'' (dec_nat n @ ''s'') = None"
proof -
  have "strip_suffix (''m'' @ ''s'') (dec_nat n @ ''s'') = None" if "CHR ''m'' \<notin> set (dec_nat n)"
    using that by (auto simp: strip_suffix_def suffix_def simp del: append.simps)
  then show ?thesis using not_in_dec [of "CHR ''m''" n] by (simp add: digit_value_def)
qed

lemma duration_unit_text:
  "duration_unit (dec_nat n @ ''ms'') = Some (dec_nat n, 1)"
  "duration_unit (dec_nat n @ ''s'') = Some (dec_nat n, 1000)"
  "duration_unit (dec_nat n @ ''m'') = Some (dec_nat n, 60000)"
proof -
  show "duration_unit (dec_nat n @ ''ms'') = Some (dec_nat n, 1)" by (simp add: duration_unit_def)
  show "duration_unit (dec_nat n @ ''s'') = Some (dec_nat n, 1000)"
    by (simp add: duration_unit_def strip_ms_seconds)
  have "strip_suffix (''m'' @ ''s'') (dec_nat n @ ''m'') = None"
    by (auto simp: strip_suffix_def suffix_def simp del: append.simps)
  then show "duration_unit (dec_nat n @ ''m'') = Some (dec_nat n, 60000)"
    by (simp add: duration_unit_def strip_suffix_other)
qed

lemma size_unit_text:
  "size_unit (dec_nat n) = (dec_nat n, 1)"
  "size_unit (dec_nat n @ ''KiB'') = (dec_nat n, 1024)"
  "size_unit (dec_nat n @ ''MiB'') = (dec_nat n, 1024 ^ 2)"
  "size_unit (dec_nat n @ ''GiB'') = (dec_nat n, 1024 ^ 3)"
proof -
  have "digit_value (CHR ''B'') = None" by (simp add: digit_value_def)
  from strip_suffix_dec [OF this, of "''Gi''"] strip_suffix_dec [OF this, of "''Mi''"] strip_suffix_dec [OF this, of "''Ki''"]
  show "size_unit (dec_nat n) = (dec_nat n, 1)" by (simp add: size_unit_def)
qed (simp_all add: size_unit_def strip_suffix_other)

text \<open>
  C39. Durations and sizes are exact or refused, at every magnitude: \<open>n\<close> written with a unit gives \<open>n\<close> times the
  unit when that is representable (and positive, for a duration), and an error otherwise; nothing wraps around or
  saturates.
\<close>

theorem quantities_exact:
  "list_all (\<lambda>(u, k). parse_duration (dec_nat n @ u) =
      (if n > u64_max then Inl DurationNotInteger
       else if 0 < n \<and> n * k \<le> u64_max then Inr (n * k) else Inl DurationNotPositive))
    [(''ms'', 1), (''s'', 1000), (''m'', 60000)] \<and>
   list_all (\<lambda>(u, k). parse_size (dec_nat n @ u) =
      (if n > u128_max then Inl SizeNotInteger
       else if n * k > u128_max then Inl SizeTooLarge
       else if n * k > usize_max then Inl SizeOverPlatform else Inr (n * k)))
    [([], 1), (''KiB'', 1024), (''MiB'', 1024 ^ 2), (''GiB'', 1024 ^ 3)]"
  by (simp add: parse_duration_def parse_size_def duration_unit_text size_unit_text parse_uint_dec not_le Let_def)

lemma parse_duration_positive: "parse_duration v = Inr ms \<Longrightarrow> 0 < ms \<and> ms \<le> u64_max"
  by (auto simp: parse_duration_def checks_Inr Let_def split: if_splits)

lemma parse_size_bound: "parse_size v = Inr n \<Longrightarrow> n \<le> usize_max"
  by (auto simp: parse_size_def checks_Inr split: prod.splits if_splits)

end
