(* ===== verification/Cli_Resolve.thy ===== *)
theory Cli_Resolve
  imports Cli_Parse_Facts Kafka_Input
begin

text \<open>
  \<open>RawCli::resolve\<close> in \<open>src/cli.rs\<close>: the arguments as clap parsed them become a \<open>runtime_config\<close>, or the first
  error in the order of the source's checks. \<open>read\<close> stands for \<open>fs::read_to_string\<close>.
\<close>

section \<open>Arguments\<close>

datatype raw_invalid_json_policy = RawJsonFail | RawJsonDrop | RawJsonTombstone | RawJsonPass

datatype raw_evaluation_policy = RawEvalFail | RawEvalDrop | RawEvalTombstone

record raw_cli =
  rw_brokers :: "string option"
  rw_topic :: string
  rw_partitions :: "string list"
  rw_offsets :: "string list"
  rw_end_offset :: "int option"
  rw_count :: "nat option"
  rw_count_per_partition :: "nat option"
  rw_exit_at_end :: bool
  rw_snapshot :: bool
  rw_drop_if :: "string list"
  rw_tombstone_if :: "string list"
  rw_drop_tombstones :: bool
  rw_project :: "string option"
  rw_vars :: "string option"
  rw_vars_file :: "string option"
  rw_payload_format :: "string option"
  rw_format :: string
  rw_json_envelope :: bool
  rw_envelope_payload :: envelope_payload
  rw_unbuffered :: bool
  rw_stats :: bool
  rw_stats_interval :: "nat option"
  rw_quiet :: bool
  rw_consumers :: nat
  rw_range_sharding :: bool
  rw_unordered :: bool
  rw_max_inflight_records :: nat
  rw_max_inflight_bytes :: nat
  rw_max_inflight_per_partition :: nat
  rw_on_invalid_json :: "raw_invalid_json_policy option"
  rw_on_eval_error :: raw_evaluation_policy
  rw_on_kafka_error :: kafka_error_policy
  rw_config :: "string option"
  rw_properties :: "string list"
  rw_check :: bool

definition max_consumers :: nat where
  "max_consumers = 128"

datatype cli_error =
    EmptyTopic
  | SelectionError selection_error
  | ZeroCount
  | ZeroPartitionCount
  | NoConsumers
  | TooManyConsumers
  | ZeroLimit
  | PartitionLimitOverGlobal
  | OffsetError offset_error
  | SnapshotWithEnd
  | ShardingNeedsUnordered
  | ShardingNeedsEnd
  | ShardingWithPartitionCount
  | ValueEnvelopeWithPass
  | VarsFileUnreadable string string
  | PlanError plan_error
  | PayloadFormatError format_error
  | OutputFormatError format_error
  | ConfigUnreadable string string
  | ConfigError string nat property_error
  | PropertyError property_error
  | ManagedProperty string
  | BothFetchSizes
  | BothBrokerLists
  | NoBrokers
  | EmptyBroker

section \<open>Checks\<close>

definition refuse_if :: "bool \<Rightarrow> cli_error \<Rightarrow> cli_error + unit" where
  "refuse_if b e = (if b then Inl e else Inr ())"

lemma refuse_if_Inr [simp]: "refuse_if b e = Inr u \<longleftrightarrow> \<not> b"
  by (simp add: refuse_if_def)

lemma refuse_if_simps [simp]: "refuse_if False e = Inr ()" "refuse_if True e = Inl e"
  by (simp_all add: refuse_if_def)

definition resolve_partitions :: "string list \<Rightarrow> cli_error + int list option" where
  "resolve_partitions vs =
     (if vs = [] then Inr None
      else bind_r (map_err SelectionError (parse_partitions vs)) (\<lambda>ps. Inr (Some ps)))"

definition check_counts :: "raw_cli \<Rightarrow> cli_error + unit" where
  "check_counts raw =
     bind_r (refuse_if (rw_count raw = Some 0) ZeroCount) (\<lambda>_.
     bind_r (refuse_if (rw_count_per_partition raw = Some 0) ZeroPartitionCount) (\<lambda>_.
     bind_r (refuse_if (rw_consumers raw = 0) NoConsumers) (\<lambda>_.
     bind_r (refuse_if (rw_consumers raw > max_consumers) TooManyConsumers) (\<lambda>_.
     bind_r (refuse_if (rw_max_inflight_records raw = 0 \<or> rw_max_inflight_bytes raw = 0
         \<or> rw_max_inflight_per_partition raw = 0) ZeroLimit) (\<lambda>_.
     refuse_if (rw_max_inflight_per_partition raw > rw_max_inflight_records raw) PartitionLimitOverGlobal)))))"

definition resolve_end :: "raw_cli \<Rightarrow> end_position option \<Rightarrow> cli_error + end_position option" where
  "resolve_end raw explicit_end =
     bind_r (refuse_if (rw_snapshot raw \<and> explicit_end \<noteq> None) SnapshotWithEnd) (\<lambda>_.
     Inr (if rw_snapshot raw then Some Snapshot else explicit_end))"

definition check_sharding :: "raw_cli \<Rightarrow> end_position option \<Rightarrow> cli_error + unit" where
  "check_sharding raw end_at =
     (if rw_range_sharding raw
      then bind_r (refuse_if (\<not> rw_unordered raw) ShardingNeedsUnordered) (\<lambda>_.
           bind_r (refuse_if (end_at = None) ShardingNeedsEnd) (\<lambda>_.
           refuse_if (rw_count_per_partition raw \<noteq> None) ShardingWithPartitionCount))
      else Inr ())"

section \<open>Transformation and output\<close>

fun invalid_json_of :: "raw_invalid_json_policy \<Rightarrow> invalid_json_policy" where
  "invalid_json_of RawJsonFail = JsonFail"
| "invalid_json_of RawJsonDrop = JsonDrop"
| "invalid_json_of RawJsonTombstone = JsonTombstone"
| "invalid_json_of RawJsonPass = JsonPass"

fun evaluation_of :: "raw_evaluation_policy \<Rightarrow> evaluation_policy" where
  "evaluation_of RawEvalFail = EvalFail"
| "evaluation_of RawEvalDrop = EvalDrop"
| "evaluation_of RawEvalTombstone = EvalTombstone"

definition resolve_errors :: "raw_cli \<Rightarrow> error_policies" where
  "resolve_errors raw =
     \<lparr>ep_invalid_json = invalid_json_of (case rw_on_invalid_json raw of None \<Rightarrow> RawJsonFail | Some p \<Rightarrow> p),
      ep_evaluation = evaluation_of (rw_on_eval_error raw)\<rparr>"

definition force_json :: "raw_cli \<Rightarrow> bool" where
  "force_json raw \<longleftrightarrow> rw_on_invalid_json raw \<noteq> None \<or> rw_envelope_payload raw = EnvelopeValue"

definition read_variables :: "(string \<Rightarrow> string + string) \<Rightarrow> raw_cli \<Rightarrow> cli_error + string option" where
  "read_variables read raw = (case rw_vars_file raw of
      None \<Rightarrow> Inr (rw_vars raw)
    | Some path \<Rightarrow> bind_r (map_err (VarsFileUnreadable path) (read path)) (\<lambda>src. Inr (Some src)))"

definition resolve_plan ::
    "('x, 'i, 'e, 'v) jsonata_engine \<Rightarrow> (string \<Rightarrow> string + string) \<Rightarrow> raw_cli \<Rightarrow> cli_error + 'x transform_plan" where
  "resolve_plan jx read raw =
     bind_r (read_variables read raw) (\<lambda>vars.
     map_err PlanError (build_plan jx (rw_drop_if raw) (rw_tombstone_if raw) (rw_drop_tombstones raw)
       (rw_project raw) vars (force_json raw)))"

definition resolve_output :: "raw_cli \<Rightarrow> cli_error + output_plan" where
  "resolve_output raw =
     (if rw_json_envelope raw then Inr (EnvelopePlan (rw_envelope_payload raw))
      else bind_r (case rw_payload_format raw of
          None \<Rightarrow> Inr None
        | Some f \<Rightarrow> bind_r (map_err PayloadFormatError (compile_format f)) (\<lambda>t. Inr (Some t))) (\<lambda>payload_format.
        bind_r (map_err OutputFormatError (compile_format (rw_format raw))) (\<lambda>format.
        Inr (FormatPlan payload_format format))))"

section \<open>Kafka properties\<close>

type_synonym properties = "(string, string) btree"

fun add_properties :: "string list \<Rightarrow> properties \<Rightarrow> cli_error + properties" where
  "add_properties [] m = Inr m"
| "add_properties (p # ps) m =
     bind_r (map_err PropertyError (parse_property p)) (\<lambda>(k, v). add_properties ps (bt_insert k v m))"

definition read_config :: "(string \<Rightarrow> string + string) \<Rightarrow> raw_cli \<Rightarrow> cli_error + properties" where
  "read_config read raw = (case rw_config raw of
      None \<Rightarrow> Inr bt_empty
    | Some path \<Rightarrow>
        bind_r (map_err (ConfigUnreadable path) (read path)) (\<lambda>src.
        map_err (\<lambda>(line, e). ConfigError path line e) (parse_config src)))"

definition managed_keys :: "string list" where
  "managed_keys = [''auto.offset.reset'', ''enable.auto.commit'', ''enable.auto.offset.store'', ''enable.partition.eof'']"

fun refuse_managed :: "string list \<Rightarrow> properties \<Rightarrow> cli_error + unit" where
  "refuse_managed [] m = Inr ()"
| "refuse_managed (k # ks) m = bind_r (refuse_if (bt_get m k \<noteq> None) (ManagedProperty k)) (\<lambda>_. refuse_managed ks m)"

text \<open>
  The alias \<open>metadata.broker.list\<close> is always removed; without \<open>-b\<close> it becomes \<open>bootstrap.servers\<close>, which must
  not be there already.
\<close>

definition resolve_alias :: "string option \<Rightarrow> properties \<Rightarrow> cli_error + properties" where
  "resolve_alias brokers m = (case bt_get m ''metadata.broker.list'' of
      None \<Rightarrow> Inr (bt_remove ''metadata.broker.list'' m)
    | Some b \<Rightarrow>
        (let m' = bt_remove ''metadata.broker.list'' m in
         if brokers = None
         then bind_r (refuse_if (bt_get m' ''bootstrap.servers'' \<noteq> None) BothBrokerLists) (\<lambda>_.
              Inr (bt_insert ''bootstrap.servers'' b m'))
         else Inr m'))"

definition resolve_brokers :: "string option \<Rightarrow> properties \<Rightarrow> cli_error + properties" where
  "resolve_brokers brokers m =
     bind_r (resolve_alias brokers m) (\<lambda>m.
     let m = (case brokers of None \<Rightarrow> m | Some b \<Rightarrow> bt_insert ''bootstrap.servers'' b m) in
     bind_r (ok_or (bt_get m ''bootstrap.servers'') NoBrokers) (\<lambda>b.
     bind_r (refuse_if (\<exists>x \<in> set (split_at (CHR '','') b). trim x = []) EmptyBroker) (\<lambda>_.
     Inr m)))"

definition resolve_properties :: "(string \<Rightarrow> string + string) \<Rightarrow> raw_cli \<Rightarrow> cli_error + properties" where
  "resolve_properties read raw =
     bind_r (read_config read raw) (\<lambda>m.
     bind_r (add_properties (rw_properties raw) m) (\<lambda>m.
     bind_r (refuse_managed managed_keys m) (\<lambda>_.
     bind_r (refuse_if (bt_get m ''fetch.message.max.bytes'' \<noteq> None \<and> bt_get m ''max.partition.fetch.bytes'' \<noteq> None)
       BothFetchSizes) (\<lambda>_.
     resolve_brokers (rw_brokers raw) m))))"

section \<open>The configuration\<close>

definition resolve ::
    "('x, 'i, 'e, 'v) jsonata_engine \<Rightarrow> (string \<Rightarrow> string + string) \<Rightarrow> raw_cli \<Rightarrow> cli_error + 'x runtime_config" where
  "resolve jx read raw =
     bind_r (refuse_if (rw_topic raw = []) EmptyTopic) (\<lambda>_.
     bind_r (resolve_partitions (rw_partitions raw)) (\<lambda>partitions.
     bind_r (check_counts raw) (\<lambda>_.
     bind_r (map_err OffsetError (resolve_offsets (rw_offsets raw) (rw_end_offset raw))) (\<lambda>(start_at, explicit_end).
     bind_r (resolve_end raw explicit_end) (\<lambda>end_at.
     bind_r (check_sharding raw end_at) (\<lambda>_.
     bind_r (refuse_if (rw_envelope_payload raw = EnvelopeValue \<and> rw_on_invalid_json raw = Some RawJsonPass)
       ValueEnvelopeWithPass) (\<lambda>_.
     bind_r (resolve_plan jx read raw) (\<lambda>plan.
     bind_r (resolve_output raw) (\<lambda>out.
     bind_r (resolve_properties read raw) (\<lambda>properties.
     Inr \<lparr>cf_topic = rw_topic raw, cf_partitions = partitions, cf_start = start_at, cf_end = end_at,
          cf_count_limit = rw_count raw, cf_count_per_partition = rw_count_per_partition raw,
          cf_exit_at_end = (rw_exit_at_end raw \<or> end_at \<noteq> None), cf_consumers = rw_consumers raw,
          cf_range_sharding = rw_range_sharding raw, cf_unordered = rw_unordered raw,
          cf_limits = \<lparr>max_inflight_records = rw_max_inflight_records raw,
            max_inflight_bytes = rw_max_inflight_bytes raw,
            max_inflight_per_partition = rw_max_inflight_per_partition raw\<rparr>,
          cf_transform = plan, cf_output = out, cf_errors = resolve_errors raw,
          cf_kafka_error = rw_on_kafka_error raw, cf_kafka_properties = properties,
          cf_unbuffered = rw_unbuffered raw, cf_stats = (rw_stats raw \<or> rw_stats_interval raw \<noteq> None),
          cf_stats_interval = rw_stats_interval raw, cf_quiet = rw_quiet raw, cf_check = rw_check raw\<rparr>))))))))))"

end
