(* ===== verification/Cli_Resolve_Facts.thy ===== *)
theory Cli_Resolve_Facts
  imports Cli_Resolve Transform_Facts
begin

text \<open>
  What a resolved configuration guarantees to the rest of the program: the conditions the other components
  rely on, and the properties the Kafka client gets.
\<close>

section \<open>Validity\<close>

definition partitions_valid :: "int list \<Rightarrow> bool" where
  "partitions_valid ps \<longleftrightarrow> ps \<noteq> [] \<and> distinct ps \<and> length ps \<le> 100000 \<and> (\<forall>p \<in> set ps. 0 \<le> p \<and> p \<le> i32_max)"

definition limits_valid :: "runtime_limits \<Rightarrow> bool" where
  "limits_valid l \<longleftrightarrow> 0 < max_inflight_records l \<and> 0 < max_inflight_bytes l \<and>
     0 < max_inflight_per_partition l \<and> max_inflight_per_partition l \<le> max_inflight_records l"

definition sharding_valid :: "'x runtime_config \<Rightarrow> bool" where
  "sharding_valid cf \<longleftrightarrow> \<not> cf_range_sharding cf \<or>
     (cf_unordered cf \<and> cf_end cf \<noteq> None \<and> cf_count_per_partition cf = None)"

definition config_valid :: "'x runtime_config \<Rightarrow> bool" where
  "config_valid cf \<longleftrightarrow> cf_topic cf \<noteq> [] \<and> list_all partitions_valid (of_option (cf_partitions cf)) \<and>
     start_ok (cf_start cf) \<and> list_all end_ok (of_option (cf_end cf)) \<and>
     (cf_end cf \<noteq> None \<longrightarrow> cf_exit_at_end cf) \<and>
     cf_count_limit cf \<noteq> Some 0 \<and> cf_count_per_partition cf \<noteq> Some 0 \<and>
     1 \<le> cf_consumers cf \<and> cf_consumers cf \<le> 128 \<and> limits_valid (cf_limits cf) \<and>
     sharding_valid cf \<and> config_coherent cf \<and> (cf_stats_interval cf \<noteq> None \<longrightarrow> cf_stats cf)"

lemma resolve_partitions_valid: "resolve_partitions vs = Inr ps \<Longrightarrow> list_all partitions_valid (of_option ps)"
  using parse_partitions_valid
  by (fastforce simp: resolve_partitions_def checks_Inr partitions_valid_def split: if_splits)

lemma resolve_plan_parses:
  "resolve_plan jx read raw = Inr plan \<Longrightarrow> tp_parses_json plan = (force_json raw \<or> 0 < length (input_plan plan))"
  by (auto simp: resolve_plan_def checks_Inr build_plan_iff)

lemma resolve_output_embeds:
  "resolve_output raw = Inr out \<Longrightarrow> embeds_json out \<Longrightarrow> rw_envelope_payload raw = EnvelopeValue"
  by (auto simp: resolve_output_def checks_Inr embeds_json_def split: if_splits)

lemma resolve_errors_pass:
  "ep_invalid_json (resolve_errors raw) = JsonPass \<Longrightarrow> rw_on_invalid_json raw = Some RawJsonPass"
  by (auto simp: resolve_errors_def split: option.splits elim!: invalid_json_of.elims)

lemma resolve_config_valid:
  assumes "resolve jx read raw = Inr cf"
  shows "config_valid cf"
proof -
  from assms obtain st explicit_end where
    parts: "resolve_partitions (rw_partitions raw) = Inr (cf_partitions cf)" and counts: "check_counts raw = Inr ()"
    and offs: "resolve_offsets (rw_offsets raw) (rw_end_offset raw) = Inr (cf_start cf, explicit_end)"
    and fin: "resolve_end raw explicit_end = Inr (cf_end cf)" and sh: "check_sharding raw (cf_end cf) = Inr ()"
    and pass: "\<not> (rw_envelope_payload raw = EnvelopeValue \<and> rw_on_invalid_json raw = Some RawJsonPass)"
    and plan: "resolve_plan jx read raw = Inr (cf_transform cf)" and out: "resolve_output raw = Inr (cf_output cf)"
    and cf: "cf_topic cf = rw_topic raw" "rw_topic raw \<noteq> []" "cf_count_limit cf = rw_count raw"
      "cf_count_per_partition cf = rw_count_per_partition raw" "cf_exit_at_end cf = (rw_exit_at_end raw \<or> cf_end cf \<noteq> None)"
      "cf_consumers cf = rw_consumers raw" "cf_range_sharding cf = rw_range_sharding raw" "cf_unordered cf = rw_unordered raw"
      "cf_limits cf = \<lparr>max_inflight_records = rw_max_inflight_records raw, max_inflight_bytes = rw_max_inflight_bytes raw,
         max_inflight_per_partition = rw_max_inflight_per_partition raw\<rparr>"
      "cf_errors cf = resolve_errors raw" "cf_stats cf = (rw_stats raw \<or> cf_stats_interval cf \<noteq> None)"
    by (auto simp: resolve_def checks_Inr case_prod_beta)
  note ends = resolved_offsets_ok [OF offs]
  have "list_all end_ok (of_option (cf_end cf))"
    using fin ends(2) by (cases "cf_end cf") (auto simp: resolve_end_def checks_Inr split: if_splits)
  moreover have "sharding_valid cf"
    using sh cf by (auto simp: check_sharding_def checks_Inr sharding_valid_def split: if_splits)
  moreover have "config_coherent cf"
    using resolve_plan_parses [OF plan] resolve_output_embeds [OF out] resolve_errors_pass [of raw] pass cf
    by (auto simp: config_coherent_def force_json_def)
  moreover have "limits_valid (cf_limits cf)"
    using counts cf by (auto simp: check_counts_def checks_Inr limits_valid_def)
  ultimately show ?thesis
    using resolve_partitions_valid [OF parts] ends(1) cf counts
    by (auto simp: config_valid_def check_counts_def checks_Inr max_consumers_def)
qed

definition sample_raw :: raw_cli where
  "sample_raw =
     \<lparr>rw_brokers = Some ''a:9092,b'', rw_topic = ''t'', rw_partitions = [''1,0''], rw_offsets = [''-5''], rw_end_offset = None,
      rw_count = Some 9, rw_count_per_partition = None, rw_exit_at_end = False, rw_snapshot = True, rw_drop_if = [''false''],
      rw_tombstone_if = [], rw_drop_tombstones = False, rw_project = None, rw_vars = None, rw_vars_file = None,
      rw_payload_format = None, rw_format = [], rw_json_envelope = True, rw_envelope_payload = EnvelopeValue,
      rw_unbuffered = False, rw_stats = False, rw_stats_interval = Some 500, rw_quiet = False, rw_consumers = 4,
      rw_range_sharding = True, rw_unordered = True, rw_max_inflight_records = 8, rw_max_inflight_bytes = 64,
      rw_max_inflight_per_partition = 8, rw_on_invalid_json = None, rw_on_eval_error = RawEvalDrop,
      rw_on_kafka_error = KafkaFail, rw_config = None, rw_properties = [''client.id=x'', ''metadata.broker.list=c''],
      rw_check = False\<rparr>"

lemma trim_plain: "list_all plain_char s \<Longrightarrow> trim s = s"
  by (simp add: plain_trimmed trim_trimmed list_all_iff)

lemma sample_partitions: "parse_partitions [''1,0''] = Inr [1, 0]"
proof -
  have "trim ''1'' = ''1''" "trim ''0'' = ''0''" by (simp_all add: trim_plain plain_char_def)
  then show ?thesis
    by (simp add: parse_partitions_def add_selection_def parse_selection_def parse_partition_def parse_int_def
        parse_magnitude_def digit_value_def Let_def checked_add_def max_assigned_partitions_def int_bounds)
qed

lemma sample_offsets: "resolve_offsets [''-5''] None = Inr (RelativeToEnd 5, None)"
  by (simp add: resolve_offsets_def add_position_def strip_prefix_def parse_start_def parse_int_def parse_magnitude_def
      digit_value_def int_bounds)

lemma sample_properties:
  "resolve_properties read sample_raw = Inr [(''bootstrap.servers'', ''a:9092,b''), (''client.id'', ''x'')]"
proof -
  have "trim ''a:9092'' = ''a:9092''" "trim ''b'' = ''b''" "trim ''client.id'' = ''client.id''"
    "trim ''metadata.broker.list'' = ''metadata.broker.list''"
    by (simp_all add: trim_plain plain_char_def)
  then show ?thesis
    by (simp add: sample_raw_def resolve_properties_def read_config_def parse_property_def managed_keys_def bt_get_def
        bt_remove_def bt_empty_def resolve_brokers_def resolve_alias_def Let_def list_less_def)
qed

lemma sample_resolved: "\<exists>cf. resolve sample_engine read sample_raw = Inr cf \<and> cf_partitions cf = Some [1, 0] \<and>
    cf_start cf = RelativeToEnd 5 \<and> cf_end cf = Some Snapshot \<and> cf_consumers cf = 4 \<and> cf_range_sharding cf \<and>
    max_inflight_per_partition (cf_limits cf) = 8"
  unfolding resolve_def sample_properties
  by (simp add: sample_raw_def resolve_partitions_def sample_partitions check_counts_def max_consumers_def sample_offsets
      resolve_end_def check_sharding_def resolve_plan_def read_variables_def build_plan_def parse_variables_def
      compile_expression_def resolve_output_def sample_engine_def)

text \<open>
  C17. Every configuration that \<open>resolve\<close> returns is valid: a topic; distinct partitions within \<open>i32\<close>, at most
  100000; start and end inside \<open>i64\<close>; positive counts and limits, the limit per partition within the global one; 1 to 128
  consumers; range sharding only unordered, with an end and without a count per partition; an exit at the end whenever
  there is one; and an output plan that agrees with the transformation and the policies.
\<close>

theorem resolve_valid:
  assumes "resolve jx read raw = Inr cf"
  shows "config_valid cf"
  using assms by (rule resolve_config_valid)

theorem resolve_valid_witness:
  "\<exists>cf. resolve sample_engine (\<lambda>path. Inl ''no file'') sample_raw = Inr cf \<and> config_valid cf \<and>
     cf_partitions cf = Some [1, 0] \<and> cf_start cf = RelativeToEnd 5"
  using sample_resolved [of "\<lambda>path. Inl ''no file''"] resolve_valid [of sample_engine "\<lambda>path. Inl ''no file''" sample_raw]
  by blast

section \<open>Kafka properties\<close>

lemma refuse_managed_Inr: "refuse_managed ks m = Inr u \<longleftrightarrow> (\<forall>k \<in> set ks. bt_get m k = None)"
  by (induction ks) (auto simp: bind_r_Inr_iff)

lemma config_loop_ok: "config_loop i ls m = Inr m' \<Longrightarrow> bt_ok m \<Longrightarrow> bt_ok m'"
proof (induction ls arbitrary: i m)
  case (Cons l ls)
  then show ?case by (auto simp: Let_def bind_r_Inr_iff bt_ok_insert split: if_splits)
qed simp

lemma add_properties_ok: "add_properties ps m = Inr m' \<Longrightarrow> bt_ok m \<Longrightarrow> bt_ok m'"
proof (induction ps arbitrary: m)
  case (Cons p ps)
  then show ?case by (auto simp: bind_r_Inr_iff bt_ok_insert)
qed simp

lemma read_config_ok: "read_config read raw = Inr m \<Longrightarrow> bt_ok m"
  by (auto simp: read_config_def parse_config_def bind_r_Inr_iff bt.ok_empty dest!: config_loop_ok split: option.splits)

definition broker_list :: "string \<Rightarrow> bool" where
  "broker_list b \<longleftrightarrow> (\<forall>x \<in> set (split_at (CHR '','') b). trim x \<noteq> [])"

lemma resolve_brokers_spec:
  assumes "resolve_brokers brokers m = Inr m'" "bt_ok m"
  shows "bt_ok m'" "bt_get m' ''metadata.broker.list'' = None"
    "\<exists>b. bt_get m' ''bootstrap.servers'' = Some b \<and> broker_list b \<and> (brokers = None \<or> brokers = Some b)"
    "k \<notin> {''metadata.broker.list'', ''bootstrap.servers''} \<Longrightarrow> bt_get m' k = bt_get m k"
proof -
  from assms(1) obtain m1 b where al: "resolve_alias brokers m = Inr m1"
    and m': "m' = (case brokers of None \<Rightarrow> m1 | Some b \<Rightarrow> bt_insert ''bootstrap.servers'' b m1)"
    and b: "bt_get m' ''bootstrap.servers'' = Some b" "broker_list b"
    by (auto simp: resolve_brokers_def checks_Inr Let_def broker_list_def)
  have m1: "bt_ok m1 \<and> bt_get m1 ''metadata.broker.list'' = None \<and>
      (k \<notin> {''metadata.broker.list'', ''bootstrap.servers''} \<longrightarrow> bt_get m1 k = bt_get m k)" for k
    using al assms(2)
    by (auto simp: resolve_alias_def Let_def checks_Inr bt_ok_insert bt_ok_remove bt_get_insert bt_get_remove
        split: option.splits if_splits)
  show "bt_ok m'" using m1 m' by (auto simp: bt_ok_insert split: option.split)
  show "bt_get m' ''metadata.broker.list'' = None" using m1 m' by (auto simp: bt_get_insert split: option.split)
  show "k \<notin> {''metadata.broker.list'', ''bootstrap.servers''} \<Longrightarrow> bt_get m' k = bt_get m k"
    using m1 m' by (auto simp: bt_get_insert split: option.split)
  have "brokers = None \<or> brokers = Some b" using b(1) m' by (cases brokers) simp_all
  with b show "\<exists>b. bt_get m' ''bootstrap.servers'' = Some b \<and> broker_list b \<and> (brokers = None \<or> brokers = Some b)"
    by blast
qed

lemma resolve_properties_spec:
  assumes "resolve_properties read raw = Inr m"
  shows "bt_ok m" "\<forall>k \<in> set managed_keys. bt_get m k = None" "bt_get m ''metadata.broker.list'' = None"
    "\<exists>b. bt_get m ''bootstrap.servers'' = Some b \<and> broker_list b \<and> (rw_brokers raw = None \<or> rw_brokers raw = Some b)"
proof -
  from assms obtain m0 m1 where "read_config read raw = Inr m0" "add_properties (rw_properties raw) m0 = Inr m1"
    and managed: "\<forall>k \<in> set managed_keys. bt_get m1 k = None" and br: "resolve_brokers (rw_brokers raw) m1 = Inr m"
    by (auto simp: resolve_properties_def bind_r_Inr_iff refuse_managed_Inr)
  then have "bt_ok m1" using read_config_ok add_properties_ok by blast
  note spec = resolve_brokers_spec [OF br this]
  show "bt_ok m" "bt_get m ''metadata.broker.list'' = None"
    "\<exists>b. bt_get m ''bootstrap.servers'' = Some b \<and> broker_list b \<and> (rw_brokers raw = None \<or> rw_brokers raw = Some b)"
    by (rule spec)+
  show "\<forall>k \<in> set managed_keys. bt_get m k = None"
    using managed spec(4) by (simp add: managed_keys_def)
qed

lemma fold_set_get:
  "distinct (map fst ps) \<Longrightarrow> fold (\<lambda>(k, v) m. m(k \<mapsto> v)) ps m k = (case map_of ps k of None \<Rightarrow> m k | Some v \<Rightarrow> Some v)"
proof (induction ps arbitrary: m)
  case (Cons p ps)
  then show ?case by (cases p) (auto simp: map_of_eq_None_iff [THEN iffD2] split: option.splits)
qed simp

lemma consumer_config_get:
  assumes "bt_ok m" "\<forall>k \<in> set managed_keys. bt_get m k = None"
  shows "bt_get m k = Some v \<Longrightarrow> consumer_config m k = Some v"
    and "consumer_config m ''auto.offset.reset'' = Some ''error''"
    and "consumer_config m ''enable.auto.commit'' = Some ''false''"
    and "consumer_config m ''enable.auto.offset.store'' = Some ''false''"
    and "consumer_config m ''enable.partition.eof'' = Some ''true''"
proof -
  have d: "distinct (map fst m)" using bt_ok_distinct [OF assms(1)] by (simp add: bt_keys_def)
  show "consumer_config m k = Some v" if get: "bt_get m k = Some v"
  proof -
    have ne: "k \<notin> set managed_keys" using assms(2) get by auto
    have "fold (\<lambda>(k, v) m. m(k \<mapsto> v)) m [''fetch.queue.backoff.ms'' \<mapsto> ''100''] k = Some v"
      using get by (simp add: fold_set_get [OF d] bt_get_def)
    then show ?thesis
      using ne get by (cases "k = ''group.id''") (simp_all add: consumer_config_def Let_def managed_keys_def)
  qed
qed (simp_all add: consumer_config_def Let_def)

text \<open>
  What the user entered, as it stands in the config file and on the command line: the pairs of the file's lines
  other than blank ones and comments, then those of the \<open>-X\<close> options. The last entry of a key counts.
\<close>

definition entry_name :: "string \<Rightarrow> string" where
  "entry_name s = trim (takeWhile (\<lambda>c. c \<noteq> CHR ''='') s)"

definition entry_value :: "string \<Rightarrow> string" where
  "entry_value s = tl (dropWhile (\<lambda>c. c \<noteq> CHR ''='') s)"

definition file_entries :: "string list \<Rightarrow> (string \<times> string) list" where
  "file_entries ls = map (\<lambda>l. (entry_name l, trim (entry_value l)))
     (filter (\<lambda>l. l \<noteq> [] \<and> hd l \<noteq> CHR ''#'') (map trim ls))"

definition option_entries :: "string list \<Rightarrow> (string \<times> string) list" where
  "option_entries ps = map (\<lambda>s. (entry_name s, entry_value s)) ps"

definition entered :: "(string \<Rightarrow> string + string) \<Rightarrow> raw_cli \<Rightarrow> string \<Rightarrow> string option" where
  "entered read raw = map_of (rev ((case rw_config raw of
       None \<Rightarrow> []
     | Some path \<Rightarrow> (case read path of Inl _ \<Rightarrow> [] | Inr src \<Rightarrow> file_entries (text_lines src)))
     @ option_entries (rw_properties raw)))"

text \<open>
  The value the client has to get for a key: fixed for the four managed keys; for the broker list \<open>-b\<close>'s, else the
  one entered under either name; for any other key the entry, or jkq's default for two of them.
\<close>

definition client_value :: "(string \<Rightarrow> string + string) \<Rightarrow> raw_cli \<Rightarrow> string \<Rightarrow> string option" where
  "client_value read raw k =
     (if k = ''auto.offset.reset'' then Some ''error''
      else if k = ''enable.auto.commit'' \<or> k = ''enable.auto.offset.store'' then Some ''false''
      else if k = ''enable.partition.eof'' then Some ''true''
      else if k = ''metadata.broker.list'' then None
      else if k = ''bootstrap.servers'' then (case rw_brokers raw of
          Some b \<Rightarrow> Some b
        | None \<Rightarrow> (case entered read raw ''metadata.broker.list'' of
            Some b \<Rightarrow> Some b | None \<Rightarrow> entered read raw ''bootstrap.servers''))
      else (case entered read raw k of
          Some v \<Rightarrow> Some v
        | None \<Rightarrow> if k = ''group.id'' then Some ''jkq''
            else if k = ''fetch.queue.backoff.ms'' then Some ''100'' else None))"

text \<open>What a resolved run must not have entered: a managed key, two names for one thing.\<close>

definition entries_allowed :: "(string \<Rightarrow> string + string) \<Rightarrow> raw_cli \<Rightarrow> bool" where
  "entries_allowed read raw \<longleftrightarrow>
     list_all (\<lambda>k. entered read raw k = None)
       [''auto.offset.reset'', ''enable.auto.commit'', ''enable.auto.offset.store'', ''enable.partition.eof''] \<and>
     (entered read raw ''fetch.message.max.bytes'' = None \<or> entered read raw ''max.partition.fetch.bytes'' = None) \<and>
     (rw_brokers raw = None \<longrightarrow>
       entered read raw ''metadata.broker.list'' = None \<or> entered read raw ''bootstrap.servers'' = None)"

lemma split_once_parts: "split_once c v = Some (a, b) \<Longrightarrow> a = takeWhile (\<lambda>x. x \<noteq> c) v \<and> b = tl (dropWhile (\<lambda>x. x \<noteq> c) v)"
  by (induction v arbitrary: a b) (auto split: if_splits option.splits)

lemma parse_property_parts: "parse_property v = Inr (k, x) \<Longrightarrow> k = entry_name v \<and> x = entry_value v"
  by (auto simp: parse_property_def checks_Inr entry_name_def entry_value_def dest!: split_once_parts split: if_splits)

lemma config_loop_entries:
  "config_loop i ls m = Inr m' \<Longrightarrow> bt_get m' k = (case map_of (rev (file_entries ls)) k of None \<Rightarrow> bt_get m k | Some v \<Rightarrow> Some v)"
proof (induction ls arbitrary: i m)
  case Nil
  then show ?case by (simp add: file_entries_def)
next
  case (Cons l ls)
  show ?case
  proof (cases "trim l = [] \<or> prefix ''#'' (trim l)")
    case True
    then have "file_entries (l # ls) = file_entries ls" by (cases "trim l") (auto simp: file_entries_def)
    with True Cons show ?thesis by (simp add: Let_def)
  next
    case False
    then have e: "file_entries (l # ls) = (entry_name (trim l), trim (entry_value (trim l))) # file_entries ls"
      by (cases "trim l") (auto simp: file_entries_def)
    from False Cons.prems obtain key x where "parse_property (trim l) = Inr (key, x)"
      and rest: "config_loop (i + 1) ls (bt_insert key (trim x) m) = Inr m'"
      by (auto simp: Let_def bind_r_Inr_iff case_prod_beta)
    with parse_property_parts have "key = entry_name (trim l)" "x = entry_value (trim l)" by blast+
    with Cons.IH [OF rest] show ?thesis
      by (auto simp: e map_add_def bt_get_insert split: option.split)
  qed
qed

lemma add_properties_entries:
  "add_properties ps m = Inr m' \<Longrightarrow> bt_get m' k = (case map_of (rev (option_entries ps)) k of None \<Rightarrow> bt_get m k | Some v \<Rightarrow> Some v)"
proof (induction ps arbitrary: m)
  case Nil
  then show ?case by (simp add: option_entries_def)
next
  case (Cons p ps)
  then obtain key x where "parse_property p = Inr (key, x)" and rest: "add_properties ps (bt_insert key x m) = Inr m'"
    by (auto simp: bind_r_Inr_iff case_prod_beta)
  with parse_property_parts have "key = entry_name p" "x = entry_value p" by blast+
  with Cons.IH [OF rest] show ?case
    by (auto simp: option_entries_def map_add_def bt_get_insert split: option.split)
qed

lemma read_config_entered:
  assumes "read_config read raw = Inr m0" "add_properties (rw_properties raw) m0 = Inr m1"
  shows "bt_get m1 = entered read raw"
proof
  fix k
  have "bt_get m0 k = map_of (rev (case rw_config raw of None \<Rightarrow> [] | Some path \<Rightarrow>
      (case read path of Inl _ \<Rightarrow> [] | Inr src \<Rightarrow> file_entries (text_lines src)))) k"
    using assms(1)
    by (auto simp: read_config_def parse_config_def checks_Inr bt_empty_def bt_get_def [of "[]"]
        dest!: config_loop_entries [where k = k] split: option.splits)
  with add_properties_entries [OF assms(2), of k] show "bt_get m1 k = entered read raw k"
    by (cases "map_of (rev (option_entries (rw_properties raw))) k") (simp_all add: entered_def map_add_def)
qed

lemma resolve_brokers_get:
  assumes "resolve_brokers brokers m = Inr m'"
  shows "bt_get m' k = (if k = ''metadata.broker.list'' then None
      else if k = ''bootstrap.servers'' then (case brokers of
          Some b \<Rightarrow> Some b
        | None \<Rightarrow> (case bt_get m ''metadata.broker.list'' of Some b \<Rightarrow> Some b | None \<Rightarrow> bt_get m ''bootstrap.servers''))
      else bt_get m k)"
    and "brokers = None \<Longrightarrow> bt_get m ''metadata.broker.list'' = None \<or> bt_get m ''bootstrap.servers'' = None"
  using assms
  by (auto simp: resolve_brokers_def resolve_alias_def checks_Inr Let_def bt_get_insert bt_get_remove
      split: option.splits if_splits)

lemma consumer_config_value:
  assumes "bt_ok m" "\<forall>k \<in> set managed_keys. bt_get m k = None"
  shows "consumer_config m k =
     (if k = ''auto.offset.reset'' then Some ''error''
      else if k = ''enable.auto.commit'' \<or> k = ''enable.auto.offset.store'' then Some ''false''
      else if k = ''enable.partition.eof'' then Some ''true''
      else (case bt_get m k of
          Some v \<Rightarrow> Some v
        | None \<Rightarrow> if k = ''group.id'' then Some ''jkq''
            else if k = ''fetch.queue.backoff.ms'' then Some ''100'' else None))"
proof -
  have "distinct (map fst m)" using bt_ok_distinct [OF assms(1)] by (simp add: bt_keys_def)
  then show ?thesis
    by (auto simp: consumer_config_def Let_def fold_set_get bt_get_def split: option.split)
qed

text \<open>
  C30. From the command line to the client, key by key: in a resolved run the client gets exactly the value that the
  entries ask for, the last \<open>-X\<close> option before the last line of the config file. It never commits offsets, sees
  partition ends, and fails on a lost offset, and no entry says otherwise; the alias of the broker list is resolved, not
  both names were entered, and the list has no empty entry and is \<open>-b\<close>'s when that is given.
\<close>

theorem managed_properties:
  assumes "resolve jx read raw = Inr cf"
  shows "consumer_config (cf_kafka_properties cf) = client_value read raw \<and> entries_allowed read raw \<and>
    (\<exists>b. client_value read raw ''bootstrap.servers'' = Some b \<and> (\<forall>x \<in> set (split_at (CHR '','') b). trim x \<noteq> []))"
proof -
  from assms have props: "resolve_properties read raw = Inr (cf_kafka_properties cf)"
    by (auto simp: resolve_def bind_r_Inr_iff case_prod_beta)
  then obtain m0 m1 where m: "read_config read raw = Inr m0" "add_properties (rw_properties raw) m0 = Inr m1"
    and managed: "\<forall>k \<in> set managed_keys. bt_get m1 k = None"
    and sizes: "bt_get m1 ''fetch.message.max.bytes'' = None \<or> bt_get m1 ''max.partition.fetch.bytes'' = None"
    and br: "resolve_brokers (rw_brokers raw) m1 = Inr (cf_kafka_properties cf)"
    by (auto simp: resolve_properties_def bind_r_Inr_iff refuse_managed_Inr)
  note ent = read_config_entered [OF m]
  note spec = resolve_properties_spec [OF props]
  have "consumer_config (cf_kafka_properties cf) k = client_value read raw k" for k
    unfolding consumer_config_value [OF spec(1,2)] resolve_brokers_get(1) [OF br] ent client_value_def
    by (simp split: option.split)
  then have whole: "consumer_config (cf_kafka_properties cf) = client_value read raw" ..
  moreover have "entries_allowed read raw"
    using managed sizes resolve_brokers_get(2) [OF br] by (simp add: entries_allowed_def ent managed_keys_def)
  moreover obtain b where "bt_get (cf_kafka_properties cf) ''bootstrap.servers'' = Some b" "broker_list b" using spec(4) by blast
  then have "client_value read raw ''bootstrap.servers'' = Some b \<and> (\<forall>x \<in> set (split_at (CHR '','') b). trim x \<noteq> [])"
    unfolding whole [symmetric] broker_list_def using consumer_config_get(1) [OF spec(1,2)] by blast
  ultimately show ?thesis by blast
qed

text \<open>The config file sets two keys; the command line overrides the first and gives the broker list by its alias.\<close>

definition configured_raw :: raw_cli where
  "configured_raw = sample_raw\<lparr>rw_brokers := None, rw_config := Some ''f''\<rparr>"

definition configured_file :: "string \<Rightarrow> string + string" where
  "configured_file path = Inr (''client.id=y'' @ [newline_char] @ ''linger=5'' @ [newline_char])"

lemma configured_lines: "text_lines (''client.id=y'' @ [newline_char] @ ''linger=5'' @ [newline_char]) = [''client.id=y'', ''linger=5'']"
proof -
  have "text_lines (concat (map (\<lambda>l. l @ [newline_char]) [''client.id=y'', ''linger=5''])) = map strip_return [''client.id=y'', ''linger=5'']"
    by (rule text_lines_join) (simp add: newline_char_def)
  moreover have "strip_return ''client.id=y'' = ''client.id=y''" "strip_return ''linger=5'' = ''linger=5''"
    by (simp_all add: strip_return_trimmed plain_trimmed plain_char_def)
  ultimately show ?thesis by simp
qed

lemma configured_trims: "trim ''client.id=y'' = ''client.id=y''" "trim ''linger=5'' = ''linger=5''" "trim ''client.id'' = ''client.id''"
  "trim ''linger'' = ''linger''" "trim ''metadata.broker.list'' = ''metadata.broker.list''" "trim ''y'' = ''y''" "trim ''5'' = ''5''"
  "trim ''c'' = ''c''"
  by (simp_all add: trim_plain plain_char_def)

lemma configured_properties:
  "resolve_properties configured_file configured_raw
    = Inr [(''bootstrap.servers'', ''c''), (''client.id'', ''x''), (''linger'', ''5'')]"
  by (simp add: configured_raw_def configured_file_def sample_raw_def resolve_properties_def read_config_def parse_config_def
      configured_lines [simplified] configured_trims parse_property_def managed_keys_def bt_get_def bt_remove_def bt_empty_def resolve_brokers_def
      resolve_alias_def Let_def list_less_def)

lemma configured_resolves: "\<exists>cf. resolve sample_engine configured_file configured_raw = Inr cf"
  unfolding resolve_def configured_properties
  by (simp add: configured_raw_def sample_raw_def resolve_partitions_def sample_partitions check_counts_def max_consumers_def
      sample_offsets resolve_end_def check_sharding_def resolve_plan_def read_variables_def build_plan_def parse_variables_def
      compile_expression_def resolve_output_def sample_engine_def)

theorem managed_properties_witness:
  "\<exists>cf. resolve sample_engine configured_file configured_raw = Inr cf \<and>
     map (consumer_config (cf_kafka_properties cf)) [''client.id'', ''linger'', ''bootstrap.servers'', ''enable.auto.commit'', ''group.id'']
       = [Some ''x'', Some ''5'', Some ''c'', Some ''false'', Some ''jkq'']"
proof -
  obtain cf where cf: "resolve sample_engine configured_file configured_raw = Inr cf" using configured_resolves by blast
  have "entered configured_file configured_raw = map_of [(''metadata.broker.list'', ''c''), (''client.id'', ''x''), (''linger'', ''5''), (''client.id'', ''y'')]"
    by (simp add: entered_def configured_raw_def configured_file_def sample_raw_def configured_lines [simplified] file_entries_def
      option_entries_def entry_name_def entry_value_def configured_trims)
  moreover have "rw_brokers configured_raw = None" by (simp add: configured_raw_def)
  ultimately have "map (client_value configured_file configured_raw)
      [''client.id'', ''linger'', ''bootstrap.servers'', ''enable.auto.commit'', ''group.id'']
      = [Some ''x'', Some ''5'', Some ''c'', Some ''false'', Some ''jkq'']"
    by (simp add: client_value_def)
  with managed_properties [OF cf] cf show ?thesis by simp
qed

end
