(* ===== verification/Startup.thy ===== *)
theory Startup
  imports Cli_Resolve_Facts Pipeline
begin

text \<open>
  From the command line to the consumers: a resolved configuration meets what the preparation of the inputs
  and the pipeline assume of it.
\<close>

section \<open>The cluster\<close>

text \<open>
  What Kafka guarantees: partition ids of a topic are distinct, watermarks and the offsets found for timestamps are
  non-negative 64-bit offsets, and timestamp answers match their requests.
\<close>

definition cluster_law :: "cluster \<Rightarrow> bool" where
  "cluster_law kc \<longleftrightarrow> answers_exactly kc \<and>
     (\<forall>topic p low high. kc_watermarks kc topic p = Inr (low, high) \<longrightarrow> 0 \<le> low \<and> low \<le> high \<and> high \<le> i64_max) \<and>
     (\<forall>topic req els p n. kc_offsets_for_times kc topic req = Inr els \<and> (p, Inr (KOffset n)) \<in> set els \<longrightarrow> 0 \<le> n \<and> n \<le> i64_max) \<and>
     (\<forall>topic ts t. kc_metadata kc topic = Inr ts \<and> t \<in> set ts \<longrightarrow> distinct (tm_partitions t))"

text \<open>\<open>--end-offset\<close> is an \<open>i64\<close>.\<close>

definition end_in_range :: "end_position option \<Rightarrow> bool" where
  "end_in_range e \<longleftrightarrow> (\<forall>n. e = Some (ExclusiveOffset n) \<longrightarrow> n \<le> i64_max)"

lemma resolved_time_range:
  assumes "cluster_law kc" "resolved_time kc topic ps ts p n"
  shows "0 \<le> n \<and> n \<le> i64_max"
proof -
  from assms(2) obtain els off low high where r:
    "kc_offsets_for_times kc topic (map (\<lambda>p. (p, KOffset ts)) ps) = Inr els" "(p, Inr off) \<in> set els"
    "kc_watermarks kc topic p = Inr (low, high)" "off = KOffset n \<or> (off = KInvalid \<or> off = KEnd) \<and> n = high"
    by (auto simp: resolved_time_def)
  have w: "0 \<le> low" "low \<le> high" "high \<le> i64_max" using assms(1) r(3) unfolding cluster_law_def by blast+
  show ?thesis
  proof (cases "off = KOffset n")
    case True
    with assms(1) r(1,2) show ?thesis unfolding cluster_law_def by blast
  qed (use r(4) w in auto)
qed

lemma starts_nonnegative:
  assumes "cluster_law kc" "start_ok (cf_start cf)" "starts_at kc cf ps p (KOffset s)"
  shows "0 \<le> s"
proof (cases "cf_start cf")
  case Beginning
  with assms(1,3) show ?thesis unfolding starts_at_def cluster_law_def by (auto split: if_splits)
next
  case EndOfLog
  with assms(3) obtain low high where "kc_watermarks kc (cf_topic cf) p = Inr (low, high)" "s = high" by (auto simp: starts_at_def)
  with assms(1) show ?thesis unfolding cluster_law_def by fastforce
next
  case (Absolute n)
  with assms(2,3) show ?thesis by (simp add: starts_at_def)
next
  case (RelativeToEnd d)
  with assms(3) obtain low high where w: "kc_watermarks kc (cf_topic cf) p = Inr (low, high)"
    "0 \<le> low \<and> low \<le> high \<and> high \<le> i64_max \<longrightarrow> s = max low (high - int d)" by (auto simp: starts_at_def)
  with assms(1) have "0 \<le> low \<and> low \<le> high \<and> high \<le> i64_max" unfolding cluster_law_def by blast
  with w(2) show ?thesis by (simp add: le_max_iff_disj)
next
  case (StartTimestamp ts)
  with assms(3) obtain n where "resolved_time kc (cf_topic cf) ps ts p n" "s = n" by (auto simp: starts_at_def)
  with resolved_time_range [OF assms(1)] show ?thesis by blast
qed

lemma ends_bounded:
  assumes "cluster_law kc" "end_in_range (cf_end cf)" "ends_at kc cf ps p (Some e)"
  shows "e \<le> i64_max"
proof (cases "cf_end cf")
  case None
  with assms(3) show ?thesis by (simp add: ends_at_def)
next
  case (Some fin)
  show ?thesis
  proof (cases fin)
    case (ExclusiveOffset n)
    with Some assms(2,3) show ?thesis by (simp add: ends_at_def end_in_range_def)
  next
    case (EndTimestamp ts)
    with Some assms(3) obtain n where "resolved_time kc (cf_topic cf) ps ts p n" "e = n" by (auto simp: ends_at_def)
    with resolved_time_range [OF assms(1)] show ?thesis by blast
  next
    case Snapshot
    with Some assms(3) obtain low high where "kc_watermarks kc (cf_topic cf) p = Inr (low, high)" "e = high" by (auto simp: ends_at_def)
    with assms(1) show ?thesis unfolding cluster_law_def by blast
  qed
qed

lemma chosen_distinct:
  assumes "cluster_law kc" "list_all partitions_valid (of_option (cf_partitions cf))" "chosen_partitions kc cf = Inr ps"
  shows "distinct ps"
proof (cases "cf_partitions cf")
  case None
  with assms(3) obtain ts i where "kc_metadata kc (cf_topic cf) = Inr ts" "i < length ts" "ps = tm_partitions (ts ! i)"
    by (auto simp: chosen_partitions_def fetch_topic_partitions_def checks_Inr find_Some_iff split: option.splits if_splits)
  then have "kc_metadata kc (cf_topic cf) = Inr ts" "ts ! i \<in> set ts" "ps = tm_partitions (ts ! i)" by simp_all
  with assms(1) show ?thesis unfolding cluster_law_def by blast
qed (use assms(2,3) in \<open>auto simp: chosen_partitions_def partitions_valid_def\<close>)

lemma prepared_ranges_fit:
  assumes law: "cluster_law kc" and valid: "config_valid cf" and fin: "end_in_range (cf_end cf)"
    and ranges: "prepare_ranges kc cf = Inr ranges"
  shows "distinct (map pr_partition ranges)"
    and "\<forall>r \<in> set ranges. \<forall>s e. pr_start r = KOffset s \<and> pr_end r = Some e \<longrightarrow> e - s \<le> i64_max"
proof -
  have "answers_exactly kc" using law by (simp add: cluster_law_def)
  from ranges_prepared [OF this, of cf] ranges obtain ps where ps: "chosen_partitions kc cf = Inr ps" "map pr_partition ranges = ps"
    and each: "\<forall>r \<in> set ranges. starts_at kc cf ps (pr_partition r) (pr_start r) \<and> ends_at kc cf ps (pr_partition r) (pr_end r)"
    by blast
  show "distinct (map pr_partition ranges)"
    using chosen_distinct [OF law _ ps(1)] valid ps(2) by (simp add: config_valid_def)
  show "\<forall>r \<in> set ranges. \<forall>s e. pr_start r = KOffset s \<and> pr_end r = Some e \<longrightarrow> e - s \<le> i64_max"
  proof (intro ballI allI impI, elim conjE)
    fix r s e assume r: "r \<in> set ranges" "pr_start r = KOffset s" "pr_end r = Some e"
    with each have "0 \<le> s" "e \<le> i64_max"
      using starts_nonnegative [OF law] ends_bounded [OF law fin] valid by (metis config_valid_def)+
    then show "e - s \<le> i64_max" by simp
  qed
qed

section \<open>No panic\<close>

lemma shard_all_plain: "shard_all consumers n limit i rs \<noteq> Inl (Panic m)"
proof (induction rs arbitrary: i)
  case (Cons r rs)
  have "shard_range consumers n limit i r \<noteq> Inl (Panic m)"
    by (simp add: shard_range_def Let_def split: koffset.split option.split)
  with Cons show ?case by (auto simp: bind_r_Inl_iff)
qed simp

lemma collect_r_Inl: "collect_r rs = Inl e \<Longrightarrow> Inl e \<in> set rs"
  by (induction rs) (auto simp: bind_r_Inl_iff)

lemma map_err_Inl_iff:
  "map_err f r = Inl e \<longleftrightarrow> (\<exists>x. r = Inl x \<and> e = f x)" "Inl e = map_err f r \<longleftrightarrow> (\<exists>x. r = Inl x \<and> e = f x)"
  by (cases r; auto)+

lemma assign_plain: "assign ko ka kc cf consumer a \<noteq> Inl (PrepareError (Panic m))"
  by (auto simp: assign_def Let_def bind_r_Inl_iff map_err_Inl_iff split: prod.splits sum.splits dest!: collect_r_Inl)

lemma create_plain: "create_consumer ka cf n \<noteq> Inl (PrepareError (Panic m))"
  by (auto simp: create_consumer_def map_err_Inl_iff)

lemma prepare_plain:
  assumes "\<And>m. prepare_ranges kc cf \<noteq> Inl (Panic m)" "0 < cf_consumers cf"
  shows "prepare ko ka kc cf \<noteq> Inl (PrepareError (Panic m))"
proof
  assume "prepare ko ka kc cf = Inl (PrepareError (Panic m))"
  moreover have "consumer_assignments ranges (cf_consumers cf) b limit \<noteq> Inl (Panic m)" for ranges b limit
    using assms(2) shard_all_plain by (auto simp: consumer_assignments_def)
  ultimately show False
    using assms(1)
    by (auto simp: prepare_def bind_r_Inl_iff map_err_Inl_iff create_plain assign_plain create_plain [symmetric]
        assign_plain [symmetric] dest!: collect_r_Inl)
qed

section \<open>Fresh inputs\<close>

lemma dealt_ranges:
  assumes "consumer_assignments ranges consumers False limit = Inr as"
  shows "mset (concat (map ca_ranges as)) = mset ranges"
proof -
  define start_as where "start_as = replicate (min consumers (length ranges)) \<lparr>ca_ranges = [], ca_max_inflight = limit\<rparr>"
  from assms have as: "as = deal 0 ranges start_as" and ne: "ranges \<noteq> [] \<longrightarrow> start_as \<noteq> []"
    by (auto simp: consumer_assignments_def start_as_def split: if_splits)
  have "concat (map ca_ranges start_as) = []" by (simp add: start_as_def)
  with ne show ?thesis by (cases "ranges = []") (simp_all add: as deal_ranges)
qed

lemma distinct_concat_same:
  assumes "distinct (concat xss)" "i < length xss" "j < length xss" "x \<in> set (xss ! i)" "x \<in> set (xss ! j)"
  shows "i = j"
  using assms
proof (induction xss arbitrary: i j)
  case (Cons xs xss)
  have in_rest: "x \<in> set (concat xss)" if "k < length xss" "x \<in> set (xss ! k)" for k using that by auto
  show ?case
  proof (cases i; cases j)
    fix i' j' assume "i = Suc i'" "j = Suc j'"
    with Cons show ?thesis by simp
  next
    fix j' assume "i = 0" "j = Suc j'"
    with Cons.prems in_rest [of j'] show ?thesis by auto
  next
    fix i' assume "i = Suc i'" "j = 0"
    with Cons.prems in_rest [of i'] show ?thesis by auto
  qed simp
qed simp

lemma assigned_new:
  assumes "assign ko ka kc cf consumer a = Inr ki" "distinct (map pr_partition (ca_ranges a))"
  shows "fetch_dropped (ki_consumer ki) = []" "set (assigned_partitions ki) = set (map pr_partition (ca_ranges a))"
proof -
  from assign_result [OF assms(1)] obtain k k' where
    ki: "ki = (input_new cf a k)\<lparr>ki_consumer := (ki_consumer (input_new cf a k))\<lparr>fc_kafka := k'\<rparr>\<rparr>" by blast
  show "fetch_dropped (ki_consumer ki) = []" by (simp add: ki input_new_def Let_def fetch_dropped_def fetch_new_def)
  have "p \<in> set (assigned_partitions ki) \<longleftrightarrow> (\<exists>st. bt_get (partition_states (ca_ranges a)) p = Some st)" for p
    by (simp add: ki assigned_partitions_def bt_keys_iff input_new_def Let_def)
  then show "set (assigned_partitions ki) = set (map pr_partition (ca_ranges a))"
    unfolding partition_states_get [OF assms(2)] by auto
qed

lemma prepared_fresh:
  assumes prep: "prepare ko ka kc cf = Inr inputs" and ranges: "prepare_ranges kc cf = Inr ranges"
    and distinct: "distinct (map pr_partition ranges)" and plain: "\<not> cf_range_sharding cf"
    and ok: "list_all input_ok inputs"
  shows "fresh_inputs inputs"
proof -
  from prep ranges obtain ks as where
    as: "consumer_assignments ranges (cf_consumers cf) (cf_range_sharding cf) (max_inflight_per_partition (cf_limits cf)) = Inr as"
    and n: "length inputs = length as" and each: "\<And>i. i < length as \<Longrightarrow> assign ko ka kc cf (ks ! i) (as ! i) = Inr (inputs ! i)"
    using prepare_assigns by blast
  have dist: "distinct (map pr_partition (ca_ranges (as ! i)))" if "i < length as" for i
    using assignments_distinct [OF as distinct] that by simp
  have all: "distinct (concat (map (\<lambda>a. map pr_partition (ca_ranges a)) as))"
  proof -
    have "mset (concat (map ca_ranges as)) = mset ranges" using dealt_ranges as plain by simp
    then have "mset (map pr_partition (concat (map ca_ranges as))) = mset (map pr_partition ranges)" by simp
    then have "distinct (map pr_partition (concat (map ca_ranges as)))" using distinct by (metis mset_eq_imp_distinct_iff)
    then show ?thesis by (simp add: map_concat comp_def)
  qed
  have "i = j" if "i < length inputs" "j < length inputs" "q \<in> set (assigned_partitions (inputs ! i))"
    "q \<in> set (assigned_partitions (inputs ! j))" for i j q
    using distinct_concat_same [OF all, of i j q] that n assigned_new(2) [OF each dist] by simp
  moreover have "\<forall>ki \<in> set inputs. input_ok ki \<and> fetch_dropped (ki_consumer ki) = []"
    using ok n assigned_new(1) [OF each dist] by (auto simp: list_all_iff in_set_conv_nth)
  ultimately show ?thesis unfolding fresh_inputs_def unread_inputs_def disjoint_inputs_def by blast
qed

text \<open>
  C8. A resolved command line starts safely on every cluster that keeps Kafka's guarantees: the preparation never
  panics; and the inputs it makes satisfy their invariant, there are 1 to 128 at most, together they want each message in
  the resolved ranges exactly once and no other, and, unless ranges are sharded, they are what the pipeline's order
  property starts from.
\<close>

theorem resolved_run_starts:
  assumes "resolve jx read raw = Inr cf" "end_in_range (cf_end cf)" "cluster_law kc"
  shows "(\<forall>m. prepare ko ka kc cf \<noteq> Inl (PrepareError (Panic m))) \<and>
    (\<forall>inputs. prepare ko ka kc cf = Inr inputs \<longrightarrow> list_all input_ok inputs \<and> length inputs \<le> 128 \<and>
       (cf_range_sharding cf \<or> fresh_inputs inputs) \<and>
       (\<exists>ranges. prepare_ranges kc cf = Inr ranges \<and> (\<forall>m. nm_err m = RespNoError \<longrightarrow>
          length (filter (\<lambda>ki. wanted ki m) inputs) =
            (if \<exists>r \<in> set ranges. covers r (nm_partition m) (nm_offset m) then 1 else 0))))"
proof (intro conjI allI impI)
  have valid: "config_valid cf" using assms(1) by (rule resolve_config_valid)
  have answers: "answers_exactly kc" using assms(3) by (simp add: cluster_law_def)
  show "prepare ko ka kc cf \<noteq> Inl (PrepareError (Panic m))" for m
    using ranges_prepared [OF answers, of cf] valid by (intro prepare_plain) (auto simp: config_valid_def)
  fix inputs assume prep: "prepare ko ka kc cf = Inr inputs"
  then obtain ranges where ranges: "prepare_ranges kc cf = Inr ranges" by (auto simp: prepare_def bind_r_Inr_iff)
  note fit = prepared_ranges_fit [OF assms(3) valid assms(2) ranges]
  have limit: "0 < max_inflight_per_partition (cf_limits cf)" using valid by (simp add: config_valid_def limits_valid_def)
  note read = inputs_reading [OF prep ranges fit(1) limit fit(2)]
  then show ok: "list_all input_ok inputs" by blast
  show "length inputs \<le> 128" using read valid by (auto simp: config_valid_def)
  show "cf_range_sharding cf \<or> fresh_inputs inputs" using prepared_fresh [OF prep ranges fit(1) _ ok] by blast
  have one: "length (filter (\<lambda>r. covers r p n) rs) = (if \<exists>r \<in> set rs. covers r p n then 1 else 0)"
    if "distinct (map pr_partition rs)" for rs p n
    using that by (induction rs) (auto simp: covers_def filter_empty_conv intro: rev_image_eqI)
  show "\<exists>ranges. prepare_ranges kc cf = Inr ranges \<and> (\<forall>m. nm_err m = RespNoError \<longrightarrow>
      length (filter (\<lambda>ki. wanted ki m) inputs) =
        (if \<exists>r \<in> set ranges. covers r (nm_partition m) (nm_offset m) then 1 else 0))"
    using ranges read one [OF fit(1)] by auto
qed

definition demo_cluster :: cluster where
  "demo_cluster = small_cluster\<lparr>kc_watermarks := (\<lambda>topic p. Inr (5, if p = 0 then 20 else 21))\<rparr>"

lemma demo_cluster_law: "cluster_law demo_cluster"
  by (auto simp: cluster_law_def answers_exactly_def demo_cluster_def small_cluster_def int_bounds)

lemma demo_ranges:
  assumes "cf_partitions cf = Some [1, 0]" "cf_start cf = RelativeToEnd 5" "cf_end cf = Some Snapshot"
  shows "prepare_ranges demo_cluster cf =
    Inr [\<lparr>pr_partition = 1, pr_start = KOffset 16, pr_end = Some 21\<rparr>, \<lparr>pr_partition = 0, pr_start = KOffset 15, pr_end = Some 20\<rparr>]"
  using assms
  by (simp add: prepare_ranges_def demo_cluster_def small_cluster_def startup_watermarks_def fetch_watermarks_def
      watermarks_required_def timestamp_starts_def resolve_starts_def resolve_start_def relative_start_def
      i64_saturating_sub_def int_bounds fixed_ends_def range_of_def shardable_def bt_of_list_def bt_empty_def bt_get_def expect_def)

theorem resolved_run_starts_witness:
  "\<exists>cf inputs. resolve sample_engine (\<lambda>path. Inl ''no file'') sample_raw = Inr cf \<and>
     prepare list_kafka list_admin demo_cluster cf = Inr inputs \<and> length inputs \<le> 128 \<and>
     length (filter (\<lambda>ki. wanted ki (plain_message 0 19 [])) inputs) = 1 \<and>
     length (filter (\<lambda>ki. wanted ki (plain_message 0 14 [])) inputs) = 0"
proof -
  obtain cf where cf: "resolve sample_engine (\<lambda>path. Inl ''no file'') sample_raw = Inr cf" "cf_partitions cf = Some [1, 0]"
    "cf_start cf = RelativeToEnd 5" "cf_end cf = Some Snapshot" "cf_consumers cf = 4" "cf_range_sharding cf"
    "max_inflight_per_partition (cf_limits cf) = 8"
    using sample_resolved [of "\<lambda>path. Inl ''no file''"] by blast
  note ranges = demo_ranges [OF cf(2-4)]
  have "\<exists>as. consumer_assignments [\<lparr>pr_partition = 1, pr_start = KOffset 16, pr_end = Some 21\<rparr>,
      \<lparr>pr_partition = 0, pr_start = KOffset 15, pr_end = Some 20\<rparr>] 4 True 8 = Inr as"
    by (simp add: consumer_assignments_def shard_range_def shard_count_def range_width_def i64_saturating_sub_def int_bounds Let_def)
  then obtain inputs where inputs: "prepare list_kafka list_admin demo_cluster cf = Inr inputs"
    using list_prepares [OF _ ranges] cf(5-7) by (auto simp: demo_cluster_def small_cluster_def)
  have "end_in_range (cf_end cf)" by (simp add: cf(4) end_in_range_def)
  note run = resolved_run_starts [OF cf(1) this demo_cluster_law, of list_kafka list_admin]
  then have size: "length inputs \<le> 128" using inputs by blast
  have count: "length (filter (\<lambda>ki. wanted ki (plain_message 0 n [])) inputs) = (if 15 \<le> n \<and> n < 20 then 1 else 0)" for n
    using run inputs ranges by (auto simp: covers_def plain_message_def)
  have "length (filter (\<lambda>ki. wanted ki (plain_message 0 19 [])) inputs) = 1"
    "length (filter (\<lambda>ki. wanted ki (plain_message 0 14 [])) inputs) = 0" unfolding count by simp_all
  then show ?thesis using cf(1) inputs size by blast
qed

end
