(* ===== verification/Signals.thy ===== *)
theory Signals
  imports Prelude
begin

text \<open>
  \<open>SignalControl\<close> of \<open>src/runtime.rs\<close>: the termination-signal handlers, which may run at any moment and
  overlap, and the hand-off from start-up to processing. Each handler is its three atomic steps
  (load \<open>shutdown\<close>, swap \<open>received\<close>, then store \<open>shutdown\<close> or exit), and the steps of all handlers, the main
  thread and the pipeline interleave.
\<close>

definition sigint :: nat where "sigint = 2"
definition sigterm :: nat where "sigterm = 15"
definition signal_startup :: nat where "signal_startup = usize_max"

text \<open>The statuses registered with the two handlers.\<close>

definition exit_status :: "nat \<Rightarrow> nat" where
  "exit_status sig = (if sig = sigint then 130 else 143)"

record signal_control =
  sc_shutdown :: bool
  sc_received :: nat

definition signal_new :: signal_control where
  "signal_new = \<lparr>sc_shutdown = False, sc_received = signal_startup\<rparr>"

text \<open>\<open>record_signal\<close>: the swap, and whether the old value was non-zero.\<close>

definition record_signal :: "nat \<Rightarrow> signal_control \<Rightarrow> bool \<times> signal_control" where
  "record_signal sig c = (sc_received c \<noteq> 0, c\<lparr>sc_received := sig\<rparr>)"

text \<open>\<open>try_begin_processing\<close>: the compare-exchange, or the signal found instead.\<close>

definition try_begin_processing :: "signal_control \<Rightarrow> (nat + unit) \<times> signal_control" where
  "try_begin_processing c =
     (if sc_received c = signal_startup then (Inr (), c\<lparr>sc_received := 0\<rparr>) else (Inl (sc_received c), c))"

text \<open>Where a handler for a signal stands.\<close>

datatype handler_pc = Entered | Loaded bool | Claimed | Exiting | Returned

record process =
  p_control :: signal_control
  p_handlers :: "(nat \<times> handler_pc) list"
  p_processing :: bool
  p_exited :: "nat option"

definition process_init :: process where
  "process_init = \<lparr>p_control = signal_new, p_handlers = [], p_processing = False, p_exited = None\<rparr>"

text \<open>One atomic step of a handler: its next place, the flags, and the status it exits with.\<close>

fun handler_step :: "nat \<Rightarrow> handler_pc \<Rightarrow> signal_control \<Rightarrow> handler_pc \<times> signal_control \<times> nat option" where
  "handler_step sig Entered c = (Loaded (sc_shutdown c), c, None)"
| "handler_step sig (Loaded already_stopping) c =
     (case record_signal sig c of (claimed_before, c') \<Rightarrow>
        if claimed_before \<or> already_stopping then (Exiting, c', None) else (Claimed, c', None))"
| "handler_step sig Exiting c = (Exiting, c, Some (exit_status sig))"
| "handler_step sig Claimed c = (Returned, c\<lparr>sc_shutdown := True\<rparr>, None)"
| "handler_step sig Returned c = (Returned, c, None)"

inductive signal_step :: "process \<Rightarrow> process \<Rightarrow> bool" where
  delivered:
    "p_exited p = None \<Longrightarrow> sig \<in> {sigint, sigterm} \<Longrightarrow>
     signal_step p (p\<lparr>p_handlers := p_handlers p @ [(sig, Entered)]\<rparr>)"
| handles:
    "p_exited p = None \<Longrightarrow> i < length (p_handlers p) \<Longrightarrow> p_handlers p ! i = (sig, pc) \<Longrightarrow> pc \<noteq> Returned \<Longrightarrow>
     handler_step sig pc (p_control p) = (pc', c, ex) \<Longrightarrow>
     signal_step p (p\<lparr>p_control := c, p_handlers := (p_handlers p)[i := (sig, pc')], p_exited := ex\<rparr>)"
| begins:
    "p_exited p = None \<Longrightarrow> \<not> p_processing p \<Longrightarrow> try_begin_processing (p_control p) = (Inr u, c) \<Longrightarrow>
     signal_step p (p\<lparr>p_control := c, p_processing := True\<rparr>)"
| refuses:
    "p_exited p = None \<Longrightarrow> \<not> p_processing p \<Longrightarrow> try_begin_processing (p_control p) = (Inl sig, c) \<Longrightarrow>
     signal_step p (p\<lparr>p_control := c, p_exited := Some (128 + sig)\<rparr>)"
| pipeline_stops:
    "p_exited p = None \<Longrightarrow> p_processing p \<Longrightarrow>
     signal_step p (p\<lparr>p_control := (p_control p)\<lparr>sc_shutdown := True\<rparr>\<rparr>)"

section \<open>Invariant\<close>

text \<open>The handlers that claimed a signal to stop gracefully, and those on their way to the exit.\<close>

definition graceful :: "process \<Rightarrow> nat list" where
  "graceful p = map fst (filter (\<lambda>h. snd h = Claimed \<or> snd h = Returned) (p_handlers p))"

definition exiting :: "process \<Rightarrow> nat list" where
  "exiting p = map fst (filter (\<lambda>h. snd h = Exiting) (p_handlers p))"

definition live_ok :: "bool \<Rightarrow> signal_control \<Rightarrow> nat list \<Rightarrow> nat list \<Rightarrow> bool" where
  "live_ok processing c gs es \<longleftrightarrow>
     (if es = []
      then (if processing then gs = (if sc_received c = 0 then [] else [sc_received c])
            else gs = [] \<and> sc_received c = signal_startup \<and> \<not> sc_shutdown c)
      else length gs \<le> 1 \<and> sc_received c \<in> {sigint, sigterm} \<and> (processing \<or> gs = []))"

definition signal_ok :: "process \<Rightarrow> bool" where
  "signal_ok p \<longleftrightarrow>
     (\<forall>h \<in> set (p_handlers p). fst h \<in> {sigint, sigterm}) \<and>
     (case p_exited p of
        Some s \<Rightarrow> s \<in> {130, 143}
      | None \<Rightarrow> live_ok (p_processing p) (p_control p) (graceful p) (exiting p))"

lemma filter_update_out:
  assumes "i < length xs" "\<not> P (xs ! i)" "\<not> P y"
  shows "filter P (xs[i := y]) = filter P xs"
  using assms by (induction xs arbitrary: i) (auto simp: nth_Cons split: nat.splits)

lemma filter_update_first:
  assumes "i < length xs" "filter P xs = []" "P y"
  shows "filter P (xs[i := y]) = [y]"
  using assms by (induction xs arbitrary: i) (auto simp: nth_Cons split: nat.splits if_splits)

lemma filter_update_same:
  assumes "i < length xs" "P (xs ! i)" "P y" "f (xs ! i) = f y"
  shows "map f (filter P (xs[i := y])) = map f (filter P xs)"
  using assms by (induction xs arbitrary: i) (auto simp: nth_Cons split: nat.splits)

lemma signal_consts: "sigint \<noteq> 0" "sigterm \<noteq> 0" "signal_startup \<noteq> 0"
  "sigint \<noteq> signal_startup" "sigterm \<noteq> signal_startup"
  "exit_status sigint = 130" "exit_status sigterm = 143" "128 + sigint = 130" "128 + sigterm = 143"
  by (simp_all add: sigint_def sigterm_def signal_startup_def usize_max_def exit_status_def)

lemma live_ok_graceful:
  "live_ok pr c gs es \<Longrightarrow> gs \<noteq> [] \<Longrightarrow> sc_received c' = sc_received c \<Longrightarrow> live_ok pr c' gs es"
  by (auto simp: live_ok_def split: if_splits)

lemma filter_update_new:
  assumes "i < length xs" "\<not> P (xs ! i)" "P y"
  shows "length (filter P (xs[i := y])) = Suc (length (filter P xs)) \<and> filter P (xs[i := y]) \<noteq> []"
  using assms by (induction xs arbitrary: i) (auto simp: nth_Cons split: nat.splits)

lemma handles_ok:
  assumes ok: "signal_ok p" and live: "p_exited p = None" and i: "i < length (p_handlers p)"
    and h: "p_handlers p ! i = (sig, pc)" "pc \<noteq> Returned"
    and step: "handler_step sig pc (p_control p) = (pc', c, ex)"
  shows "signal_ok (p\<lparr>p_control := c, p_handlers := (p_handlers p)[i := (sig, pc')], p_exited := ex\<rparr>)"
    (is "signal_ok ?p'")
proof -
  let ?G = "\<lambda>h :: nat \<times> handler_pc. snd h = Claimed \<or> snd h = Returned"
  let ?E = "\<lambda>h :: nat \<times> handler_pc. snd h = Exiting"
  have sig: "sig \<in> {sigint, sigterm}"
    using ok i h(1) nth_mem [OF i] by (auto simp: signal_ok_def)
  have all: "\<forall>h \<in> set (p_handlers ?p'). fst h \<in> {sigint, sigterm}"
    using ok sig set_update_subset_insert [of "p_handlers p" i "(sig, pc')"] by (auto simp: signal_ok_def)
  have now: "live_ok (p_processing p) (p_control p) (graceful p) (exiting p)"
    using ok live by (simp add: signal_ok_def)
  show ?thesis
  proof (cases pc)
    case Entered
    with step h filter_update_out [OF i, of ?G "(sig, pc')"] filter_update_out [OF i, of ?E "(sig, pc')"]
    have "graceful ?p' = graceful p" "exiting ?p' = exiting p" "c = p_control p" "ex = None"
      by (auto simp: graceful_def exiting_def)
    with all now show ?thesis by (simp add: signal_ok_def)
  next
    case (Loaded already)
    show ?thesis
    proof (cases "sc_received (p_control p) \<noteq> 0 \<or> already")
      case True
      with step Loaded have eff: "pc' = Exiting" "sc_received c = sig" "ex = None"
        by (auto simp: record_signal_def)
      with h Loaded filter_update_out [OF i, of ?G "(sig, pc')"] filter_update_new [OF i, of ?E "(sig, pc')"]
      have "graceful ?p' = graceful p" "exiting ?p' \<noteq> []" by (auto simp: graceful_def exiting_def)
      with eff sig now all show ?thesis
        by (auto simp: signal_ok_def live_ok_def split: if_splits)
    next
      case False
      with step Loaded have eff: "pc' = Claimed" "sc_received c = sig" "ex = None"
        by (auto simp: record_signal_def)
      from False now signal_consts(1-3) have quiet: "graceful p = []" "exiting p = []" "p_processing p"
        by (auto simp: live_ok_def split: if_splits)
      then have "filter ?G (p_handlers p) = []" by (simp add: graceful_def)
      with filter_update_first [OF i, of ?G "(sig, pc')"] filter_update_out [OF i, of ?E "(sig, pc')"] h Loaded eff quiet
      have "graceful ?p' = [sig]" "exiting ?p' = []" by (auto simp: graceful_def exiting_def)
      with eff sig quiet all signal_consts(1,2) show ?thesis
        by (auto simp: signal_ok_def live_ok_def)
    qed
  next
    case Claimed
    with step h filter_update_same [OF i, of ?G "(sig, pc')" fst] filter_update_out [OF i, of ?E "(sig, pc')"]
    have eff: "graceful ?p' = graceful p" "exiting ?p' = exiting p" "sc_received c = sc_received (p_control p)" "ex = None"
      by (auto simp: graceful_def exiting_def)
    have "(sig, pc) \<in> set (p_handlers p)" using nth_mem [OF i] h by simp
    with Claimed have "graceful p \<noteq> []" by (force simp: graceful_def filter_empty_conv)
    from live_ok_graceful [OF now this eff(3)]
    have "live_ok (p_processing ?p') (p_control ?p') (graceful ?p') (exiting ?p')"
      unfolding eff(1,2) by simp
    moreover have "p_exited ?p' = None" using eff(4) by simp
    ultimately show ?thesis using all unfolding signal_ok_def by (simp only: option.case simp_thms)
  next
    case Exiting
    with step all sig show ?thesis using signal_consts(6,7) by (auto simp: signal_ok_def)
  qed (use h in simp)
qed

lemma signal_ok_step:
  assumes "signal_step p p'" "signal_ok p"
  shows "signal_ok p'"
  using assms
proof (induction rule: signal_step.induct)
  case (handles p i sig pc pc' c ex)
  then show ?case by (blast intro: handles_ok)
next
  case (delivered p sig)
  then show ?case by (auto simp: signal_ok_def graceful_def exiting_def split: if_splits)
next
  case (begins p u c)
  then show ?case using signal_consts(3-5)
    by (auto simp: signal_ok_def graceful_def exiting_def live_ok_def try_begin_processing_def split: if_splits)
next
  case (refuses p sig c)
  then show ?case using signal_consts(8,9)
    by (auto simp: signal_ok_def live_ok_def try_begin_processing_def split: if_splits)
next
  case (pipeline_stops p)
  then show ?case by (auto simp: signal_ok_def graceful_def exiting_def live_ok_def split: if_splits)
qed

lemma signal_reachable: "signal_step\<^sup>*\<^sup>* process_init p \<Longrightarrow> signal_ok p"
proof (induction rule: rtranclp_induct)
  case base
  show ?case by (simp add: signal_ok_def process_init_def graceful_def exiting_def live_ok_def signal_new_def)
next
  case (step p p')
  then show ?case by (blast intro: signal_ok_step)
qed

text \<open>
  C21. However handlers overlap: at most one of them stops the program gracefully, none before the
  hand-off to processing; every other handler that has swapped in its signal is on its way to the
  exit; while none is, \<open>received\<close> holds the graceful handler's signal (zero without one); once
  processing, it is always zero or a registered signal; and the exit status is 130 or 143.
\<close>

theorem signals_force_exit:
  assumes "signal_step\<^sup>*\<^sup>* process_init p"
  shows "case p_exited p of
      Some s \<Rightarrow> s \<in> {130, 143}
    | None \<Rightarrow>
        length (graceful p) \<le> 1 \<and> (\<not> p_processing p \<longrightarrow> graceful p = [])
        \<and> (p_processing p \<longrightarrow> sc_received (p_control p) \<in> {0, sigint, sigterm})
        \<and> (p_processing p \<and> exiting p = [] \<longrightarrow>
             graceful p = (if sc_received (p_control p) = 0 then [] else [sc_received (p_control p)]))"
proof -
  have "sc_received (p_control p) \<in> {sigint, sigterm}"
    if "graceful p = [sc_received (p_control p)]" "\<forall>h \<in> set (p_handlers p). fst h \<in> {sigint, sigterm}"
  proof -
    have "sc_received (p_control p) \<in> set (graceful p)" using that(1) by simp
    then show ?thesis using that(2) by (auto simp: graceful_def)
  qed
  with signal_reachable [OF assms] show ?thesis
    by (auto simp: signal_ok_def live_ok_def split: option.split if_splits)
qed

text \<open>A SIGTERM after the hand-off, with a SIGINT delivered before its handler stored the flag.\<close>

definition overlapped :: process where
  "overlapped = \<lparr>p_control = \<lparr>sc_shutdown = False, sc_received = sigint\<rparr>,
     p_handlers = [(sigterm, Claimed), (sigint, Exiting)], p_processing = True, p_exited = Some 130\<rparr>"

lemma overlapped_reachable: "signal_step\<^sup>*\<^sup>* process_init overlapped"
proof -
  define st where "st r hs pr ex = \<lparr>p_control = \<lparr>sc_shutdown = False, sc_received = r\<rparr>,
     p_handlers = hs, p_processing = pr, p_exited = ex\<rparr>" for r hs pr ex
  note sim = st_def record_signal_def try_begin_processing_def signal_consts
  have "signal_step (st signal_startup [] False None) (st 0 [] True None)"
    using begins [of "st signal_startup [] False None"] by (simp add: sim)
  moreover have "signal_step (st 0 [] True None) (st 0 [(sigterm, Entered)] True None)"
    using delivered [of "st 0 [] True None" sigterm] by (simp add: sim)
  moreover have "signal_step (st 0 [(sigterm, Entered)] True None) (st 0 [(sigterm, Loaded False)] True None)"
    using handles [of "st 0 [(sigterm, Entered)] True None" 0] by (simp add: sim)
  moreover have "signal_step (st 0 [(sigterm, Loaded False)] True None) (st sigterm [(sigterm, Claimed)] True None)"
    using handles [of "st 0 [(sigterm, Loaded False)] True None" 0] by (simp add: sim)
  moreover have "signal_step (st sigterm [(sigterm, Claimed)] True None)
      (st sigterm [(sigterm, Claimed), (sigint, Entered)] True None)"
    using delivered [of "st sigterm [(sigterm, Claimed)] True None" sigint] by (simp add: sim)
  moreover have "signal_step (st sigterm [(sigterm, Claimed), (sigint, Entered)] True None)
      (st sigterm [(sigterm, Claimed), (sigint, Loaded False)] True None)"
    using handles [of "st sigterm [(sigterm, Claimed), (sigint, Entered)] True None" 1] by (simp add: sim)
  moreover have "signal_step (st sigterm [(sigterm, Claimed), (sigint, Loaded False)] True None)
      (st sigint [(sigterm, Claimed), (sigint, Exiting)] True None)"
    using handles [of "st sigterm [(sigterm, Claimed), (sigint, Loaded False)] True None" 1] by (simp add: sim)
  moreover have "signal_step (st sigint [(sigterm, Claimed), (sigint, Exiting)] True None)
      (st sigint [(sigterm, Claimed), (sigint, Exiting)] True (Some 130))"
    using handles [of "st sigint [(sigterm, Claimed), (sigint, Exiting)] True None" 1] by (simp add: sim)
  ultimately have "signal_step\<^sup>*\<^sup>* (st signal_startup [] False None)
      (st sigint [(sigterm, Claimed), (sigint, Exiting)] True (Some 130))"
    by (meson converse_rtranclp_into_rtranclp rtranclp.rtrancl_refl)
  then show ?thesis by (simp add: st_def overlapped_def process_init_def signal_new_def)
qed

theorem signals_force_exit_witness:
  "p_exited overlapped = Some 130 \<and> (130::nat) \<in> {130, 143}"
  using signals_force_exit [OF overlapped_reachable] by (simp add: overlapped_def)

end
