(* ===== verification/App.thy ===== *)
theory App
  imports Cli_Resolve Pipeline Signals
begin

text \<open>
  The process (\<open>src/app.rs\<close>, \<open>src/main.rs\<close>): from the command line to the exit status. What the lower layers
  answer is a parameter here (the signal installation, the prepared inputs, the pipeline's result), so that
  each path can be followed to its status and to what is printed on standard error.
\<close>

section \<open>Messages\<close>

definition koffset_text :: "koffset \<Rightarrow> string" where
  "koffset_text off = (case off of
      KBeginning \<Rightarrow> ''Beginning'' | KEnd \<Rightarrow> ''End'' | KStored \<Rightarrow> ''Stored'' | KInvalid \<Rightarrow> ''Invalid''
    | KOffset n \<Rightarrow> ''Offset('' @ dec_int n @ '')'' | KOffsetTail n \<Rightarrow> ''OffsetTail('' @ dec_int n @ '')'')"

definition timestamp_at :: "int \<Rightarrow> string \<Rightarrow> string" where
  "timestamp_at ts topic = ''timestamp '' @ dec_int ts @ '' for topic '' @ topic"

text \<open>The message of a failed preparation, or \<open>None\<close> for a panic.\<close>

definition prepare_error_text :: "string \<Rightarrow> prepare_error \<Rightarrow> string option" where
  "prepare_error_text topic e = (case e of
      MetadataFailed m \<Rightarrow> Some (''cannot fetch metadata for topic '' @ topic @ '': '' @ m)
    | TopicMissing \<Rightarrow> Some (''metadata response did not include topic '' @ topic)
    | TopicFailed m \<Rightarrow> Some (''cannot fetch metadata for topic '' @ topic @ '': '' @ m)
    | NoPartitions \<Rightarrow> Some (''topic '' @ topic @ '' has no partitions'')
    | TooManyPartitions \<Rightarrow>
        Some (''topic '' @ topic @ '' has more than the '' @ dec_nat max_assigned_partitions @ '' partition limit'')
    | WatermarkFailed p m \<Rightarrow>
        Some (''cannot fetch watermarks for topic '' @ topic @ '' partition '' @ dec_int p @ '': '' @ m)
    | SetOffsetFailed p m \<Rightarrow> Some (''cannot set offset for topic '' @ topic @ '' partition '' @ dec_int p @ '': '' @ m)
    | TimesFailed ts m \<Rightarrow> Some (''cannot resolve '' @ timestamp_at ts topic @ '': '' @ m)
    | TimeFailed ts p m \<Rightarrow> Some (''cannot resolve '' @ timestamp_at ts topic @ '' partition '' @ dec_int p @ '': '' @ m)
    | UnexpectedOffset ts p off \<Rightarrow>
        Some (timestamp_at ts topic @ '' partition '' @ dec_int p @ '' resolved to unexpected offset '' @ koffset_text off)
    | UnresolvedBoundaries \<Rightarrow> Some ''range sharding requires resolved fixed boundaries''
    | OutsideWatermarks p s e low high \<Rightarrow>
        Some (''cannot shard '' @ topic @ '' partition '' @ dec_int p @ '' range ['' @ dec_int s @ '', '' @ dec_int e
          @ ''): outside startup watermarks ['' @ dec_int low @ '', '' @ dec_int high @ '')'')
    | ShardCountOverflow \<Rightarrow> Some ''range shard count exceeds i64''
    | ConsumerFailed m \<Rightarrow> Some (''cannot create Kafka consumer: '' @ m)
    | AssignFailed m \<Rightarrow> Some m
    | Panic m \<Rightarrow> None)"

definition start_error_text :: "(kafka_error \<Rightarrow> string) \<Rightarrow> string \<Rightarrow> start_error \<Rightarrow> string option" where
  "start_error_text render topic e = (case e of
      PrepareError pe \<Rightarrow> prepare_error_text topic pe
    | InputError ie \<Rightarrow> Some (input_error_text render topic ie))"

section \<open>Application errors\<close>

datatype app_error = AppRuntime string | AppOutput io_error | AppInterrupted int

definition is_broken_pipe :: "app_error \<Rightarrow> bool" where
  "is_broken_pipe e \<longleftrightarrow> (case e of AppOutput io \<Rightarrow> io_kind io = BrokenPipe | _ \<Rightarrow> False)"

definition exit_code :: "app_error \<Rightarrow> int" where
  "exit_code e = (case e of
      AppInterrupted sig \<Rightarrow> if sig = int sigint then 130 else if sig = int sigterm then 143 else 1
    | _ \<Rightarrow> 1)"

definition app_error_text :: "app_error \<Rightarrow> string" where
  "app_error_text e = (case e of
      AppRuntime m \<Rightarrow> m
    | AppOutput io \<Rightarrow> ''output error: '' @ io_text io
    | AppInterrupted sig \<Rightarrow> ''interrupted by signal '' @ dec_int sig)"

definition app_error_of :: "pipeline_error \<Rightarrow> app_error" where
  "app_error_of e = (case e of RuntimeError m \<Rightarrow> AppRuntime m | OutputError io \<Rightarrow> AppOutput io)"

section \<open>The run\<close>

text \<open>How \<open>run\<close> ends, with the lines it has printed: it returns, the process exits inside it, or it panics.\<close>

datatype run_end = RunReturned "app_error + unit" "string list" | RunExited int | RunPanicked

definition consume ::
    "'x runtime_config \<Rightarrow> signal_control \<Rightarrow> string \<Rightarrow> pipeline_error + int option \<Rightarrow> run_end" where
  "consume cf sc report result = (case try_begin_processing sc of
      (Inl sig, _) \<Rightarrow> RunExited (128 + int sig)
    | (Inr _, _) \<Rightarrow>
        RunReturned
          (bind_r (map_err app_error_of result) (\<lambda>interrupted. case interrupted of
             Some sig \<Rightarrow> Inl (AppInterrupted sig)
           | None \<Rightarrow> Inr ()))
          (if cf_stats cf then [''jkq: stats total '' @ report] else []))"

definition run_with_writer ::
    "(kafka_error \<Rightarrow> string) \<Rightarrow> 'x runtime_config \<Rightarrow> string + signal_control \<Rightarrow> start_error + 'k kafka_input list
      \<Rightarrow> string \<Rightarrow> ('k kafka_input list \<Rightarrow> pipeline_error + int option) \<Rightarrow> run_end" where
  "run_with_writer render cf installed prepared report pipeline = (case installed of
      Inl m \<Rightarrow> RunReturned (Inl (AppRuntime m)) []
    | Inr sc \<Rightarrow> (case prepared of
        Inl e \<Rightarrow> (case start_error_text render (cf_topic cf) e of
            None \<Rightarrow> RunPanicked
          | Some m \<Rightarrow> RunReturned (Inl (AppRuntime m)) [])
      | Inr inputs \<Rightarrow> consume cf sc report (pipeline inputs)))"


text \<open>
  \<open>main\<close>: the exit status and the lines on standard error. \<open>message\<close> renders a command-line error; a panic of the
  main thread ends the process with 101.
\<close>

definition jkq_main ::
    "(cli_error \<Rightarrow> string) \<Rightarrow> ('x runtime_config \<Rightarrow> string + unit) \<Rightarrow> ('x runtime_config \<Rightarrow> run_end)
      \<Rightarrow> cli_error + 'x runtime_config \<Rightarrow> int \<times> string list" where
  "jkq_main message validate run resolved = (case resolved of
      Inl e \<Rightarrow> (2, [''jkq: '' @ message e])
    | Inr cf \<Rightarrow>
        if cf_check cf
        then (case validate cf of Inl m \<Rightarrow> (2, [''jkq: '' @ m]) | Inr _ \<Rightarrow> (0, []))
        else (case run cf of
            RunExited status \<Rightarrow> (status, [])
          | RunPanicked \<Rightarrow> (101, [])
          | RunReturned (Inr _) ls \<Rightarrow> (0, ls)
          | RunReturned (Inl e) ls \<Rightarrow>
              if is_broken_pipe e then (0, ls) else (exit_code e, ls @ [''jkq: '' @ app_error_text e])))"

section \<open>Exit statuses\<close>

text \<open>The status of a run that got as far as its pipeline.\<close>

definition pipeline_status :: "control \<Rightarrow> nat \<Rightarrow> int" where
  "pipeline_status ct sig = (case ct_first ct of
      Some (OutputFailure BrokenPipe m) \<Rightarrow> 0
    | Some _ \<Rightarrow> 1
    | None \<Rightarrow> if sig = 0 then 0 else if sig = sigint then 130 else if sig = sigterm then 143 else 1)"

lemma interrupted_code: "exit_code (AppInterrupted (int sig)) = (if sig = sigint then 130 else if sig = sigterm then 143 else 1)"
  by (simp add: exit_code_def)

lemma status_of_pipeline:
  "fst (jkq_main message validate (\<lambda>cf. run_with_writer render cf (Inr sc) (Inr inputs) report (\<lambda>kis. pipeline_result ct sig)) (Inr cf))
     = (if cf_check cf then (case validate cf of Inl m \<Rightarrow> 2 | Inr _ \<Rightarrow> 0)
        else if sc_received sc \<noteq> signal_startup then 128 + int (sc_received sc)
        else pipeline_status ct sig)"
proof (cases "cf_check cf")
  case True
  then show ?thesis by (simp add: jkq_main_def split: sum.split)
next
  case False
  show ?thesis
  proof (cases "ct_first ct")
    case None
    with False show ?thesis
      by (simp add: jkq_main_def run_with_writer_def consume_def try_begin_processing_def pipeline_result_def
          pipeline_status_def is_broken_pipe_def interrupted_code)
  next
    case (Some f)
    with False show ?thesis
      by (cases f)
        (simp_all add: jkq_main_def run_with_writer_def consume_def try_begin_processing_def pipeline_result_def
          pipeline_status_def is_broken_pipe_def exit_code_def into_error_def app_error_of_def split: io_kind.split)
  qed
qed









end
