(* ===== verification/End_To_End.thy ===== *)
theory End_To_End
  imports Run_Facts Startup App
begin

text \<open>
  The whole program: from the command line over the preparation of the inputs and every interleaving of the
  pipeline's threads to the exit status (\<open>src/main.rs\<close>, \<open>src/app.rs\<close>), and what the status says of the output.
\<close>

section \<open>The ranges of the inputs\<close>

text \<open>Without sharding every resolved range is the range of its partition in one of the inputs, and no other partition is assigned.\<close>

lemma prepared_ranges_read:
  assumes prep: "prepare ko ka kc cf = Inr inputs" and ranges: "prepare_ranges kc cf = Inr ranges"
    and distinct: "distinct (map pr_partition ranges)" and plain: "\<not> cf_range_sharding cf"
  shows "\<forall>k < length inputs. ki_exit_at_end (inputs ! k) = cf_exit_at_end cf \<and>
      set (assigned_partitions (inputs ! k)) \<subseteq> set (map pr_partition ranges)"
    and "\<forall>r \<in> set ranges. \<exists>k < length inputs.
      bt_get (ki_partitions (inputs ! k)) (pr_partition r) = Some \<lparr>ps_range = r, ps_done = initially_done r\<rparr>"
proof -
  from prep ranges obtain ks as where
    as: "consumer_assignments ranges (cf_consumers cf) (cf_range_sharding cf) (max_inflight_per_partition (cf_limits cf)) = Inr as"
    and n: "length inputs = length as" and each: "\<And>i. i < length as \<Longrightarrow> assign ko ka kc cf (ks ! i) (as ! i) = Inr (inputs ! i)"
    using prepare_assigns by blast
  have "mset (concat (map ca_ranges as)) = mset ranges" using dealt_ranges as plain by simp
  from mset_eq_setD [OF this] have all: "set ranges = (\<Union>a \<in> set as. set (ca_ranges a))" by simp
  have dist: "distinct (map pr_partition (ca_ranges (as ! k)))" if "k < length as" for k
    using assignments_distinct [OF as distinct] that by simp
  have made: "ki_exit_at_end (inputs ! k) = cf_exit_at_end cf \<and> ki_partitions (inputs ! k) = partition_states (ca_ranges (as ! k))"
    if "k < length as" for k
    using assign_result [OF each [OF that]] by (auto simp: input_new_def Let_def)
  show "\<forall>k < length inputs. ki_exit_at_end (inputs ! k) = cf_exit_at_end cf \<and>
      set (assigned_partitions (inputs ! k)) \<subseteq> set (map pr_partition ranges)"
  proof (intro allI impI conjI)
    fix k assume "k < length inputs"
    then have k: "k < length as" by (simp add: n)
    show "ki_exit_at_end (inputs ! k) = cf_exit_at_end cf" using made [OF k] by simp
    have "set (ca_ranges (as ! k)) \<subseteq> set ranges" using all k by force
    then show "set (assigned_partitions (inputs ! k)) \<subseteq> set (map pr_partition ranges)"
      using assigned_new(2) [OF each [OF k] dist [OF k]] by auto
  qed
  show "\<forall>r \<in> set ranges. \<exists>k < length inputs.
      bt_get (ki_partitions (inputs ! k)) (pr_partition r) = Some \<lparr>ps_range = r, ps_done = initially_done r\<rparr>"
  proof
    fix r assume "r \<in> set ranges"
    then obtain k where k: "k < length as" "r \<in> set (ca_ranges (as ! k))"
      unfolding all by (metis UN_E in_set_conv_nth)
    with made [OF k(1)] partition_states_get [OF dist [OF k(1)], of "pr_partition r"] n
    show "\<exists>k < length inputs. bt_get (ki_partitions (inputs ! k)) (pr_partition r) = Some \<lparr>ps_range = r, ps_done = initially_done r\<rparr>"
      by auto
  qed
qed

section \<open>The exit status\<close>

lemma status_zero:
  assumes status: "fst (jkq_main message validate (\<lambda>cf. run_with_writer render cf (Inr signal_new) (prepared cf) report
      (\<lambda>inputs. pipeline_result ct sig)) (Inr cf)) = 0" and "prepared cf = Inr inputs"
    and "\<not> cf_check cf" "\<forall>m. ct_first ct \<noteq> Some (OutputFailure BrokenPipe m)"
  shows "ct_first ct = None \<and> sig = 0"
proof -
  have "jkq_main message validate (\<lambda>cf. run_with_writer render cf (Inr signal_new) (prepared cf) report (\<lambda>inputs. pipeline_result ct sig)) (Inr cf) =
      jkq_main message validate (\<lambda>cf. run_with_writer render cf (Inr signal_new) (Inr inputs) report (\<lambda>inputs. pipeline_result ct sig)) (Inr cf)"
    by (simp add: jkq_main_def assms(2))
  then have "pipeline_status ct sig = 0"
    using status assms(3) status_of_pipeline [of message validate render signal_new inputs report ct sig cf] by (simp add: signal_new_def)
  then show ?thesis
    using assms(4) by (auto simp: pipeline_status_def split: option.splits recorded_failure.splits io_kind.splits if_splits)
qed

text \<open>
  C1. Exit status 0 means that the job is done. A run from a command line \<open>raw\<close>, without a limit on the number of records and
  without sharding, on a cluster and a client that keep Kafka's guarantees, over every interleaving: when
  all threads have ended, the status is 0 and the reader has not closed the pipe, then the output is what it held
  before followed by one text per written record, only partitions of the resolved ranges are written, and
  for every resolved range exactly the messages that the one consumer it is assigned to receives for it, up to the one that
  ends it, are written, each with its determined outcome, numbered in queue order; and in this order, unless
  evaluators complete them without order.
\<close>

theorem exit_zero_means_delivered:
  assumes cli: "resolve (en_engine e) read raw = Inr (en_config e)" "end_in_range (cf_end (en_config e))"
    and cluster: "cluster_law kc" "prepare (en_kafka e) ka kc (en_config e) = Inr (en_inputs e)"
    and client: "client_law (en_kafka e) incoming" and engine: "ignores_capacity (en_engine e)"
    and sink: "sink (en_sink e) contents"
    and mode: "\<not> cf_range_sharding (en_config e)" "unlimited_run e" "\<not> cf_check (en_config e)"
    and run: "(run_step e)\<^sup>*\<^sup>* (pipeline_start e w shutdown) s" and fin: "finished s"
    and signal: "ct_shutdown (sy_control s) \<and> ct_first (sy_control s) = None \<longrightarrow> sig \<noteq> 0"
    and status: "fst (jkq_main message validate (\<lambda>cf. run_with_writer render cf (Inr signal_new) (prepare (en_kafka e) ka kc cf) report
      (\<lambda>inputs. run_result sig s)) (resolve (en_engine e) read raw)) = 0"
    and pipe: "\<forall>m. ct_first (sy_control s) \<noteq> Some (OutputFailure BrokenPipe m)"
  shows "\<exists>ranges written. prepare_ranges kc (en_config e) = Inr ranges \<and>
    contents (ws_sink (wr_state (sy_writer s))) = contents w @ texts (en_json e) (en_config e) written \<and>
    (\<forall>c \<in> set written. \<not> is_fatal c \<and> c_partition c \<in> set (map pr_partition ranges)) \<and>
    (\<forall>r \<in> set ranges. \<exists>k < length (en_inputs e).
      bt_get (ki_partitions (en_inputs e ! k)) (pr_partition r) = Some \<lparr>ps_range = r, ps_done = initially_done r\<rparr> \<and>
      (\<forall>j < length (en_inputs e). pr_partition r \<in> set (assigned_partitions (en_inputs e ! j)) \<longrightarrow> j = k) \<and>
      list_all2 (became (en_engine e) (evaluator_panics (en_config e) (en_panics e)) (en_config e) (ki_requirements (en_inputs e ! k)) k)
        (in_time (cf_exit_at_end (en_config e)) \<lparr>ps_range = r, ps_done = initially_done r\<rparr>
          (backlog incoming (ki_consumer (en_inputs e ! k))))
        (sort_key c_sequence (of_partition (pr_partition r) written)) \<and>
      (\<not> cf_unordered (en_config e) \<or> \<not> tp_parses_json (cf_transform (en_config e)) \<longrightarrow>
        sort_key c_sequence (of_partition (pr_partition r) written) = of_partition (pr_partition r) written))"
proof -
  let ?cf = "en_config e"
  have valid: "config_valid ?cf" using cli(1) by (rule resolve_config_valid)
  then have cap: "0 < record_capacity e" and limit: "0 < max_inflight_per_partition (cf_limits ?cf)"
    by (auto simp: config_valid_def limits_valid_def record_capacity_def)
  obtain ranges where ranges: "prepare_ranges kc ?cf = Inr ranges" using cluster(2) by (auto simp: prepare_def bind_r_Inr_iff)
  note fit = prepared_ranges_fit [OF cluster(1) valid cli(2) ranges]
  note read = prepared_ranges_read [OF cluster(2) ranges fit(1) mode(1)]
  have fresh: "fresh_inputs (en_inputs e)"
    using prepared_fresh [OF cluster(2) ranges fit(1) mode(1)] inputs_reading [OF cluster(2) ranges fit(1) limit fit(2)] by blast
  then have unread: "unread_inputs (en_inputs e)" and apart: "disjoint_inputs (en_inputs e)" by (simp_all add: fresh_inputs_def)
  have quiet: "ct_first (sy_control s) = None" "sig = 0"
    using status_zero [OF status [unfolded cli(1) run_result_def] cluster(2) mode(3) pipe] by simp_all
  then have ok: "run_result sig s = Inr None" and calm: "\<not> ct_shutdown (sy_control s)"
    using signal by (auto simp: run_result_def pipeline_result_def)
  from run_complete [OF client unread mode(2) engine lawful_fresh [OF sink fresh] cap run fin ok calm] obtain written where
    out: "contents (ws_sink (wr_state (sy_writer s))) = contents w @ texts (en_json e) ?cf written" and
    only: "\<forall>c \<in> set written. \<not> is_fatal c \<and> c_consumer c < length (en_inputs e) \<and>
      c_partition c \<in> set (assigned_partitions (en_inputs e ! c_consumer c))" and
    each: "\<forall>k < length (en_inputs e). \<forall>q part. bt_get (ki_partitions (en_inputs e ! k)) q = Some part \<longrightarrow>
      length (records_of k q written) = next_sequence_of (pl_admission (pt_poller (sy_pollers s ! k))) q \<and>
      list_all2 (became (en_engine e) (evaluator_panics ?cf (en_panics e)) ?cf (ki_requirements (en_inputs e ! k)) k)
        (take (length (records_of k q written)) (filter (due part) (backlog incoming (ki_consumer (en_inputs e ! k)))))
        (sort_key c_sequence (records_of k q written)) \<and>
      (\<not> cf_unordered ?cf \<or> \<not> tp_parses_json (cf_transform ?cf) \<longrightarrow>
        sort_key c_sequence (records_of k q written) = records_of k q written)" and
    whole: "\<forall>k < length (en_inputs e). \<forall>q part. bt_get (ki_partitions (en_inputs e ! k)) q = Some part \<and> \<not> ps_done part \<longrightarrow>
      list_all2 (became (en_engine e) (evaluator_panics ?cf (en_panics e)) ?cf (ki_requirements (en_inputs e ! k)) k)
        (in_time (ki_exit_at_end (en_inputs e ! k)) part (backlog incoming (ki_consumer (en_inputs e ! k))))
        (sort_key c_sequence (records_of k q written))" .
  show ?thesis
  proof (intro exI [of _ ranges] exI [of _ written] conjI ranges out ballI)
    fix c assume "c \<in> set written"
    with only read(1) show "\<not> is_fatal c" "c_partition c \<in> set (map pr_partition ranges)" by blast+
  next
    fix r assume "r \<in> set ranges"
    with read(2) obtain k where k: "k < length (en_inputs e)"
      "bt_get (ki_partitions (en_inputs e ! k)) (pr_partition r) = Some \<lparr>ps_range = r, ps_done = initially_done r\<rparr>" by blast
    have q: "pr_partition r \<in> set (assigned_partitions (en_inputs e ! k))"
      using k(2) by (simp add: assigned_partitions_def bt_keys_iff)
    let ?part = "\<lparr>ps_range = r, ps_done = initially_done r\<rparr>" and ?log = "backlog incoming (ki_consumer (en_inputs e ! k))"
      and ?recs = "records_of k (pr_partition r) written"
    have own: "of_partition (pr_partition r) written = ?recs"
      using only k by (intro records_own [OF apart k(1)]) (auto simp: assigned_partitions_def bt_keys_iff)
    have "list_all2 (became (en_engine e) (evaluator_panics ?cf (en_panics e)) ?cf (ki_requirements (en_inputs e ! k)) k)
        (in_time (cf_exit_at_end ?cf) ?part ?log) (sort_key c_sequence ?recs)"
    proof (cases "initially_done r")
      case True
      then have none: "filter (due ?part) xs = []" for xs by (simp add: due_def initially_done_covers filter_empty_conv)
      have "list_all2 (became (en_engine e) (evaluator_panics ?cf (en_panics e)) ?cf (ki_requirements (en_inputs e ! k)) k)
          (take (length ?recs) (filter (due ?part) ?log)) (sort_key c_sequence ?recs)" using each k by blast
      then show ?thesis by (simp add: none in_time_def)
    next
      case False
      then show ?thesis using whole [rule_format, of k "pr_partition r" ?part] k read(1) by simp
    qed
    moreover have "\<not> cf_unordered ?cf \<or> \<not> tp_parses_json (cf_transform ?cf) \<longrightarrow> sort_key c_sequence ?recs = ?recs"
      using each k by blast
    moreover have "\<forall>j < length (en_inputs e). pr_partition r \<in> set (assigned_partitions (en_inputs e ! j)) \<longrightarrow> j = k"
      using apart k(1) q unfolding disjoint_inputs_def by blast
    ultimately show "\<exists>k < length (en_inputs e).
      bt_get (ki_partitions (en_inputs e ! k)) (pr_partition r) = Some ?part \<and>
      (\<forall>j < length (en_inputs e). pr_partition r \<in> set (assigned_partitions (en_inputs e ! j)) \<longrightarrow> j = k) \<and>
      list_all2 (became (en_engine e) (evaluator_panics ?cf (en_panics e)) ?cf (ki_requirements (en_inputs e ! k)) k)
        (in_time (cf_exit_at_end ?cf) ?part (backlog incoming (ki_consumer (en_inputs e ! k))))
        (sort_key c_sequence (of_partition (pr_partition r) written)) \<and>
      (\<not> cf_unordered ?cf \<or> \<not> tp_parses_json (cf_transform ?cf) \<longrightarrow>
        sort_key c_sequence (of_partition (pr_partition r) written) = of_partition (pr_partition r) written)"
      unfolding own using k by blast
  qed
qed

text \<open>A whole job: two partitions from five before the end up to a snapshot, read by one consumer and written in order.\<close>

definition job_raw :: raw_cli where
  "job_raw = sample_raw\<lparr>rw_count := None, rw_json_envelope := False, rw_format := ''%s;'', rw_stats_interval := None,
     rw_consumers := 1, rw_range_sharding := False, rw_unordered := False\<rparr>"

definition job_config :: "string runtime_config" where
  "job_config =
     \<lparr>cf_topic = ''t'', cf_partitions = Some [1, 0], cf_start = RelativeToEnd 5, cf_end = Some Snapshot,
      cf_count_limit = None, cf_count_per_partition = None, cf_exit_at_end = True, cf_consumers = 1,
      cf_range_sharding = False, cf_unordered = False,
      cf_limits = \<lparr>max_inflight_records = 8, max_inflight_bytes = 64, max_inflight_per_partition = 8\<rparr>,
      cf_transform = sample_plan [''false''] [] None, cf_output = FormatPlan None [Payload, Literal '';''],
      cf_errors = \<lparr>ep_invalid_json = JsonFail, ep_evaluation = EvalDrop\<rparr>, cf_kafka_error = KafkaFail,
      cf_kafka_properties = [(''bootstrap.servers'', ''a:9092,b''), (''client.id'', ''x'')], cf_unbuffered = False,
      cf_stats = False, cf_stats_interval = None, cf_quiet = False, cf_check = False\<rparr>"

lemma job_resolved: "resolve sample_engine read job_raw = Inr job_config"
proof -
  have "resolve_properties read job_raw = resolve_properties read sample_raw"
    by (simp add: job_raw_def resolve_properties_def read_config_def)
  moreover have "compile_format ''%s;'' = Inr [Payload, Literal '';'']"
    by (simp add: compile_format_def compile_loop.simps placeholder_token_def flush_literal_def backslash_def)
  ultimately show ?thesis
    unfolding resolve_def sample_properties
    by (simp add: job_raw_def sample_raw_def resolve_partitions_def sample_partitions check_counts_def max_consumers_def
        sample_offsets resolve_end_def check_sharding_def resolve_plan_def read_variables_def build_plan_def
        parse_variables_def compile_expression_def resolve_output_def sample_engine_def sample_properties job_config_def
        sample_plan_def resolve_errors_def force_json_def)
qed

definition job_ranges :: "partition_range list" where
  "job_ranges = [\<lparr>pr_partition = 1, pr_start = KOffset 16, pr_end = Some 21\<rparr>, \<lparr>pr_partition = 0, pr_start = KOffset 15, pr_end = Some 20\<rparr>]"

definition job_log :: "native_message list" where
  "job_log = [plain_message 1 16 ''b'', plain_message 0 15 ''a'', plain_message 0 20 ''c'',
     (plain_message 1 21 [])\<lparr>nm_err := RespPartitionEof\<rparr>]"

definition log_admin :: "nat kafka_admin" where
  "log_admin = \<lparr>ka_create = (\<lambda>n client. Inr 0), ka_assign = (\<lambda>topic ranges k. Inr k)\<rparr>"

definition job_setting :: "(string, string list \<times> string, string, string, nat, string) setting" where
  "job_setting =
     \<lparr>en_config = job_config, en_inputs = [input_new job_config \<lparr>ca_ranges = job_ranges, ca_max_inflight = 8\<rparr> 0],
      en_stats = stats_new False, en_kafka = log_kafka\<lparr>ko_extract := (\<lambda>t n k. (Inr (take n (drop k job_log)), k + n))\<rparr>,
      en_engine = sample_engine, en_panics = (\<lambda>bs. False), en_unwound = (\<lambda>v s. (None, s)), en_json = id,
      en_sink = vec_sink, en_parallelism = 1\<rparr>"

lemma job_prepared:
  "prepare (en_kafka job_setting) log_admin demo_cluster (en_config job_setting) = Inr (en_inputs job_setting)"
proof -
  have "prepare_ranges demo_cluster job_config = Inr job_ranges"
    using demo_ranges [of job_config] by (simp add: job_config_def job_ranges_def)
  moreover have "filter (\<lambda>(p, st). ps_done st) (ki_partitions (input_new job_config \<lparr>ca_ranges = job_ranges, ca_max_inflight = 8\<rparr> k)) = []"
    for k :: nat
    by (simp add: input_new_def Let_def partition_states_def job_ranges_def bt_of_list_def bt_empty_def initially_done_def)
  ultimately show ?thesis
    by (simp add: prepare_def create_consumer_def job_setting_def log_admin_def consumer_assignments_def assign_def
        demo_cluster_def small_cluster_def) (simp add: job_config_def job_ranges_def)
qed

lemma job_law: "client_law (en_kafka job_setting) (\<lambda>k. drop k job_log)"
proof -
  have "take n xs @ drop (k + n) job_log = drop k job_log" if "xs = drop k job_log" for n k and xs
    using that append_take_drop_id [of n "drop k job_log"] by (simp add: add.commute)
  moreover have "\<forall>m \<in> set job_log. fits_memory m"
    by (simp add: job_log_def plain_message_def fits_memory_def usize_max_def)
  ultimately show ?thesis
    by (auto simp: client_law_def queue_law_def pause_law_def log_kafka_def job_setting_def dest: in_set_dropD)
qed

definition job_acts :: "act list" where
  "job_acts = [StartThread None, StartThread None, StartThread None, StartThread None, StartThread None,
     Turn 0 0 False, Turn 0 0 False, Turn 0 0 False, Send 0, Turn 0 0 False, Turn 0 0 False, Turn 0 0 False,
     TakeWork 0, SendResult 0, TakeCompletions, SendReleases, Turn 0 1 False, EndWorker 0, CloseWriter, FlushWriter]"

lemma job_run:
  "map_option (\<lambda>s. (finished s, ct_first (sy_control s), ct_shutdown (sy_control s), ws_sink (wr_state (sy_writer s))))
    (run_acts job_setting job_acts (pipeline_start job_setting [] False)) = Some (True, None, False, ''b;a;'')"
  by (simp add: job_acts_def job_setting_def job_log_def job_config_def input_new_def job_ranges_def plan_requirements_def
      format_requirements_def pass_evaluation cong: let_weak_cong)

lemma job_status:
  assumes "ct_first (sy_control s) = None"
  shows "fst (jkq_main message validate (\<lambda>cf. run_with_writer render cf (Inr signal_new)
      (prepare (en_kafka job_setting) log_admin demo_cluster cf) report (\<lambda>inputs. run_result 0 s))
      (resolve (en_engine job_setting) read job_raw)) = 0"
proof -
  have "resolve (en_engine job_setting) read job_raw = Inr job_config"
    using job_resolved by (simp add: job_setting_def)
  moreover have "prepare (en_kafka job_setting) log_admin demo_cluster job_config = Inr (en_inputs job_setting)"
    using job_prepared by (simp add: job_setting_def)
  ultimately show ?thesis
    using assms by (simp add: jkq_main_def run_with_writer_def consume_def signal_new_def try_begin_processing_def
        run_result_def pipeline_result_def job_config_def)
qed

theorem exit_zero_means_delivered_witness:
  "\<exists>written. ''b;a;'' = texts id job_config written \<and> (\<forall>c \<in> set written. c_partition c \<in> {0, 1}) \<and>
     (\<forall>r \<in> set job_ranges. list_all2 (became sample_engine (\<lambda>bs. False) job_config (plan_requirements (cf_output job_config)) 0)
        (in_time True \<lparr>ps_range = r, ps_done = initially_done r\<rparr> job_log) (of_partition (pr_partition r) written))"
proof -
  obtain s where s: "run_acts job_setting job_acts (pipeline_start job_setting [] False) = Some s" "finished s"
    "ct_first (sy_control s) = None" "\<not> ct_shutdown (sy_control s)" "ws_sink (wr_state (sy_writer s)) = ''b;a;''"
    using job_run by auto
  have cli: "resolve (en_engine job_setting) (\<lambda>path. Inl []) job_raw = Inr (en_config job_setting)"
    using job_resolved by (simp add: job_setting_def)
  have mode: "end_in_range (cf_end (en_config job_setting))" "\<not> cf_range_sharding (en_config job_setting)" "unlimited_run job_setting"
    "\<not> cf_check (en_config job_setting)"
    by (simp_all add: end_in_range_def unlimited_run_def job_setting_def job_config_def sample_plan_def)
  have parts: "ignores_capacity (en_engine job_setting)" "sink (en_sink job_setting) (\<lambda>bs. bs)"
    using sample_engine_law vs.sink_axioms by (simp_all add: job_setting_def)
  have quiet: "ct_shutdown (sy_control s) \<and> ct_first (sy_control s) = None \<longrightarrow> (0 :: nat) \<noteq> 0"
    "\<forall>m. ct_first (sy_control s) \<noteq> Some (OutputFailure BrokenPipe m)" using s(3,4) by simp_all
  have ranges: "prepare_ranges demo_cluster job_config = Inr job_ranges"
    using demo_ranges [of job_config] by (simp add: job_config_def job_ranges_def)
  have flags: "cf_exit_at_end job_config" "\<not> cf_unordered job_config" by (simp_all add: job_config_def)
  have "set (map pr_partition job_ranges) = {0, 1}" by (auto simp: job_ranges_def)
  with exit_zero_means_delivered [OF cli mode(1) demo_cluster_law job_prepared job_law parts mode(2-4)
      run_acts_reach [OF s(1)] s(2) quiet(1) job_status [OF s(3)] quiet(2)] s(5) ranges
  obtain written where "''b;a;'' = texts id job_config written" "\<forall>c \<in> set written. c_partition c \<in> {0, 1}"
    and each: "\<forall>r \<in> set job_ranges. list_all2 (became sample_engine (\<lambda>bs. False) job_config (plan_requirements (cf_output job_config)) 0)
      (in_time True \<lparr>ps_range = r, ps_done = initially_done r\<rparr> job_log) (sort_key c_sequence (of_partition (pr_partition r) written)) \<and>
      sort_key c_sequence (of_partition (pr_partition r) written) = of_partition (pr_partition r) written"
    by (simp add: job_setting_def input_new_def Let_def flags) metis
  moreover from each have "\<forall>r \<in> set job_ranges.
      list_all2 (became sample_engine (\<lambda>bs. False) job_config (plan_requirements (cf_output job_config)) 0)
        (in_time True \<lparr>ps_range = r, ps_done = initially_done r\<rparr> job_log) (of_partition (pr_partition r) written)" by metis
  ultimately show ?thesis by blast
qed

end
