(* ===== verification/Spec2Isabelle.thy ===== *)
theory Spec2Isabelle
  imports Admission Shared_Admission Poller_Stops Fetch_Handles Writer_Reference End_To_End
begin

text \<open>
  jkq reads records from directly assigned Kafka partitions, filters and transforms each JSON payload with
  JSONata expressions, and writes the survivors to standard output. This development models the program from
  its command line to its exit status and proves that what it writes is what it was asked for.

  \<^bold>\<open>The program.\<close> \<open>main\<close> resolves the command line (\<open>src/cli.rs\<close>) and runs the application (\<open>src/app.rs\<close>). The
  preparation (\<open>src/kafka.rs\<close>) asks the cluster for watermarks and timestamps, resolves one range per partition and
  deals the ranges, or shards of them, out to consumers. \<open>run_pipeline\<close> (\<open>src/runtime.rs\<close>) starts a poller per
  consumer, evaluators, and the writer, connected by bounded channels. A poller admits records against a budget of
  its own and one shared by all pollers (\<open>src/runtime/state.rs\<close>), numbers them per partition and sends batches;
  an evaluator turns each record into a completion (\<open>src/transform\<close>); the writer puts completions back into
  source order, formats them (\<open>src/output.rs\<close>) and releases the budget to the poller it came from.

  \<^bold>\<open>Theories and source.\<close>
  \<^item> \<open>Prelude\<close>: results, bounded integers, owned vectors, decimal text. \<open>BTree\<close>: the ordered map, with the locale
    \<open>ordered_map\<close> that every table of the program is used through. \<open>Text_Ops\<close>: the \<open>str\<close> methods the command line uses.
  \<^item> \<open>Cli_Parse\<close>, \<open>Cli_Resolve\<close>, \<open>Config\<close>: \<open>src/cli.rs\<close>, the parsers of values, \<open>RawCli::resolve\<close>, the resolved
    configuration. \<open>App\<close>: \<open>src/app.rs\<close> and \<open>src/main.rs\<close>, exit statuses and messages.
  \<^item> \<open>Kafka_Ranges\<close>, \<open>Payload_Buffers\<close>, \<open>Kafka_Input\<close>: \<open>src/kafka.rs\<close>, ranges and assignments, the pool of payload
    vectors, the polled input of one consumer. \<open>Fetch\<close>, \<open>Fetch_Handles\<close>: \<open>src/kafka/fetch.rs\<close>, the array of extracted
    messages, and the native queues from the constructor to the destructors.
  \<^item> \<open>Admission\<close>, \<open>Shared_Admission\<close>, \<open>Orderer\<close>: \<open>src/runtime/state.rs\<close>. The shared counters are modelled twice: as calls,
    and as the atomic steps of any number of pollers, which interleave.
  \<^item> \<open>Runtime_Types\<close>, \<open>Poller\<close>, \<open>Worker\<close>, \<open>Writer\<close>, \<open>Failure\<close>, \<open>Signals\<close>, \<open>Stats\<close>, \<open>Pipeline\<close>: \<open>src/runtime.rs\<close>, its
    records, its three kinds of threads, the first-failure cell, the signal handlers as interleaved atomic steps, the
    statistics, and how the parts are wired. \<open>Run_Pipeline\<close>: \<open>run_pipeline\<close> as a transition system, with the threads, which
    may fail to start, the bounded channels, which block and are dropped, and the state they share.
  \<^item> \<open>Transform\<close>: \<open>src/transform/mod.rs\<close> and \<open>src/transform/jsonata.rs\<close>. \<open>Sink\<close>, \<open>Output_Format\<close>, \<open>Envelope\<close>, \<open>Base64\<close>:
    \<open>src/output.rs\<close>; the locale \<open>sink\<close> is what any \<open>io::Write\<close> promises.

  \<^bold>\<open>Lemma groups.\<close> \<open>Cli_Parse_Facts\<close> and \<open>Cli_Resolve_Facts\<close> compare each parser with a description of the whole
  input and show that every resolved configuration is valid; \<open>Startup\<close> takes that to the inputs the preparation makes.
  \<open>Kafka_Ranges_Facts\<close> and \<open>Kafka_Input_Facts\<close> show that each offset is read once and each message decided as its range
  says; \<open>Fetch\<close> and \<open>Poller_Facts\<close> that messages are admitted in queue order; \<open>Poller_Stops\<close> that a stopping poller ends.
  \<open>Format_Facts\<close>, \<open>Envelope_Facts\<close>, \<open>Transform_Facts\<close> and \<open>Writer_Facts\<close> show what a record becomes and that the output is
  exactly the due texts, whatever fails. \<open>Writer_Reference\<close> tells the same from the arrivals alone, by the keys they carry
  and without the orderer: which completions fall due, which are repeats, what is the first failure and what was
  written before it. In the same way \<open>Format_Facts\<close> reads a format by tables of its own, \<open>Cli_Resolve_Facts\<close> looks the client's
  properties up in the raw entries, \<open>Kafka_Input_Facts\<close> says option by option what a poll does, and \<open>App\<close> lists every ending of the
  process with its status and message. \<open>Pipeline\<close> composes pollers, evaluators and writer, by the multiset of the
  items they pass on, and, where nothing is evaluated, by their order.

  \<^bold>\<open>The interleaved threads.\<close> These theories are about every state \<open>Run_Pipeline\<close> can reach. \<open>Poller_Books\<close> and
  \<open>Run_Ledger\<close> keep the books of the records in flight: an invariant says where each admitted record is, and that
  the admissions count exactly these. \<open>Run_Progress\<close> shows that some thread can always go on and gives a
  measure of what is left to do, which after a shutdown request no step raises. \<open>Run_Delivers\<close> shows that the
  steps of each thread in a run without a failure are one run of that thread's own function, so the theorems about the
  functions hold of the interleaved program. \<open>Poller_Completes\<close> and \<open>Run_Completes\<close> show that a run nobody interrupts
  leaves nothing out. \<open>Run_Facts\<close> states what follows, delivery in order and in full, accounting, freedom from
  deadlock and termination, and evaluates runs from the client's log to the output bytes. \<open>End_To_End\<close> puts the command
  line, the preparation, the threads and the exit status together: status 0 means that what was asked for is written.

  \<^bold>\<open>Bounds.\<close> \<open>usize\<close> and \<open>u64\<close> have 64 bits; every checked, saturating or wrapping operation of the source is written out
  against these bounds. No definition needs fuel: loops over inputs are recursive on them, the format compiler and trimming
  recurse on a remainder that gets shorter, and threads are functions of a finite list of turns, so a property of a thread
  holds after any number of turns; that a poller ends is proved in \<open>Poller_Stops\<close>, that the pipeline does in \<open>Run_Facts\<close>.

  \<^bold>\<open>Parameters.\<close> Third-party code is a parameter, with what the program relies on as a named hypothesis: the JSONata
  engine (\<open>ignores_capacity\<close>: it only appends to its buffer), librdkafka's queue (\<open>queue_law\<close>, \<open>pause_law\<close>), the cluster
  (\<open>answers_exactly\<close>, \<open>cluster_law\<close>), the creation of each consumer's client (\<open>ka_create\<close>, by its number), the output (\<open>sink\<close>), simd_json's string escaping, and the file system. What other
  threads do to a poller's shared state is arbitrary in \<open>Poller\<close>, except that a recorded failure stays (\<open>steady\<close>); in
  \<open>Run_Pipeline\<close> it is what they do.

  \<^bold>\<open>Abstractions of the transition system.\<close> An iteration of a poller is one step, and a batch it sends is handed over
  in a step of its own, so what follows the send in the iteration comes before it; the writer's work on one batch is
  one step, before its sends. The shared counters are read and changed inside such a step; that their atomic updates
  interleave safely is shown in \<open>Shared_Admission\<close>. Each thread keeps its own share of the statistics counters,
  which are sums. Where the writer would index its releases by a consumer that does not exist, and panic, there is no
  release here; the ledger's invariant shows that no completion names such a consumer. A panic outside what \<open>guard_thread\<close> of a poller and \<open>catch_unwind\<close> of an evaluator catch is not a step.

  \<^bold>\<open>Not modelled.\<close> The argument parser clap and its attributes; the raw header
  accessors of \<open>src/kafka/fetch.rs\<close>; the timing of the statistics reporter; buffering of standard output;
  Unicode rendering of quoted texts in messages, for which errors are constructors; tests, scripts and documentation.
\<close>

end
